(* ===== verification/Noe_Prelude.thy ===== *)
theory Noe_Prelude
  imports Main "HOL-Library.Word" "HOL-Library.List_Lexorder"
begin

text \<open>
  Shared vocabulary of the development: byte strings and their order, little-endian
  integer codecs, the storage error type with its result combinators, and the ordered
  map that stands for \<^verbatim>\<open>std::collections::BTreeMap\<close>.

  \<^item> A byte string (\<^verbatim>\<open>Vec<u8>\<close>, \<^verbatim>\<open>&[u8]\<close>) is a list of 8-bit words; the order of
    \<^theory_text>\<open>List_Lexorder\<close> is the lexicographic slice order of Rust.
  \<^item> A length (\<^verbatim>\<open>usize\<close> on a 64-bit target) is a natural number. Where the source casts
    a length to a narrower integer and writes it out, \<open>nat_to_le n\<close> keeps the low
    \<open>n\<close> bytes, so the truncation of the cast is part of the model.
  \<^item> A \<^verbatim>\<open>BTreeMap\<close> is the strictly sorted association list of its entries.
\<close>

section \<open>Bytes, machine integers and fact collections\<close>

type_synonym u8 = "8 word"
type_synonym u32 = "32 word"
type_synonym u64 = "64 word"
type_synonym bytes = "u8 list"

named_theorems codec_simps \<open>rewriting through encoders and decoders\<close>
named_theorems btree_simps \<open>lookups in ordered maps after an update\<close>
named_theorems inv_intros \<open>operations preserve the invariant of their component\<close>

section \<open>Little-endian integers\<close>

text \<open>The low \<open>n\<close> bytes of a number, least significant first: \<^verbatim>\<open>(v as uN).to_le_bytes()\<close>.\<close>

primrec nat_to_le :: "nat \<Rightarrow> nat \<Rightarrow> bytes" where
  "nat_to_le 0 v = []"
| "nat_to_le (Suc n) v = word_of_nat v # nat_to_le n (v div 256)"

text \<open>The number a little-endian byte string stands for: \<^verbatim>\<open>uN::from_le_bytes\<close>.\<close>

primrec nat_of_le :: "bytes \<Rightarrow> nat" where
  "nat_of_le [] = 0"
| "nat_of_le (b # bs) = unat b + 256 * nat_of_le bs"

lemma length_nat_to_le [simp, codec_simps]: "length (nat_to_le n v) = n"
  by (induction n arbitrary: v) auto

lemma unat_byte [simp]: "unat (word_of_nat v :: u8) = v mod 256"
  by (simp add: unat_of_nat)

lemma nat_of_le_to_le_mod: "nat_of_le (nat_to_le n v) = v mod 256 ^ n"
proof (induction n arbitrary: v)
  case 0
  then show ?case by simp
next
  case (Suc n)
  then show ?case by (simp add: mod_mult2_eq)
qed

lemma nat_of_le_to_le [simp, codec_simps]: "v < 256 ^ n \<Longrightarrow> nat_of_le (nat_to_le n v) = v"
  by (simp add: nat_of_le_to_le_mod)

lemma nat_of_le_bound: "nat_of_le bs < 256 ^ length bs"
proof (induction bs)
  case Nil
  then show ?case by simp
next
  case (Cons b bs)
  have "unat b < 256" using unsigned_less [of b] by simp
  moreover have "nat_of_le bs + 1 \<le> 256 ^ length bs" using Cons by simp
  then have "256 * (nat_of_le bs + 1) \<le> 256 * 256 ^ length bs" by (rule mult_le_mono2)
  ultimately show ?case by simp
qed

lemma nat_to_le_of_le: "length bs = n \<Longrightarrow> nat_to_le n (nat_of_le bs) = bs"
proof (induction bs arbitrary: n)
  case Nil
  then show ?case by simp
next
  case (Cons b bs)
  have b: "unat b < 256" using unsigned_less [of b] by simp
  then have "unat (word_of_nat (unat b + 256 * nat_of_le bs) :: u8) = unat b"
    by (simp only: unat_byte) simp
  then have "word_of_nat (unat b + 256 * nat_of_le bs) = b"
    by (simp only: word_unat_eq_iff)
  with b Cons show ?case
    by (cases n) (auto simp del: of_nat_add of_nat_mult)
qed

lemma nat_of_le_inj: "length xs = length ys \<Longrightarrow> nat_of_le xs = nat_of_le ys \<Longrightarrow> xs = ys"
  by (metis nat_to_le_of_le)

text \<open>The widths the formats use, as numerals, so that the simplifier discharges them.\<close>

lemma le_width_numerals [simp]:
  "(256::nat) ^ 2 = 65536" "(256::nat) ^ 4 = 4294967296" "(256::nat) ^ 8 = 18446744073709551616"
  by simp_all

definition u64_to_le :: "u64 \<Rightarrow> bytes" where
  "u64_to_le w = nat_to_le 8 (unat w)"

definition u64_of_le :: "bytes \<Rightarrow> u64" where
  "u64_of_le bs = word_of_nat (nat_of_le bs)"

definition u32_to_le :: "u32 \<Rightarrow> bytes" where
  "u32_to_le w = nat_to_le 4 (unat w)"

definition u32_of_le :: "bytes \<Rightarrow> u32" where
  "u32_of_le bs = word_of_nat (nat_of_le bs)"

lemma length_u64_to_le [simp, codec_simps]: "length (u64_to_le w) = 8"
  by (simp add: u64_to_le_def)

lemma length_u32_to_le [simp, codec_simps]: "length (u32_to_le w) = 4"
  by (simp add: u32_to_le_def)

lemma unat_u32_less: "unat (w :: u32) < 256 ^ 4"
  using unsigned_less [of w, where 'a = nat] by simp

lemma unat_u64_less: "unat (w :: u64) < 256 ^ 8"
  using unsigned_less [of w, where 'a = nat] by simp

lemma nat_of_le_u32 [simp, codec_simps]: "nat_of_le (u32_to_le w) = unat w"
  unfolding u32_to_le_def by (rule nat_of_le_to_le [OF unat_u32_less])

lemma nat_of_le_u64 [simp, codec_simps]: "nat_of_le (u64_to_le w) = unat w"
  unfolding u64_to_le_def by (rule nat_of_le_to_le [OF unat_u64_less])

lemma u64_of_to_le [simp, codec_simps]: "u64_of_le (u64_to_le w) = w"
  by (simp add: u64_of_le_def)

lemma u32_of_to_le [simp, codec_simps]: "u32_of_le (u32_to_le w) = w"
  by (simp add: u32_of_le_def)

section \<open>Errors and results\<close>

text \<open>
  \<^verbatim>\<open>StorageError\<close> of \<^verbatim>\<open>crates/noedb-storage/src/error.rs\<close>, with its constructors. A fallible
  operation returns \<open>storage_error + 'a\<close>; where the code can also panic (an unchecked
  \<^verbatim>\<open>BTreeMap::range\<close>), the result is \<open>fault + 'a\<close>.
\<close>

datatype storage_error =
    InvalidInput string
  | Io string
  | CorruptWal string
  | ChecksumMismatch
  | CorruptSstable string
  | ResourceExhausted string

datatype fault = Err storage_error | Panic

definition lift_err :: "storage_error + 'a \<Rightarrow> fault + 'a" where
  "lift_err r = (case r of Inl e \<Rightarrow> Inl (Err e) | Inr x \<Rightarrow> Inr x)"

text \<open>The \<^verbatim>\<open>?\<close> operator: stop at the first error.\<close>

definition try_bind :: "'e + 'a \<Rightarrow> ('a \<Rightarrow> 'e + 'b) \<Rightarrow> 'e + 'b" where
  "try_bind r f = (case r of Inl e \<Rightarrow> Inl e | Inr x \<Rightarrow> f x)"

lemma try_bind_simps [simp]:
  "try_bind (Inl e) f = Inl e"
  "try_bind (Inr x) f = f x"
  by (simp_all add: try_bind_def)

lemma try_bind_Inr: "try_bind r f = Inr y \<longleftrightarrow> (\<exists>x. r = Inr x \<and> f x = Inr y)"
  by (cases r) auto

lemma try_bind_Inl: "try_bind r f = Inl e \<longleftrightarrow> r = Inl e \<or> (\<exists>x. r = Inr x \<and> f x = Inl e)"
  by (cases r) auto

lemma lift_err_simps [simp]:
  "lift_err (Inl e) = Inl (Err e)"
  "lift_err (Inr x) = Inr x"
  by (simp_all add: lift_err_def)

lemma lift_err_Inr [simp]: "lift_err r = Inr x \<longleftrightarrow> r = Inr x"
  by (cases r) auto

lemma lift_err_Inl: "lift_err r = Inl f \<longleftrightarrow> (\<exists>e. f = Err e \<and> r = Inl e)"
  by (cases r) auto

section \<open>Slices\<close>

text \<open>The error of \<^verbatim>\<open>read_exact\<close> at the end of a file.\<close>

definition io_short :: storage_error where
  "io_short = Io ''failed to fill whole buffer''"

text \<open>\<^verbatim>\<open>data.get(off..off + n)\<close>: the slice, or nothing when it passes the end.\<close>

definition get_slice :: "'a list \<Rightarrow> nat \<Rightarrow> nat \<Rightarrow> 'a list option" where
  "get_slice xs off n = (if off + n \<le> length xs then Some (take n (drop off xs)) else None)"

definition starts_with :: "'a list \<Rightarrow> 'a list \<Rightarrow> bool" where
  "starts_with xs p = (take (length p) xs = p)"

lemma get_slice_append [simp, codec_simps]:
  "get_slice (xs @ ys @ zs) (length xs) (length ys) = Some ys"
  by (simp add: get_slice_def)

lemma get_slice_Some_length: "get_slice xs off n = Some ys \<Longrightarrow> length ys = n"
  by (auto simp: get_slice_def split: if_splits)

lemma starts_with_append [simp]: "starts_with (p @ xs) p"
  by (simp add: starts_with_def)

lemma starts_with_iff: "starts_with xs p \<longleftrightarrow> (\<exists>ys. xs = p @ ys)"
  by (metis append_eq_conv_conj append_take_drop_id starts_with_def)

lemma map_filter_mem: "x \<in> set (List.map_filter f xs) \<longleftrightarrow> (\<exists>y \<in> set xs. f y = Some x)"
  by (induction xs) (auto split: option.splits)

end
