(* ===== verification/Checksum.thy ===== *)
theory Checksum
  imports Noe_Prelude
begin

unbundle bit_operations_syntax

text \<open>
  The CRC-32 (IEEE) of \<^verbatim>\<open>crates/noedb-storage/src/checksum.rs\<close>, bit by bit on 32-bit words.
  The CRC-32C used for SSTable blocks is the external crate \<^verbatim>\<open>crc32c\<close>; the theories that
  need it take it as a parameter.

  The lemmas show that feeding a message in pieces gives the same checksum, that every step
  of the register is injective, and from it that messages of equal length that differ in
  exactly one byte have different checksums.
\<close>

section \<open>The hasher\<close>

definition POLY :: u32 where
  "POLY = 0xEDB88320"

definition crc_init :: u32 where
  "crc_init = 0xFFFFFFFF"

text \<open>One turn of the inner loop.\<close>

definition crc_bit :: "u32 \<Rightarrow> u32" where
  "crc_bit s = (let mask = - (s AND 1) in drop_bit 1 s XOR (POLY AND mask))"

definition crc_byte :: "u32 \<Rightarrow> u8 \<Rightarrow> u32" where
  "crc_byte s b = (crc_bit ^^ 8) (s XOR ucast b)"

primrec crc_update :: "u32 \<Rightarrow> bytes \<Rightarrow> u32" where
  "crc_update s [] = s"
| "crc_update s (b # bs) = crc_update (crc_byte s b) bs"

definition crc_finish :: "u32 \<Rightarrow> u32" where
  "crc_finish s = NOT s"

definition crc32 :: "bytes \<Rightarrow> u32" where
  "crc32 data = crc_finish (crc_update crc_init data)"

text \<open>Evaluation of a checksum on concrete bytes by the simplifier.\<close>

lemma crc_byte_unfold:
  "crc_byte s b = crc_bit (crc_bit (crc_bit (crc_bit
     (crc_bit (crc_bit (crc_bit (crc_bit (s XOR ucast b))))))))"
  by (simp add: crc_byte_def eval_nat_numeral)

lemmas crc_eval = crc32_def crc_byte_unfold crc_bit_def POLY_def crc_init_def crc_finish_def Let_def

section \<open>Incremental feeding\<close>

lemma crc_update_append: "crc_update s (xs @ ys) = crc_update (crc_update s xs) ys"
  by (induction xs arbitrary: s) simp_all

section \<open>Injectivity of the register\<close>

lemma xor_right_cancel: "(x :: 'a::len word) XOR z = y XOR z \<longleftrightarrow> x = y"
  by (metis xor.assoc xor.right_neutral xor_self_eq)

lemma xor_left_cancel: "z XOR (x :: 'a::len word) = z XOR y \<longleftrightarrow> x = y"
  by (metis xor.commute xor_right_cancel)

lemma ucast_u32_inj: "ucast (b :: u8) = (ucast b' :: u32) \<Longrightarrow> b = b'"
proof (rule bit_word_eqI)
  fix n assume eq: "ucast b = (ucast b' :: u32)" and "n < LENGTH(8)"
  from eq have "bit (ucast b :: u32) n = bit (ucast b' :: u32) n" by simp
  with \<open>n < LENGTH(8)\<close> show "bit b n = bit b' n" by (simp add: bit_simps)
qed

lemma crc_bit_alt: "crc_bit s = drop_bit 1 s XOR (if bit s 0 then POLY else 0)"
proof (cases "bit s 0")
  case True
  then have "s AND 1 = 1" by (simp add: and_one_eq bit_0 odd_iff_mod_2_eq_one)
  with True show ?thesis by (simp add: crc_bit_def)
next
  case False
  then have "s AND 1 = 0" by (simp add: and_one_eq bit_0 even_iff_mod_2_eq_zero)
  with False show ?thesis by (simp add: crc_bit_def)
qed

lemma crc_bit_top: "bit (crc_bit s) 31 = bit s 0"
proof -
  have "\<not> bit s 32" using impossible_bit [of 32 s] by auto
  then show ?thesis by (simp add: crc_bit_alt bit_simps POLY_def)
qed

lemma crc_bit_inj: "inj crc_bit"
proof (rule injI)
  fix x y assume eq: "crc_bit x = crc_bit y"
  then have low: "bit x 0 = bit y 0" by (metis crc_bit_top)
  with eq have "drop_bit 1 x = drop_bit 1 y" by (auto simp: crc_bit_alt xor_right_cancel split: if_splits)
  then have rest: "bit x (Suc n) = bit y (Suc n)" for n
    by (metis bit_drop_bit_eq comp_def plus_1_eq_Suc)
  show "x = y"
  proof (rule bit_eqI)
    fix n show "bit x n = bit y n" using low rest by (cases n) auto
  qed
qed

lemma crc_byte_inj_state: "crc_byte s b = crc_byte s' b \<Longrightarrow> s = s'"
proof -
  assume eq: "crc_byte s b = crc_byte s' b"
  have "inj (crc_bit ^^ 8)" using crc_bit_inj by (rule inj_fn)
  with eq have "s XOR ucast b = s' XOR ucast b" by (auto simp: crc_byte_def dest: injD)
  then show ?thesis by (simp only: xor_right_cancel)
qed

lemma crc_byte_inj_byte: "crc_byte s b = crc_byte s b' \<Longrightarrow> b = b'"
proof -
  assume eq: "crc_byte s b = crc_byte s b'"
  have "inj (crc_bit ^^ 8)" using crc_bit_inj by (rule inj_fn)
  with eq have "s XOR ucast b = s XOR ucast b'" by (auto simp: crc_byte_def dest: injD)
  then have "ucast b = (ucast b' :: u32)" by (simp only: xor_left_cancel)
  then show ?thesis by (rule ucast_u32_inj)
qed

lemma crc_update_inj_state: "crc_update s bs = crc_update s' bs \<Longrightarrow> s = s'"
  by (induction bs arbitrary: s s') (auto dest: crc_byte_inj_state)

lemma crc32_one_byte: "b \<noteq> b' \<Longrightarrow> crc32 (xs @ b # ys) \<noteq> crc32 (xs @ b' # ys)"
  by (auto simp: crc32_def crc_finish_def crc_update_append
      dest: crc_update_inj_state crc_byte_inj_byte)

end
