(* ===== verification/Btree.thy ===== *)
theory Btree
  imports Noe_Prelude
begin

text \<open>
  The ordered map \<^verbatim>\<open>std::collections::BTreeMap\<close> as the list of its entries in strictly
  ascending key order, with the operations the sources call: \<^verbatim>\<open>get\<close>, \<^verbatim>\<open>insert\<close>, \<^verbatim>\<open>remove\<close>,
  \<^verbatim>\<open>iter\<close> (the list itself), \<^verbatim>\<open>retain\<close> (\<open>filter\<close>) and \<^verbatim>\<open>range\<close>. The interface is the locale
  \<open>ordered_map\<close>; it is interpreted here on the association lists.
\<close>

section \<open>The interface\<close>

locale ordered_map =
  fixes empty :: "'m"
    and get :: "'m \<Rightarrow> 'k::linorder \<Rightarrow> 'v option"
    and insert :: "'k \<Rightarrow> 'v \<Rightarrow> 'm \<Rightarrow> 'm"
    and remove :: "'k \<Rightarrow> 'm \<Rightarrow> 'm"
    and entries :: "'m \<Rightarrow> ('k \<times> 'v) list"
    and invar :: "'m \<Rightarrow> bool"
  assumes invar_empty: "invar empty"
    and invar_insert: "invar m \<Longrightarrow> invar (insert k v m)"
    and invar_remove: "invar m \<Longrightarrow> invar (remove k m)"
    and get_empty: "get empty k = None"
    and get_insert: "invar m \<Longrightarrow> get (insert k v m) k' = (if k' = k then Some v else get m k')"
    and get_remove: "invar m \<Longrightarrow> get (remove k m) k' = (if k' = k then None else get m k')"
    and get_entries: "invar m \<Longrightarrow> get m k = map_of (entries m) k"
    and entries_sorted: "invar m \<Longrightarrow> sorted_wrt (<) (map fst (entries m))"
begin

text \<open>Inserting a sequence of pairs keeps, for every key, the last value written.\<close>

lemma invar_fold_insert: "invar m \<Longrightarrow> invar (fold (\<lambda>(k, v). insert k v) kvs m)"
  by (induction kvs arbitrary: m) (auto simp: invar_insert)

lemma get_fold_insert:
  "invar m \<Longrightarrow> get (fold (\<lambda>(k, v). insert k v) kvs m) k =
     (case map_of (rev kvs) k of Some v \<Rightarrow> Some v | None \<Rightarrow> get m k)"
proof (induction kvs arbitrary: m)
  case Nil
  then show ?case by simp
next
  case (Cons kv kvs)
  obtain k0 v0 where kv: "kv = (k0, v0)" by (cases kv)
  show ?case
    using Cons by (auto simp: kv invar_insert get_insert map_add_def split: option.splits)
qed

text \<open>The entries are determined by the lookups.\<close>

lemma entries_distinct: "invar m \<Longrightarrow> distinct (map fst (entries m))"
  using entries_sorted strict_sorted_iff by blast

lemma in_entries_iff: "invar m \<Longrightarrow> (k, v) \<in> set (entries m) \<longleftrightarrow> get m k = Some v"
  by (simp add: entries_distinct get_entries)

lemma keys_iff: "invar m \<Longrightarrow> k \<in> fst ` set (entries m) \<longleftrightarrow> get m k \<noteq> None"
  by (simp add: get_entries map_of_eq_None_iff)

end

section \<open>Sorted association lists\<close>

definition bt_sorted :: "('k::linorder \<times> 'v) list \<Rightarrow> bool" where
  "bt_sorted m = sorted_wrt (<) (map fst m)"

definition bt_get :: "('k::linorder \<times> 'v) list \<Rightarrow> 'k \<Rightarrow> 'v option" where
  "bt_get m k = map_of m k"

fun bt_insert :: "'k::linorder \<Rightarrow> 'v \<Rightarrow> ('k \<times> 'v) list \<Rightarrow> ('k \<times> 'v) list" where
  "bt_insert k v [] = [(k, v)]"
| "bt_insert k v ((k', v') # m) =
     (if k < k' then (k, v) # (k', v') # m
      else if k = k' then (k, v) # m
      else (k', v') # bt_insert k v m)"

definition bt_remove :: "'k::linorder \<Rightarrow> ('k \<times> 'v) list \<Rightarrow> ('k \<times> 'v) list" where
  "bt_remove k m = filter (\<lambda>(k', _). k' \<noteq> k) m"

text \<open>
  \<^verbatim>\<open>range((Included(lo), Excluded(hi)))\<close>. The standard library panics when the lower bound
  is above the upper one: \<open>None\<close>.
\<close>

definition bt_range :: "'k::linorder \<Rightarrow> 'k \<Rightarrow> ('k \<times> 'v) list \<Rightarrow> ('k \<times> 'v) list option" where
  "bt_range lo hi m = (if hi < lo then None else Some (filter (\<lambda>(k, _). lo \<le> k \<and> k < hi) m))"

definition bt_range_from :: "'k::linorder \<Rightarrow> ('k \<times> 'v) list \<Rightarrow> ('k \<times> 'v) list" where
  "bt_range_from lo m = filter (\<lambda>(k, _). lo \<le> k) m"

lemma bt_sorted_Nil [simp, inv_intros]: "bt_sorted []"
  by (simp add: bt_sorted_def)

lemma bt_sorted_Cons [simp]:
  "bt_sorted ((k, v) # m) \<longleftrightarrow> (\<forall>k' \<in> fst ` set m. k < k') \<and> bt_sorted m"
  by (simp add: bt_sorted_def)

lemma bt_sorted_distinct: "bt_sorted m \<Longrightarrow> distinct (map fst m)"
  using bt_sorted_def strict_sorted_iff by blast

lemma keys_bt_insert [simp]: "fst ` set (bt_insert k v m) = insert k (fst ` set m)"
  by (induction k v m rule: bt_insert.induct) auto

lemma bt_sorted_insert [inv_intros]: "bt_sorted m \<Longrightarrow> bt_sorted (bt_insert k v m)"
  by (induction k v m rule: bt_insert.induct) fastforce+

lemma bt_get_insert [btree_simps]:
  "bt_sorted m \<Longrightarrow> bt_get (bt_insert k v m) k' = (if k' = k then Some v else bt_get m k')"
  by (induction k v m rule: bt_insert.induct) (auto simp: bt_get_def)

lemma bt_sorted_filter [inv_intros]: "bt_sorted m \<Longrightarrow> bt_sorted (filter P m)"
  by (induction m) auto

lemma bt_sorted_remove [inv_intros]: "bt_sorted m \<Longrightarrow> bt_sorted (bt_remove k m)"
  by (simp add: bt_remove_def bt_sorted_filter)

lemma keys_bt_remove [simp]: "fst ` set (bt_remove k m) = fst ` set m - {k}"
  by (force simp: bt_remove_def)

lemma bt_get_filter:
  "bt_sorted m \<Longrightarrow> bt_get (filter P m) k =
     (case bt_get m k of None \<Rightarrow> None | Some v \<Rightarrow> if P (k, v) then Some v else None)"
proof (induction m)
  case Nil
  then show ?case by (simp add: bt_get_def)
next
  case (Cons kv m)
  obtain k0 v0 where kv: "kv = (k0, v0)" by (cases kv)
  have "map_of (filter P m) k0 = None"
    using Cons.prems by (force simp: kv map_of_eq_None_iff)
  with Cons show ?case by (auto simp: kv bt_get_def split: option.splits)
qed

lemma bt_get_remove [btree_simps]:
  "bt_sorted m \<Longrightarrow> bt_get (bt_remove k m) k' = (if k' = k then None else bt_get m k')"
  by (simp add: bt_remove_def bt_get_filter split: option.splits)

lemma bt_get_Nil [simp, btree_simps]: "bt_get [] k = None"
  by (simp add: bt_get_def)

lemma bt_get_mem: "bt_sorted m \<Longrightarrow> bt_get m k = Some v \<longleftrightarrow> (k, v) \<in> set m"
  by (simp add: bt_get_def bt_sorted_distinct)

lemma bt_get_None: "bt_get m k = None \<longleftrightarrow> k \<notin> fst ` set m"
  by (simp add: bt_get_def map_of_eq_None_iff)

lemma bt_remove_absent: "bt_get m k = None \<Longrightarrow> bt_remove k m = m"
  by (induction m) (auto simp: bt_remove_def bt_get_def split: if_splits)

interpretation bt: ordered_map
  "[]" bt_get bt_insert bt_remove "\<lambda>m. m" bt_sorted
  by unfold_locales (auto simp: inv_intros btree_simps, auto simp: bt_get_def bt_sorted_def)

section \<open>Extensionality and ranges\<close>

text \<open>Two sorted association lists with the same lookups are equal.\<close>

lemma bt_ext:
  assumes "bt_sorted m" "bt_sorted n" "\<And>k. bt_get m k = bt_get n k"
  shows "m = n"
proof -
  have set: "set m = set n"
    using assms by (auto simp: set_eq_iff simp flip: bt_get_mem)
  have "inj_on fst (set m \<union> set n)"
    using bt_sorted_distinct [OF assms(1)] by (simp add: set distinct_map)
  with assms(1,2) set show ?thesis
    by (intro map_sorted_distinct_set_unique [of fst])
      (auto simp: bt_sorted_def strict_sorted_iff)
qed

lemma bt_range_Some: "lo \<le> hi \<Longrightarrow> bt_range lo hi m = Some (filter (\<lambda>(k, _). lo \<le> k \<and> k < hi) m)"
  by (simp add: bt_range_def)

lemma bt_range_None: "bt_range lo hi m = None \<longleftrightarrow> hi < lo"
  by (simp add: bt_range_def)

lemma bt_range_sorted: "bt_sorted m \<Longrightarrow> bt_range lo hi m = Some r \<Longrightarrow> bt_sorted r"
  by (auto simp: bt_range_def bt_sorted_filter split: if_splits)

text \<open>
  On a sorted list the filter of a half-open range is the skip-then-take of the
  default method \<^verbatim>\<open>StorageEngine::range\<close>.
\<close>

lemma bt_sorted_filter_range:
  "bt_sorted m \<Longrightarrow> takeWhile (\<lambda>(k, _). k < hi) (dropWhile (\<lambda>(k, _). k < lo) m)
     = filter (\<lambda>(k, _). lo \<le> k \<and> k < hi) m"
proof (induction m)
  case Nil
  then show ?case by simp
next
  case (Cons kv m)
  obtain k v where kv: "kv = (k, v)" by (cases kv)
  have above: "\<forall>(k', _) \<in> set m. k < k'" and m: "bt_sorted m"
    using Cons.prems by (auto simp: kv)
  show ?case
  proof (cases "k < lo")
    case True
    then show ?thesis using Cons.IH m by (auto simp: kv)
  next
    case False
    have "takeWhile (\<lambda>(k, _). k < hi) m = filter (\<lambda>(k, _). lo \<le> k \<and> k < hi) m"
    proof -
      have "dropWhile (\<lambda>(k, _). k < lo) m = m"
        using above False by (cases m) auto
      then show ?thesis using Cons.IH m by simp
    qed
    moreover have "filter (\<lambda>(k, _). lo \<le> k \<and> k < hi) m = []" if "\<not> k < hi"
      using above that by (auto simp: filter_empty_conv)
    ultimately show ?thesis using False by (auto simp: kv)
  qed
qed

end
