(* ===== verification/Engine.thy ===== *)
theory Engine
  imports Btree
begin

text \<open>
  The storage engine contract of \<^verbatim>\<open>crates/noedb-storage/src/engine.rs\<close>: the trait
  \<^verbatim>\<open>StorageEngine\<close> as locales, its provided methods \<^verbatim>\<open>range\<close> and \<^verbatim>\<open>range_keys\<close>, and the
  free function \<^verbatim>\<open>prefix_end\<close> that turns a key prefix into a scan bound.

  \<open>storage_put\<close> is what every backend promises for \<^verbatim>\<open>get\<close>, \<^verbatim>\<open>put\<close> and \<^verbatim>\<open>iter\<close>;
  \<open>storage_engine\<close> adds \<^verbatim>\<open>delete\<close>. Both are interpreted on the models of the backends that
  keep the contract (theories \<open>Memtable\<close> and \<open>Durable\<close>).
\<close>

section \<open>Provided methods\<close>

text \<open>\<^verbatim>\<open>self.iter().skip_while(k < start).take_while(k < end)\<close>\<close>

definition default_range :: "bytes \<Rightarrow> bytes \<Rightarrow> (bytes \<times> bytes) list \<Rightarrow> (bytes \<times> bytes) list" where
  "default_range start stop it =
     takeWhile (\<lambda>(k, _). k < stop) (dropWhile (\<lambda>(k, _). k < start) it)"

definition default_range_keys :: "bytes \<Rightarrow> bytes \<Rightarrow> (bytes \<times> bytes) list \<Rightarrow> bytes list" where
  "default_range_keys start stop it = map fst (default_range start stop it)"

text \<open>
  The loop of \<^verbatim>\<open>prefix_end\<close> looks at the last byte: it drops it when it is 255 and
  increments it otherwise. The list is reversed so that the last byte comes first.
\<close>

fun prefix_end_rev :: "bytes \<Rightarrow> bytes" where
  "prefix_end_rev [] = []"
| "prefix_end_rev (b # bs) = (if b = 255 then prefix_end_rev bs else (b + 1) # bs)"

definition prefix_end :: "bytes \<Rightarrow> bytes" where
  "prefix_end prefix = rev (prefix_end_rev (rev prefix))"

text \<open>A sequence of puts (\<open>Some v\<close>) and deletes (\<open>None\<close>) on a backend, stopping at an error.\<close>

primrec engine_run ::
  "(bytes \<Rightarrow> bytes \<Rightarrow> 's \<Rightarrow> storage_error + 's) \<Rightarrow>
   (bytes \<Rightarrow> 's \<Rightarrow> storage_error + (bool \<times> 's)) \<Rightarrow>
   (bytes \<times> bytes option) list \<Rightarrow> 's \<Rightarrow> storage_error + 's" where
  "engine_run p d [] s = Inr s"
| "engine_run p d (op # ops) s =
     try_bind
       (case op of
          (k, Some v) \<Rightarrow> p k v s
        | (k, None) \<Rightarrow> try_bind (d k s) (\<lambda>(_, s'). Inr s'))
       (engine_run p d ops)"

section \<open>The trait as locales\<close>

locale storage_put =
  fixes invar :: "'s \<Rightarrow> bool"
    and get :: "bytes \<Rightarrow> 's \<Rightarrow> storage_error + bytes option"
    and put :: "bytes \<Rightarrow> bytes \<Rightarrow> 's \<Rightarrow> storage_error + 's"
    and iter :: "'s \<Rightarrow> (bytes \<times> bytes) list"
  assumes put_ok: "invar s \<Longrightarrow> k \<noteq> [] \<Longrightarrow> \<exists>s'. put k v s = Inr s'"
    and put_invar: "invar s \<Longrightarrow> put k v s = Inr s' \<Longrightarrow> invar s'"
    and get_put: "invar s \<Longrightarrow> put k v s = Inr s' \<Longrightarrow> k' \<noteq> [] \<Longrightarrow>
      get k' s' = (if k' = k then Inr (Some v) else get k' s)"
    and iter_sorted: "invar s \<Longrightarrow> bt_sorted (iter s)"
    and iter_get: "invar s \<Longrightarrow> k \<noteq> [] \<Longrightarrow> get k s = Inr (bt_get (iter s) k)"
begin

text \<open>Puts commute with reads: a list of puts leaves the last value of every key.\<close>

lemma put_all:
  assumes "invar s" and "\<forall>(k, v) \<in> set kvs. k \<noteq> []"
  shows "\<exists>s'. engine_run put d (map (\<lambda>(k, v). (k, Some v)) kvs) s = Inr s' \<and> invar s' \<and>
    (\<forall>k. k \<noteq> [] \<longrightarrow> get k s' = (case map_of (rev kvs) k of Some v \<Rightarrow> Inr (Some v) | None \<Rightarrow> get k s))"
  using assms
proof (induction kvs arbitrary: s)
  case Nil
  then show ?case by simp
next
  case (Cons kv kvs)
  obtain k0 v0 where kv: "kv = (k0, v0)" by (cases kv)
  obtain s1 where s1: "put k0 v0 s = Inr s1"
    using put_ok [OF Cons.prems(1), of k0 v0] Cons.prems(2) by (auto simp: kv)
  note inv1 = put_invar [OF Cons.prems(1) s1]
  obtain s' where "engine_run put d (map (\<lambda>(k, v). (k, Some v)) kvs) s1 = Inr s'"
    and "invar s'"
    and *: "\<forall>k. k \<noteq> [] \<longrightarrow>
      get k s' = (case map_of (rev kvs) k of Some v \<Rightarrow> Inr (Some v) | None \<Rightarrow> get k s1)"
    using Cons.IH [OF inv1] Cons.prems(2) by auto
  then show ?case
    using s1 get_put [OF Cons.prems(1) s1]
    by (auto simp: kv map_add_def split: option.splits)
qed

text \<open>The provided \<^verbatim>\<open>range\<close> returns exactly the live entries of the half-open interval.\<close>

lemma default_range_spec:
  "invar s \<Longrightarrow> default_range lo hi (iter s) = filter (\<lambda>(k, _). lo \<le> k \<and> k < hi) (iter s)"
  by (simp add: default_range_def bt_sorted_filter_range iter_sorted)

lemma in_default_range:
  assumes "invar s" and "k \<noteq> []"
  shows "(k, v) \<in> set (default_range lo hi (iter s)) \<longleftrightarrow>
    lo \<le> k \<and> k < hi \<and> get k s = Inr (Some v)"
  using assms by (auto simp: default_range_spec iter_get bt_get_mem iter_sorted)

end

locale storage_engine = storage_put +
  fixes delete :: "bytes \<Rightarrow> 's \<Rightarrow> storage_error + (bool \<times> 's)"
  assumes delete_ok: "invar s \<Longrightarrow> k \<noteq> [] \<Longrightarrow>
      \<exists>s'. delete k s = Inr (get k s \<noteq> Inr None, s') \<and> invar s'"
    and get_delete: "invar s \<Longrightarrow> delete k s = Inr (b, s') \<Longrightarrow> k' \<noteq> [] \<Longrightarrow>
      get k' s' = (if k' = k then Inr None else get k' s)"
begin

text \<open>Last operation wins, over puts and deletes: the law that makes log replay correct.\<close>

lemma run_ops:
  assumes "invar s" and "\<forall>k \<in> fst ` set ops. k \<noteq> []"
  shows "\<exists>s'. engine_run put delete ops s = Inr s' \<and> invar s' \<and>
    (\<forall>k. k \<noteq> [] \<longrightarrow> get k s' = (case map_of (rev ops) k of Some op \<Rightarrow> Inr op | None \<Rightarrow> get k s))"
  using assms
proof (induction ops arbitrary: s)
  case Nil
  then show ?case by simp
next
  case (Cons op ops)
  obtain k0 o0 where op: "op = (k0, o0)" by (cases op)
  have k0: "k0 \<noteq> []" using Cons.prems(2) by (simp add: op)
  obtain s1 where step: "(case op of (k, Some v) \<Rightarrow> put k v s
        | (k, None) \<Rightarrow> try_bind (delete k s) (\<lambda>(_, s'). Inr s')) = Inr s1"
    and inv1: "invar s1"
    and get1: "\<And>k. k \<noteq> [] \<Longrightarrow> get k s1 = (if k = k0 then Inr o0 else get k s)"
  proof (cases o0)
    case None
    then show ?thesis
      using that delete_ok [OF Cons.prems(1) k0] get_delete [OF Cons.prems(1), of k0]
      by (auto simp: op)
  next
    case (Some v)
    then show ?thesis
      using that put_ok [OF Cons.prems(1) k0, of v] put_invar [OF Cons.prems(1)]
        get_put [OF Cons.prems(1)]
      by (auto simp: op)
  qed
  obtain s' where "engine_run put delete ops s1 = Inr s'" "invar s'"
    and "\<forall>k. k \<noteq> [] \<longrightarrow>
      get k s' = (case map_of (rev ops) k of Some op \<Rightarrow> Inr op | None \<Rightarrow> get k s1)"
    using Cons.IH [OF inv1] Cons.prems(2) by auto
  then show ?case
    using step get1 by (auto simp: op map_add_def split: option.splits)
qed

end

section \<open>Prefix bounds\<close>

lemma bytes_le_255: "(b :: u8) \<le> 255"
proof -
  have "(255 :: u8) = - 1" by simp
  then show ?thesis by (metis word_n1_ge)
qed

lemma byte_succ: "(b :: u8) \<noteq> 255 \<Longrightarrow> unat (b + 1) = unat b + 1"
proof -
  assume "b \<noteq> 255"
  then have "unat b \<noteq> 255" by (auto simp: word_unat_eq_iff)
  moreover have "unat b \<le> 255" using bytes_le_255 [of b] by (simp add: word_le_nat_alt)
  ultimately show ?thesis by (simp add: unat_word_ariths)
qed

lemma less_byte_succ: "(b :: u8) \<noteq> 255 \<Longrightarrow> c < b + 1 \<longleftrightarrow> c \<le> b"
  by (auto simp: word_less_nat_alt word_le_nat_alt byte_succ)

text \<open>The shape of a bound: the trailing 255s are dropped and the byte before is incremented.\<close>

lemma prefix_end_shape:
  "b \<noteq> 255 \<Longrightarrow> prefix_end (q @ b # replicate m 255) = q @ [b + 1]"
proof -
  assume b: "b \<noteq> 255"
  have "prefix_end_rev (replicate m 255 @ b # rev q) = (b + 1) # rev q"
    by (induction m) (simp_all add: b)
  then show ?thesis by (simp add: prefix_end_def)
qed

lemma prefix_end_rev_255: "set xs \<subseteq> {255} \<Longrightarrow> prefix_end_rev xs = []"
  by (induction xs) auto

lemma prefix_end_all_255: "set p \<subseteq> {255} \<Longrightarrow> prefix_end p = []"
  by (simp add: prefix_end_def prefix_end_rev_255)

lemma split_trailing_255:
  "\<not> set (p :: bytes) \<subseteq> {255} \<Longrightarrow> \<exists>q b m. p = q @ b # replicate m 255 \<and> b \<noteq> 255"
proof (induction p rule: rev_induct)
  case Nil
  then show ?case by simp
next
  case (snoc c p)
  show ?case
  proof (cases "c = 255")
    case True
    with snoc obtain q b m where "p = q @ b # replicate m 255" "b \<noteq> 255" by auto
    with True have "p @ [c] = q @ b # replicate (Suc m) 255"
      by (simp add: replicate_append_same)
    with \<open>b \<noteq> 255\<close> show ?thesis by blast
  next
    case False
    then have "p @ [c] = p @ c # replicate 0 255" by simp
    with False show ?thesis by blast
  qed
qed

lemma prefix_end_nonempty: "prefix_end p \<noteq> [] \<longleftrightarrow> \<not> set p \<subseteq> {255}"
  by (metis prefix_end_all_255 prefix_end_shape split_trailing_255 append_is_Nil_conv not_Cons_self)

lemma lex_between:
  "q @ u \<le> k \<Longrightarrow> k < q @ v \<Longrightarrow> \<exists>k'. k = q @ k' \<and> u \<le> k' \<and> k' < (v :: 'a::linorder list)"
proof (induction q arbitrary: k)
  case Nil
  then show ?case by simp
next
  case (Cons x q)
  then show ?case by (cases k) auto
qed

lemma le_self_append: "(p :: 'a::linorder list) \<le> p @ r"
  by (induction p) auto

lemma all_255_le: "replicate m 255 \<le> (k :: bytes) \<Longrightarrow> \<exists>r. k = replicate m 255 @ r"
proof (induction m arbitrary: k)
  case 0
  then show ?case by simp
next
  case (Suc m)
  then obtain c k' where k: "k = c # k'" by (cases k) auto
  with Suc.prems bytes_le_255 [of c] have "c = 255" "replicate m 255 \<le> k'" by auto
  with Suc.IH k show ?case by force
qed

lemma append_less_iff: "q @ u < q @ v \<longleftrightarrow> u < (v :: 'a::linorder list)"
  by (induction q) auto

lemma append_le_iff: "q @ u \<le> q @ v \<longleftrightarrow> u \<le> (v :: 'a::linorder list)"
  by (induction q) auto

lemma starts_with_range:
  assumes "\<not> set p \<subseteq> {255}"
  shows "starts_with k p \<longleftrightarrow> p \<le> k \<and> k < prefix_end p"
proof -
  obtain q b m where p: "p = q @ b # replicate m 255" and b: "b \<noteq> 255"
    using split_trailing_255 [OF assms] by blast
  have e: "prefix_end p = q @ [b + 1]" by (simp add: p prefix_end_shape b)
  show ?thesis
  proof
    assume "starts_with k p"
    then obtain r where k: "k = p @ r" by (auto simp: starts_with_iff)
    have "b < b + 1" by (simp add: less_byte_succ b)
    then have "k < prefix_end p" by (simp add: k e append_less_iff) (simp add: p append_less_iff)
    then show "p \<le> k \<and> k < prefix_end p" by (simp add: k le_self_append)
  next
    assume "p \<le> k \<and> k < prefix_end p"
    then obtain k' where k: "k = q @ k'" and lo: "b # replicate m 255 \<le> k'" and hi: "k' < [b + 1]"
      using lex_between [of q "b # replicate m 255" k "[b + 1]"] by (auto simp: p e prefix_end_shape b)
    then obtain c k'' where k': "k' = c # k''" by (cases k') auto
    have "c \<le> b" using hi less_byte_succ [OF b, of c] by (auto simp: k')
    then have "c = b" "replicate m 255 \<le> k''" using lo by (auto simp: k')
    with all_255_le obtain r where "k'' = replicate m 255 @ r" by blast
    then have "k = p @ r" by (simp add: k k' p \<open>c = b\<close>)
    then show "starts_with k p" by simp
  qed
qed

section \<open>Properties\<close>

text \<open>
  A prefix scan is a half-open range scan: over every ordered map, the entries whose key
  starts with the prefix are exactly the entries from the prefix up to \<open>prefix_end\<close> of it,
  for every prefix that is not made of 0xff bytes only.
\<close>

theorem prefix_scan_is_range:
  assumes "\<not> set p \<subseteq> {255}" and "bt_sorted m"
  shows "bt_range p (prefix_end p) m = Some (filter (\<lambda>(k, _). starts_with k p) m) \<and>
    (\<forall>k. starts_with k p \<longleftrightarrow> p \<le> k \<and> k < prefix_end p)"
proof -
  have eq: "starts_with k p \<longleftrightarrow> p \<le> k \<and> k < prefix_end p" for k
    using starts_with_range [OF assms(1)] .
  have "p < prefix_end p" using eq [of p] by (simp add: starts_with_iff)
  with eq assms(2) show ?thesis by (simp add: bt_range_Some)
qed

theorem prefix_scan_is_range_witness:
  "bt_range [1, 255] (prefix_end [1, 255]) [([1], [0]), ([1, 255, 3], [1]), ([2], [2])] =
     Some [([1, 255, 3], [1 :: 8 word])]"
  using prefix_scan_is_range [of "[1, 255]" "[([1], [0]), ([1, 255, 3], [1]), ([2], [2 :: 8 word])]"]
  by (simp add: bt_sorted_def starts_with_def)

end
