(* ===== verification/Memtable.thy ===== *)
theory Memtable
  imports Engine
begin

text \<open>
  The in-memory write buffer of \<^verbatim>\<open>crates/noedb-storage/src/memtable.rs\<close>: an ordered map with
  a running byte count. The invariant \<open>memtable_inv\<close> says that the map is sorted, holds no
  empty key, and that the counter is the sum of the stored lengths, so that the
  subtractions of \<^verbatim>\<open>put\<close> and \<^verbatim>\<open>delete\<close> never go below zero. The table satisfies the whole
  \<open>storage_engine\<close> contract.
\<close>

section \<open>State and operations\<close>

record memtable =
  mt_map :: "(bytes \<times> bytes) list"
  mt_bytes :: nat

definition DEFAULT_MAX_MEM_BYTES :: nat where
  "DEFAULT_MAX_MEM_BYTES = 4 * 1024 * 1024"

definition memtable_new :: memtable where
  "memtable_new = \<lparr>mt_map = [], mt_bytes = 0\<rparr>"

definition memtable_len :: "memtable \<Rightarrow> nat" where
  "memtable_len t = length (mt_map t)"

definition memtable_is_empty :: "memtable \<Rightarrow> bool" where
  "memtable_is_empty t = (mt_map t = [])"

definition validate_key :: "bytes \<Rightarrow> storage_error + unit" where
  "validate_key key = (if key = [] then Inl (InvalidInput ''key must not be empty'') else Inr ())"

definition approx_bytes :: "memtable \<Rightarrow> nat" where
  "approx_bytes t = mt_bytes t"

definition entry_bytes :: "bytes \<Rightarrow> bytes \<Rightarrow> nat" where
  "entry_bytes key value = length key + length value"

definition memtable_put :: "bytes \<Rightarrow> bytes \<Rightarrow> memtable \<Rightarrow> storage_error + memtable" where
  "memtable_put key value t =
     try_bind (validate_key key) (\<lambda>_.
       let m = bt_insert key value (mt_map t) in
       case bt_get (mt_map t) key of
         Some old \<Rightarrow> Inr \<lparr>mt_map = m,
           mt_bytes = mt_bytes t - entry_bytes key old + entry_bytes key value\<rparr>
       | None \<Rightarrow> Inr \<lparr>mt_map = m, mt_bytes = mt_bytes t + entry_bytes key value\<rparr>)"

definition memtable_get :: "bytes \<Rightarrow> memtable \<Rightarrow> storage_error + bytes option" where
  "memtable_get key t = try_bind (validate_key key) (\<lambda>_. Inr (bt_get (mt_map t) key))"

definition memtable_delete :: "bytes \<Rightarrow> memtable \<Rightarrow> storage_error + (bool \<times> memtable)" where
  "memtable_delete key t =
     try_bind (validate_key key) (\<lambda>_.
       case bt_get (mt_map t) key of
         Some old \<Rightarrow> Inr (True, \<lparr>mt_map = bt_remove key (mt_map t),
           mt_bytes = mt_bytes t - entry_bytes key old\<rparr>)
       | None \<Rightarrow> Inr (False, t))"

definition memtable_iter :: "memtable \<Rightarrow> (bytes \<times> bytes) list" where
  "memtable_iter t = mt_map t"

text \<open>\<^verbatim>\<open>BTreeMap::range\<close> panics on an inverted interval, and so does \<^verbatim>\<open>MemTable::range\<close>.\<close>

definition memtable_range :: "bytes \<Rightarrow> bytes \<Rightarrow> memtable \<Rightarrow> fault + (bytes \<times> bytes) list" where
  "memtable_range start stop t =
     (case bt_range start stop (mt_map t) of None \<Rightarrow> Inl Panic | Some r \<Rightarrow> Inr r)"

section \<open>Invariant\<close>

definition stored_bytes :: "(bytes \<times> bytes) list \<Rightarrow> nat" where
  "stored_bytes m = (\<Sum>(k, v) \<leftarrow> m. entry_bytes k v)"

definition memtable_inv :: "memtable \<Rightarrow> bool" where
  "memtable_inv t \<longleftrightarrow>
     bt_sorted (mt_map t) \<and> [] \<notin> fst ` set (mt_map t) \<and> mt_bytes t = stored_bytes (mt_map t)"

lemma stored_bytes_simps [simp]:
  "stored_bytes [] = 0"
  "stored_bytes ((k, v) # m) = entry_bytes k v + stored_bytes m"
  by (simp_all add: stored_bytes_def)

lemma stored_bytes_insert:
  "bt_sorted m \<Longrightarrow> stored_bytes (bt_insert k v m) =
     (case bt_get m k of None \<Rightarrow> stored_bytes m
      | Some old \<Rightarrow> stored_bytes m - entry_bytes k old) + entry_bytes k v"
  and stored_bytes_old: "bt_sorted m \<Longrightarrow> bt_get m k = Some old \<Longrightarrow> entry_bytes k old \<le> stored_bytes m"
proof -
  show old: "bt_sorted m \<Longrightarrow> bt_get m k = Some old \<Longrightarrow> entry_bytes k old \<le> stored_bytes m"
    for m :: "(bytes \<times> bytes) list" and k old
    by (induction m) (auto simp: bt_get_def split: if_splits)
  show "bt_sorted m \<Longrightarrow> stored_bytes (bt_insert k v m) =
     (case bt_get m k of None \<Rightarrow> stored_bytes m
      | Some old \<Rightarrow> stored_bytes m - entry_bytes k old) + entry_bytes k v"
  proof (induction k v m rule: bt_insert.induct)
    case (1 k v)
    then show ?case by simp
  next
    case (2 k v k' v' m)
    have "bt_get m k = None" if "k < k' \<or> k = k'"
      using 2(2) that by (force simp: bt_get_None)
    moreover have "entry_bytes k o' \<le> stored_bytes m" if "bt_get m k = Some o'" for o'
      using 2(2) that by (auto intro: old)
    ultimately show ?case
      using 2 by (auto simp: bt_get_def split: option.splits)
  qed
qed

lemma stored_bytes_remove:
  "bt_sorted m \<Longrightarrow> bt_get m k = Some old \<Longrightarrow>
     stored_bytes (bt_remove k m) = stored_bytes m - entry_bytes k old"
proof (induction m)
  case Nil
  then show ?case by simp
next
  case (Cons kv m)
  obtain k' v' where kv: "kv = (k', v')" by (cases kv)
  show ?case
  proof (cases "k = k'")
    case True
    have "bt_get m k = None" using Cons.prems(1) True by (force simp: kv bt_get_None)
    then have "bt_remove k m = m" by (rule bt_remove_absent)
    with Cons.prems True show ?thesis by (simp add: kv bt_remove_def bt_get_def)
  next
    case False
    with Cons.prems have *: "bt_get m k = Some old" "bt_sorted m" by (auto simp: kv bt_get_def)
    with stored_bytes_old have "entry_bytes k old \<le> stored_bytes m" by blast
    with Cons.IH * False show ?thesis by (simp add: kv bt_remove_def)
  qed
qed

lemma memtable_inv_new [simp, inv_intros]: "memtable_inv memtable_new"
  by (simp add: memtable_inv_def memtable_new_def)

lemma memtable_put_eq:
  "memtable_put k v t =
     (if k = [] then Inl (InvalidInput ''key must not be empty'')
      else Inr \<lparr>mt_map = bt_insert k v (mt_map t),
        mt_bytes = (case bt_get (mt_map t) k of None \<Rightarrow> mt_bytes t
          | Some old \<Rightarrow> mt_bytes t - entry_bytes k old) + entry_bytes k v\<rparr>)"
  by (simp add: memtable_put_def validate_key_def Let_def split: option.splits)

lemma memtable_get_eq: "k \<noteq> [] \<Longrightarrow> memtable_get k t = Inr (bt_get (mt_map t) k)"
  by (simp add: memtable_get_def validate_key_def)

lemma memtable_delete_eq:
  "k \<noteq> [] \<Longrightarrow> memtable_delete k t =
     (case bt_get (mt_map t) k of None \<Rightarrow> Inr (False, t)
      | Some old \<Rightarrow> Inr (True, \<lparr>mt_map = bt_remove k (mt_map t),
          mt_bytes = mt_bytes t - entry_bytes k old\<rparr>))"
  by (simp add: memtable_delete_def validate_key_def split: option.splits)

lemma memtable_inv_put [inv_intros]:
  assumes "memtable_inv t" and "memtable_put k v t = Inr t'"
  shows "memtable_inv t'"
proof -
  from assms(2) have k: "k \<noteq> []" by (auto simp: memtable_put_eq)
  with assms(2) have "t' = \<lparr>mt_map = bt_insert k v (mt_map t),
        mt_bytes = (case bt_get (mt_map t) k of None \<Rightarrow> mt_bytes t
          | Some old \<Rightarrow> mt_bytes t - entry_bytes k old) + entry_bytes k v\<rparr>"
    by (simp add: memtable_put_eq)
  with assms(1) k show ?thesis
    by (simp add: memtable_inv_def bt_sorted_insert stored_bytes_insert split: option.splits)
qed

lemma memtable_inv_delete [inv_intros]:
  assumes "memtable_inv t" and "memtable_delete k t = Inr (b, t')"
  shows "memtable_inv t'"
proof (cases "k \<noteq> [] \<and> bt_get (mt_map t) k \<noteq> None")
  case True
  then obtain old where old: "bt_get (mt_map t) k = Some old" by auto
  with True assms(2) have "t' = \<lparr>mt_map = bt_remove k (mt_map t),
      mt_bytes = mt_bytes t - entry_bytes k old\<rparr>"
    by (simp add: memtable_delete_eq)
  with assms(1) old show ?thesis
    by (simp add: memtable_inv_def bt_sorted_remove stored_bytes_remove)
next
  case False
  with assms show ?thesis
    by (auto simp: memtable_delete_def try_bind_Inr validate_key_def split: option.splits if_splits)
qed

text \<open>The counter never underflows: the bytes of a stored entry are part of the sum.\<close>

lemma memtable_no_underflow:
  "memtable_inv t \<Longrightarrow> bt_get (mt_map t) k = Some old \<Longrightarrow> entry_bytes k old \<le> approx_bytes t"
  by (simp add: memtable_inv_def approx_bytes_def stored_bytes_old)

section \<open>The contract\<close>

lemma memtable_delete_map:
  "memtable_delete k t = Inr (b, t') \<Longrightarrow> mt_map t' = bt_remove k (mt_map t)"
  by (auto simp: memtable_delete_def try_bind_Inr bt_remove_absent split: option.splits)

interpretation mem: storage_put memtable_inv memtable_get memtable_put memtable_iter
proof unfold_locales
  fix s :: memtable and k v assume "memtable_inv s" "k \<noteq> ([] :: bytes)"
  then show "\<exists>s'. memtable_put k v s = Inr s'" by (simp add: memtable_put_eq)
next
  fix s s' :: memtable and k v k'
  assume "memtable_inv s" "memtable_put k v s = Inr s'" "k' \<noteq> ([] :: bytes)"
  then show "memtable_get k' s' = (if k' = k then Inr (Some v) else memtable_get k' s)"
    by (auto simp: memtable_put_eq memtable_get_eq memtable_inv_def bt_get_insert split: if_splits)
next
  fix s s' :: memtable and k v
  assume "memtable_inv s" "memtable_put k v s = Inr s'"
  then show "memtable_inv s'" by (rule memtable_inv_put)
qed (auto simp: memtable_iter_def memtable_inv_def memtable_get_eq)

interpretation mem: storage_engine
  memtable_inv memtable_get memtable_put memtable_iter memtable_delete
proof unfold_locales
  fix s :: memtable and k assume s: "memtable_inv s" and k: "k \<noteq> ([] :: bytes)"
  then obtain b s' where d: "memtable_delete k s = Inr (b, s')"
    and b: "b = (bt_get (mt_map s) k \<noteq> None)"
    by (cases "bt_get (mt_map s) k") (auto simp: memtable_delete_eq)
  then show "\<exists>s'. memtable_delete k s = Inr (memtable_get k s \<noteq> Inr None, s') \<and> memtable_inv s'"
    using s k by (auto simp: memtable_get_eq intro: memtable_inv_delete)
next
  fix s s' :: memtable and k b k'
  assume s: "memtable_inv s" and d: "memtable_delete k s = Inr (b, s')" and "k' \<noteq> ([] :: bytes)"
  then show "memtable_get k' s' = (if k' = k then Inr None else memtable_get k' s)"
    by (simp add: memtable_get_eq memtable_delete_map [OF d] bt_get_remove memtable_inv_def)
qed

lemma memtable_range_spec:
  "start \<le> stop \<Longrightarrow>
     memtable_range start stop t = Inr (filter (\<lambda>(k, _). start \<le> k \<and> k < stop) (memtable_iter t))"
  by (simp add: memtable_range_def bt_range_Some memtable_iter_def)

lemma memtable_range_panic: "memtable_range start stop t = Inl Panic \<longleftrightarrow> stop < start"
  by (simp add: memtable_range_def bt_range_def)

section \<open>Properties\<close>

text \<open>
  C17. The memory table implements the engine contract: any sequence of puts and deletes on
  non-empty keys succeeds from any well-formed table, keeps it well formed (keys strictly
  ascending, none empty, and the byte account equal to the bytes really stored, so that the
  subtraction in put and delete never underflows), and afterwards every key reads as the last
  operation on it.
\<close>

theorem memtable_run:
  assumes "memtable_inv t" and "\<forall>k \<in> fst ` set ops. k \<noteq> []"
  shows "\<exists>t'. engine_run memtable_put memtable_delete ops t = Inr t' \<and> memtable_inv t' \<and>
    approx_bytes t' = stored_bytes (memtable_iter t') \<and>
    (\<forall>k. k \<noteq> [] \<longrightarrow> memtable_get k t' =
      (case map_of (rev ops) k of Some op \<Rightarrow> Inr op | None \<Rightarrow> memtable_get k t))"
proof -
  obtain t' where t': "engine_run memtable_put memtable_delete ops t = Inr t'" "memtable_inv t'"
    "\<forall>k. k \<noteq> [] \<longrightarrow> memtable_get k t' =
      (case map_of (rev ops) k of Some op \<Rightarrow> Inr op | None \<Rightarrow> memtable_get k t)"
    using mem.run_ops [OF assms] by blast
  moreover have "approx_bytes t' = stored_bytes (memtable_iter t')"
    using t'(2) by (simp add: memtable_inv_def approx_bytes_def memtable_iter_def)
  ultimately show ?thesis by blast
qed

theorem memtable_run_witness:
  "\<exists>t'. engine_run memtable_put memtable_delete [([1], Some [5]), ([2], Some [6]), ([1], None)] memtable_new
      = Inr t' \<and> memtable_get [1] t' = Inr None \<and> memtable_get [2] t' = Inr (Some [6])"
  using memtable_run [of memtable_new "[([1], Some [5]), ([2], Some [6]), ([1], None)]"]
  by (auto simp del: engine_run.simps)

end
