(* ===== verification/Wal.thy ===== *)
theory Wal
  imports Checksum Memtable
begin

text \<open>
  The write-ahead log of \<^verbatim>\<open>crates/noedb-storage/src/wal/\<close>: the record codec (\<^verbatim>\<open>entry.rs\<close>), the
  log file (\<^verbatim>\<open>mod.rs\<close>), numbered segments with rotation and replay (\<^verbatim>\<open>segments.rs\<close>) and the
  batched append of \<^verbatim>\<open>fast_wal.rs\<close>.

  A log file is its bytes with the length of the prefix that has been synced. The
  directory \<^verbatim>\<open>wal/\<close> is a map from segment numbers to files, beside the number stored in the
  file \<^verbatim>\<open>CURRENT\<close>. Operating-system failures of reads and writes are not modelled; the ones
  the code itself produces on short or malformed data are.
\<close>

section \<open>Record codec\<close>

datatype op_type = Put | Delete

record log_entry =
  le_op :: op_type
  le_key :: bytes
  le_value :: bytes

definition WAL_MAGIC :: bytes where
  "WAL_MAGIC = [78, 79, 69, 87]"

definition WAL_VERSION :: nat where
  "WAL_VERSION = 1"

definition op_to_byte :: "op_type \<Rightarrow> u8" where
  "op_to_byte op = (case op of Put \<Rightarrow> 0 | Delete \<Rightarrow> 1)"

definition op_from_byte :: "u8 \<Rightarrow> storage_error + op_type" where
  "op_from_byte b =
     (if b = 0 then Inr Put else if b = 1 then Inr Delete
      else Inl (CorruptWal ''unknown OpType tag''))"

definition entry_put :: "bytes \<Rightarrow> bytes \<Rightarrow> log_entry" where
  "entry_put key value = \<lparr>le_op = Put, le_key = key, le_value = value\<rparr>"

definition entry_delete :: "bytes \<Rightarrow> log_entry" where
  "entry_delete key = \<lparr>le_op = Delete, le_key = key, le_value = []\<rparr>"

definition entry_payload :: "log_entry \<Rightarrow> bytes" where
  "entry_payload e =
     [op_to_byte (le_op e)] @ nat_to_le 4 (length (le_key e)) @ le_key e
       @ nat_to_le 4 (length (le_value e)) @ le_value e"

definition entry_encode :: "log_entry \<Rightarrow> storage_error + bytes" where
  "entry_encode e =
     (if le_key e = [] then Inl (InvalidInput ''WAL key must not be empty'')
      else if le_op e = Delete \<and> le_value e \<noteq> []
        then Inl (InvalidInput ''delete records must not carry a value'')
      else
        let payload = entry_payload e;
            checksum = crc32 payload;
            record_len = 4 + length payload
        in Inr (nat_to_le 4 record_len @ u32_to_le checksum @ payload))"

definition wal_read_u32 :: "bytes \<Rightarrow> nat \<Rightarrow> storage_error + nat" where
  "wal_read_u32 data off =
     (case get_slice data off 4 of
        None \<Rightarrow> Inl (CorruptWal ''truncated u32'')
      | Some bs \<Rightarrow> Inr (nat_of_le bs))"

definition read_len_prefixed :: "bytes \<Rightarrow> nat \<Rightarrow> storage_error + (bytes \<times> nat)" where
  "read_len_prefixed data off =
     try_bind (wal_read_u32 data off) (\<lambda>len.
       let off = off + 4 in
       if off + len > length data then Inl (CorruptWal ''truncated field'')
       else Inr (take len (drop off data), off + len))"

definition decode_payload :: "bytes \<Rightarrow> storage_error + log_entry" where
  "decode_payload payload =
     (case payload of
        [] \<Rightarrow> Inl (CorruptWal ''empty payload'')
      | b # _ \<Rightarrow>
          try_bind (op_from_byte b) (\<lambda>op.
          try_bind (read_len_prefixed payload 1) (\<lambda>(key, off).
          try_bind (read_len_prefixed payload off) (\<lambda>(value, _).
            if key = [] then Inl (CorruptWal ''empty key in WAL record'')
            else if op = Delete \<and> value \<noteq> [] then Inl (CorruptWal ''delete with non-empty value'')
            else Inr \<lparr>le_op = op, le_key = key, le_value = value\<rparr>))))"

definition entry_decode :: "bytes \<Rightarrow> storage_error + (log_entry \<times> nat)" where
  "entry_decode data =
     (if length data < 4 then Inl (CorruptWal ''truncated record length'')
      else try_bind (wal_read_u32 data 0) (\<lambda>record_len.
        if length data < 4 + record_len then Inl (CorruptWal ''truncated record body'')
        else
          let record = take record_len (drop 4 data);
              consumed = 4 + record_len
          in
            if length record < 4 then Inl (CorruptWal ''missing checksum'')
            else try_bind (wal_read_u32 record 0) (\<lambda>expected_crc.
              let payload = drop 4 record in
              if unat (crc32 payload) \<noteq> expected_crc then Inl ChecksumMismatch
              else try_bind (decode_payload payload) (\<lambda>entry. Inr (entry, consumed)))))"

text \<open>The records \<^verbatim>\<open>encode\<close> accepts, and those whose lengths fit the 32-bit fields.\<close>

definition entry_ok :: "log_entry \<Rightarrow> bool" where
  "entry_ok e \<longleftrightarrow> le_key e \<noteq> [] \<and> (le_op e = Delete \<longrightarrow> le_value e = [])"

definition entry_fits :: "log_entry \<Rightarrow> bool" where
  "entry_fits e \<longleftrightarrow> entry_ok e \<and> length (le_key e) + length (le_value e) + 13 < 2 ^ 32"

definition entry_bytes_of :: "log_entry \<Rightarrow> bytes" where
  "entry_bytes_of e =
     nat_to_le 4 (4 + length (entry_payload e)) @ u32_to_le (crc32 (entry_payload e)) @ entry_payload e"

lemma entry_put_sel [simp]:
  "le_op (entry_put k v) = Put" "le_key (entry_put k v) = k" "le_value (entry_put k v) = v"
  by (simp_all add: entry_put_def)

lemma entry_delete_sel [simp]:
  "le_op (entry_delete k) = Delete" "le_key (entry_delete k) = k" "le_value (entry_delete k) = []"
  by (simp_all add: entry_delete_def)

lemma length_entry_payload [simp]:
  "length (entry_payload e) = 9 + length (le_key e) + length (le_value e)"
  by (simp add: entry_payload_def)

lemma entry_encode_ok: "entry_ok e \<Longrightarrow> entry_encode e = Inr (entry_bytes_of e)"
  by (auto simp: entry_ok_def entry_encode_def entry_bytes_of_def Let_def)

lemma entry_encode_Inr: "entry_encode e = Inr bs \<longleftrightarrow> entry_ok e \<and> bs = entry_bytes_of e"
  by (auto simp: entry_ok_def entry_encode_def entry_bytes_of_def Let_def split: if_splits)

lemma length_entry_bytes_of: "length (entry_bytes_of e) = 17 + length (le_key e) + length (le_value e)"
  by (simp add: entry_bytes_of_def)

lemma op_byte_round_trip [simp]: "op_from_byte (op_to_byte op) = Inr op"
  by (cases op) (simp_all add: op_to_byte_def op_from_byte_def)

lemma wal_read_u32_at:
  "v < 2 ^ 32 \<Longrightarrow> wal_read_u32 (xs @ nat_to_le 4 v @ ys) (length xs) = Inr v"
  using get_slice_append [of xs "nat_to_le 4 v" ys] by (simp add: wal_read_u32_def)

lemma read_len_prefixed_at:
  assumes "length v < 2 ^ 32" "off = length xs"
  shows "read_len_prefixed (xs @ nat_to_le 4 (length v) @ v @ ys) off = Inr (v, off + 4 + length v)"
  using wal_read_u32_at [of "length v" xs "v @ ys"] assms
  by (simp add: read_len_prefixed_def)

lemma decode_payload_payload: "entry_fits e \<Longrightarrow> decode_payload (entry_payload e) = Inr e"
proof -
  assume fits: "entry_fits e"
  let ?k = "le_key e" and ?v = "le_value e" and ?b = "op_to_byte (le_op e)"
  have k: "length ?k < 2 ^ 32" and v: "length ?v < 2 ^ 32" using fits by (auto simp: entry_fits_def)
  have 1: "read_len_prefixed (entry_payload e) 1 = Inr (?k, 5 + length ?k)"
    using read_len_prefixed_at [of ?k 1 "[?b]" "nat_to_le 4 (length ?v) @ ?v"] k
    by (simp add: entry_payload_def)
  have 2: "read_len_prefixed (entry_payload e) (5 + length ?k) = Inr (?v, 9 + length ?k + length ?v)"
    using read_len_prefixed_at [of ?v "5 + length ?k" "[?b] @ nat_to_le 4 (length ?k) @ ?k" "[]"] v
    by (simp add: entry_payload_def)
  have 3: "entry_payload e = ?b # tl (entry_payload e)" by (simp add: entry_payload_def)
  show ?thesis
    using fits 1 2
    by (subst decode_payload_def, subst 3) (auto simp: entry_fits_def entry_ok_def)
qed

text \<open>What the decoder does with a frame of the right length, whatever its contents.\<close>

lemma entry_decode_frame:
  assumes "4 + length p < 2 ^ 32" and "length c = 4"
  shows "entry_decode (nat_to_le 4 (4 + length p) @ c @ p @ rest) =
    (if unat (crc32 p) \<noteq> nat_of_le c then Inl ChecksumMismatch
     else try_bind (decode_payload p) (\<lambda>e. Inr (e, 8 + length p)))"
proof -
  have 1: "wal_read_u32 (nat_to_le 4 (4 + length p) @ c @ p @ rest) 0 = Inr (4 + length p)"
    using wal_read_u32_at [OF assms(1), of "[]" "c @ p @ rest"] by simp
  have 2: "wal_read_u32 (c @ p) 0 = Inr (nat_of_le c)"
    using assms(2) by (simp add: wal_read_u32_def get_slice_def)
  have 3: "take (4 + length p) (drop 4 (nat_to_le 4 (4 + length p) @ c @ p @ rest)) = c @ p"
    using assms(2) by simp
  have 4: "drop 4 (c @ p) = p" using assms(2) by simp
  show ?thesis
    unfolding entry_decode_def Let_def 1 try_bind_simps 3 4 2
    using assms(2) by simp
qed

text \<open>A written record decodes to itself, wherever it stands in the log.\<close>

lemma entry_decode_encode:
  assumes "entry_fits e"
  shows "entry_decode (entry_bytes_of e @ rest) = Inr (e, length (entry_bytes_of e))"
proof -
  have len: "4 + length (entry_payload e) < 2 ^ 32" using assms by (simp add: entry_fits_def)
  show ?thesis
    using entry_decode_frame [OF len, of "u32_to_le (crc32 (entry_payload e))" rest]
      decode_payload_payload [OF assms]
    by (simp add: entry_bytes_of_def)
qed

text \<open>A frame in which one byte after the length prefix differs is rejected.\<close>

lemma entry_decode_corrupt:
  assumes fits: "entry_fits e"
    and i: "4 \<le> i" "i < length (entry_bytes_of e)" and b: "b \<noteq> entry_bytes_of e ! i"
  shows "entry_decode ((entry_bytes_of e)[i := b] @ rest) = Inl ChecksumMismatch"
proof -
  let ?p = "entry_payload e" and ?c = "u32_to_le (crc32 (entry_payload e))"
  let ?l = "nat_to_le 4 (4 + length ?p)"
  have len: "4 + length ?p < 2 ^ 32" using fits by (simp add: entry_fits_def)
  have c: "nat_of_le ?c = unat (crc32 ?p)" by simp
  show ?thesis
  proof (cases "i < 8")
    case True
    then obtain j where j: "i = 4 + j" "j < 4" using i by (metis add_less_cancel_left le_iff_add
          numeral_Bit0)
    have upd: "(entry_bytes_of e)[i := b] = ?l @ ?c[j := b] @ ?p"
      by (simp add: entry_bytes_of_def list_update_append j)
    have "?c ! j \<noteq> b" using b by (simp add: entry_bytes_of_def nth_append j)
    then have "?c[j := b] \<noteq> ?c" using j(2) by (metis length_u32_to_le nth_list_update_eq)
    then have "nat_of_le (?c[j := b]) \<noteq> unat (crc32 ?p)"
      using c nat_of_le_inj [of "?c[j := b]" ?c] by auto
    then show ?thesis
      using entry_decode_frame [OF len, of "?c[j := b]" rest] by (simp add: upd)
  next
    case False
    define j where "j = i - 8"
    have j: "i = 8 + j" "j < length ?p" using False i by (simp_all add: j_def length_entry_bytes_of)
    have upd: "(entry_bytes_of e)[i := b] = ?l @ ?c @ ?p[j := b]"
      by (simp add: entry_bytes_of_def list_update_append j(1))
    have "?p ! j \<noteq> b" using b by (simp add: entry_bytes_of_def nth_append j(1))
    then have "crc32 (?p[j := b]) \<noteq> crc32 ?p"
      using crc32_one_byte [of b "?p ! j" "take j ?p" "drop (Suc j) ?p"] j(2)
      by (simp add: id_take_nth_drop [symmetric] upd_conv_take_nth_drop)
    then have "unat (crc32 (?p[j := b])) \<noteq> nat_of_le ?c"
      by (simp add: c word_unat_eq_iff)
    then show ?thesis
      using entry_decode_frame [of "?p[j := b]" ?c rest] len by (simp add: upd)
  qed
qed

section \<open>The log file\<close>

record wal_file =
  wf_data :: bytes
  wf_synced :: nat

definition WAL_HEADER_LEN :: nat where
  "WAL_HEADER_LEN = 6"

definition wal_header :: bytes where
  "wal_header = WAL_MAGIC @ nat_to_le 2 WAL_VERSION"

definition wal_validate_header :: "bytes \<Rightarrow> storage_error + unit" where
  "wal_validate_header data =
     (if length data < 4 then Inl io_short
      else if take 4 data \<noteq> WAL_MAGIC then Inl (CorruptWal ''bad WAL magic'')
      else if length data < 6 then Inl io_short
      else if nat_of_le (take 2 (drop 4 data)) \<noteq> WAL_VERSION
        then Inl (CorruptWal ''unsupported WAL version'')
      else Inr ())"

definition wal_sync :: "wal_file \<Rightarrow> wal_file" where
  "wal_sync f = f\<lparr>wf_synced := length (wf_data f)\<rparr>"

text \<open>Opening creates the file when it is missing and writes the header when it is empty.\<close>

definition wal_open :: "wal_file option \<Rightarrow> storage_error + wal_file" where
  "wal_open file =
     (let f = (case file of None \<Rightarrow> \<lparr>wf_data = [], wf_synced = 0\<rparr> | Some f \<Rightarrow> f);
          len = length (wf_data f)
      in
        if len = 0 then Inr (wal_sync (f\<lparr>wf_data := wal_header\<rparr>))
        else if len < WAL_HEADER_LEN then Inl (CorruptWal ''truncated WAL header'')
        else try_bind (wal_validate_header (wf_data f)) (\<lambda>_. Inr f))"

definition wal_append :: "log_entry \<Rightarrow> bool \<Rightarrow> wal_file \<Rightarrow> storage_error + wal_file" where
  "wal_append entry sync f =
     try_bind (entry_encode entry) (\<lambda>bs.
       let f = f\<lparr>wf_data := wf_data f @ bs\<rparr> in
       Inr (if sync then wal_sync f else f))"

definition wal_append_durable :: "log_entry \<Rightarrow> wal_file \<Rightarrow> storage_error + wal_file" where
  "wal_append_durable entry f = wal_append entry True f"

text \<open>The loop of \<^verbatim>\<open>read_all\<close> over the bytes after the header.\<close>

lemma entry_decode_consumed:
  "entry_decode data = Inr (e, n) \<Longrightarrow> 4 \<le> n \<and> n \<le> length data"
  by (auto simp: entry_decode_def try_bind_Inr Let_def split: if_splits)

function wal_records :: "bytes \<Rightarrow> storage_error + log_entry list" where
  "wal_records buf =
     (if buf = [] then Inr []
      else case entry_decode buf of
          Inl e \<Rightarrow> Inl e
        | Inr (entry, n) \<Rightarrow>
            try_bind (wal_records (drop n buf)) (\<lambda>entries. Inr (entry # entries)))"
  by pat_completeness auto
termination
  by (relation "measure length") (auto dest: entry_decode_consumed)

declare wal_records.simps [simp del]

definition wal_read_all :: "bytes \<Rightarrow> storage_error + log_entry list" where
  "wal_read_all data =
     try_bind (wal_validate_header data) (\<lambda>_. wal_records (drop 6 data))"

definition apply_entry :: "log_entry \<Rightarrow> memtable \<Rightarrow> storage_error + memtable" where
  "apply_entry e t =
     (case le_op e of
        Put \<Rightarrow> memtable_put (le_key e) (le_value e) t
      | Delete \<Rightarrow> try_bind (memtable_delete (le_key e) t) (\<lambda>(_, t'). Inr t'))"

primrec apply_entries :: "log_entry list \<Rightarrow> memtable \<Rightarrow> storage_error + memtable" where
  "apply_entries [] t = Inr t"
| "apply_entries (e # es) t = try_bind (apply_entry e t) (apply_entries es)"

definition replay_into_memtable :: "bytes \<Rightarrow> memtable \<Rightarrow> storage_error + (nat \<times> memtable)" where
  "replay_into_memtable data t =
     try_bind (wal_read_all data) (\<lambda>entries.
     try_bind (apply_entries entries t) (\<lambda>t'. Inr (length entries, t')))"

text \<open>The log file that holds a given list of records.\<close>

definition wal_image :: "log_entry list \<Rightarrow> bytes" where
  "wal_image es = wal_header @ concat (map entry_bytes_of es)"

lemma length_wal_header [simp]: "length wal_header = 6"
  by (simp add: wal_header_def WAL_MAGIC_def)

lemma wal_records_Nil [simp]: "wal_records [] = Inr []"
  by (simp add: wal_records.simps)

lemma wal_records_Cons:
  assumes "entry_fits e"
  shows "wal_records (entry_bytes_of e @ rest) = try_bind (wal_records rest) (\<lambda>es. Inr (e # es))"
proof -
  have "entry_bytes_of e \<noteq> []" using length_entry_bytes_of [of e] by auto
  then show ?thesis
    by (simp add: wal_records.simps [of "entry_bytes_of e @ rest"] entry_decode_encode [OF assms])
qed

lemma wal_records_image:
  "\<forall>e \<in> set es. entry_fits e \<Longrightarrow>
     wal_records (concat (map entry_bytes_of es) @ rest) =
       try_bind (wal_records rest) (\<lambda>es'. Inr (es @ es'))"
proof (induction es)
  case Nil
  then show ?case by (cases "wal_records rest") simp_all
next
  case (Cons e es)
  then show ?case by (cases "wal_records rest") (simp_all add: wal_records_Cons)
qed

lemma wal_validate_header_ok [simp]: "wal_validate_header (wal_header @ rest) = Inr ()"
  by (simp add: wal_validate_header_def wal_header_def WAL_MAGIC_def WAL_VERSION_def)

lemma wal_read_all_image:
  "\<forall>e \<in> set es. entry_fits e \<Longrightarrow> wal_read_all (wal_image es) = Inr es"
  using wal_records_image [of es "[]"] by (simp add: wal_read_all_def wal_image_def)

text \<open>A record that is cut short is reported, never read as something else.\<close>

lemma entry_decode_torn:
  assumes "entry_fits e" and "0 < n" and "n < length (entry_bytes_of e)"
  shows "\<exists>m. entry_decode (take n (entry_bytes_of e)) = Inl (CorruptWal m)"
proof (cases "n < 4")
  case True
  with assms show ?thesis by (simp add: entry_decode_def)
next
  case False
  let ?p = "entry_payload e" and ?l = "nat_to_le 4 (4 + length (entry_payload e))"
  let ?t = "take (n - 4) (u32_to_le (crc32 ?p) @ ?p)"
  have split: "take n (entry_bytes_of e) = ?l @ ?t"
    using False by (simp add: entry_bytes_of_def)
  have len: "4 + length ?p < 2 ^ 32" using assms(1) by (simp add: entry_fits_def)
  have "wal_read_u32 (?l @ ?t) 0 = Inr (4 + length ?p)"
    using wal_read_u32_at [OF len, of "[]" ?t] by simp
  moreover have "length (?l @ ?t) < 4 + (4 + length ?p)"
    using assms(3) False by (simp add: length_entry_bytes_of)
  ultimately show ?thesis by (simp add: entry_decode_def split)
qed

lemma wal_read_all_torn:
  assumes "\<forall>e \<in> set es. entry_fits e" "entry_fits e" "0 < n" "n < length (entry_bytes_of e)"
  shows "\<exists>m. wal_read_all (wal_image es @ take n (entry_bytes_of e)) = Inl (CorruptWal m)"
proof -
  obtain m where m: "entry_decode (take n (entry_bytes_of e)) = Inl (CorruptWal m)"
    using entry_decode_torn [OF assms(2-)] by blast
  have "take n (entry_bytes_of e) \<noteq> []" using assms(3,4) by auto
  with m have "wal_records (take n (entry_bytes_of e)) = Inl (CorruptWal m)"
    by (simp add: wal_records.simps)
  then show ?thesis
    using wal_records_image [OF assms(1), of "take n (entry_bytes_of e)"]
    by (simp add: wal_read_all_def wal_image_def)
qed

section \<open>Replay is running the operations\<close>

definition entry_kv :: "log_entry \<Rightarrow> bytes \<times> bytes option" where
  "entry_kv e = (le_key e, case le_op e of Put \<Rightarrow> Some (le_value e) | Delete \<Rightarrow> None)"

lemma apply_entries_run:
  "apply_entries es t = engine_run memtable_put memtable_delete (map entry_kv es) t"
  by (induction es arbitrary: t)
    (auto simp: apply_entry_def entry_kv_def split: op_type.splits intro!: arg_cong2 [of _ _ _ _ try_bind])

lemma apply_entries_append:
  "apply_entries (es @ es') t = try_bind (apply_entries es t) (apply_entries es')"
  by (induction es arbitrary: t) (auto simp: try_bind_def split: sum.splits)

lemma apply_entries_spec:
  assumes "memtable_inv t" and "\<forall>e \<in> set es. le_key e \<noteq> []"
  shows "\<exists>t'. apply_entries es t = Inr t' \<and> memtable_inv t' \<and>
    (\<forall>k. k \<noteq> [] \<longrightarrow> memtable_get k t' =
      (case map_of (rev (map entry_kv es)) k of Some op \<Rightarrow> Inr op | None \<Rightarrow> memtable_get k t))"
proof -
  have "\<forall>k \<in> fst ` set (map entry_kv es). k \<noteq> []" using assms(2) by (auto simp: entry_kv_def)
  from mem.run_ops [OF assms(1) this] show ?thesis by (simp add: apply_entries_run)
qed

section \<open>Cutting a log\<close>

lemma wal_image_take: "\<exists>rest. wal_image es = wal_image (take i es) @ rest"
proof -
  have "wal_image es = wal_image (take i es) @ concat (map entry_bytes_of (drop i es))"
    by (simp add: wal_image_def flip: concat_append map_append)
  then show ?thesis by blast
qed

lemma concat_cut:
  "n \<le> length (concat (map f es)) \<Longrightarrow>
     \<exists>j r. j \<le> length es \<and> (j < length es \<longrightarrow> r < length (f (es ! j))) \<and>
       take n (concat (map f es)) =
         concat (map f (take j es)) @ (if j < length es then take r (f (es ! j)) else [])"
proof (induction es arbitrary: n)
  case Nil
  then show ?case by simp
next
  case (Cons e es)
  show ?case
  proof (cases "n < length (f e)")
    case True
    then show ?thesis by (intro exI [of _ 0] exI [of _ n]) simp
  next
    case False
    then have "n - length (f e) \<le> length (concat (map f es))" using Cons.prems by simp
    from Cons.IH [OF this] obtain j r where
      "j \<le> length es" "j < length es \<longrightarrow> r < length (f (es ! j))"
      "take (n - length (f e)) (concat (map f es)) =
         concat (map f (take j es)) @ (if j < length es then take r (f (es ! j)) else [])"
      by blast
    then show ?thesis using False by (intro exI [of _ "Suc j"] exI [of _ r]) simp
  qed
qed

lemma wal_image_cut:
  assumes "length wal_header \<le> n" and "n \<le> length (wal_image es)"
  shows "\<exists>j r. j \<le> length es \<and> (j < length es \<longrightarrow> r < length (entry_bytes_of (es ! j))) \<and>
    take n (wal_image es) =
      wal_image (take j es) @ (if j < length es then take r (entry_bytes_of (es ! j)) else [])"
  using concat_cut [of "n - length wal_header" entry_bytes_of es] assms
  by (auto simp: wal_image_def)

section \<open>Properties\<close>

text \<open>
  C16. A log record is protected by its checksum: changing any single byte of an encoded
  record after its length field, to any other value, makes the decoder report a checksum
  mismatch, and the unchanged record decodes to itself and its exact length.
\<close>

theorem wal_record_protected:
  assumes "entry_fits e" and "4 \<le> i" and "i < length (entry_bytes_of e)" and "entry_bytes_of e ! i \<noteq> b"
  shows "entry_encode e = Inr (entry_bytes_of e) \<and>
    entry_decode (entry_bytes_of e @ rest) = Inr (e, length (entry_bytes_of e)) \<and>
    entry_decode ((entry_bytes_of e)[i := b] @ rest) = Inl ChecksumMismatch"
  using entry_decode_corrupt [OF assms(1-3)] assms(4) entry_decode_encode [OF assms(1)] assms(1)
  by (simp add: entry_encode_ok entry_fits_def)

text \<open>The witness changes the last byte of the record \<open>put [1] [2]\<close>.\<close>

theorem wal_record_protected_witness:
  "entry_decode ((entry_bytes_of (entry_put [1] [2]))[18 := 3]) = Inl ChecksumMismatch"
proof -
  have fits: "entry_fits (entry_put [1] [2])" by (simp add: entry_fits_def entry_ok_def entry_put_def)
  have "length (entry_bytes_of (entry_put [1] [2])) = 19"
    by (simp add: length_entry_bytes_of entry_payload_def entry_put_def)
  moreover have "entry_bytes_of (entry_put [1] [2]) ! 18 = 2"
    by (simp add: entry_bytes_of_def entry_payload_def entry_put_def nth_append u32_to_le_def)
  ultimately show ?thesis using wal_record_protected [OF fits, of 18 3 "[]"] by simp
qed

text \<open>
  C15. Reading a log that a crash cut at an arbitrary byte after the header: if the cut is
  at the end of a record the reader returns exactly the records before it; in every other case
  it reports a corrupt log. It never returns a record that was not written, and it never
  silently drops a record that is complete.
\<close>

theorem wal_read_cut:
  assumes "\<forall>e \<in> set es. entry_fits e" and "length wal_header \<le> n" and "n \<le> length (wal_image es)"
  shows "if \<exists>j \<le> length es. n = length (wal_image (take j es))
    then \<exists>j \<le> length es. n = length (wal_image (take j es)) \<and>
      wal_read_all (take n (wal_image es)) = Inr (take j es)
    else \<exists>m. wal_read_all (take n (wal_image es)) = Inl (CorruptWal m)"
proof -
  obtain j r where j: "j \<le> length es" and cut: "take n (wal_image es) =
      wal_image (take j es) @ (if j < length es then take r (entry_bytes_of (es ! j)) else [])"
    and r: "j < length es \<Longrightarrow> r < length (entry_bytes_of (es ! j))"
    using wal_image_cut [OF assms(2,3)] by blast
  have fits: "\<forall>e \<in> set (take j es). entry_fits e" using assms(1) by (auto dest: in_set_takeD)
  show ?thesis
  proof (cases "j < length es \<and> 0 < r")
    case True
    then have "\<exists>m. wal_read_all (take n (wal_image es)) = Inl (CorruptWal m)"
      using wal_read_all_torn [OF fits _ _ r] assms(1) cut by simp
    moreover have False if "i \<le> length es" "n = length (wal_image (take i es))" for i
    proof -
      have "take n (wal_image es) = wal_image (take i es)"
        using wal_image_take [of es i] that(2) by auto
      moreover have "\<forall>e \<in> set (take i es). entry_fits e" using assms(1) by (auto dest: in_set_takeD)
      ultimately show False using wal_read_all_image \<open>\<exists>m. _\<close> by fastforce
    qed
    ultimately show ?thesis by auto
  next
    case False
    then have "take n (wal_image es) = wal_image (take j es)" using cut by auto
    moreover from this have "n = length (wal_image (take j es))"
      using assms(3) by (metis length_take min.absorb2)
    ultimately show ?thesis using wal_read_all_image [OF fits] j by auto
  qed
qed

text \<open>The witness loses the last byte of a two-record log.\<close>

theorem wal_read_cut_witness:
  "\<exists>m. wal_read_all (take 43 (wal_image [entry_put [1] [2], entry_put [3] [4]])) = Inl (CorruptWal m)"
proof -
  let ?es = "[entry_put [1] [2], entry_put [3] [4]]"
  have fits: "\<forall>e \<in> set ?es. entry_fits e" by (simp add: entry_fits_def entry_ok_def entry_put_def)
  have len: "length (wal_image (take j ?es)) = (if j = 0 then 6 else if j = 1 then 25 else 44)" for j
    by (cases j; cases "j - 1") (simp_all add: wal_image_def length_entry_bytes_of entry_payload_def entry_put_def)
  have "43 \<le> length (wal_image ?es)" using len [of 2] by simp
  with wal_read_cut [OF fits, of 43] show ?thesis by (simp add: len del: take_Suc_Cons)
qed

end
