(* ===== verification/Wal_Segments.thy ===== *)
theory Wal_Segments
  imports Wal
begin

text \<open>
  The segment manager of \<^verbatim>\<open>crates/noedb-storage/src/wal/segments.rs\<close>. The abstract view of the
  directory is the one list of records \<open>dir_entries\<close>, the segments in ascending order; the
  refinement lemmas say what each operation does to that list, and that replay applies
  exactly it.
\<close>

section \<open>State and operations\<close>

datatype wal_sync_mode = EveryAppend | OnFlush

record wal_dir =
  wd_files :: "(nat \<times> wal_file) list"
  wd_current :: "nat option"

record wal_mgr =
  wm_dir :: wal_dir
  wm_active_id :: nat
  wm_sync_mode :: wal_sync_mode

text \<open>A missing or unreadable \<^verbatim>\<open>CURRENT\<close> counts as segment 1 (\<^verbatim>\<open>unwrap_or(1)\<close>).\<close>

definition read_current :: "wal_dir \<Rightarrow> nat option" where
  "read_current d = wd_current d"

definition write_current :: "nat \<Rightarrow> wal_dir \<Rightarrow> wal_dir" where
  "write_current sid d = d\<lparr>wd_current := Some sid\<rparr>"

definition segment_open :: "nat \<Rightarrow> wal_dir \<Rightarrow> storage_error + wal_dir" where
  "segment_open sid d =
     try_bind (wal_open (bt_get (wd_files d) sid)) (\<lambda>f.
       Inr (d\<lparr>wd_files := bt_insert sid f (wd_files d)\<rparr>))"

definition wal_mgr_open :: "wal_sync_mode \<Rightarrow> wal_dir \<Rightarrow> storage_error + wal_mgr" where
  "wal_mgr_open mode d =
     (let active_id = (case read_current d of None \<Rightarrow> 1 | Some sid \<Rightarrow> sid) in
      try_bind (segment_open active_id d) (\<lambda>d'.
        Inr \<lparr>wm_dir = d', wm_active_id = active_id, wm_sync_mode = mode\<rparr>))"

text \<open>
  The manager holds the active file open: were its file deleted, writes would still succeed
  and reach no file of the directory.
\<close>

definition active_append :: "log_entry \<Rightarrow> bool \<Rightarrow> wal_mgr \<Rightarrow> storage_error + wal_mgr" where
  "active_append entry sync m =
     (case bt_get (wd_files (wm_dir m)) (wm_active_id m) of
        None \<Rightarrow> try_bind (entry_encode entry) (\<lambda>_. Inr m)
      | Some f \<Rightarrow>
          try_bind (wal_append entry sync f) (\<lambda>f'.
            Inr (m\<lparr>wm_dir := (wm_dir m)\<lparr>wd_files :=
              bt_insert (wm_active_id m) f' (wd_files (wm_dir m))\<rparr>\<rparr>)))"

definition wal_mgr_append :: "log_entry \<Rightarrow> wal_mgr \<Rightarrow> storage_error + wal_mgr" where
  "wal_mgr_append entry m = active_append entry (wm_sync_mode m = EveryAppend) m"

definition wal_mgr_append_unsynced :: "log_entry \<Rightarrow> wal_mgr \<Rightarrow> storage_error + wal_mgr" where
  "wal_mgr_append_unsynced entry m = active_append entry False m"

definition wal_mgr_sync :: "wal_mgr \<Rightarrow> storage_error + wal_mgr" where
  "wal_mgr_sync m =
     (case bt_get (wd_files (wm_dir m)) (wm_active_id m) of
        None \<Rightarrow> Inr m
      | Some f \<Rightarrow>
          Inr (m\<lparr>wm_dir := (wm_dir m)\<lparr>wd_files :=
            bt_insert (wm_active_id m) (wal_sync f) (wd_files (wm_dir m))\<rparr>\<rparr>))"

definition wal_mgr_rotate :: "wal_mgr \<Rightarrow> storage_error + (nat \<times> wal_mgr)" where
  "wal_mgr_rotate m =
     try_bind (wal_mgr_sync m) (\<lambda>m.
       let old_id = wm_active_id m;
           new_id = wm_active_id m + 1
       in
         try_bind (segment_open new_id (wm_dir m)) (\<lambda>d.
           Inr (old_id, m\<lparr>wm_active_id := new_id, wm_dir := write_current new_id d\<rparr>)))"

definition wal_mgr_delete_segment :: "nat \<Rightarrow> wal_mgr \<Rightarrow> wal_mgr" where
  "wal_mgr_delete_segment sid m =
     m\<lparr>wm_dir := (wm_dir m)\<lparr>wd_files := bt_remove sid (wd_files (wm_dir m))\<rparr>\<rparr>"

definition list_segment_ids :: "wal_dir \<Rightarrow> nat list" where
  "list_segment_ids d = map fst (wd_files d)"

primrec replay_segments ::
  "wal_file list \<Rightarrow> nat \<Rightarrow> memtable \<Rightarrow> storage_error + (nat \<times> memtable)" where
  "replay_segments [] cnt t = Inr (cnt, t)"
| "replay_segments (f # fs) cnt t =
     try_bind (replay_into_memtable (wf_data f) t) (\<lambda>(n, t').
       replay_segments fs (cnt + n) t')"

text \<open>The ids of the directory listing are sorted; here the map already is.\<close>

definition replay_all :: "wal_dir \<Rightarrow> memtable \<Rightarrow> storage_error + (nat \<times> memtable)" where
  "replay_all d t = replay_segments (map snd (wd_files d)) 0 t"

text \<open>\<^verbatim>\<open>fast_wal.rs\<close>: many appends, one sync.\<close>

primrec append_all_unsynced :: "log_entry list \<Rightarrow> wal_mgr \<Rightarrow> storage_error + wal_mgr" where
  "append_all_unsynced [] m = Inr m"
| "append_all_unsynced (e # es) m =
     try_bind (wal_mgr_append_unsynced e m) (append_all_unsynced es)"

definition append_batch_sync :: "log_entry list \<Rightarrow> wal_mgr \<Rightarrow> storage_error + wal_mgr" where
  "append_batch_sync es m = try_bind (append_all_unsynced es m) wal_mgr_sync"

section \<open>The directory as one list of records\<close>

definition file_entries :: "wal_file \<Rightarrow> log_entry list" where
  "file_entries f = (case wal_read_all (wf_data f) of Inl _ \<Rightarrow> [] | Inr es \<Rightarrow> es)"

definition file_ok :: "wal_file \<Rightarrow> bool" where
  "file_ok f \<longleftrightarrow>
     (\<exists>es. (\<forall>e \<in> set es. entry_fits e) \<and> wf_data f = wal_image es) \<and> wf_synced f \<le> length (wf_data f)"

definition dir_entries :: "wal_dir \<Rightarrow> log_entry list" where
  "dir_entries d = concat (map (file_entries \<circ> snd) (wd_files d))"

definition dir_ok :: "wal_dir \<Rightarrow> bool" where
  "dir_ok d \<longleftrightarrow> bt_sorted (wd_files d) \<and> (\<forall>f \<in> snd ` set (wd_files d). file_ok f)"

text \<open>
  The manager invariant: the active segment exists, and every later segment (left behind by a
  crash between creating a segment and updating \<^verbatim>\<open>CURRENT\<close>) is empty.
\<close>

definition wal_mgr_inv :: "wal_mgr \<Rightarrow> bool" where
  "wal_mgr_inv m \<longleftrightarrow> dir_ok (wm_dir m) \<and>
     wm_active_id m \<in> fst ` set (wd_files (wm_dir m)) \<and>
     (\<forall>(sid, f) \<in> set (wd_files (wm_dir m)). wm_active_id m < sid \<longrightarrow> file_entries f = [])"

lemma file_entries_image:
  "\<forall>e \<in> set es. entry_fits e \<Longrightarrow> wf_data f = wal_image es \<Longrightarrow> file_entries f = es"
  by (simp add: file_entries_def wal_read_all_image)

lemma file_ok_read: "file_ok f \<Longrightarrow> wal_read_all (wf_data f) = Inr (file_entries f)"
  by (auto simp: file_ok_def file_entries_def wal_read_all_image)

lemma file_ok_fits: "file_ok f \<Longrightarrow> e \<in> set (file_entries f) \<Longrightarrow> entry_fits e"
  by (auto simp: file_ok_def file_entries_image)

lemma entry_fits_ok: "entry_fits e \<Longrightarrow> entry_ok e"
  by (simp add: entry_fits_def)

lemma wal_open_spec:
  assumes "case fo of None \<Rightarrow> True | Some f \<Rightarrow> file_ok f"
  obtains f where "wal_open fo = Inr f" "file_ok f"
    "file_entries f = (case fo of None \<Rightarrow> [] | Some f \<Rightarrow> file_entries f)"
proof (cases fo)
  case None
  define f where "f = \<lparr>wf_data = wal_image [], wf_synced = length (wal_image [])\<rparr>"
  have "wal_open fo = Inr f"
    by (simp add: None wal_open_def wal_sync_def f_def wal_image_def)
  moreover have "file_ok f" by (auto simp: file_ok_def f_def intro!: exI [of _ "[]"])
  moreover have "file_entries f = []" by (rule file_entries_image) (simp_all add: f_def)
  ultimately show ?thesis using that None by simp
next
  case (Some f)
  then obtain es where "wf_data f = wal_image es" using assms by (auto simp: file_ok_def)
  moreover have "wal_header \<noteq> []" using length_wal_header by fastforce
  ultimately have "wal_open fo = Inr f"
    by (auto simp: Some wal_open_def Let_def wal_image_def WAL_HEADER_LEN_def)
  then show ?thesis using that Some assms by simp
qed

lemma wal_append_spec:
  assumes "file_ok f" and "entry_fits e"
  shows "\<exists>f'. wal_append e s f = Inr f' \<and> file_ok f' \<and> file_entries f' = file_entries f @ [e] \<and>
    (s \<longrightarrow> wf_synced f' = length (wf_data f')) \<and> wf_synced f \<le> wf_synced f'"
proof -
  obtain es where es: "\<forall>e \<in> set es. entry_fits e" "wf_data f = wal_image es"
    and sy: "wf_synced f \<le> length (wf_data f)"
    using assms(1) by (auto simp: file_ok_def)
  define g where "g = f\<lparr>wf_data := wf_data f @ entry_bytes_of e\<rparr>"
  define f' where "f' = (if s then wal_sync g else g)"
  have enc: "entry_encode e = Inr (entry_bytes_of e)"
    using assms(2) by (simp add: entry_encode_ok entry_fits_ok)
  have data: "wf_data f' = wal_image (es @ [e])"
    by (simp add: f'_def g_def wal_sync_def es(2) wal_image_def)
  have fits: "\<forall>e' \<in> set (es @ [e]). entry_fits e'" using es(1) assms(2) by auto
  have "wf_synced f' \<le> length (wf_data f')" using sy by (simp add: f'_def g_def wal_sync_def)
  then have "file_ok f'" using data fits unfolding file_ok_def by blast
  moreover have "file_entries f' = file_entries f @ [e]"
    using file_entries_image [OF fits data] file_entries_image [OF es] by simp
  moreover have "wal_append e s f = Inr f'"
    by (simp add: wal_append_def enc f'_def g_def)
  ultimately show ?thesis using sy by (auto simp: f'_def g_def wal_sync_def)
qed

lemma wal_sync_ok: "file_ok f \<Longrightarrow> file_ok (wal_sync f)"
  by (auto simp: file_ok_def wal_sync_def)

lemma wal_sync_entries [simp]: "file_entries (wal_sync f) = file_entries f"
  by (simp add: file_entries_def wal_sync_def)

text \<open>Replacing one file changes the list of records at its place only.\<close>

lemma bt_insert_split:
  "bt_sorted m \<Longrightarrow> bt_get m k = Some v \<Longrightarrow>
     \<exists>xs ys. m = xs @ (k, v) # ys \<and> (\<forall>v'. bt_insert k v' m = xs @ (k, v') # ys) \<and>
       (\<forall>(k', _) \<in> set ys. k < k')"
proof (induction m)
  case Nil
  then show ?case by simp
next
  case (Cons kv m)
  obtain k0 v0 where kv: "kv = (k0, v0)" by (cases kv)
  show ?case
  proof (cases "k0 = k")
    case True
    then have "kv # m = [] @ (k, v) # m" "\<forall>v'. bt_insert k v' (kv # m) = [] @ (k, v') # m"
      using Cons.prems by (auto simp: kv bt_get_def)
    moreover have "\<forall>(k', _) \<in> set m. k < k'" using Cons.prems True by (auto simp: kv)
    ultimately show ?thesis by blast
  next
    case False
    with Cons.prems have g: "bt_get m k = Some v" "bt_sorted m" by (auto simp: kv bt_get_def)
    then have "k0 < k" using Cons.prems(1) bt_get_mem [OF g(2)] by (force simp: kv)
    moreover obtain xs ys where "m = xs @ (k, v) # ys"
      "\<forall>v'. bt_insert k v' m = xs @ (k, v') # ys" "\<forall>(k', _) \<in> set ys. k < k'"
      using Cons.IH g by blast
    ultimately show ?thesis
      by (intro exI [of _ "(k0, v0) # xs"] exI [of _ ys]) (auto simp: kv)
  qed
qed

lemma set_bt_insert_subset: "set (bt_insert k v m) \<subseteq> insert (k, v) (set m)"
  by (induction k v m rule: bt_insert.induct) auto

lemma concat_bt_insert_neutral:
  "bt_sorted m \<Longrightarrow> bt_get m k = None \<Longrightarrow> h (k, v) = [] \<Longrightarrow>
     concat (map h (bt_insert k v m)) = concat (map h m)"
  by (induction k v m rule: bt_insert.induct) (auto simp: bt_get_def split: if_splits)

lemma concat_entries_replace:
  assumes "bt_sorted fs" and "bt_get fs i = Some f"
    and "\<forall>(j, g) \<in> set fs. i < j \<longrightarrow> file_entries g = []"
    and "file_entries f' = file_entries f @ es"
  shows "concat (map (file_entries \<circ> snd) (bt_insert i f' fs)) =
    concat (map (file_entries \<circ> snd) fs) @ es"
proof -
  obtain xs ys where split: "fs = xs @ (i, f) # ys"
    and ins: "\<forall>v'. bt_insert i v' fs = xs @ (i, v') # ys" and above: "\<forall>(k', _) \<in> set ys. i < k'"
    using bt_insert_split [OF assms(1,2)] by blast
  have "\<forall>x \<in> set ys. (file_entries \<circ> snd) x = []" using assms(3) above by (force simp: split)
  then have "concat (map (file_entries \<circ> snd) ys) = []" by simp
  then have "concat (map (file_entries \<circ> snd) (xs @ (i, f') # ys)) =
      concat (map (file_entries \<circ> snd) (xs @ (i, f) # ys)) @ es"
    using assms(4) by (simp only: map_append list.map concat_append concat.simps comp_apply snd_conv
        append_assoc append_Nil2)
  then show ?thesis using ins by (simp add: split)
qed


section \<open>What each operation does to the list of records\<close>

lemma dir_ok_insert: "dir_ok d \<Longrightarrow> file_ok f \<Longrightarrow> dir_ok (d\<lparr>wd_files := bt_insert i f (wd_files d)\<rparr>)"
  using set_bt_insert_subset [of i f "wd_files d"] by (fastforce simp: dir_ok_def bt_sorted_insert)

lemma dir_ok_get: "dir_ok d \<Longrightarrow> bt_get (wd_files d) i = Some f \<Longrightarrow> file_ok f"
  by (force simp: dir_ok_def dest: bt_get_mem)

lemma wal_mgr_active:
  assumes "wal_mgr_inv m"
  obtains f where "bt_get (wd_files (wm_dir m)) (wm_active_id m) = Some f" "file_ok f"
  using assms dir_ok_get unfolding wal_mgr_inv_def dir_ok_def
  by (metis (no_types, lifting) bt.keys_iff not_Some_eq)

lemma wal_mgr_update_active:
  assumes inv: "wal_mgr_inv m" and "bt_get (wd_files (wm_dir m)) (wm_active_id m) = Some f"
    and "file_ok f'" and "file_entries f' = file_entries f @ es"
  defines "m' \<equiv> m\<lparr>wm_dir := (wm_dir m)\<lparr>wd_files :=
      bt_insert (wm_active_id m) f' (wd_files (wm_dir m))\<rparr>\<rparr>"
  shows "wal_mgr_inv m' \<and> dir_entries (wm_dir m') = dir_entries (wm_dir m) @ es"
proof
  have ok: "dir_ok (wm_dir m)" and above:
    "\<forall>(id, f) \<in> set (wd_files (wm_dir m)). wm_active_id m < id \<longrightarrow> file_entries f = []"
    using inv by (simp_all add: wal_mgr_inv_def)
  show "wal_mgr_inv m'"
    using dir_ok_insert [OF ok assms(3)] above set_bt_insert_subset [of "wm_active_id m" f' "wd_files (wm_dir m)"]
    by (fastforce simp: wal_mgr_inv_def m'_def keys_bt_insert)
  show "dir_entries (wm_dir m') = dir_entries (wm_dir m) @ es"
    using concat_entries_replace [OF _ assms(2) above assms(4)] ok
    by (simp add: m'_def dir_entries_def dir_ok_def)
qed

lemma active_append_spec:
  assumes "wal_mgr_inv m" and "entry_fits e"
  shows "\<exists>m'. active_append e s m = Inr m' \<and> wal_mgr_inv m' \<and>
    dir_entries (wm_dir m') = dir_entries (wm_dir m) @ [e] \<and>
    wm_active_id m' = wm_active_id m \<and> wm_sync_mode m' = wm_sync_mode m"
proof -
  obtain f where f: "bt_get (wd_files (wm_dir m)) (wm_active_id m) = Some f" "file_ok f"
    using wal_mgr_active [OF assms(1)] .
  obtain f' where f': "wal_append e s f = Inr f'" "file_ok f'"
    "file_entries f' = file_entries f @ [e]"
    using wal_append_spec [OF f(2) assms(2)] by blast
  show ?thesis using wal_mgr_update_active [OF assms(1) f(1) f'(2,3)] f f'
    by (simp add: active_append_def)
qed

lemma wal_mgr_sync_spec:
  assumes "wal_mgr_inv m"
  shows "\<exists>m'. wal_mgr_sync m = Inr m' \<and> wal_mgr_inv m' \<and>
    dir_entries (wm_dir m') = dir_entries (wm_dir m) \<and>
    wm_active_id m' = wm_active_id m \<and> wm_sync_mode m' = wm_sync_mode m \<and>
    (\<exists>f. bt_get (wd_files (wm_dir m')) (wm_active_id m') = Some f \<and> wf_synced f = length (wf_data f))"
proof -
  obtain f where f: "bt_get (wd_files (wm_dir m)) (wm_active_id m) = Some f" "file_ok f"
    using wal_mgr_active [OF assms(1)] .
  have "bt_sorted (wd_files (wm_dir m))" using assms by (simp add: wal_mgr_inv_def dir_ok_def)
  then show ?thesis
    using wal_mgr_update_active [OF assms(1) f(1) wal_sync_ok [OF f(2)], of "[]"] f
    by (simp add: wal_mgr_sync_def bt_get_insert) (simp add: wal_sync_def)
qed

lemma segment_open_spec:
  assumes "dir_ok d"
  shows "\<exists>d' f. segment_open i d = Inr d' \<and> dir_ok d' \<and> file_ok f \<and>
    d' = d\<lparr>wd_files := bt_insert i f (wd_files d)\<rparr> \<and> dir_entries d' = dir_entries d \<and>
    file_entries f = (case bt_get (wd_files d) i of None \<Rightarrow> [] | Some g \<Rightarrow> file_entries g)"
proof -
  have srt: "bt_sorted (wd_files d)" using assms by (simp add: dir_ok_def)
  have "case bt_get (wd_files d) i of None \<Rightarrow> True | Some f \<Rightarrow> file_ok f"
    using assms by (auto split: option.split intro: dir_ok_get)
  then obtain f where f: "wal_open (bt_get (wd_files d) i) = Inr f" "file_ok f"
    "file_entries f = (case bt_get (wd_files d) i of None \<Rightarrow> [] | Some g \<Rightarrow> file_entries g)"
    by (rule wal_open_spec)
  have "concat (map (file_entries \<circ> snd) (bt_insert i f (wd_files d))) =
      concat (map (file_entries \<circ> snd) (wd_files d))"
  proof (cases "bt_get (wd_files d) i")
    case None
    then show ?thesis using f(3) by (intro concat_bt_insert_neutral [OF srt None]) simp
  next
    case (Some g)
    then show ?thesis using bt_insert_split [OF srt Some] f(3) by force
  qed
  then show ?thesis using f dir_ok_insert [OF assms f(2)]
    by (auto simp: segment_open_def dir_entries_def)
qed

lemma wal_mgr_open_spec:
  assumes ok: "dir_ok d"
    and above: "\<forall>(id, f) \<in> set (wd_files d).
      (case wd_current d of None \<Rightarrow> 1 | Some i \<Rightarrow> i) < id \<longrightarrow> file_entries f = []"
  shows "\<exists>m. wal_mgr_open mode d = Inr m \<and> wal_mgr_inv m \<and> dir_entries (wm_dir m) = dir_entries d"
proof -
  define i where "i = (case wd_current d of None \<Rightarrow> 1 | Some i \<Rightarrow> i)"
  obtain d' f where d': "segment_open i d = Inr d'" "dir_ok d'"
    "d' = d\<lparr>wd_files := bt_insert i f (wd_files d)\<rparr>" "dir_entries d' = dir_entries d"
    using segment_open_spec [OF ok] by blast
  moreover have "wal_mgr_inv \<lparr>wm_dir = d', wm_active_id = i, wm_sync_mode = mode\<rparr>"
    using above d'(2) set_bt_insert_subset [of i f "wd_files d"]
    by (fastforce simp: wal_mgr_inv_def d'(3) keys_bt_insert i_def)
  ultimately show ?thesis
    by (simp add: wal_mgr_open_def read_current_def i_def [symmetric])
qed

lemma wal_mgr_rotate_spec:
  assumes inv: "wal_mgr_inv m"
  shows "\<exists>m'. wal_mgr_rotate m = Inr (wm_active_id m, m') \<and> wal_mgr_inv m' \<and>
    dir_entries (wm_dir m') = dir_entries (wm_dir m) \<and> wm_active_id m' = wm_active_id m + 1 \<and>
    wm_sync_mode m' = wm_sync_mode m \<and> wd_current (wm_dir m') = Some (wm_active_id m')"
proof -
  obtain m1 where m1: "wal_mgr_sync m = Inr m1" "wal_mgr_inv m1"
    "dir_entries (wm_dir m1) = dir_entries (wm_dir m)" "wm_active_id m1 = wm_active_id m"
    "wm_sync_mode m1 = wm_sync_mode m"
    using wal_mgr_sync_spec [OF inv] by blast
  have ok: "dir_ok (wm_dir m1)" using m1(2) by (simp add: wal_mgr_inv_def)
  let ?i = "wm_active_id m1 + 1"
  obtain d' f where d': "segment_open ?i (wm_dir m1) = Inr d'" "dir_ok d'"
    "d' = (wm_dir m1)\<lparr>wd_files := bt_insert ?i f (wd_files (wm_dir m1))\<rparr>"
    "dir_entries d' = dir_entries (wm_dir m1)"
    using segment_open_spec [OF ok] by blast
  define m' where "m' = m1\<lparr>wm_active_id := ?i, wm_dir := write_current ?i d'\<rparr>"
  have above: "file_entries g = []" if "(j, g) \<in> set (wd_files (wm_dir m1))" "?i < j" for j g
    using that m1(2) by (force simp: wal_mgr_inv_def)
  have "file_entries g = []" if "(j, g) \<in> set (wd_files d')" "?i < j" for j g
    using that above [of j g] set_bt_insert_subset [of ?i f "wd_files (wm_dir m1)"]
    by (auto simp: d'(3))
  then have "wal_mgr_inv m'"
    using d'(2) by (auto simp: wal_mgr_inv_def m'_def write_current_def dir_ok_def)
      (simp add: d'(3) keys_bt_insert)
  moreover have "dir_entries (wm_dir m') = dir_entries (wm_dir m)"
    using d'(4) m1(3) by (simp add: m'_def write_current_def dir_entries_def)
  moreover have "wal_mgr_rotate m = Inr (wm_active_id m, m')"
    by (simp add: wal_mgr_rotate_def m1(1,4) d'(1) [unfolded m1(4), simplified] Let_def m'_def)
  ultimately show ?thesis using m1 by (simp add: m'_def write_current_def)
qed

lemma wal_mgr_delete_spec:
  assumes "wal_mgr_inv m" and "sid \<noteq> wm_active_id m"
  shows "wal_mgr_inv (wal_mgr_delete_segment sid m) \<and>
    dir_entries (wm_dir (wal_mgr_delete_segment sid m)) =
      concat (map (file_entries \<circ> snd) (filter (\<lambda>(i, _). i \<noteq> sid) (wd_files (wm_dir m))))"
  using assms
  by (auto simp: wal_mgr_inv_def wal_mgr_delete_segment_def dir_ok_def dir_entries_def
      bt_sorted_remove [unfolded bt_remove_def] keys_bt_remove bt_remove_def)

lemma replay_segments_spec:
  assumes "\<forall>f \<in> set fs. file_ok f"
  shows "replay_segments fs n t =
    try_bind (apply_entries (concat (map file_entries fs)) t)
      (\<lambda>t'. Inr (n + length (concat (map file_entries fs)), t'))"
  using assms
proof (induction fs arbitrary: n t)
  case Nil
  then show ?case by simp
next
  case (Cons f fs)
  have "replay_into_memtable (wf_data f) t =
      try_bind (apply_entries (file_entries f) t) (\<lambda>t'. Inr (length (file_entries f), t'))"
    using Cons.prems by (simp add: replay_into_memtable_def file_ok_read)
  then show ?case
    using Cons by (cases "apply_entries (file_entries f) t")
      (simp_all add: apply_entries_append add.assoc)
qed

lemma replay_all_spec:
  assumes "dir_ok d"
  shows "replay_all d t =
    try_bind (apply_entries (dir_entries d) t) (\<lambda>t'. Inr (length (dir_entries d), t'))"
proof -
  show ?thesis
    using assms replay_segments_spec [of "map snd (wd_files d)" 0 t]
    by (simp add: replay_all_def dir_entries_def dir_ok_def)
qed

section \<open>The log interface of the stores\<close>

text \<open>
  What a store relies on: an accepted append extends the record list by that record, and
  recovery applies the record list. Then recovery after any accepted history of operations is
  running that history.
\<close>

locale write_ahead_log =
  fixes winv :: "'w \<Rightarrow> bool"
    and records :: "'w \<Rightarrow> log_entry list"
    and append :: "log_entry \<Rightarrow> 'w \<Rightarrow> storage_error + 'w"
    and recover :: "'w \<Rightarrow> memtable \<Rightarrow> storage_error + memtable"
  assumes append_ok: "winv w \<Longrightarrow> entry_fits e \<Longrightarrow>
      \<exists>w'. append e w = Inr w' \<and> winv w' \<and> records w' = records w @ [e]"
    and recover_records: "winv w \<Longrightarrow> recover w t = apply_entries (records w) t"
    and records_fit: "winv w \<Longrightarrow> e \<in> set (records w) \<Longrightarrow> entry_fits e"
begin

primrec append_all :: "log_entry list \<Rightarrow> 'w \<Rightarrow> storage_error + 'w" where
  "append_all [] w = Inr w"
| "append_all (e # es) w = try_bind (append e w) (append_all es)"

lemma append_all_ok:
  "winv w \<Longrightarrow> \<forall>e \<in> set es. entry_fits e \<Longrightarrow>
     \<exists>w'. append_all es w = Inr w' \<and> winv w' \<and> records w' = records w @ es"
proof (induction es arbitrary: w)
  case Nil
  then show ?case by simp
next
  case (Cons e es)
  then obtain w1 where "append e w = Inr w1" "winv w1" "records w1 = records w @ [e]"
    using append_ok by (metis list.set_intros(1))
  then show ?case using Cons.IH [of w1] Cons.prems by auto
qed

text \<open>Recovery into an empty table finds, for every key, the last operation of the log.\<close>

lemma recover_get:
  assumes "winv w"
  shows "\<exists>t. recover w memtable_new = Inr t \<and> memtable_inv t \<and>
    (\<forall>k. k \<noteq> [] \<longrightarrow> memtable_get k t =
      Inr (case map_of (rev (map entry_kv (records w))) k of Some op \<Rightarrow> op | None \<Rightarrow> None))"
proof -
  have "\<forall>e \<in> set (records w). le_key e \<noteq> []"
    using records_fit [OF assms] by (auto simp: entry_fits_def entry_ok_def)
  from apply_entries_spec [OF memtable_inv_new this] obtain t
    where t: "apply_entries (records w) memtable_new = Inr t" "memtable_inv t"
      "\<forall>k. k \<noteq> [] \<longrightarrow> memtable_get k t =
        (case map_of (rev (map entry_kv (records w))) k of
           Some op \<Rightarrow> Inr op | None \<Rightarrow> memtable_get k memtable_new)"
    by blast
  moreover have "memtable_get k memtable_new = Inr None" if "k \<noteq> []" for k
    using that by (simp add: memtable_new_def memtable_get_eq bt_get_def)
  ultimately show ?thesis
    using recover_records [OF assms] by (auto split: option.splits)
qed

end

lemma append_all_unsynced_fold:
  assumes "wal_mgr_inv m" and "\<forall>e \<in> set es. entry_fits e"
  shows "\<exists>m'. append_batch_sync es m = Inr m' \<and> wal_mgr_inv m' \<and>
    dir_entries (wm_dir m') = dir_entries (wm_dir m) @ es \<and>
    (\<exists>f. bt_get (wd_files (wm_dir m')) (wm_active_id m') = Some f \<and> wf_synced f = length (wf_data f))"
proof -
  have "\<exists>m'. append_all_unsynced es m = Inr m' \<and> wal_mgr_inv m' \<and>
    dir_entries (wm_dir m') = dir_entries (wm_dir m) @ es"
    using assms
  proof (induction es arbitrary: m)
    case (Cons e es)
    obtain m1 where "active_append e False m = Inr m1" "wal_mgr_inv m1"
      "dir_entries (wm_dir m1) = dir_entries (wm_dir m) @ [e]"
      using active_append_spec [OF Cons.prems(1), of e False] Cons.prems(2) by auto
    then show ?case using Cons.IH [of m1] Cons.prems(2)
      by (auto simp: wal_mgr_append_unsynced_def)
  qed simp
  then show ?thesis using wal_mgr_sync_spec by (fastforce simp: append_batch_sync_def)
qed

section \<open>Both logs satisfy the interface\<close>

text \<open>
  A single log file (\<open>Wal::append_durable\<close>, \<open>replay_into_memtable\<close>), and the segment manager
  with either append (\<open>WalSegmentManager::append\<close> and \<open>append_unsynced\<close>, \<open>replay_all\<close>).
\<close>

interpretation file_log: write_ahead_log file_ok file_entries wal_append_durable
  "\<lambda>f t. try_bind (replay_into_memtable (wf_data f) t) (\<lambda>(_, t'). Inr t')"
proof unfold_locales
  fix f e assume "file_ok f" "entry_fits e"
  then show "\<exists>w'. wal_append_durable e f = Inr w' \<and> file_ok w' \<and> file_entries w' = file_entries f @ [e]"
    using wal_append_spec [of f e True] by (auto simp: wal_append_durable_def)
next
  fix f t assume "file_ok f"
  then show "try_bind (replay_into_memtable (wf_data f) t) (\<lambda>(_, t'). Inr t') =
      apply_entries (file_entries f) t"
    by (cases "apply_entries (file_entries f) t") (simp_all add: replay_into_memtable_def file_ok_read)
qed (rule file_ok_fits)

lemma wal_mgr_records_fit:
  "wal_mgr_inv m \<Longrightarrow> e \<in> set (dir_entries (wm_dir m)) \<Longrightarrow> entry_fits e"
  by (auto simp: wal_mgr_inv_def dir_ok_def dir_entries_def intro: file_ok_fits)

lemma wal_mgr_recover:
  "wal_mgr_inv m \<Longrightarrow> try_bind (replay_all (wm_dir m) t) (\<lambda>(_, t'). Inr t') =
     apply_entries (dir_entries (wm_dir m)) t"
  by (cases "apply_entries (dir_entries (wm_dir m)) t") (simp_all add: wal_mgr_inv_def replay_all_spec)

interpretation seg_log: write_ahead_log wal_mgr_inv "\<lambda>m. dir_entries (wm_dir m)" wal_mgr_append
  "\<lambda>m t. try_bind (replay_all (wm_dir m) t) (\<lambda>(_, t'). Inr t')"
  by unfold_locales (use active_append_spec in
      \<open>fastforce simp: wal_mgr_append_def wal_mgr_recover intro: wal_mgr_records_fit\<close>)+

interpretation seg_log_unsynced: write_ahead_log wal_mgr_inv "\<lambda>m. dir_entries (wm_dir m)"
  wal_mgr_append_unsynced "\<lambda>m t. try_bind (replay_all (wm_dir m) t) (\<lambda>(_, t'). Inr t')"
  by unfold_locales (use active_append_spec in
      \<open>fastforce simp: wal_mgr_append_unsynced_def wal_mgr_recover intro: wal_mgr_records_fit\<close>)+

section \<open>Histories of a segment manager\<close>

datatype wal_mgr_op =
    MAppend log_entry
  | MAppendUnsynced log_entry
  | MBatch "log_entry list"
  | MSync
  | MRotate

definition wal_mgr_step :: "wal_mgr_op \<Rightarrow> wal_mgr \<Rightarrow> storage_error + wal_mgr" where
  "wal_mgr_step op m =
     (case op of
        MAppend e \<Rightarrow> wal_mgr_append e m
      | MAppendUnsynced e \<Rightarrow> wal_mgr_append_unsynced e m
      | MBatch es \<Rightarrow> append_batch_sync es m
      | MSync \<Rightarrow> wal_mgr_sync m
      | MRotate \<Rightarrow> try_bind (wal_mgr_rotate m) (\<lambda>(_, m'). Inr m'))"

primrec wal_mgr_run :: "wal_mgr_op list \<Rightarrow> wal_mgr \<Rightarrow> storage_error + wal_mgr" where
  "wal_mgr_run [] m = Inr m"
| "wal_mgr_run (op # ops) m = try_bind (wal_mgr_step op m) (wal_mgr_run ops)"

primrec op_entries :: "wal_mgr_op \<Rightarrow> log_entry list" where
  "op_entries (MAppend e) = [e]"
| "op_entries (MAppendUnsynced e) = [e]"
| "op_entries (MBatch es) = es"
| "op_entries MSync = []"
| "op_entries MRotate = []"

lemma wal_mgr_step_spec:
  assumes "wal_mgr_inv m" and "\<forall>e \<in> set (op_entries op). entry_fits e"
  shows "\<exists>m'. wal_mgr_step op m = Inr m' \<and> wal_mgr_inv m' \<and>
    dir_entries (wm_dir m') = dir_entries (wm_dir m) @ op_entries op"
proof (cases op)
  case (MAppend e)
  then show ?thesis using seg_log.append_ok [OF assms(1)] assms(2) by (simp add: wal_mgr_step_def)
next
  case (MAppendUnsynced e)
  then show ?thesis using seg_log_unsynced.append_ok [OF assms(1)] assms(2) by (simp add: wal_mgr_step_def)
next
  case (MBatch es)
  then show ?thesis using append_all_unsynced_fold [OF assms(1)] assms(2) by (fastforce simp: wal_mgr_step_def)
next
  case MSync
  then show ?thesis using wal_mgr_sync_spec [OF assms(1)] by (auto simp: wal_mgr_step_def)
next
  case MRotate
  then show ?thesis using wal_mgr_rotate_spec [OF assms(1)] by (auto simp: wal_mgr_step_def)
qed

lemma wal_mgr_run_spec:
  "wal_mgr_inv m \<Longrightarrow> \<forall>op \<in> set ops. \<forall>e \<in> set (op_entries op). entry_fits e \<Longrightarrow>
     \<exists>m'. wal_mgr_run ops m = Inr m' \<and> wal_mgr_inv m' \<and>
       dir_entries (wm_dir m') = dir_entries (wm_dir m) @ concat (map op_entries ops)"
proof (induction ops arbitrary: m)
  case (Cons op ops)
  obtain m1 where "wal_mgr_step op m = Inr m1" "wal_mgr_inv m1"
    "dir_entries (wm_dir m1) = dir_entries (wm_dir m) @ op_entries op"
    using wal_mgr_step_spec [OF Cons.prems(1), of op] Cons.prems(2) by auto
  then show ?case using Cons.IH [of m1] Cons.prems(2) by auto
qed simp

section \<open>Properties\<close>

text \<open>
  C6. Recovery over segments: starting from an empty directory, in either sync mode, every
  history of appends, batches, syncs and rotations with records that fit the format succeeds;
  replaying all segments then counts exactly the records appended, and the table it builds
  reads every key as the last record on it, however the records were spread over segments.
\<close>

theorem wal_segments_recover:
  assumes "\<forall>op \<in> set ops. \<forall>e \<in> set (op_entries op). entry_fits e"
  shows "\<exists>m0 m t. wal_mgr_open mode \<lparr>wd_files = [], wd_current = None\<rparr> = Inr m0 \<and>
    wal_mgr_run ops m0 = Inr m \<and> wal_mgr_inv m \<and>
    replay_all (wm_dir m) memtable_new = Inr (length (concat (map op_entries ops)), t) \<and>
    (\<forall>k. k \<noteq> [] \<longrightarrow> memtable_get k t =
      Inr (case map_of (rev (map entry_kv (concat (map op_entries ops)))) k of
             Some op \<Rightarrow> op | None \<Rightarrow> None))"
proof -
  let ?d = "\<lparr>wd_files = [], wd_current = None\<rparr>"
  have "dir_ok ?d" by (simp add: dir_ok_def)
  then obtain m0 where m0: "wal_mgr_open mode ?d = Inr m0" "wal_mgr_inv m0" "dir_entries (wm_dir m0) = []"
    using wal_mgr_open_spec [of ?d mode] by (auto simp: dir_entries_def)
  obtain m where m: "wal_mgr_run ops m0 = Inr m" "wal_mgr_inv m"
    "dir_entries (wm_dir m) = concat (map op_entries ops)"
    using wal_mgr_run_spec [OF m0(2) assms] m0(3) by auto
  have ok: "dir_ok (wm_dir m)" using m(2) by (simp add: wal_mgr_inv_def)
  obtain t where t: "apply_entries (dir_entries (wm_dir m)) memtable_new = Inr t"
    "\<forall>k. k \<noteq> [] \<longrightarrow> memtable_get k t =
      Inr (case map_of (rev (map entry_kv (dir_entries (wm_dir m)))) k of Some op \<Rightarrow> op | None \<Rightarrow> None)"
    using seg_log.recover_get [OF m(2)] wal_mgr_recover [OF m(2)] by auto
  have "replay_all (wm_dir m) memtable_new = Inr (length (concat (map op_entries ops)), t)"
    using replay_all_spec [OF ok] t(1) m(3) by simp
  then show ?thesis using m0(1) m t(2) by auto
qed

theorem wal_segments_recover_witness:
  "\<exists>m0 m t. wal_mgr_open OnFlush \<lparr>wd_files = [], wd_current = None\<rparr> = Inr m0 \<and>
    wal_mgr_run [MAppend (entry_put [1] [2]), MRotate, MBatch [entry_delete [1], entry_put [3] [4]]] m0 = Inr m \<and>
    replay_all (wm_dir m) memtable_new = Inr (3, t) \<and>
    memtable_get [1] t = Inr None \<and> memtable_get [3] t = Inr (Some [4])"
proof -
  let ?ops = "[MAppend (entry_put [1] [2]), MRotate, MBatch [entry_delete [1], entry_put [3] [4]]]"
  have "\<forall>op \<in> set ?ops. \<forall>e \<in> set (op_entries op). entry_fits e"
    by (simp add: entry_fits_def entry_ok_def entry_put_def entry_delete_def)
  from wal_segments_recover [OF this, of OnFlush] show ?thesis
    by (auto simp: entry_kv_def entry_put_def entry_delete_def simp del: wal_mgr_run.simps)
qed

end
