(* ===== verification/Durable.thy ===== *)
theory Durable
  imports Wal_Segments
begin

text \<open>
  The durable store of \<^verbatim>\<open>crates/noedb-storage/src/durable.rs\<close>: one log file, an active table and
  a list of frozen tables (oldest first). It meets the put/get/iterate contract of the engine
  trait. Its \<open>delete\<close> removes from the active table only, so the full contract holds exactly for
  keys that no frozen table holds.
\<close>

section \<open>State and operations\<close>

record durable_store =
  ds_wal :: wal_file
  ds_active :: memtable
  ds_immutable :: "memtable list"
  ds_max_mem_bytes :: nat

definition durable_open :: "wal_file option \<Rightarrow> nat \<Rightarrow> storage_error + durable_store" where
  "durable_open path max_bytes =
     try_bind (wal_open path) (\<lambda>w.
       Inr \<lparr>ds_wal = w, ds_active = memtable_new, ds_immutable = [], ds_max_mem_bytes = max_bytes\<rparr>)"

definition durable_append ::
  "op_type \<Rightarrow> bytes \<Rightarrow> bytes option \<Rightarrow> durable_store \<Rightarrow> storage_error + durable_store" where
  "durable_append op key value s =
     try_bind
       (case op of
          Put \<Rightarrow>
            (case value of
               None \<Rightarrow> Inl (InvalidInput ''put requires value'')
             | Some val \<Rightarrow> Inr (entry_put key val))
        | Delete \<Rightarrow> Inr (entry_delete key))
       (\<lambda>entry. try_bind (wal_append_durable entry (ds_wal s)) (\<lambda>w. Inr (s\<lparr>ds_wal := w\<rparr>)))"

definition maybe_rotate :: "durable_store \<Rightarrow> durable_store" where
  "maybe_rotate s =
     (if ds_max_mem_bytes s \<le> approx_bytes (ds_active s)
      then s\<lparr>ds_active := memtable_new, ds_immutable := ds_immutable s @ [ds_active s]\<rparr>
      else s)"

definition durable_put :: "bytes \<Rightarrow> bytes \<Rightarrow> durable_store \<Rightarrow> storage_error + durable_store" where
  "durable_put key value s =
     try_bind (durable_append Put key (Some value) s) (\<lambda>s.
     try_bind (memtable_put key value (ds_active s)) (\<lambda>t.
       Inr (maybe_rotate (s\<lparr>ds_active := t\<rparr>))))"

definition durable_delete ::
  "bytes \<Rightarrow> durable_store \<Rightarrow> storage_error + (bool \<times> durable_store)" where
  "durable_delete key s =
     try_bind (durable_append Delete key None s) (\<lambda>s.
     try_bind (memtable_delete key (ds_active s)) (\<lambda>(removed, t).
       Inr (removed, maybe_rotate (s\<lparr>ds_active := t\<rparr>))))"

primrec tables_get :: "bytes \<Rightarrow> memtable list \<Rightarrow> storage_error + bytes option" where
  "tables_get key [] = Inr None"
| "tables_get key (t # ts) =
     try_bind (memtable_get key t) (\<lambda>r.
       case r of Some v \<Rightarrow> Inr (Some v) | None \<Rightarrow> tables_get key ts)"

definition durable_get :: "bytes \<Rightarrow> durable_store \<Rightarrow> storage_error + bytes option" where
  "durable_get key s =
     try_bind (memtable_get key (ds_active s)) (\<lambda>r.
       case r of
         Some v \<Rightarrow> Inr (Some v)
       | None \<Rightarrow> tables_get key (rev (ds_immutable s)))"

definition durable_iter :: "durable_store \<Rightarrow> (bytes \<times> bytes) list" where
  "durable_iter s =
     fold (\<lambda>t merged. fold (\<lambda>(k, v) m. bt_insert k v m) (memtable_iter t) merged)
       (ds_immutable s @ [ds_active s]) []"

section \<open>Invariant and contract\<close>

definition durable_inv :: "durable_store \<Rightarrow> bool" where
  "durable_inv s \<longleftrightarrow> memtable_inv (ds_active s) \<and> (\<forall>t \<in> set (ds_immutable s). memtable_inv t)"

lemma tables_get_eq:
  "k \<noteq> [] \<Longrightarrow> tables_get k ts = Inr (map_of (concat (map mt_map ts)) k)"
  by (induction ts) (auto simp: memtable_get_eq bt_get_def map_add_def split: option.splits)

lemma durable_get_eq:
  "k \<noteq> [] \<Longrightarrow> durable_get k s = tables_get k (ds_active s # rev (ds_immutable s))"
  by (simp add: durable_get_def)

lemma durable_append_put:
  "k \<noteq> [] \<Longrightarrow> \<exists>w. durable_append Put k (Some v) s = Inr (s\<lparr>ds_wal := w\<rparr>) \<and>
     wal_append_durable (entry_put k v) (ds_wal s) = Inr w"
  by (simp add: durable_append_def wal_append_durable_def wal_append_def entry_encode_ok entry_put_def entry_ok_def)

lemma durable_append_delete:
  "k \<noteq> [] \<Longrightarrow> \<exists>w. durable_append Delete k None s = Inr (s\<lparr>ds_wal := w\<rparr>) \<and>
     wal_append_durable (entry_delete k) (ds_wal s) = Inr w"
  by (simp add: durable_append_def wal_append_durable_def wal_append_def entry_encode_ok entry_delete_def entry_ok_def)

lemma maybe_rotate_get:
  "k \<noteq> [] \<Longrightarrow> durable_get k (maybe_rotate s) = durable_get k s"
  by (simp add: maybe_rotate_def durable_get_eq memtable_get_eq memtable_new_def bt_get_def)

lemma maybe_rotate_inv [inv_intros]: "durable_inv s \<Longrightarrow> durable_inv (maybe_rotate s)"
  by (simp add: maybe_rotate_def durable_inv_def)

lemma maybe_rotate_wal [simp]: "ds_wal (maybe_rotate s) = ds_wal s"
  by (simp add: maybe_rotate_def)

lemma durable_put_eq:
  assumes "k \<noteq> []"
  shows "\<exists>w t. wal_append_durable (entry_put k v) (ds_wal s) = Inr w \<and>
    memtable_put k v (ds_active s) = Inr t \<and>
    durable_put k v s = Inr (maybe_rotate (s\<lparr>ds_wal := w, ds_active := t\<rparr>))"
proof -
  obtain t where t: "memtable_put k v (ds_active s) = Inr t"
    using assms by (simp add: memtable_put_eq)
  then show ?thesis using durable_append_put [OF assms, of v s] by (auto simp: durable_put_def)
qed

lemma durable_put_empty: "durable_put [] v s = Inl (InvalidInput ''WAL key must not be empty'')"
  by (simp add: durable_put_def durable_append_def wal_append_durable_def wal_append_def
      entry_encode_def entry_put_def)

lemma fold_fold_concat:
  "fold (\<lambda>t acc. fold f (g t) acc) ts m = fold f (concat (map g ts)) m"
  by (induction ts arbitrary: m) simp_all

lemma map_of_rev_sorted: "bt_sorted m \<Longrightarrow> map_of (rev m) = map_of m"
  using map_of_inject_set [of "rev m" m]
  by (simp add: bt_sorted_def strict_sorted_iff rev_map [symmetric])

lemma map_of_rev_tables:
  "\<forall>t \<in> set ts. memtable_inv t \<Longrightarrow>
     map_of (rev (concat (map mt_map ts))) = map_of (concat (map mt_map (rev ts)))"
  by (induction ts) (simp_all add: memtable_inv_def map_of_rev_sorted)

lemma durable_iter_sorted: "bt_sorted (durable_iter s)"
  unfolding durable_iter_def fold_fold_concat by (rule bt.invar_fold_insert [OF bt.invar_empty])

lemma durable_iter_get:
  assumes "durable_inv s" and "k \<noteq> []"
  shows "durable_get k s = Inr (bt_get (durable_iter s) k)"
proof -
  let ?ts = "ds_immutable s @ [ds_active s]"
  have "bt_get (durable_iter s) k = map_of (rev (concat (map mt_map ?ts))) k"
    unfolding durable_iter_def fold_fold_concat memtable_iter_def
    by (subst bt.get_fold_insert [OF bt.invar_empty])
      (simp add: bt_get_def split: option.split del: concat_append rev_append map_append)
  also have "\<dots> = map_of (concat (map mt_map (rev ?ts))) k"
    using assms(1) by (subst map_of_rev_tables) (auto simp: durable_inv_def)
  finally show ?thesis
    using tables_get_eq [OF assms(2), of "ds_active s # rev (ds_immutable s)"] assms(2)
    by (simp add: durable_get_eq split: option.split del: tables_get.simps)
qed

lemma durable_put_inv [inv_intros]:
  assumes "durable_inv s" and "durable_put k v s = Inr s'"
  shows "durable_inv s'"
proof -
  have "k \<noteq> []" using assms(2) durable_put_empty by fastforce
  then obtain w t where t: "memtable_put k v (ds_active s) = Inr t"
    "s' = maybe_rotate (s\<lparr>ds_wal := w, ds_active := t\<rparr>)"
    using durable_put_eq [of k v s] assms(2) by auto
  then show ?thesis
    using assms(1) memtable_inv_put [OF _ t(1)] unfolding t(2)
    by (intro maybe_rotate_inv) (simp add: durable_inv_def)
qed

lemma durable_get_put:
  assumes "durable_inv s" and "durable_put k v s = Inr s'" and "k' \<noteq> []"
  shows "durable_get k' s' = (if k' = k then Inr (Some v) else durable_get k' s)"
proof -
  have "k \<noteq> []" using assms(2) durable_put_empty by fastforce
  then obtain w t where t: "memtable_put k v (ds_active s) = Inr t"
    "s' = maybe_rotate (s\<lparr>ds_wal := w, ds_active := t\<rparr>)"
    using durable_put_eq [of k v s] assms(2) by auto
  have "memtable_get k' t = (if k' = k then Inr (Some v) else memtable_get k' (ds_active s))"
    using mem.get_put [OF _ t(1) assms(3)] assms(1) by (simp add: durable_inv_def)
  then show ?thesis
    using assms(3) by (simp add: t(2) maybe_rotate_get) (auto simp: durable_get_def cong: option.case_cong)
qed

interpretation dur: storage_put durable_inv durable_get durable_put durable_iter
  by unfold_locales
    (use durable_put_eq in blast, auto simp: durable_get_put durable_iter_sorted durable_iter_get intro: durable_put_inv)

section \<open>Delete\<close>

text \<open>
  What \<open>delete\<close> does: afterwards the key reads as the newest frozen table that holds it, and
  as absent if none does; every other key reads as before.
\<close>

lemma durable_delete_eq:
  assumes "k \<noteq> []"
  shows "\<exists>w b t. wal_append_durable (entry_delete k) (ds_wal s) = Inr w \<and>
    memtable_delete k (ds_active s) = Inr (b, t) \<and>
    durable_delete k s = Inr (b, maybe_rotate (s\<lparr>ds_wal := w, ds_active := t\<rparr>))"
proof -
  obtain b t where t: "memtable_delete k (ds_active s) = Inr (b, t)"
    using assms that by (cases "bt_get (mt_map (ds_active s)) k") (simp_all add: memtable_delete_eq)
  then show ?thesis using durable_append_delete [OF assms, of s] by (auto simp: durable_delete_def)
qed

lemma durable_delete_spec:
  assumes "durable_inv s" and "k \<noteq> []"
  shows "\<exists>b s'. durable_delete k s = Inr (b, s') \<and> durable_inv s' \<and>
    b = (memtable_get k (ds_active s) \<noteq> Inr None) \<and>
    (\<forall>k'. k' \<noteq> [] \<longrightarrow> durable_get k' s' =
      (if k' = k then tables_get k (rev (ds_immutable s)) else durable_get k' s))"
proof -
  obtain w b t where t: "memtable_delete k (ds_active s) = Inr (b, t)"
    and del: "durable_delete k s = Inr (b, maybe_rotate (s\<lparr>ds_wal := w, ds_active := t\<rparr>))"
    using durable_delete_eq [OF assms(2)] by blast
  have inv: "memtable_inv (ds_active s)" using assms(1) by (simp add: durable_inv_def)
  have b: "b = (memtable_get k (ds_active s) \<noteq> Inr None)" and "memtable_inv t"
    using mem.delete_ok [OF inv assms(2)] t by auto
  then have "durable_inv (maybe_rotate (s\<lparr>ds_wal := w, ds_active := t\<rparr>))"
    using assms(1) by (intro maybe_rotate_inv) (simp add: durable_inv_def)
  moreover have "memtable_get k' t = (if k' = k then Inr None else memtable_get k' (ds_active s))"
    if "k' \<noteq> []" for k' using mem.get_delete [OF inv t that] .
  ultimately show ?thesis
    using del b by (auto simp: maybe_rotate_get) (simp_all add: durable_get_def cong: option.case_cong)
qed

section \<open>Recovery\<close>

text \<open>The log of a store is a well-formed log file as long as every accepted record fits.\<close>

lemma durable_put_log:
  assumes "file_ok (ds_wal s)" and "entry_fits (entry_put k v)" and "durable_put k v s = Inr s'"
  shows "file_ok (ds_wal s') \<and> file_entries (ds_wal s') = file_entries (ds_wal s) @ [entry_put k v]"
proof -
  have "k \<noteq> []" using assms(2) by (simp add: entry_fits_def entry_ok_def entry_put_def)
  then show ?thesis
    using durable_put_eq [of k v s] file_log.append_ok [OF assms(1,2)] assms(3) by auto
qed

lemma durable_delete_log:
  assumes "file_ok (ds_wal s)" and "entry_fits (entry_delete k)" and "durable_delete k s = Inr (b, s')"
  shows "file_ok (ds_wal s') \<and> file_entries (ds_wal s') = file_entries (ds_wal s) @ [entry_delete k]"
proof -
  have "k \<noteq> []" using assms(2) by (simp add: entry_fits_def entry_ok_def entry_delete_def)
  then show ?thesis
    using durable_delete_eq [of k s] file_log.append_ok [OF assms(1,2)] assms(3) by auto
qed

lemma durable_puts_log:
  assumes "file_ok (ds_wal s)" and "\<forall>(k, v) \<in> set kvs. entry_fits (entry_put k v)"
    and "engine_run durable_put durable_delete (map (\<lambda>(k, v). (k, Some v)) kvs) s = Inr s'"
  shows "file_ok (ds_wal s') \<and>
    file_entries (ds_wal s') = file_entries (ds_wal s) @ map (\<lambda>(k, v). entry_put k v) kvs"
  using assms
proof (induction kvs arbitrary: s)
  case (Cons kv kvs)
  obtain k v where kv: "kv = (k, v)" by (cases kv)
  obtain s1 where s1: "durable_put k v s = Inr s1"
    using Cons.prems(3) by (cases "durable_put k v s") (auto simp: kv)
  show ?case
    using durable_put_log [OF Cons.prems(1) _ s1] Cons.IH [of s1] Cons.prems(2,3) by (auto simp: kv s1)
qed simp

section \<open>Properties\<close>

text \<open>
  C5. Crash recovery of the durable store: after any history of accepted puts on a fresh
  store, whatever the rotation threshold, replaying the log file into an empty table
  succeeds, and the recovered table answers every read exactly as the running store did;
  the last value put for a key is what both return.
\<close>

theorem durable_recovers_puts:
  assumes "durable_open None max_bytes = Inr s0"
    and "\<forall>(k, v) \<in> set kvs. entry_fits (entry_put k v)"
  shows "\<exists>s t n. engine_run durable_put durable_delete (map (\<lambda>(k, v). (k, Some v)) kvs) s0 = Inr s \<and>
    replay_into_memtable (wf_data (ds_wal s)) memtable_new = Inr (n, t) \<and> n = length kvs \<and>
    (\<forall>k. k \<noteq> [] \<longrightarrow> durable_get k s = memtable_get k t \<and>
      durable_get k s = Inr (map_of (rev kvs) k))"
proof -
  obtain f where f: "wal_open None = Inr f" "file_ok f" "file_entries f = []"
    using wal_open_spec [of None] by auto
  have s0: "s0 = \<lparr>ds_wal = f, ds_active = memtable_new, ds_immutable = [], ds_max_mem_bytes = max_bytes\<rparr>"
    using assms(1) by (simp add: durable_open_def f(1))
  have inv: "durable_inv s0" and none: "k \<noteq> [] \<Longrightarrow> durable_get k s0 = Inr None" for k
    by (simp add: s0 durable_inv_def) (simp add: s0 durable_get_def memtable_get_eq memtable_new_def bt_get_def)
  have "\<forall>(k, v) \<in> set kvs. k \<noteq> []"
    using assms(2) by (auto simp: entry_fits_def entry_ok_def entry_put_def)
  then obtain s where run: "engine_run durable_put durable_delete (map (\<lambda>(k, v). (k, Some v)) kvs) s0 = Inr s"
    and get: "\<forall>k. k \<noteq> [] \<longrightarrow> durable_get k s =
      (case map_of (rev kvs) k of Some v \<Rightarrow> Inr (Some v) | None \<Rightarrow> durable_get k s0)"
    using dur.put_all [OF inv] by blast
  have log: "file_ok (ds_wal s)" "file_entries (ds_wal s) = map (\<lambda>(k, v). entry_put k v) kvs"
    using durable_puts_log [OF _ assms(2) run] f by (simp_all add: s0)
  obtain t where t: "apply_entries (file_entries (ds_wal s)) memtable_new = Inr t"
    and rec: "\<forall>k. k \<noteq> [] \<longrightarrow> memtable_get k t =
      Inr (case map_of (rev (map entry_kv (file_entries (ds_wal s)))) k of Some op \<Rightarrow> op | None \<Rightarrow> None)"
    using file_log.recover_get [OF log(1)] file_log.recover_records [OF log(1)] by auto
  have "rev (map entry_kv (file_entries (ds_wal s))) = map (\<lambda>(k, v). (k, Some v)) (rev kvs)"
    by (auto simp: log(2) rev_map entry_kv_def entry_put_def)
  then have "map_of (rev (map entry_kv (file_entries (ds_wal s)))) k = map_option Some (map_of (rev kvs) k)" for k
    by (simp add: map_of_map)
  moreover have "replay_into_memtable (wf_data (ds_wal s)) memtable_new = Inr (length kvs, t)"
    using t file_ok_read [OF log(1)] log(2) by (simp add: replay_into_memtable_def)
  ultimately show ?thesis
    using run get rec none by (intro exI [of _ s] exI [of _ t] exI [of _ "length kvs"]) (simp split: option.splits)
qed

theorem durable_recovers_puts_witness:
  "\<exists>s0 s t n. durable_open None 1 = Inr s0 \<and>
    engine_run durable_put durable_delete [([7], Some [1]), ([7], Some [2])] s0 = Inr s \<and>
    replay_into_memtable (wf_data (ds_wal s)) memtable_new = Inr (n, t) \<and>
    durable_get [7] s = Inr (Some [2]) \<and> memtable_get [7] t = Inr (Some [2])"
proof -
  obtain s0 where "durable_open None 1 = Inr s0"
    by (simp add: durable_open_def wal_open_def)
  moreover have "\<forall>(k, v) \<in> set [([7], [1]), ([7], [2])]. entry_fits (entry_put k v)"
    by (simp add: entry_fits_def entry_ok_def entry_put_def)
  ultimately obtain s t n where
    run: "engine_run durable_put durable_delete (map (\<lambda>(k, v). (k, Some v)) [([7], [1]), ([7], [2])]) s0 = Inr s"
    and "replay_into_memtable (wf_data (ds_wal s)) memtable_new = Inr (n, t)"
    and get: "\<forall>k. k \<noteq> [] \<longrightarrow> durable_get k s = memtable_get k t \<and>
      durable_get k s = Inr (map_of (rev [([7], [1]), ([7], [2])]) k)"
    using durable_recovers_puts [of 1 s0 "[([7], [1]), ([7], [2])]"] by blast
  moreover have "durable_get [7] s = Inr (Some [2])" "memtable_get [7] t = Inr (Some [2])"
    using get [THEN spec, of "[7]"] by auto
  moreover have "engine_run durable_put durable_delete [([7], Some [1]), ([7], Some [2])] s0 = Inr s"
    using run by (simp only: list.map split_conv)
  ultimately show ?thesis using \<open>durable_open None 1 = Inr s0\<close> by blast
qed

text \<open>
  A delete does not reach the frozen tables: for every store and every non-empty key the
  delete is accepted, the key afterwards reads as the newest frozen table that holds it (so a
  value frozen earlier is visible again although the log records the delete), it is reported
  as removed only if the active table held it, and all other keys are unaffected.
\<close>

theorem durable_delete_reads_frozen:
  assumes "durable_inv s" and "k \<noteq> []"
  shows "\<exists>b s'. durable_delete k s = Inr (b, s') \<and>
    durable_get k s' = Inr (map_of (concat (map mt_map (rev (ds_immutable s)))) k) \<and>
    b = (bt_get (mt_map (ds_active s)) k \<noteq> None) \<and>
    (\<forall>k'. k' \<noteq> [] \<longrightarrow> k' \<noteq> k \<longrightarrow> durable_get k' s' = durable_get k' s)"
  using durable_delete_spec [OF assms] assms(2) by (auto simp: tables_get_eq memtable_get_eq)

text \<open>The witness is a store that has frozen a table holding the key.\<close>

theorem durable_delete_reads_frozen_witness:
  "\<exists>s s' b. durable_inv s \<and> durable_delete [7] s = Inr (b, s') \<and> \<not> b \<and>
    durable_get [7] s' = Inr (Some [1])"
proof -
  let ?frozen = "\<lparr>mt_map = [([7], [1])], mt_bytes = entry_bytes [7] [1]\<rparr>"
  let ?s = "\<lparr>ds_wal = \<lparr>wf_data = wal_header, wf_synced = 6\<rparr>, ds_active = memtable_new,
    ds_immutable = [?frozen], ds_max_mem_bytes = 1\<rparr>"
  have inv: "durable_inv ?s"
    by (simp add: durable_inv_def) (simp add: memtable_inv_def bt_sorted_def)
  show ?thesis
    using durable_delete_reads_frozen [OF inv, of "[7]"] inv
    by (auto simp: memtable_new_def bt_get_def)
qed

end
