(* ===== verification/Bloom.thy ===== *)
theory Bloom
  imports Checksum
begin

text \<open>
  The Bloom filter of \<^verbatim>\<open>crates/noedb-storage/src/bloom.rs\<close>. The two sizing formulas are
  floating point; their integral results before clamping are the parameters \<open>raw_m\<close> and
  \<open>raw_k\<close>, the clamping is modelled. A filter decoded from a file may have \<open>m = 0\<close>, and then
  the remainder in \<^verbatim>\<open>double_hash\<close> panics.
\<close>

unbundle bit_operations_syntax

section \<open>Definitions\<close>

record bloom =
  bl_bits :: bytes
  bl_m :: u32
  bl_k :: u32

definition hash_pair :: "bytes \<Rightarrow> u32 \<times> u32" where
  "hash_pair key =
     (let h1 = crc32 key;
          h2 = crc32 (u32_to_le h1 @ key) OR 1
      in (h1, h2))"

definition double_hash :: "u32 \<Rightarrow> u32 \<Rightarrow> u32 \<Rightarrow> u32 \<Rightarrow> u32" where
  "double_hash h1 h2 i m = (h1 + i * h2) mod m"

definition set_bit_at :: "u32 \<Rightarrow> bytes \<Rightarrow> bytes" where
  "set_bit_at idx bits =
     (let byte = unat (idx div 8); b = unat (idx mod 8) in
      if byte < length bits then bits[byte := bits ! byte OR push_bit b 1] else bits)"

definition get_bit_at :: "u32 \<Rightarrow> bytes \<Rightarrow> bool" where
  "get_bit_at idx bits =
     (let byte = unat (idx div 8); b = unat (idx mod 8) in
      byte < length bits \<and> bits ! byte AND push_bit b 1 \<noteq> 0)"

text \<open>The probes \<^verbatim>\<open>for i in 0..self.k\<close>.\<close>

definition probes :: "bytes \<Rightarrow> bloom \<Rightarrow> u32 list" where
  "probes key f =
     (let (h1, h2) = hash_pair key
      in map (\<lambda>i. double_hash h1 h2 (of_nat i) (bl_m f)) [0..<unat (bl_k f)])"

definition bloom_insert :: "bytes \<Rightarrow> bloom \<Rightarrow> fault + bloom" where
  "bloom_insert key f =
     (if bl_m f = 0 \<and> bl_k f \<noteq> 0 then Inl Panic
      else Inr (f\<lparr>bl_bits := fold set_bit_at (probes key f) (bl_bits f)\<rparr>))"

definition may_contain :: "bytes \<Rightarrow> bloom \<Rightarrow> fault + bool" where
  "may_contain key f =
     (if bl_m f = 0 \<and> bl_k f \<noteq> 0 then Inl Panic
      else Inr (list_all (\<lambda>idx. get_bit_at idx (bl_bits f)) (probes key f)))"

primrec bloom_insert_all :: "bytes list \<Rightarrow> bloom \<Rightarrow> fault + bloom" where
  "bloom_insert_all [] f = Inr f"
| "bloom_insert_all (key # keys) f = try_bind (bloom_insert key f) (bloom_insert_all keys)"

definition bloom_size_m :: "(nat \<Rightarrow> int) \<Rightarrow> nat \<Rightarrow> u32" where
  "bloom_size_m raw_m n = word_of_int (min (max (raw_m n) 64) (2 ^ 32 - 1))"

definition bloom_size_k :: "(u32 \<Rightarrow> nat \<Rightarrow> int) \<Rightarrow> u32 \<Rightarrow> nat \<Rightarrow> u32" where
  "bloom_size_k raw_k m n = word_of_int (min (max (raw_k m n) 1) 30)"

definition bloom_build ::
  "(nat \<Rightarrow> int) \<Rightarrow> (u32 \<Rightarrow> nat \<Rightarrow> int) \<Rightarrow> bytes list \<Rightarrow> nat \<Rightarrow> fault + bloom" where
  "bloom_build raw_m raw_k keys expected_keys =
     (let n_keys = min (max expected_keys 1) (2 ^ 32 - 1);
          m = bloom_size_m raw_m n_keys;
          k = bloom_size_k raw_k m n_keys
      in bloom_insert_all keys
           \<lparr>bl_bits = replicate ((unat m + 7) div 8) 0, bl_m = m, bl_k = k\<rparr>)"

definition bloom_encode :: "bloom \<Rightarrow> bytes" where
  "bloom_encode f = u32_to_le (bl_m f) @ [ucast (bl_k f)] @ [0, 0, 0] @ bl_bits f"

definition bloom_decode :: "bytes \<Rightarrow> storage_error + bloom" where
  "bloom_decode data =
     (if length data < 8 then Inl (CorruptSstable ''truncated bloom filter'')
      else Inr \<lparr>bl_bits = drop 8 data, bl_m = u32_of_le (take 4 data), bl_k = ucast (data ! 4)\<rparr>)"

section \<open>Bits\<close>

lemma and_push_bit_1: "b < 8 \<Longrightarrow> (w AND push_bit b 1 \<noteq> 0) = bit (w :: u8) b"
proof
  assume b: "b < 8"
  show "bit w b" if nz: "w AND push_bit b 1 \<noteq> 0"
  proof (rule ccontr)
    assume "\<not> bit w b"
    then have "w AND push_bit b 1 = 0" by (intro bit_word_eqI) (auto simp: bit_simps)
    with nz show False by contradiction
  qed
  show "w AND push_bit b 1 \<noteq> 0" if "bit w b"
  proof
    assume "w AND push_bit b 1 = 0"
    then have "\<not> bit (w AND push_bit b 1) b" by simp
    with that b show False by (simp add: bit_simps del: push_bit_of_1)
  qed
qed

lemma bit_index: "unat ((idx :: u32) div 8) = unat idx div 8" "unat (idx mod 8) = unat idx mod 8"
  by (simp_all add: unat_div unat_mod)

lemma get_bit_iff:
  "get_bit_at idx bits \<longleftrightarrow> unat idx div 8 < length bits \<and> bit (bits ! (unat idx div 8)) (unat idx mod 8)"
  unfolding get_bit_at_def Let_def bit_index by (simp only: and_push_bit_1 [OF mod_less_divisor])

lemma set_bit_eq:
  "set_bit_at idx bits =
     (if unat idx div 8 < length bits
      then bits[unat idx div 8 := bits ! (unat idx div 8) OR push_bit (unat idx mod 8) 1] else bits)"
  unfolding set_bit_at_def Let_def bit_index ..

lemma get_set_bit:
  "get_bit_at j (set_bit_at i bits) \<longleftrightarrow> i = j \<and> unat i div 8 < length bits \<or> get_bit_at j bits"
proof -
  have "unat i = unat j" if "unat i div 8 = unat j div 8" "unat i mod 8 = unat j mod 8"
    using that by (metis div_mult_mod_eq)
  then have "i = j" if "unat i div 8 = unat j div 8" "unat i mod 8 = unat j mod 8"
    using that word_unat_eq_iff by blast
  then show ?thesis
    by (auto simp: get_bit_iff set_bit_eq nth_list_update bit_simps simp del: push_bit_of_1)
qed

lemma length_set_bit [simp]: "length (set_bit_at i bits) = length bits"
  by (simp add: set_bit_at_def Let_def)

lemma length_fold_set_bit [simp]: "length (fold set_bit_at is bits) = length bits"
  by (induction "is" arbitrary: bits) simp_all

lemma get_fold_set_bit:
  "get_bit_at j (fold set_bit_at is bits) \<longleftrightarrow>
     j \<in> set is \<and> unat j div 8 < length bits \<or> get_bit_at j bits"
  by (induction "is" arbitrary: bits) (auto simp: get_set_bit)

section \<open>No false negatives\<close>

definition bloom_inv :: "bloom \<Rightarrow> bool" where
  "bloom_inv f \<longleftrightarrow> 64 \<le> unat (bl_m f) \<and> length (bl_bits f) = (unat (bl_m f) + 7) div 8 \<and>
     1 \<le> unat (bl_k f) \<and> unat (bl_k f) \<le> 30"

lemma bloom_inv_m: "bloom_inv f \<Longrightarrow> bl_m f \<noteq> 0"
  by (auto simp: bloom_inv_def)

lemma probes_upd [simp]: "probes key (f\<lparr>bl_bits := b\<rparr>) = probes key f"
  by (simp add: probes_def)

lemma probe_in_range:
  assumes "bloom_inv f" and "j \<in> set (probes key f)"
  shows "unat j div 8 < length (bl_bits f)"
proof -
  obtain x where "j = x mod bl_m f"
    using assms(2) by (auto simp: probes_def double_hash_def split: prod.splits)
  then have "unat j < unat (bl_m f)"
    using assms(1) by (auto simp: unat_mod bloom_inv_def)
  then show ?thesis using assms(1) by (auto simp: bloom_inv_def)
qed

lemma bloom_insert_ok:
  assumes "bloom_inv f"
  shows "\<exists>f'. bloom_insert key f = Inr f' \<and> bloom_inv f' \<and> may_contain key f' = Inr True \<and>
    (\<forall>key'. may_contain key' f = Inr True \<longrightarrow> may_contain key' f' = Inr True)"
  using assms probe_in_range [OF assms] bloom_inv_m [OF assms]
  by (auto simp: bloom_insert_def may_contain_def bloom_inv_def list_all_iff get_fold_set_bit)

lemma bloom_insert_all_ok:
  "bloom_inv f \<Longrightarrow> \<exists>f'. bloom_insert_all keys f = Inr f' \<and> bloom_inv f' \<and>
     bl_m f' = bl_m f \<and> bl_k f' = bl_k f \<and>
     (\<forall>key. key \<in> set keys \<or> may_contain key f = Inr True \<longrightarrow> may_contain key f' = Inr True)"
proof (induction keys arbitrary: f)
  case (Cons key keys)
  obtain f1 where f1: "bloom_insert key f = Inr f1" "bloom_inv f1" "may_contain key f1 = Inr True"
    "\<forall>key'. may_contain key' f = Inr True \<longrightarrow> may_contain key' f1 = Inr True"
    using bloom_insert_ok [OF Cons.prems] by blast
  then have "bl_m f1 = bl_m f" "bl_k f1 = bl_k f" by (auto simp: bloom_insert_def split: if_splits)
  then show ?case using Cons.IH [OF f1(2)] f1 by auto
qed simp

lemma bloom_build_ok:
  "\<exists>f. bloom_build raw_m raw_k keys n = Inr f \<and> bloom_inv f \<and>
     (\<forall>key \<in> set keys. may_contain key f = Inr True)"
proof -
  define n' where "n' = min (max n 1) (2 ^ 32 - 1)"
  define m where "m = bloom_size_m raw_m n'"
  define k where "k = bloom_size_k raw_k m n'"
  have "64 \<le> unat m"
    by (simp add: m_def bloom_size_m_def unsigned_of_int take_bit_int_eq_self)
  moreover have "1 \<le> unat k \<and> unat k \<le> 30"
    by (simp add: k_def bloom_size_k_def unsigned_of_int take_bit_int_eq_self) linarith
  ultimately have "bloom_inv \<lparr>bl_bits = replicate ((unat m + 7) div 8) 0, bl_m = m, bl_k = k\<rparr>"
    by (simp add: bloom_inv_def)
  from bloom_insert_all_ok [OF this, of keys] show ?thesis
    by (auto simp: bloom_build_def Let_def m_def k_def n'_def)
qed

lemma bloom_decode_encode:
  assumes "bloom_inv f"
  shows "bloom_decode (bloom_encode f) = Inr f"
proof -
  have "ucast (ucast (bl_k f) :: u8) = bl_k f"
    using assms by (intro word_unat_eq_iff [THEN iffD2])
      (simp add: bloom_inv_def unsigned_ucast_eq unsigned_take_bit_eq take_bit_nat_eq_self)
  then show ?thesis
    by (simp add: bloom_decode_def bloom_encode_def nth_append)
qed

lemma length_bloom_encode: "length (bloom_encode f) = 8 + length (bl_bits f)"
  by (simp add: bloom_encode_def)

section \<open>Properties\<close>

text \<open>
  C20. The filter has no false negatives, and keeps them out through the file: for every
  result of the sizing formulas and every list of keys, building the filter never panics, and
  the filter decoded from its encoding answers \<open>true\<close> for each of the keys.
\<close>

theorem bloom_no_false_negatives:
  "\<exists>f. bloom_build raw_m raw_k keys n = Inr f \<and> bloom_decode (bloom_encode f) = Inr f \<and>
     set keys \<subseteq> {key. may_contain key f = Inr True}"
  using bloom_build_ok [of raw_m raw_k keys n] bloom_decode_encode by blast

end
