(* ===== verification/Sst_Writer.thy ===== *)
theory Sst_Writer
  imports Bloom Memtable
begin

text \<open>
  Sorted string tables, writing side: the constants of \<^verbatim>\<open>sstable/format.rs\<close>, the block codec of
  \<^verbatim>\<open>sstable/block.rs\<close> and the writer of \<^verbatim>\<open>sstable/writer.rs\<close>. The CRC32C of the external crate is
  the parameter \<open>c\<close>. The layout lemma describes the file the writer produces: the entries are
  cut into consecutive non-empty groups, one block and one index entry per group.
\<close>

section \<open>Format\<close>

definition SST_MAGIC :: bytes where "SST_MAGIC = [78, 79, 69, 83]"
definition SST_VERSION :: nat where "SST_VERSION = 1"
definition SST_VERSION_V2 :: nat where "SST_VERSION_V2 = 2"
definition SST_VERSION_V3 :: nat where "SST_VERSION_V3 = 3"
definition BLOCK_SIZE :: nat where "BLOCK_SIZE = 4096"
definition SST_HEADER_LEN :: nat where "SST_HEADER_LEN = 16"
definition FOOTER_LEN :: nat where "FOOTER_LEN = 32"
definition LEGACY_BLOCK_HEADER :: nat where "LEGACY_BLOCK_HEADER = 4"
definition CHECKSUM_BLOCK_HEADER :: nat where "CHECKSUM_BLOCK_HEADER = 8"

record index_entry =
  ix_first_key :: bytes
  ix_offset :: nat

record sst_footer =
  ft_index_offset :: nat
  ft_index_count :: nat
  ft_bloom_offset :: nat

section \<open>Blocks and records\<close>

definition encode_block :: "(bytes \<Rightarrow> u32) \<Rightarrow> bytes \<Rightarrow> bytes" where
  "encode_block c payload = nat_to_le 4 (length payload) @ u32_to_le (c payload) @ payload"

definition decode_block_at :: "(bytes \<Rightarrow> u32) \<Rightarrow> bytes \<Rightarrow> nat \<Rightarrow> bool \<Rightarrow> storage_error + bytes" where
  "decode_block_at c data off checksum_blocks =
     (let header = (if checksum_blocks then CHECKSUM_BLOCK_HEADER else LEGACY_BLOCK_HEADER) in
      if length data < off + header then Inl (CorruptSstable ''block length header past EOF'')
      else
        let len = nat_of_le (take 4 (drop off data)) in
        if checksum_blocks then
          let checksum = u32_of_le (take 4 (drop (off + 4) data));
              start = off + CHECKSUM_BLOCK_HEADER
          in
            if length data < start + len then Inl (CorruptSstable ''block past EOF'')
            else
              let payload = take len (drop start data) in
              if c payload \<noteq> checksum then Inl ChecksumMismatch else Inr payload
        else
          let payload_start = off + LEGACY_BLOCK_HEADER in
          if length data < payload_start + len then Inl (CorruptSstable ''block past EOF'')
          else Inr (take len (drop payload_start data)))"

definition encode_record :: "bytes \<Rightarrow> bytes \<Rightarrow> bytes" where
  "encode_record key value = nat_to_le 2 (length key) @ nat_to_le 4 (length value) @ key @ value"

section \<open>The writer\<close>

record sst_writer =
  sw_file :: bytes
  sw_offset :: nat

text \<open>The mutable locals of \<^verbatim>\<open>write_from_memtable\<close>.\<close>

record write_state =
  ws_writer :: sst_writer
  ws_index :: "index_entry list"
  ws_block :: bytes
  ws_keys_for_bloom :: "bytes list"
  ws_key_count :: nat

definition write_block :: "(bytes \<Rightarrow> u32) \<Rightarrow> bytes \<Rightarrow> sst_writer \<Rightarrow> sst_writer" where
  "write_block c block w =
     (let wire = encode_block c block
      in w\<lparr>sw_file := sw_file w @ wire, sw_offset := sw_offset w + length wire\<rparr>)"

definition sst_header :: bytes where
  "sst_header = SST_MAGIC @ nat_to_le 2 SST_VERSION_V3 @ nat_to_le 4 BLOCK_SIZE @ nat_to_le 4 0 @ nat_to_le 2 0"

definition write_entry :: "(bytes \<Rightarrow> u32) \<Rightarrow> bytes \<times> bytes \<Rightarrow> write_state \<Rightarrow> write_state" where
  "write_entry c kv st =
     (let (k, v) = kv;
          st = st\<lparr>ws_keys_for_bloom := ws_keys_for_bloom st @ [k], ws_key_count := ws_key_count st + 1\<rparr>;
          st = (if ws_block st = []
                then st\<lparr>ws_index := ws_index st @
                  [\<lparr>ix_first_key = k, ix_offset = sw_offset (ws_writer st)\<rparr>]\<rparr>
                else st);
          rec = encode_record k v;
          st = (if ws_block st \<noteq> [] \<and> BLOCK_SIZE < length (ws_block st) + length rec
                then
                  let w = write_block c (ws_block st) (ws_writer st)
                  in st\<lparr>ws_writer := w, ws_block := [],
                       ws_index := ws_index st @ [\<lparr>ix_first_key = k, ix_offset = sw_offset w\<rparr>]\<rparr>
                else st)
      in st\<lparr>ws_block := ws_block st @ rec\<rparr>)"

definition encode_index_entry :: "index_entry \<Rightarrow> bytes" where
  "encode_index_entry e =
     nat_to_le 2 (length (ix_first_key e)) @ ix_first_key e @ nat_to_le 8 (ix_offset e)"

definition write_footer :: "sst_footer \<Rightarrow> bytes" where
  "write_footer f =
     nat_to_le 8 (ft_index_offset f) @ nat_to_le 4 (ft_index_count f) @
     nat_to_le 8 (ft_bloom_offset f) @ nat_to_le 4 0 @ SST_MAGIC @ nat_to_le 2 SST_VERSION_V3 @ nat_to_le 2 0"

text \<open>
  The whole of \<^verbatim>\<open>write_from_memtable\<close>, after the loop over the entries: last block, filter, index
  and footer. The result is the file and the number of keys.
\<close>

definition write_from_entries ::
  "(bytes \<Rightarrow> u32) \<Rightarrow> (nat \<Rightarrow> int) \<Rightarrow> (u32 \<Rightarrow> nat \<Rightarrow> int) \<Rightarrow> (bytes \<times> bytes) list \<Rightarrow> fault + (bytes \<times> nat)" where
  "write_from_entries c raw_m raw_k kvs =
     (let st = fold (write_entry c) kvs
            \<lparr>ws_writer = \<lparr>sw_file = sst_header, sw_offset = SST_HEADER_LEN\<rparr>, ws_index = [],
             ws_block = [], ws_keys_for_bloom = [], ws_key_count = 0\<rparr>;
          w = (if ws_block st \<noteq> [] then write_block c (ws_block st) (ws_writer st) else ws_writer st)
      in
        try_bind (bloom_build raw_m raw_k (ws_keys_for_bloom st) (max (length (ws_keys_for_bloom st)) 1))
          (\<lambda>bloom.
            let bloom_offset = sw_offset w;
                bloom_bytes = bloom_encode bloom;
                index_offset = sw_offset w + length bloom_bytes;
                footer = \<lparr>ft_index_offset = index_offset, ft_index_count = length (ws_index st),
                  ft_bloom_offset = bloom_offset\<rparr>
            in Inr (sw_file w @ bloom_bytes @ concat (map encode_index_entry (ws_index st)) @
                 write_footer footer, ws_key_count st)))"

definition write_from_memtable ::
  "(bytes \<Rightarrow> u32) \<Rightarrow> (nat \<Rightarrow> int) \<Rightarrow> (u32 \<Rightarrow> nat \<Rightarrow> int) \<Rightarrow> memtable \<Rightarrow> fault + (bytes \<times> nat)" where
  "write_from_memtable c raw_m raw_k t = write_from_entries c raw_m raw_k (memtable_iter t)"

section \<open>The layout of a written file\<close>

definition enc_group :: "(bytes \<times> bytes) list \<Rightarrow> bytes" where
  "enc_group g = concat (map (\<lambda>(k, v). encode_record k v) g)"

primrec layout :: "nat \<Rightarrow> (bytes \<times> bytes) list list \<Rightarrow> index_entry list" where
  "layout off [] = []"
| "layout off (g # gs) =
     \<lparr>ix_first_key = fst (hd g), ix_offset = off\<rparr> # layout (off + 8 + length (enc_group g)) gs"

text \<open>A block holds one record, or records that fit the block size together.\<close>

definition group_small :: "(bytes \<times> bytes) list \<Rightarrow> bool" where
  "group_small g \<longleftrightarrow> length g \<le> 1 \<or> length (enc_group g) \<le> BLOCK_SIZE"

definition enc_groups :: "(bytes \<Rightarrow> u32) \<Rightarrow> (bytes \<times> bytes) list list \<Rightarrow> bytes" where
  "enc_groups c gs = concat (map (\<lambda>g. encode_block c (enc_group g)) gs)"

lemma length_encode_block [simp]: "length (encode_block c p) = 8 + length p"
  by (simp add: encode_block_def)

lemma length_encode_record [simp]: "length (encode_record k v) = 6 + length k + length v"
  by (simp add: encode_record_def)

lemma encode_record_nonempty [simp]: "encode_record k v \<noteq> []"
  using length_encode_record [of k v] by (metis add_is_0 list.size(3) zero_neq_numeral)

lemma enc_group_simps [simp]:
  "enc_group [] = []" "enc_group (g @ [(k, v)]) = enc_group g @ encode_record k v"
  "enc_group ((k, v) # g) = encode_record k v @ enc_group g"
  by (simp_all add: enc_group_def)

lemma enc_group_Nil [simp]: "enc_group g = [] \<longleftrightarrow> g = []"
  by (cases g) auto

lemma enc_groups_snoc [simp]: "enc_groups c (gs @ [g]) = enc_groups c gs @ encode_block c (enc_group g)"
  by (simp add: enc_groups_def)

lemma layout_append:
  "layout off (gs @ hs) = layout off gs @ layout (off + length (enc_groups c gs)) hs"
  by (induction gs arbitrary: off) (simp_all add: enc_groups_def ac_simps)

lemma length_layout [simp]: "length (layout off gs) = length gs"
  by (induction gs arbitrary: off) simp_all

lemma length_sst_header [simp]: "length sst_header = 16"
  by (simp add: sst_header_def SST_MAGIC_def)

text \<open>The loop invariant: closed groups \<open>gs\<close>, open group \<open>g\<close>.\<close>

definition write_inv ::
  "(bytes \<Rightarrow> u32) \<Rightarrow> (bytes \<times> bytes) list \<Rightarrow> (bytes \<times> bytes) list list \<Rightarrow> (bytes \<times> bytes) list \<Rightarrow>
   write_state \<Rightarrow> bool" where
  "write_inv c kvs gs g st \<longleftrightarrow>
     concat gs @ g = kvs \<and> [] \<notin> set gs \<and> (\<forall>g' \<in> set (g # gs). group_small g') \<and>
     sw_file (ws_writer st) = sst_header @ enc_groups c gs \<and>
     sw_offset (ws_writer st) = 16 + length (enc_groups c gs) \<and>
     ws_block st = enc_group g \<and>
     ws_index st = layout 16 (gs @ (if g = [] then [] else [g])) \<and>
     ws_keys_for_bloom st = map fst kvs \<and> ws_key_count st = length kvs"

lemma write_entry_inv:
  assumes "write_inv c kvs gs g st"
  shows "\<exists>gs' g'. write_inv c (kvs @ [(k, v)]) gs' g' (write_entry c (k, v) st) \<and> g' \<noteq> []"
proof (cases "g \<noteq> [] \<and> BLOCK_SIZE < length (enc_group g) + length (encode_record k v)")
  case True
  then have "write_inv c (kvs @ [(k, v)]) (gs @ [g]) [(k, v)] (write_entry c (k, v) st)"
    using assms
    by (auto simp: write_inv_def write_entry_def write_block_def Let_def group_small_def
        layout_append [where c = c])
  then show ?thesis by blast
next
  case False
  then have "write_inv c (kvs @ [(k, v)]) gs (g @ [(k, v)]) (write_entry c (k, v) st)"
    using assms
    by (cases "g = []")
      (auto simp: write_inv_def write_entry_def Let_def group_small_def layout_append [where c = c])
  then show ?thesis by blast
qed

lemma write_fold_inv:
  "write_inv c kvs gs g st \<Longrightarrow>
     \<exists>gs' g'. write_inv c (kvs @ kvs') gs' g' (fold (write_entry c) kvs' st)"
proof (induction kvs' arbitrary: kvs gs g st)
  case (Cons kv kvs')
  then show ?case
    using write_entry_inv [OF Cons.prems, of "fst kv" "snd kv"] by fastforce
qed auto

text \<open>The file: header, blocks of the groups, filter, index of the layout, footer.\<close>

definition sst_image :: "(bytes \<Rightarrow> u32) \<Rightarrow> bloom \<Rightarrow> (bytes \<times> bytes) list list \<Rightarrow> bytes" where
  "sst_image c f gs =
     sst_header @ enc_groups c gs @ bloom_encode f @
     concat (map encode_index_entry (layout 16 gs)) @
     write_footer \<lparr>ft_index_offset = 16 + length (enc_groups c gs) + length (bloom_encode f),
       ft_index_count = length gs, ft_bloom_offset = 16 + length (enc_groups c gs)\<rparr>"

lemma write_from_entries_image:
  "\<exists>f gs. write_from_entries c raw_m raw_k kvs = Inr (sst_image c f gs, length kvs) \<and>
     concat gs = kvs \<and> [] \<notin> set gs \<and> (\<forall>g \<in> set gs. group_small g) \<and> bloom_inv f \<and>
     (\<forall>k \<in> fst ` set kvs. may_contain k f = Inr True)"
proof -
  define st0 where "st0 = \<lparr>ws_writer = \<lparr>sw_file = sst_header, sw_offset = SST_HEADER_LEN\<rparr>, ws_index = [],
             ws_block = [], ws_keys_for_bloom = [], ws_key_count = 0\<rparr>"
  have "write_inv c [] [] [] st0"
    by (simp add: write_inv_def enc_groups_def SST_HEADER_LEN_def st0_def group_small_def)
  from write_fold_inv [OF this, of kvs] obtain gs g
    where inv: "write_inv c kvs gs g (fold (write_entry c) kvs st0)" by auto
  obtain f where f: "bloom_build raw_m raw_k (map fst kvs) (max (length kvs) 1) = Inr f" "bloom_inv f"
    "\<forall>k \<in> set (map fst kvs). may_contain k f = Inr True"
    using bloom_build_ok by blast
  define gs' where "gs' = gs @ (if g = [] then [] else [g])"
  have "write_from_entries c raw_m raw_k kvs = Inr (sst_image c f gs', length kvs)"
    using inv f(1) unfolding write_from_entries_def st0_def [symmetric]
    by (auto simp: write_inv_def Let_def sst_image_def gs'_def write_block_def
        layout_append [where c = c])
  moreover have "concat gs' = kvs" "[] \<notin> set gs'" "\<forall>g \<in> set gs'. group_small g" using inv by (auto simp: write_inv_def gs'_def)
  ultimately show ?thesis using f(2,3) by auto
qed

end
