(* ===== verification/Sst_Reader.thy ===== *)
theory Sst_Reader
  imports Sst_Writer
begin

text \<open>
  Sorted string tables, reading side (\<^verbatim>\<open>sstable/reader.rs\<close>): opening a file, point lookup through
  filter, index search and block scan, and the two iterators. The reader keeps the bytes of
  the file, as the buffered reader does. Allocations are assumed to succeed.
\<close>

section \<open>Opening\<close>

record sst_reader =
  rd_data :: bytes
  rd_index :: "index_entry list"
  rd_bloom :: bloom
  rd_checksum_blocks :: bool

definition read_exact :: "bytes \<Rightarrow> nat \<Rightarrow> nat \<Rightarrow> storage_error + bytes" where
  "read_exact data pos n =
     (if pos + n \<le> length data then Inr (take n (drop pos data)) else Inl io_short)"

text \<open>\<^verbatim>\<open>seek\<close> refuses offsets beyond the signed range.\<close>

definition seek_start :: "nat \<Rightarrow> storage_error + nat" where
  "seek_start pos = (if pos < 2 ^ 63 then Inr pos else Inl (Io ''Invalid argument''))"

definition read_footer :: "bytes \<Rightarrow> storage_error + sst_footer" where
  "read_footer data =
     (if length data < SST_HEADER_LEN + FOOTER_LEN then Inl (CorruptSstable ''file too small'')
      else
        let buf = drop (length data - FOOTER_LEN) data;
            magic = take 4 (drop 24 buf)
        in
          if magic \<noteq> SST_MAGIC then Inl (CorruptSstable ''bad footer magic'')
          else Inr \<lparr>ft_index_offset = nat_of_le (take 8 buf),
                 ft_index_count = nat_of_le (take 4 (drop 8 buf)),
                 ft_bloom_offset = nat_of_le (take 8 (drop 12 buf))\<rparr>)"

primrec read_index_entries :: "bytes \<Rightarrow> nat \<Rightarrow> nat \<Rightarrow> storage_error + index_entry list" where
  "read_index_entries data 0 pos = Inr []"
| "read_index_entries data (Suc n) pos =
     try_bind (read_exact data pos 2) (\<lambda>key_len_buf.
     let key_len = nat_of_le key_len_buf in
     try_bind (read_exact data (pos + 2) key_len) (\<lambda>first_key.
     try_bind (read_exact data (pos + 2 + key_len) 8) (\<lambda>off_buf.
     try_bind (read_index_entries data n (pos + 2 + key_len + 8)) (\<lambda>rest.
       Inr (\<lparr>ix_first_key = first_key, ix_offset = nat_of_le off_buf\<rparr> # rest)))))"

definition read_index :: "bytes \<Rightarrow> sst_footer \<Rightarrow> storage_error + index_entry list" where
  "read_index data footer =
     try_bind (seek_start (ft_index_offset footer))
       (read_index_entries data (ft_index_count footer))"

text \<open>
  \<^verbatim>\<open>footer.index_offset - footer.bloom_offset\<close> underflows when the footer is inconsistent:
  a panic, directly or as the capacity overflow of the allocation that follows.
\<close>

definition read_bloom :: "bytes \<Rightarrow> sst_footer \<Rightarrow> fault + bloom" where
  "read_bloom data footer =
     try_bind (lift_err (seek_start (ft_bloom_offset footer))) (\<lambda>pos.
       if ft_index_offset footer < ft_bloom_offset footer then Inl Panic
       else
         let bloom_len = ft_index_offset footer - ft_bloom_offset footer in
         try_bind (lift_err (read_exact data pos bloom_len)) (\<lambda>d. lift_err (bloom_decode d)))"

definition sst_open :: "bytes \<Rightarrow> fault + sst_reader" where
  "sst_open data =
     try_bind (lift_err (read_exact data 0 4)) (\<lambda>magic.
     if magic \<noteq> SST_MAGIC then Inl (Err (CorruptSstable ''bad SST magic''))
     else
       try_bind (lift_err (read_exact data 4 2)) (\<lambda>ver.
       let version = nat_of_le ver in
       if version \<noteq> SST_VERSION \<and> version \<noteq> SST_VERSION_V2 \<and> version \<noteq> SST_VERSION_V3
       then Inl (Err (CorruptSstable ''unsupported SST version''))
       else
         try_bind (lift_err (read_footer data)) (\<lambda>footer.
         try_bind (lift_err (read_index data footer)) (\<lambda>index.
         try_bind (read_bloom data footer) (\<lambda>bloom.
           Inr \<lparr>rd_data = data, rd_index = index, rd_bloom = bloom,
             rd_checksum_blocks = SST_VERSION_V3 \<le> version\<rparr>)))))"

definition read_block :: "(bytes \<Rightarrow> u32) \<Rightarrow> sst_reader \<Rightarrow> nat \<Rightarrow> storage_error + bytes" where
  "read_block c rd offset = decode_block_at c (rd_data rd) offset (rd_checksum_blocks rd)"

primrec verify_blocks :: "(bytes \<Rightarrow> u32) \<Rightarrow> sst_reader \<Rightarrow> index_entry list \<Rightarrow> nat \<Rightarrow> storage_error + nat" where
  "verify_blocks c rd [] count = Inr count"
| "verify_blocks c rd (e # es) count =
     try_bind (read_block c rd (ix_offset e)) (\<lambda>_. verify_blocks c rd es (count + 1))"

definition verify_all_blocks :: "(bytes \<Rightarrow> u32) \<Rightarrow> sst_reader \<Rightarrow> storage_error + nat" where
  "verify_all_blocks c rd = verify_blocks c rd (rd_index rd) 0"

section \<open>Lookup\<close>

function find_block_loop :: "index_entry list \<Rightarrow> bytes \<Rightarrow> nat \<Rightarrow> nat \<Rightarrow> nat" where
  "find_block_loop index key lo hi =
     (if lo < hi then
        let mid = lo + (hi - lo) div 2 in
        if ix_first_key (index ! mid) \<le> key then find_block_loop index key (mid + 1) hi
        else find_block_loop index key lo mid
      else lo)"
  by pat_completeness auto
termination by (relation "measure (\<lambda>(_, _, lo, hi). hi - lo)") auto

declare find_block_loop.simps [simp del]

definition find_block :: "sst_reader \<Rightarrow> bytes \<Rightarrow> nat option" where
  "find_block rd key =
     (if rd_index rd = [] then None
      else
        let lo = find_block_loop (rd_index rd) key 0 (length (rd_index rd))
        in if lo = 0 then None else Some (lo - 1))"

function scan_block_from :: "bytes \<Rightarrow> bytes \<Rightarrow> nat \<Rightarrow> bytes option" where
  "scan_block_from block key off =
     (if off + 6 \<le> length block then
        let key_len = nat_of_le (take 2 (drop off block));
            val_len = nat_of_le (take 4 (drop (off + 2) block));
            off = off + 6
        in
          if length block < off + key_len + val_len then None
          else
            let k = take key_len (drop off block);
                off = off + key_len;
                v = take val_len (drop off block);
                off = off + val_len
            in if k = key then Some v else scan_block_from block key off
      else None)"
  by pat_completeness auto
termination by (relation "measure (\<lambda>(block, _, off). length block - off)") auto

declare scan_block_from.simps [simp del]

definition scan_block :: "bytes \<Rightarrow> bytes \<Rightarrow> bytes option" where
  "scan_block block key = scan_block_from block key 0"

definition sst_get :: "(bytes \<Rightarrow> u32) \<Rightarrow> sst_reader \<Rightarrow> bytes \<Rightarrow> fault + bytes option" where
  "sst_get c rd key =
     try_bind (may_contain key (rd_bloom rd)) (\<lambda>may.
       if \<not> may then Inr None
       else
         case find_block rd key of
           None \<Rightarrow> Inr None
         | Some block_idx \<Rightarrow>
             try_bind (lift_err (read_block c rd (ix_offset (rd_index rd ! block_idx)))) (\<lambda>block.
               Inr (scan_block block key)))"

section \<open>The iterators\<close>

record sst_iter =
  it_reader :: sst_reader
  it_block_idx :: nat
  it_block :: bytes
  it_off :: nat

definition iter_load_block :: "(bytes \<Rightarrow> u32) \<Rightarrow> sst_iter \<Rightarrow> storage_error + sst_iter" where
  "iter_load_block c it =
     (let index = rd_index (it_reader it) in
      if length index \<le> it_block_idx it then Inr (it\<lparr>it_block := [], it_off := 0\<rparr>)
      else
        try_bind (read_block c (it_reader it) (ix_offset (index ! it_block_idx it))) (\<lambda>block.
          Inr (it\<lparr>it_block := block, it_off := 0\<rparr>)))"

definition sst_scan :: "(bytes \<Rightarrow> u32) \<Rightarrow> sst_reader \<Rightarrow> storage_error + sst_iter" where
  "sst_scan c rd =
     iter_load_block c \<lparr>it_reader = rd, it_block_idx = 0, it_block = [], it_off = 0\<rparr>"

lemma iter_load_block_pres:
  "iter_load_block c it = Inr it' \<Longrightarrow>
     it_reader it' = it_reader it \<and> it_block_idx it' = it_block_idx it"
  by (auto simp: iter_load_block_def Let_def try_bind_def split: if_splits sum.splits)

text \<open>\<^verbatim>\<open>next\<close>: the second component is the iterator afterwards.\<close>

function sst_next ::
  "(bytes \<Rightarrow> u32) \<Rightarrow> sst_iter \<Rightarrow> (storage_error + (bytes \<times> bytes)) option \<times> sst_iter" where
  "sst_next c it =
     (if length (rd_index (it_reader it)) \<le> it_block_idx it then (None, it)
      else if length (it_block it) < it_off it + 6 then
        let it = it\<lparr>it_block_idx := it_block_idx it + 1\<rparr> in
        (case iter_load_block c it of Inl e \<Rightarrow> (Some (Inl e), it) | Inr it' \<Rightarrow> sst_next c it')
      else
        let key_len = nat_of_le (take 2 (drop (it_off it) (it_block it)));
            val_len = nat_of_le (take 4 (drop (it_off it + 2) (it_block it)));
            off = it_off it + 6
        in
          if length (it_block it) < off + key_len + val_len then
            let it = it\<lparr>it_off := off, it_block_idx := it_block_idx it + 1\<rparr> in
            (case iter_load_block c it of Inl _ \<Rightarrow> sst_next c it | Inr it' \<Rightarrow> sst_next c it')
          else
            let key = take key_len (drop off (it_block it));
                val = take val_len (drop (off + key_len) (it_block it))
            in (Some (Inr (key, val)), it\<lparr>it_off := off + key_len + val_len\<rparr>))"
  by pat_completeness auto
termination
  by (relation "measure (\<lambda>(_, it). length (rd_index (it_reader it)) - it_block_idx it)")
    (auto dest!: iter_load_block_pres)

declare sst_next.simps [simp del]

lemma sst_next_progress:
  "sst_next c it = (Some r, it') \<Longrightarrow> it_reader it' = it_reader it \<and>
     it_block_idx it < length (rd_index (it_reader it)) \<and>
     (it_block_idx it < it_block_idx it' \<or>
      it_block_idx it' = it_block_idx it \<and> it_block it' = it_block it \<and>
      it_off it < it_off it' \<and> it_off it < length (it_block it))"
proof (induction c it rule: sst_next.induct)
  case (1 c it)
  let ?kl = "nat_of_le (take 2 (drop (it_off it) (it_block it)))"
  let ?vl = "nat_of_le (take 4 (drop (it_off it + 2) (it_block it)))"
  let ?n = "length (rd_index (it_reader it))"
  have nd: "\<not> ?n \<le> it_block_idx it"
  proof
    assume "?n \<le> it_block_idx it"
    then have "sst_next c it = (None, it)" by (subst sst_next.simps) simp
    with "1.prems" show False by simp
  qed
  consider (next_block) "length (it_block it) < it_off it + 6"
    | (torn) "\<not> length (it_block it) < it_off it + 6" "length (it_block it) < it_off it + 6 + ?kl + ?vl"
    | (found) "\<not> length (it_block it) < it_off it + 6" "\<not> length (it_block it) < it_off it + 6 + ?kl + ?vl"
    by blast
  then show ?case
  proof cases
    case next_block
    let ?it1 = "it\<lparr>it_block_idx := it_block_idx it + 1\<rparr>"
    have eq: "sst_next c it = (case iter_load_block c ?it1 of
        Inl e \<Rightarrow> (Some (Inl e), ?it1) | Inr it' \<Rightarrow> sst_next c it')"
      using nd next_block by (subst sst_next.simps) (simp only: if_False if_True Let_def)
    show ?thesis
    proof (cases "iter_load_block c ?it1")
      case (Inl e)
      then show ?thesis using "1.prems" eq nd by auto
    next
      case (Inr it2)
      then show ?thesis
        using "1.IH"(1) [OF nd next_block refl Inr] "1.prems" eq nd iter_load_block_pres [OF Inr] by auto
    qed
  next
    case torn
    let ?it1 = "it\<lparr>it_off := it_off it + 6, it_block_idx := it_block_idx it + 1\<rparr>"
    have eq: "sst_next c it = (case iter_load_block c ?it1 of
        Inl e \<Rightarrow> sst_next c ?it1 | Inr it' \<Rightarrow> sst_next c it')"
      using nd torn by (subst sst_next.simps) (simp only: if_False if_True Let_def)
    show ?thesis
    proof (cases "iter_load_block c ?it1")
      case (Inl e)
      then show ?thesis
        using "1.IH"(2) [OF nd torn(1) refl refl refl torn(2) refl Inl] "1.prems" eq nd by auto
    next
      case (Inr it2)
      then show ?thesis
        using "1.IH"(3) [OF nd torn(1) refl refl refl torn(2) refl Inr] "1.prems" eq nd
          iter_load_block_pres [OF Inr] by auto
    qed
  next
    case found
    then have "it' = it\<lparr>it_off := it_off it + 6 + ?kl + ?vl\<rparr>"
      using "1.prems" nd by (subst (asm) sst_next.simps) (simp add: Let_def)
    then show ?thesis using found nd by auto
  qed
qed

text \<open>
  Draining an iterator into a vector and stopping at the first error, as the callers do with
  \<^verbatim>\<open>collect::<Result<Vec<_>, _>>()\<close> or a \<^verbatim>\<open>for\<close> loop with \<^verbatim>\<open>?\<close>.
\<close>

function sst_collect :: "(bytes \<Rightarrow> u32) \<Rightarrow> sst_iter \<Rightarrow> storage_error + (bytes \<times> bytes) list" where
  "sst_collect c it =
     (case sst_next c it of
        (None, _) \<Rightarrow> Inr []
      | (Some (Inl e), _) \<Rightarrow> Inl e
      | (Some (Inr kv), it') \<Rightarrow> try_bind (sst_collect c it') (\<lambda>rest. Inr (kv # rest)))"
  by pat_completeness auto
termination
proof (relation "measures
    [\<lambda>(_, it). length (rd_index (it_reader it)) - it_block_idx it,
     \<lambda>(_, it). length (it_block it) - it_off it]", goal_cases)
  case (2 c it x it' y kv)
  then show ?case using sst_next_progress [of c it "Inr kv" it'] by auto
qed simp

declare sst_collect.simps [simp del]

record sst_range_iter =
  ri_reader :: sst_reader
  ri_block_idx :: nat
  ri_block :: bytes
  ri_off :: nat
  ri_start :: bytes
  ri_end :: bytes
  ri_done :: bool

definition range_load_block :: "(bytes \<Rightarrow> u32) \<Rightarrow> sst_range_iter \<Rightarrow> storage_error + sst_range_iter" where
  "range_load_block c it =
     (let index = rd_index (ri_reader it) in
      if length index \<le> ri_block_idx it then Inr (it\<lparr>ri_done := True, ri_block := [], ri_off := 0\<rparr>)
      else if ri_end it \<le> ix_first_key (index ! ri_block_idx it)
        then Inr (it\<lparr>ri_done := True, ri_block := [], ri_off := 0\<rparr>)
      else
        try_bind (read_block c (ri_reader it) (ix_offset (index ! ri_block_idx it))) (\<lambda>block.
          Inr (it\<lparr>ri_block := block, ri_off := 0\<rparr>)))"

definition sst_scan_range :: "(bytes \<Rightarrow> u32) \<Rightarrow> sst_reader \<Rightarrow> bytes \<Rightarrow> bytes \<Rightarrow> storage_error + sst_range_iter" where
  "sst_scan_range c rd start stop =
     (let block_idx = (case find_block rd start of None \<Rightarrow> 0 | Some i \<Rightarrow> i)
      in range_load_block c \<lparr>ri_reader = rd, ri_block_idx = block_idx, ri_block = [], ri_off = 0,
           ri_start = start, ri_end = stop, ri_done = False\<rparr>)"

lemma range_load_block_pres:
  "range_load_block c it = Inr it' \<Longrightarrow> ri_reader it' = ri_reader it \<and>
     ri_block_idx it' = ri_block_idx it \<and> (ri_done it' \<or> ri_block_idx it < length (rd_index (ri_reader it)))"
  by (auto simp: range_load_block_def Let_def try_bind_def split: if_splits sum.splits)

lemma range_load_block_err:
  "range_load_block c it = Inl e \<Longrightarrow> ri_block_idx it < length (rd_index (ri_reader it))"
  by (auto simp: range_load_block_def Let_def try_bind_def split: if_splits sum.splits)

text \<open>
  The measure of \<open>next\<close>: a finished iterator has none; otherwise the blocks left, then the
  bytes left in the block.
\<close>

definition range_blocks_left :: "sst_range_iter \<Rightarrow> nat" where
  "range_blocks_left it =
     (if ri_done it then 0 else Suc (length (rd_index (ri_reader it)) - ri_block_idx it))"

function sst_range_next ::
  "(bytes \<Rightarrow> u32) \<Rightarrow> sst_range_iter \<Rightarrow> (storage_error + (bytes \<times> bytes)) option \<times> sst_range_iter" where
  "sst_range_next c it =
     (if ri_done it then (None, it)
      else if length (ri_block it) < ri_off it + 6 then
        let it = it\<lparr>ri_block_idx := ri_block_idx it + 1\<rparr> in
        (case range_load_block c it of Inl e \<Rightarrow> (Some (Inl e), it) | Inr it' \<Rightarrow> sst_range_next c it')
      else
        let key_len = nat_of_le (take 2 (drop (ri_off it) (ri_block it)));
            val_len = nat_of_le (take 4 (drop (ri_off it + 2) (ri_block it)));
            off = ri_off it + 6
        in
          if length (ri_block it) < off + key_len + val_len then
            let it = it\<lparr>ri_off := off, ri_block_idx := ri_block_idx it + 1\<rparr> in
            (case range_load_block c it of Inl _ \<Rightarrow> sst_range_next c it | Inr it' \<Rightarrow> sst_range_next c it')
          else
            let key = take key_len (drop off (ri_block it));
                val_start = off + key_len;
                it = it\<lparr>ri_off := val_start + val_len\<rparr>
            in
              if key < ri_start it then sst_range_next c it
              else if ri_end it \<le> key then (None, it\<lparr>ri_done := True\<rparr>)
              else (Some (Inr (key, take val_len (drop val_start (ri_block it)))), it))"
  by pat_completeness auto
termination
proof (relation "measures
    [\<lambda>(_, it). range_blocks_left it, \<lambda>(_, it). length (ri_block it) - ri_off it]", goal_cases)
  case (2 c it it1 it')
  then show ?case by (auto simp: range_blocks_left_def dest!: range_load_block_pres)
next
  case (3 c it x xa xb it1 e)
  then show ?case by (auto simp: range_blocks_left_def dest!: range_load_block_err)
next
  case (4 c it x xa xb it1 it')
  then show ?case by (auto simp: range_blocks_left_def dest!: range_load_block_pres)
next
  case (5 c it)
  then show ?case by (auto simp: range_blocks_left_def)
qed simp

declare sst_range_next.simps [simp del]

lemma range_advance:
  assumes "\<not> ri_done it"
    and "ri_reader it1 = ri_reader it" "ri_block_idx it1 = Suc (ri_block_idx it)" "\<not> ri_done it1"
  shows "range_load_block c it1 = Inr it' \<Longrightarrow>
      ri_reader it' = ri_reader it \<and> range_blocks_left it' < range_blocks_left it"
    and "range_load_block c it1 = Inl e \<Longrightarrow> range_blocks_left it1 < range_blocks_left it"
  using assms
  by (auto simp: range_blocks_left_def dest!: range_load_block_pres range_load_block_err)

lemma sst_range_next_progress:
  "sst_range_next c it = (Some r, it') \<Longrightarrow> ri_reader it' = ri_reader it \<and>
     (range_blocks_left it' < range_blocks_left it \<or>
      range_blocks_left it' = range_blocks_left it \<and> ri_block it' = ri_block it \<and>
      ri_off it < ri_off it' \<and> ri_off it < length (ri_block it))"
proof (induction c it rule: sst_range_next.induct)
  case (1 c it)
  let ?kl = "nat_of_le (take 2 (drop (ri_off it) (ri_block it)))"
  let ?vl = "nat_of_le (take 4 (drop (ri_off it + 2) (ri_block it)))"
  let ?key = "take ?kl (drop (ri_off it + 6) (ri_block it))"
  have nd: "\<not> ri_done it"
  proof
    assume "ri_done it"
    then have "sst_range_next c it = (None, it)" by (subst sst_range_next.simps) simp
    with "1.prems" show False by simp
  qed
  consider (next_block) "length (ri_block it) < ri_off it + 6"
    | (torn) "\<not> length (ri_block it) < ri_off it + 6" "length (ri_block it) < ri_off it + 6 + ?kl + ?vl"
    | (skip) "\<not> length (ri_block it) < ri_off it + 6" "\<not> length (ri_block it) < ri_off it + 6 + ?kl + ?vl"
        "?key < ri_start it"
    | (found) "\<not> length (ri_block it) < ri_off it + 6" "\<not> length (ri_block it) < ri_off it + 6 + ?kl + ?vl"
        "\<not> ?key < ri_start it"
    by blast
  then show ?case
  proof cases
    case next_block
    let ?it1 = "it\<lparr>ri_block_idx := ri_block_idx it + 1\<rparr>"
    have eq: "sst_range_next c it = (case range_load_block c ?it1 of
        Inl e \<Rightarrow> (Some (Inl e), ?it1) | Inr it' \<Rightarrow> sst_range_next c it')"
      using nd next_block by (subst sst_range_next.simps) (simp only: if_False if_True Let_def)
    show ?thesis
    proof (cases "range_load_block c ?it1")
      case (Inl e)
      then show ?thesis using "1.prems" eq range_advance(2) [OF nd _ _ _ Inl] nd by auto
    next
      case (Inr it2)
      then have "sst_range_next c it2 = (Some r, it')" using "1.prems" eq by simp
      from "1.IH"(1) [OF nd next_block refl Inr this]
      show ?thesis using range_advance(1) [OF nd _ _ _ Inr] nd by auto
    qed
  next
    case torn
    let ?it1 = "it\<lparr>ri_off := ri_off it + 6, ri_block_idx := ri_block_idx it + 1\<rparr>"
    show ?thesis
    proof (cases "range_load_block c ?it1")
      case (Inl e)
      have "sst_range_next c ?it1 = (Some r, it')"
        using "1.prems" nd torn Inl by (subst (asm) sst_range_next.simps) (simp add: Let_def)
      from "1.IH"(2) [OF nd torn(1) refl refl refl torn(2) refl Inl this]
      show ?thesis using range_advance(2) [OF nd _ _ _ Inl] nd by auto
    next
      case (Inr it2)
      have "sst_range_next c it2 = (Some r, it')"
        using "1.prems" nd torn Inr by (subst (asm) sst_range_next.simps) (simp add: Let_def)
      from "1.IH"(3) [OF nd torn(1) refl refl refl torn(2) refl Inr this]
      show ?thesis using range_advance(1) [OF nd _ _ _ Inr] nd by auto
    qed
  next
    case skip
    let ?it1 = "it\<lparr>ri_off := ri_off it + 6 + ?kl + ?vl\<rparr>"
    have nxt: "sst_range_next c ?it1 = (Some r, it')"
      using "1.prems" nd skip by (subst (asm) sst_range_next.simps) (simp add: Let_def)
    have "range_blocks_left ?it1 = range_blocks_left it" by (simp add: range_blocks_left_def)
    with "1.IH"(4) [OF nd skip(1) refl refl refl skip(2) refl refl refl _ nxt] skip
    show ?thesis by auto
  next
    case found
    then have "it' = it\<lparr>ri_off := ri_off it + 6 + ?kl + ?vl\<rparr>"
      using "1.prems" nd by (subst (asm) sst_range_next.simps) (simp add: Let_def split: if_splits)
    then show ?thesis using found by (simp add: range_blocks_left_def)
  qed
qed

function sst_range_collect :: "(bytes \<Rightarrow> u32) \<Rightarrow> sst_range_iter \<Rightarrow> storage_error + (bytes \<times> bytes) list" where
  "sst_range_collect c it =
     (case sst_range_next c it of
        (None, _) \<Rightarrow> Inr []
      | (Some (Inl e), _) \<Rightarrow> Inl e
      | (Some (Inr kv), it') \<Rightarrow> try_bind (sst_range_collect c it') (\<lambda>rest. Inr (kv # rest)))"
  by pat_completeness auto
termination
proof (relation "measures
    [\<lambda>(_, it). range_blocks_left it, \<lambda>(_, it). length (ri_block it) - ri_off it]", goal_cases)
  case (2 c it x it' y kv)
  then show ?case using sst_range_next_progress [of c it "Inr kv" it'] by auto
qed simp

declare sst_range_collect.simps [simp del]

definition sst_entries :: "(bytes \<Rightarrow> u32) \<Rightarrow> sst_reader \<Rightarrow> storage_error + (bytes \<times> bytes) list" where
  "sst_entries c rd = try_bind (sst_scan c rd) (sst_collect c)"

definition sst_range_entries ::
  "(bytes \<Rightarrow> u32) \<Rightarrow> sst_reader \<Rightarrow> bytes \<Rightarrow> bytes \<Rightarrow> storage_error + (bytes \<times> bytes) list" where
  "sst_range_entries c rd start stop = try_bind (sst_scan_range c rd start stop) (sst_range_collect c)"

text \<open>
  All items of an iterator, errors included. A lazy iterator over an immutable file is this
  list: \<^verbatim>\<open>flatten()\<close> keeps the successful items, and a loop that stops at the first failure takes
  the items before it.
\<close>

function sst_items :: "(bytes \<Rightarrow> u32) \<Rightarrow> sst_iter \<Rightarrow> (storage_error + (bytes \<times> bytes)) list" where
  "sst_items c it = (case sst_next c it of (None, _) \<Rightarrow> [] | (Some r, it') \<Rightarrow> r # sst_items c it')"
  by pat_completeness auto
termination
proof (relation "measures
    [\<lambda>(_, it). length (rd_index (it_reader it)) - it_block_idx it,
     \<lambda>(_, it). length (it_block it) - it_off it]", goal_cases)
  case (2 c it x it' r)
  then show ?case using sst_next_progress [of c it r it'] by auto
qed simp

declare sst_items.simps [simp del]

function sst_range_items :: "(bytes \<Rightarrow> u32) \<Rightarrow> sst_range_iter \<Rightarrow> (storage_error + (bytes \<times> bytes)) list" where
  "sst_range_items c it =
     (case sst_range_next c it of (None, _) \<Rightarrow> [] | (Some r, it') \<Rightarrow> r # sst_range_items c it')"
  by pat_completeness auto
termination
proof (relation "measures
    [\<lambda>(_, it). range_blocks_left it, \<lambda>(_, it). length (ri_block it) - ri_off it]", goal_cases)
  case (2 c it x it' r)
  then show ?case using sst_range_next_progress [of c it r it'] by auto
qed simp

declare sst_range_items.simps [simp del]

lemma sst_items_collect: "sst_collect c it = Inr kvs \<Longrightarrow> sst_items c it = map Inr kvs"
proof (induction c it arbitrary: kvs rule: sst_items.induct)
  case (1 c it)
  obtain ro it' where nx: "sst_next c it = (ro, it')" by (cases "sst_next c it")
  show ?case
  proof (cases ro)
    case None
    then show ?thesis using "1.prems" nx by (subst sst_items.simps) (simp add: sst_collect.simps [of c it])
  next
    case (Some r)
    then obtain kv rest where "r = Inr kv" "sst_collect c it' = Inr rest" "kvs = kv # rest"
      using "1.prems" nx by (cases r) (auto simp: sst_collect.simps [of c it] try_bind_Inr)
    then show ?thesis using "1.IH" [OF nx [symmetric] Some] nx Some by (subst sst_items.simps) simp
  qed
qed

lemma sst_range_items_collect: "sst_range_collect c it = Inr kvs \<Longrightarrow> sst_range_items c it = map Inr kvs"
proof (induction c it arbitrary: kvs rule: sst_range_items.induct)
  case (1 c it)
  obtain ro it' where nx: "sst_range_next c it = (ro, it')" by (cases "sst_range_next c it")
  show ?case
  proof (cases ro)
    case None
    then show ?thesis using "1.prems" nx
      by (subst sst_range_items.simps) (simp add: sst_range_collect.simps [of c it])
  next
    case (Some r)
    then obtain kv rest where "r = Inr kv" "sst_range_collect c it' = Inr rest" "kvs = kv # rest"
      using "1.prems" nx by (cases r) (auto simp: sst_range_collect.simps [of c it] try_bind_Inr)
    then show ?thesis using "1.IH" [OF nx [symmetric] Some] nx Some by (subst sst_range_items.simps) simp
  qed
qed

text \<open>\<^verbatim>\<open>flatten\<close> on results.\<close>

definition oks :: "('e + 'a) list \<Rightarrow> 'a list" where
  "oks rs = concat (map (\<lambda>r. case r of Inl _ \<Rightarrow> [] | Inr x \<Rightarrow> [x]) rs)"

lemma oks_map_Inr [simp]: "oks (map Inr xs) = xs"
  by (induction xs) (simp_all add: oks_def)

end
