(* ===== verification/Sst_Table.thy ===== *)
theory Sst_Table
  imports Sst_Reader
begin

text \<open>
  What a written table contains: point lookup, full scan and range scan of the file agree with
  the entries that were written. The interface that the rest of the engine uses is the locale
  \<open>sorted_table\<close>; it is interpreted on the reader.
\<close>

section \<open>The interface\<close>

locale sorted_table =
  fixes tinv :: "'t \<Rightarrow> bool"
    and content :: "'t \<Rightarrow> (bytes \<times> bytes) list"
    and get :: "'t \<Rightarrow> bytes \<Rightarrow> fault + bytes option"
    and range :: "'t \<Rightarrow> bytes \<Rightarrow> bytes \<Rightarrow> storage_error + (bytes \<times> bytes) list"
  assumes content_sorted: "tinv t \<Longrightarrow> bt_sorted (content t)"
    and get_content: "tinv t \<Longrightarrow> get t k = Inr (bt_get (content t) k)"
    and range_content: "tinv t \<Longrightarrow>
      range t lo hi = Inr (filter (\<lambda>(k, _). lo \<le> k \<and> k < hi) (content t))"
begin

lemma range_get:
  assumes "tinv t" and "range t lo hi = Inr kvs"
  shows "(k, v) \<in> set kvs \<longleftrightarrow> lo \<le> k \<and> k < hi \<and> get t k = Inr (Some v)"
  using assms bt.in_entries_iff [OF content_sorted [OF assms(1)]]
  by (auto simp: range_content get_content)

text \<open>Searching a list of tables in order finds the first table that holds the key.\<close>

primrec get_first :: "'t list \<Rightarrow> bytes \<Rightarrow> fault + bytes option" where
  "get_first [] k = Inr None"
| "get_first (t # ts) k =
     try_bind (get t k) (\<lambda>r. case r of Some v \<Rightarrow> Inr (Some v) | None \<Rightarrow> get_first ts k)"

lemma get_first_content:
  "\<forall>t \<in> set ts. tinv t \<Longrightarrow> get_first ts k = Inr (map_of (concat (map content ts)) k)"
  by (induction ts) (auto simp: get_content bt_get_def map_add_def split: option.splits)

end

section \<open>Records inside a block\<close>

definition kv_fits :: "bytes \<times> bytes \<Rightarrow> bool" where
  "kv_fits kv \<longleftrightarrow> length (fst kv) < 2 ^ 16 \<and> 6 + length (fst kv) + length (snd kv) < 2 ^ 32"

lemma record_at:
  fixes pre post :: bytes
  assumes "kv_fits (k, v)"
  defines "b \<equiv> pre @ encode_record k v @ post" and "off \<equiv> length pre"
  shows "nat_of_le (take 2 (drop off b)) = length k"
    and "nat_of_le (take 4 (drop (off + 2) b)) = length v"
    and "take (length k) (drop (off + 6) b) = k"
    and "take (length v) (drop (off + 6 + length k) b) = v"
    and "off + 6 + length k + length v \<le> length b"
  using assms(1) by (simp_all add: b_def off_def encode_record_def kv_fits_def)

lemma enc_group_append: "enc_group (g @ h) = enc_group g @ enc_group h"
  by (simp add: enc_group_def)

lemma scan_block_from_group:
  "\<forall>kv \<in> set g2. kv_fits kv \<Longrightarrow>
     scan_block_from (enc_group (g1 @ g2)) key (length (enc_group g1)) = map_of g2 key"
proof (induction g2 arbitrary: g1)
  case Nil
  then show ?case by (subst scan_block_from.simps) simp
next
  case (Cons kv g2)
  obtain k v where kv: "kv = (k, v)" by (cases kv)
  have fits: "kv_fits (k, v)" using Cons.prems by (simp add: kv)
  have enc: "enc_group (g1 @ kv # g2) = enc_group g1 @ encode_record k v @ enc_group g2"
    by (simp add: kv enc_group_append)
  have nxt: "length (enc_group g1) + 6 + length k + length v = length (enc_group (g1 @ [kv]))"
    by (simp add: kv)
  have "scan_block_from (enc_group (g1 @ kv # g2)) key (length (enc_group g1)) =
      (if k = key then Some v
       else scan_block_from (enc_group (g1 @ kv # g2)) key (length (enc_group (g1 @ [kv]))))"
    using record_at [OF fits, of "enc_group g1" "enc_group g2"]
    by (subst scan_block_from.simps) (auto simp: Let_def enc nxt [symmetric])
  then show ?case using Cons.IH [of "g1 @ [kv]"] Cons.prems by (simp add: kv)
qed

lemma scan_block_group: "\<forall>kv \<in> set g. kv_fits kv \<Longrightarrow> scan_block (enc_group g) key = map_of g key"
  using scan_block_from_group [of g "[]" key] by (simp add: scan_block_def)

section \<open>The index search\<close>

lemma find_block_loop_spec:
  assumes "\<forall>i j. i < j \<longrightarrow> j < length index \<longrightarrow> ix_first_key (index ! i) \<le> ix_first_key (index ! j)"
    and "lo \<le> hi" and "hi \<le> length index"
    and "\<forall>i < lo. ix_first_key (index ! i) \<le> key"
    and "\<forall>i. hi \<le> i \<longrightarrow> i < length index \<longrightarrow> key < ix_first_key (index ! i)"
  defines "r \<equiv> find_block_loop index key lo hi"
  shows "r \<le> length index \<and> (\<forall>i < r. ix_first_key (index ! i) \<le> key) \<and>
    (\<forall>i. r \<le> i \<longrightarrow> i < length index \<longrightarrow> key < ix_first_key (index ! i))"
  using assms(1-5) unfolding r_def
proof (induction index key lo hi rule: find_block_loop.induct)
  case (1 index key lo hi)
  show ?case
  proof (cases "lo < hi")
    case False
    then have "find_block_loop index key lo hi = lo" by (subst find_block_loop.simps) simp
    with "1.prems" False show ?thesis by auto
  next
    case True
    define mid where "mid = lo + (hi - lo) div 2"
    have mid: "lo \<le> mid" "mid < hi" using True by (auto simp: mid_def)
    show ?thesis
    proof (cases "ix_first_key (index ! mid) \<le> key")
      case le: True
      have *: "ix_first_key (index ! i) \<le> key" if "i < mid + 1" for i
      proof (cases "i = mid")
        case False
        then have "ix_first_key (index ! i) \<le> ix_first_key (index ! mid)"
          using "1.prems"(1,3) that mid by simp
        with le show ?thesis by (rule order_trans [rotated])
      qed (use le in simp)
      have "find_block_loop index key lo hi = find_block_loop index key (mid + 1) hi"
        using True le by (subst find_block_loop.simps) (simp add: Let_def mid_def)
      moreover have "mid + 1 \<le> hi" using mid by simp
      note "1.IH"(1) [OF True mid_def le "1.prems"(1) this "1.prems"(3) _ "1.prems"(5)]
      ultimately show ?thesis using * by simp
    next
      case gt: False
      have *: "key < ix_first_key (index ! i)" if "mid \<le> i" "i < length index" for i
      proof (cases "i = mid")
        case False
        then have "ix_first_key (index ! mid) \<le> ix_first_key (index ! i)"
          using "1.prems"(1) that by simp
        with gt show ?thesis by simp
      qed (use gt in simp)
      have "find_block_loop index key lo hi = find_block_loop index key lo mid"
        using True gt by (subst find_block_loop.simps) (simp add: Let_def mid_def)
      moreover have "mid \<le> length index" using mid "1.prems"(3) by simp
      note "1.IH"(2) [OF True mid_def gt "1.prems"(1) mid(1) this "1.prems"(4)]
      ultimately show ?thesis using * by simp
    qed
  qed
qed

section \<open>Tables cut into groups\<close>

text \<open>A reader whose index and blocks describe the groups \<open>gs\<close>.\<close>

definition sst_ok :: "(bytes \<Rightarrow> u32) \<Rightarrow> sst_reader \<Rightarrow> (bytes \<times> bytes) list list \<Rightarrow> bool" where
  "sst_ok c rd gs \<longleftrightarrow> length (rd_index rd) = length gs \<and> [] \<notin> set gs \<and>
     (\<forall>kv \<in> set (concat gs). kv_fits kv) \<and> bt_sorted (concat gs) \<and>
     (\<forall>i < length gs. ix_first_key (rd_index rd ! i) = fst (hd (gs ! i)) \<and>
       read_block c rd (ix_offset (rd_index rd ! i)) = Inr (enc_group (gs ! i))) \<and>
     bl_m (rd_bloom rd) \<noteq> 0 \<and>
     (\<forall>k \<in> fst ` set (concat gs). may_contain k (rd_bloom rd) = Inr True)"

lemma bt_sorted_append:
  "bt_sorted (xs @ ys) \<longleftrightarrow> bt_sorted xs \<and> bt_sorted ys \<and> (\<forall>x \<in> set xs. \<forall>y \<in> set ys. fst x < fst y)"
  by (auto simp: bt_sorted_def sorted_wrt_append)

lemma concat_split:
  assumes "i < length gs"
  shows "concat gs = concat (take i gs) @ gs ! i @ concat (drop (Suc i) gs)"
proof -
  have "concat gs = concat (take i gs @ gs ! i # drop (Suc i) gs)"
    using id_take_nth_drop [OF assms] by simp
  then show ?thesis by simp
qed

lemma in_concat_drop:
  assumes "x \<in> set (concat (drop n gs))"
  shows "\<exists>j \<ge> n. j < length gs \<and> x \<in> set (gs ! j)"
proof -
  obtain i where "i < length (drop n gs)" "x \<in> set (drop n gs ! i)"
    using assms by (auto simp: in_set_conv_nth [of _ "drop n gs"])
  then show ?thesis by (intro exI [of _ "n + i"]) auto
qed

lemma group_first_mem: "[] \<notin> set gs \<Longrightarrow> i < length gs \<Longrightarrow> hd (gs ! i) \<in> set (gs ! i)"
  by (metis list.set_sel(1) nth_mem)

text \<open>Every key of an earlier group is below the first key of a later one.\<close>

lemma group_order:
  assumes "bt_sorted (concat gs)" "[] \<notin> set gs" "j < length gs" "x \<in> set (concat (take j gs))"
  shows "fst x < fst (hd (gs ! j))"
  using assms concat_split [OF assms(3)] group_first_mem [OF assms(2,3)]
  by (auto simp: bt_sorted_append)

lemma group_first_le:
  assumes "bt_sorted (concat gs)" "[] \<notin> set gs" "j < length gs" "x \<in> set (gs ! j @ concat (drop (Suc j) gs))"
  shows "fst (hd (gs ! j)) \<le> fst x"
proof -
  have srt: "bt_sorted (gs ! j @ concat (drop (Suc j) gs))"
    using assms(1) concat_split [OF assms(3)] by (simp add: bt_sorted_append)
  obtain y ys where y: "gs ! j = y # ys" using assms(2,3) by (metis list.exhaust nth_mem)
  then have "\<forall>z \<in> set (ys @ concat (drop (Suc j) gs)). fst y < fst z"
    using srt by (auto simp: bt_sorted_def)
  then show ?thesis using assms(4) y by (auto simp del: set_concat intro: less_imp_le)
qed

lemma first_keys_ascending:
  assumes "bt_sorted (concat gs)" "[] \<notin> set gs" "i < j" "j < length gs"
  shows "fst (hd (gs ! i)) < fst (hd (gs ! j))"
proof -
  have "i < length gs" using assms(3,4) by simp
  then have "hd (gs ! i) \<in> set (gs ! i)" by (rule group_first_mem [OF assms(2)])
  moreover have "gs ! i \<in> set (take j gs)" using assms(3,4) by (auto simp: in_set_conv_nth)
  ultimately show ?thesis by (intro group_order [OF assms(1,2,4)]) auto
qed

lemma find_block_spec:
  assumes "sst_ok c rd gs"
  shows "case find_block rd key of
      None \<Rightarrow> \<forall>i < length gs. key < fst (hd (gs ! i))
    | Some i \<Rightarrow> i < length gs \<and> fst (hd (gs ! i)) \<le> key \<and>
        (\<forall>j. i < j \<longrightarrow> j < length gs \<longrightarrow> key < fst (hd (gs ! j)))"
proof -
  define r where "r = find_block_loop (rd_index rd) key 0 (length (rd_index rd))"
  have ok: "length (rd_index rd) = length gs" "bt_sorted (concat gs)" "[] \<notin> set gs"
    and first: "\<forall>i < length gs. ix_first_key (rd_index rd ! i) = fst (hd (gs ! i))"
    using assms by (simp_all add: sst_ok_def)
  have "r \<le> length gs \<and> (\<forall>i < r. ix_first_key (rd_index rd ! i) \<le> key) \<and>
    (\<forall>i. r \<le> i \<longrightarrow> i < length gs \<longrightarrow> key < ix_first_key (rd_index rd ! i))"
    unfolding r_def ok(1) [symmetric]
    using first_keys_ascending [OF ok(2,3)] first ok(1)
    by (intro find_block_loop_spec) (auto intro: less_imp_le)
  moreover have "find_block rd key = (if r = 0 then None else Some (r - 1))"
    using calculation ok(1) by (auto simp: find_block_def Let_def r_def)
  ultimately show ?thesis using first by (cases r) auto
qed

lemma sst_get_ok:
  assumes ok: "sst_ok c rd gs"
  shows "sst_get c rd key = Inr (map_of (concat gs) key)"
proof -
  have parts: "bt_sorted (concat gs)" "[] \<notin> set gs" "\<forall>kv \<in> set (concat gs). kv_fits kv"
    "bl_m (rd_bloom rd) \<noteq> 0"
    and bloom: "\<forall>k \<in> fst ` set (concat gs). may_contain k (rd_bloom rd) = Inr True"
    using ok by (simp_all add: sst_ok_def)
  obtain may where may: "may_contain key (rd_bloom rd) = Inr may"
    using parts(4) by (simp add: may_contain_def)
  have absent: "map_of (concat gs) key = None" if "\<not> may"
    using bloom may that unfolding map_of_eq_None_iff by fastforce
  show ?thesis
  proof (cases "find_block rd key")
    case None
    then have "\<forall>i < length gs. key < fst (hd (gs ! i))" using find_block_spec [OF ok, of key] by simp
    then have "key < fst x" if x: "x \<in> set (concat gs)" for x
    proof -
      obtain j where j: "j < length gs" "x \<in> set (gs ! j)" using in_concat_drop [of x 0 gs] x by (simp del: set_concat) blast
      then have "key < fst (hd (gs ! j))" using \<open>\<forall>i < length gs. _\<close> by simp
      also have "\<dots> \<le> fst x" using group_first_le [OF parts(1,2) j(1)] j(2) by simp
      finally show ?thesis .
    qed
    then have "key \<notin> fst ` set (concat gs)" by blast
    then have "map_of (concat gs) key = None" by (simp add: map_of_eq_None_iff del: set_concat)
    then show ?thesis using may None by (simp add: sst_get_def)
  next
    case (Some i)
    then have i: "i < length gs" "fst (hd (gs ! i)) \<le> key"
      and later: "\<forall>j. i < j \<longrightarrow> j < length gs \<longrightarrow> key < fst (hd (gs ! j))"
      using find_block_spec [OF ok, of key] by simp_all
    have "map_of (concat (take i gs)) key = None"
      using group_order [OF parts(1,2) i(1)] i(2) unfolding map_of_eq_None_iff by fastforce
    moreover have "key < fst x" if x: "x \<in> set (concat (drop (Suc i) gs))" for x
    proof -
      obtain j where j: "i < j" "j < length gs" "x \<in> set (gs ! j)"
        using in_concat_drop [OF x] by (auto simp: Suc_le_eq)
      then have "key < fst (hd (gs ! j))" using later by simp
      also have "\<dots> \<le> fst x" using group_first_le [OF parts(1,2) j(2)] j(3) by simp
      finally show ?thesis .
    qed
    then have "map_of (concat (drop (Suc i) gs)) key = None"
      unfolding map_of_eq_None_iff by blast
    ultimately have "map_of (concat gs) key = map_of (gs ! i) key"
      by (subst concat_split [OF i(1)]) (simp add: map_add_def split: option.split)
    moreover have "\<forall>kv \<in> set (gs ! i). kv_fits kv" using parts(3) i(1) by auto
    moreover have "read_block c rd (ix_offset (rd_index rd ! i)) = Inr (enc_group (gs ! i))"
      using ok i(1) by (simp add: sst_ok_def)
    ultimately show ?thesis
      using may absent Some by (simp add: sst_get_def scan_block_group)
  qed
qed

section \<open>Full scan\<close>

definition iter_at :: "sst_reader \<Rightarrow> (bytes \<times> bytes) list list \<Rightarrow> nat \<Rightarrow> (bytes \<times> bytes) list \<Rightarrow> sst_iter" where
  "iter_at rd gs i g1 = \<lparr>it_reader = rd, it_block_idx = i, it_block = enc_group (gs ! i),
     it_off = length (enc_group g1)\<rparr>"

lemma sst_ok_group:
  assumes "sst_ok c rd gs" and "i < length gs"
  shows "read_block c rd (ix_offset (rd_index rd ! i)) = Inr (enc_group (gs ! i))"
    and "length (rd_index rd) = length gs" and "ix_first_key (rd_index rd ! i) = fst (hd (gs ! i))"
    and "kv \<in> set (gs ! i) \<Longrightarrow> kv_fits kv" and "bt_sorted (concat gs)" and "[] \<notin> set gs"
  using assms by (auto simp: sst_ok_def)

lemma sst_next_at:
  assumes ok: "sst_ok c rd gs" and i: "i < length gs" and g: "gs ! i = g1 @ (k, v) # g2"
  shows "sst_next c (iter_at rd gs i g1) = (Some (Inr (k, v)), iter_at rd gs i (g1 @ [(k, v)]))"
proof -
  have fits: "kv_fits (k, v)" using sst_ok_group(4) [OF ok i] g by simp
  have "enc_group (gs ! i) = enc_group g1 @ encode_record k v @ enc_group g2"
    by (simp add: g enc_group_append)
  with record_at [OF fits, of "enc_group g1" "enc_group g2"] show ?thesis
    using i sst_ok_group(2) [OF ok i]
    by (subst sst_next.simps) (simp add: iter_at_def Let_def)
qed

lemma sst_next_end:
  assumes ok: "sst_ok c rd gs" and i: "i < length gs"
  shows "sst_next c (iter_at rd gs i (gs ! i)) =
    (if Suc i < length gs then sst_next c (iter_at rd gs (Suc i) [])
     else (None, \<lparr>it_reader = rd, it_block_idx = Suc i, it_block = [], it_off = 0\<rparr>))"
proof -
  have len: "length (rd_index rd) = length gs" using sst_ok_group(2) [OF ok i] .
  have load: "iter_load_block c ((iter_at rd gs i (gs ! i))\<lparr>it_block_idx := i + 1\<rparr>) =
      Inr (if Suc i < length gs then iter_at rd gs (Suc i) []
        else \<lparr>it_reader = rd, it_block_idx = Suc i, it_block = [], it_off = 0\<rparr>)"
    using sst_ok_group(1) [OF ok, of "Suc i"] i len
    by (auto simp: iter_load_block_def iter_at_def Let_def)
  have "sst_next c \<lparr>it_reader = rd, it_block_idx = Suc i, it_block = [], it_off = 0\<rparr> =
      (None, \<lparr>it_reader = rd, it_block_idx = Suc i, it_block = [], it_off = 0\<rparr>)" if "\<not> Suc i < length gs"
    using that len by (subst sst_next.simps) simp
  with load show ?thesis
    using i len by (subst sst_next.simps) (simp add: Let_def, simp add: iter_at_def)
qed

lemma sst_collect_at:
  assumes ok: "sst_ok c rd gs"
  shows "i < length gs \<Longrightarrow> gs ! i = g1 @ g2 \<Longrightarrow>
    sst_collect c (iter_at rd gs i g1) = Inr (g2 @ concat (drop (Suc i) gs))"
proof (induction "length gs - i" arbitrary: i g1 g2)
  case (Suc n)
  note outer = Suc.hyps
  show ?case using Suc.prems
  proof (induction g2 arbitrary: g1)
    case Nil
    show ?case
    proof (cases "Suc i < length gs")
      case True
      have "sst_collect c (iter_at rd gs i g1) = sst_collect c (iter_at rd gs (Suc i) [])"
        using sst_next_end [OF ok Nil.prems(1)] Nil.prems(2) True
        by (subst (1 2) sst_collect.simps) simp
      also have "\<dots> = Inr (gs ! Suc i @ concat (drop (Suc (Suc i)) gs))"
        using outer(1) [of "Suc i" "[]" "gs ! Suc i"] outer(2) True by simp
      also have "gs ! Suc i @ concat (drop (Suc (Suc i)) gs) = concat (drop (Suc i) gs)"
        using Cons_nth_drop_Suc [OF True] by (metis concat.simps(2))
      finally show ?thesis by simp
    next
      case False
      then show ?thesis
        using sst_next_end [OF ok Nil.prems(1)] Nil.prems(2) by (subst sst_collect.simps) simp
    qed
  next
    case (Cons kv g2)
    obtain k v where kv: "kv = (k, v)" by (cases kv)
    have "sst_collect c (iter_at rd gs i (g1 @ [(k, v)])) = Inr (g2 @ concat (drop (Suc i) gs))"
      using Cons.IH [of "g1 @ [(k, v)]"] Cons.prems by (simp add: kv)
    then show ?case
      using sst_next_at [OF ok Cons.prems(1) Cons.prems(2) [unfolded kv]]
      by (subst sst_collect.simps) (simp add: kv)
  qed
qed simp

lemma sst_entries_ok:
  assumes ok: "sst_ok c rd gs"
  shows "sst_entries c rd = Inr (concat gs)"
proof (cases "gs = []")
  case True
  then have "rd_index rd = []" using ok by (simp add: sst_ok_def)
  then show ?thesis using True
    by (simp add: sst_entries_def sst_scan_def iter_load_block_def)
      (subst sst_collect.simps, subst sst_next.simps, simp)
next
  case False
  have "sst_scan c rd = Inr (iter_at rd gs 0 [])"
    using sst_ok_group(1,2) [OF ok, of 0] False by (auto simp: sst_scan_def iter_load_block_def iter_at_def Let_def)
  moreover have "gs ! 0 @ concat (drop (Suc 0) gs) = concat gs"
    using False by (cases gs) auto
  ultimately show ?thesis
    using sst_collect_at [OF ok, of 0 "[]" "gs ! 0"] False by (simp add: sst_entries_def)
qed

section \<open>Range scan\<close>

definition range_at ::
  "sst_reader \<Rightarrow> (bytes \<times> bytes) list list \<Rightarrow> bytes \<Rightarrow> bytes \<Rightarrow> nat \<Rightarrow> (bytes \<times> bytes) list \<Rightarrow> sst_range_iter" where
  "range_at rd gs lo hi i g1 = \<lparr>ri_reader = rd, ri_block_idx = i, ri_block = enc_group (gs ! i),
     ri_off = length (enc_group g1), ri_start = lo, ri_end = hi, ri_done = False\<rparr>"

lemma range_next_at:
  assumes ok: "sst_ok c rd gs" and i: "i < length gs" and g: "gs ! i = g1 @ (k, v) # g2"
  shows "sst_range_next c (range_at rd gs lo hi i g1) =
    (if k < lo then sst_range_next c (range_at rd gs lo hi i (g1 @ [(k, v)]))
     else if hi \<le> k then (None, (range_at rd gs lo hi i (g1 @ [(k, v)]))\<lparr>ri_done := True\<rparr>)
     else (Some (Inr (k, v)), range_at rd gs lo hi i (g1 @ [(k, v)])))"
proof -
  have fits: "kv_fits (k, v)" using sst_ok_group(4) [OF ok i] g by simp
  have "enc_group (gs ! i) = enc_group g1 @ encode_record k v @ enc_group g2"
    by (simp add: g enc_group_append)
  with record_at [OF fits, of "enc_group g1" "enc_group g2"] show ?thesis
    by (subst sst_range_next.simps) (simp add: range_at_def Let_def add.assoc)
qed

lemma range_next_end:
  assumes ok: "sst_ok c rd gs" and i: "i < length gs"
  shows "sst_range_next c (range_at rd gs lo hi i (gs ! i)) =
    (if Suc i < length gs \<and> fst (hd (gs ! Suc i)) < hi
     then sst_range_next c (range_at rd gs lo hi (Suc i) [])
     else (None, \<lparr>ri_reader = rd, ri_block_idx = Suc i, ri_block = [], ri_off = 0,
       ri_start = lo, ri_end = hi, ri_done = True\<rparr>))"
proof -
  let ?done = "\<lparr>ri_reader = rd, ri_block_idx = Suc i, ri_block = [], ri_off = 0,
       ri_start = lo, ri_end = hi, ri_done = True\<rparr>"
  have len: "length (rd_index rd) = length gs" using sst_ok_group(2) [OF ok i] .
  let ?it = "range_at rd gs lo hi i (gs ! i)"
  have load: "range_load_block c (?it\<lparr>ri_block_idx := ri_block_idx ?it + 1\<rparr>) =
      Inr (if Suc i < length gs \<and> fst (hd (gs ! Suc i)) < hi then range_at rd gs lo hi (Suc i) [] else ?done)"
    using sst_ok_group(1,3) [OF ok, of "Suc i"] i len
    by (auto simp: range_load_block_def range_at_def Let_def)
  have fin: "sst_range_next c ?done = (None, ?done)" by (subst sst_range_next.simps) simp
  have "\<not> ri_done ?it" "length (ri_block ?it) < ri_off ?it + 6" by (simp_all add: range_at_def)
  then have "sst_range_next c ?it = (case range_load_block c (?it\<lparr>ri_block_idx := ri_block_idx ?it + 1\<rparr>) of
      Inl e \<Rightarrow> (Some (Inl e), ?it\<lparr>ri_block_idx := ri_block_idx ?it + 1\<rparr>) | Inr it' \<Rightarrow> sst_range_next c it')"
    by (subst sst_range_next.simps) (simp only: if_False if_True Let_def)
  then show ?thesis unfolding load using fin by simp
qed

abbreviation in_range :: "bytes \<Rightarrow> bytes \<Rightarrow> bytes \<times> bytes \<Rightarrow> bool" where
  "in_range lo hi \<equiv> \<lambda>(k, _). lo \<le> k \<and> k < hi"

lemma filter_above: "\<forall>x \<in> set xs. hi \<le> fst x \<Longrightarrow> filter (in_range lo hi) xs = []"
  by (auto simp: filter_empty_conv)

lemma range_collect_at:
  assumes ok: "sst_ok c rd gs"
  shows "i < length gs \<Longrightarrow> gs ! i = g1 @ g2 \<Longrightarrow>
    sst_range_collect c (range_at rd gs lo hi i g1) =
      Inr (filter (in_range lo hi) (g2 @ concat (drop (Suc i) gs)))"
proof (induction "length gs - i" arbitrary: i g1 g2)
  case (Suc n)
  note outer = Suc.hyps
  show ?case using Suc.prems
  proof (induction g2 arbitrary: g1)
    case Nil
    show ?case
    proof (cases "Suc i < length gs")
      case True
      have rest: "concat (drop (Suc i) gs) = gs ! Suc i @ concat (drop (Suc (Suc i)) gs)"
        using Cons_nth_drop_Suc [OF True] by (metis concat.simps(2))
      show ?thesis
      proof (cases "fst (hd (gs ! Suc i)) < hi")
        case lt: True
        have "sst_range_collect c (range_at rd gs lo hi i g1) =
            sst_range_collect c (range_at rd gs lo hi (Suc i) [])"
          using range_next_end [OF ok Nil.prems(1)] Nil.prems(2) True lt
          by (subst (1 2) sst_range_collect.simps) simp
        then show ?thesis
          using outer(1) [of "Suc i" "[]" "gs ! Suc i"] outer(2) True rest by simp
      next
        case False
        have "hi \<le> fst x" if x: "x \<in> set (concat (drop (Suc i) gs))" for x
        proof -
          have "hi \<le> fst (hd (gs ! Suc i))" using False by simp
          also have "\<dots> \<le> fst x"
            using group_first_le [OF sst_ok_group(5,6) [OF ok True] True] x rest by simp
          finally show ?thesis .
        qed
        then show ?thesis
          using range_next_end [OF ok Nil.prems(1)] Nil.prems(2) False filter_above
          by (subst sst_range_collect.simps) simp
      qed
    next
      case False
      then show ?thesis
        using range_next_end [OF ok Nil.prems(1)] Nil.prems(2) by (subst sst_range_collect.simps) simp
    qed
  next
    case (Cons kv g2)
    obtain k v where kv: "kv = (k, v)" by (cases kv)
    note nxt = range_next_at [OF ok Cons.prems(1) Cons.prems(2) [unfolded kv], of lo hi]
    have IH: "sst_range_collect c (range_at rd gs lo hi i (g1 @ [(k, v)])) =
        Inr (filter (in_range lo hi) (g2 @ concat (drop (Suc i) gs)))"
      using Cons.IH [of "g1 @ [(k, v)]"] Cons.prems by (simp add: kv)
    have above: "k < fst x" if "x \<in> set (g2 @ concat (drop (Suc i) gs))" for x
    proof -
      have "bt_sorted (gs ! i @ concat (drop (Suc i) gs))"
        using sst_ok_group(5) [OF ok Cons.prems(1)] concat_split [OF Cons.prems(1)]
        by (simp add: bt_sorted_append)
      then have "bt_sorted ((k, v) # g2 @ concat (drop (Suc i) gs))"
        using Cons.prems(2) by (simp add: kv bt_sorted_append)
      then show ?thesis using that by (auto simp: bt_sorted_def)
    qed
    consider "k < lo" | "\<not> k < lo" "hi \<le> k" | "\<not> k < lo" "\<not> hi \<le> k" by blast
    then show ?case
    proof cases
      case 1
      then have "sst_range_collect c (range_at rd gs lo hi i g1) =
          sst_range_collect c (range_at rd gs lo hi i (g1 @ [(k, v)]))"
        using nxt by (subst (1 2) sst_range_collect.simps) simp
      then show ?thesis using IH 1 by (auto simp: kv)
    next
      case 2
      have "\<forall>x \<in> set (g2 @ concat (drop (Suc i) gs)). hi \<le> fst x"
        using above 2(2) by (blast intro: order_trans less_imp_le)
      then have "filter (in_range lo hi) (g2 @ concat (drop (Suc i) gs)) = []" by (rule filter_above)
      then show ?thesis using nxt 2 by (subst sst_range_collect.simps) (auto simp: kv)
    next
      case 3
      then show ?thesis
        using nxt IH by (subst sst_range_collect.simps) (auto simp: kv linorder_not_less)
    qed
  qed
qed simp

lemma sst_range_entries_ok:
  assumes ok: "sst_ok c rd gs"
  shows "sst_range_entries c rd lo hi = Inr (filter (in_range lo hi) (concat gs))"
proof (cases "gs = []")
  case True
  then have "rd_index rd = []" using ok by (simp add: sst_ok_def)
  then show ?thesis using True
    by (simp add: sst_range_entries_def sst_scan_range_def range_load_block_def Let_def)
      (subst sst_range_collect.simps, subst sst_range_next.simps, simp)
next
  case False
  define i where "i = (case find_block rd lo of None \<Rightarrow> 0 | Some i \<Rightarrow> i)"
  have i: "i < length gs" using find_block_spec [OF ok, of lo] False
    by (auto simp: i_def split: option.splits)
  note split = concat_split [OF i] and srt = sst_ok_group(5,6) [OF ok i]
  have "\<not> in_range lo hi x" if x: "x \<in> set (concat (take i gs))" for x
  proof (cases "find_block rd lo")
    case None
    then show ?thesis using x by (simp add: i_def)
  next
    case (Some j)
    then have "fst (hd (gs ! i)) \<le> lo" using find_block_spec [OF ok, of lo] by (simp add: i_def)
    then show ?thesis using group_order [OF srt i x] by (auto simp: split_beta)
  qed
  then have before: "filter (in_range lo hi) (concat (take i gs)) = []"
    by (simp add: filter_empty_conv)
  show ?thesis
  proof (cases "fst (hd (gs ! i)) < hi")
    case True
    then have "sst_scan_range c rd lo hi = Inr (range_at rd gs lo hi i [])"
      using sst_ok_group(1,2,3) [OF ok i] i
      by (auto simp: sst_scan_range_def i_def [symmetric] range_load_block_def range_at_def Let_def)
    then show ?thesis
      using range_collect_at [OF ok i, of "[]" "gs ! i" lo hi] before
      by (subst split) (simp add: sst_range_entries_def)
  next
    case False
    then have "sst_scan_range c rd lo hi = Inr \<lparr>ri_reader = rd, ri_block_idx = i, ri_block = [],
        ri_off = 0, ri_start = lo, ri_end = hi, ri_done = True\<rparr>"
      using sst_ok_group(2,3) [OF ok i] i
      by (auto simp: sst_scan_range_def i_def [symmetric] range_load_block_def Let_def)
    moreover have "\<forall>x \<in> set (gs ! i @ concat (drop (Suc i) gs)). hi \<le> fst x"
      using False group_first_le [OF srt i] by (meson linorder_not_less order_trans)
    then have "filter (in_range lo hi) (gs ! i @ concat (drop (Suc i) gs)) = []" by (rule filter_above)
    ultimately show ?thesis using before
      by (subst split) (simp add: sst_range_entries_def, subst sst_range_collect.simps,
          subst sst_range_next.simps, simp)
  qed
qed

section \<open>Opening a written file\<close>

lemma read_exact_append: "read_exact (pre @ xs @ post) (length pre) (length xs) = Inr xs"
  by (simp add: read_exact_def)

lemma read_exact_at:
  "data = pre @ xs @ post \<Longrightarrow> pos = length pre \<Longrightarrow> n = length xs \<Longrightarrow> read_exact data pos n = Inr xs"
  by (simp add: read_exact_append)

definition index_fits :: "index_entry \<Rightarrow> bool" where
  "index_fits e \<longleftrightarrow> length (ix_first_key e) < 2 ^ 16 \<and> ix_offset e < 2 ^ 64"

lemma read_index_entries_enc:
  assumes "\<forall>e \<in> set es. index_fits e"
    and "data = pre @ concat (map encode_index_entry es) @ post" and "pos = length pre"
  shows "read_index_entries data (length es) pos = Inr es"
  using assms
proof (induction es arbitrary: pre pos)
  case (Cons e es)
  let ?n = "length (ix_first_key e)"
  let ?rest = "concat (map encode_index_entry es) @ post"
  have fits: "?n < 2 ^ 16" "ix_offset e < 2 ^ 64" using Cons.prems(1) by (auto simp: index_fits_def)
  have data: "data = pre @ nat_to_le 2 ?n @ ix_first_key e @ nat_to_le 8 (ix_offset e) @ ?rest"
    using Cons.prems(2) by (simp add: encode_index_entry_def [of e])
  have "read_exact data pos 2 = Inr (nat_to_le 2 ?n)"
    by (rule read_exact_at [OF data]) (simp_all add: Cons.prems(3))
  moreover have "read_exact data (pos + 2) ?n = Inr (ix_first_key e)"
    by (rule read_exact_at [of _ "pre @ nat_to_le 2 ?n" _ "nat_to_le 8 (ix_offset e) @ ?rest"])
      (simp_all add: data Cons.prems(3))
  moreover have "read_exact data (pos + 2 + ?n) 8 = Inr (nat_to_le 8 (ix_offset e))"
    by (rule read_exact_at [of _ "pre @ nat_to_le 2 ?n @ ix_first_key e" _ ?rest])
      (simp_all add: data Cons.prems(3))
  moreover have "read_index_entries data (length es) (pos + 2 + ?n + 8) = Inr es"
    using Cons.prems(1) by (intro Cons.IH [of "pre @ encode_index_entry e"])
      (simp_all add: data Cons.prems(3) encode_index_entry_def [of e])
  ultimately show ?case using fits by simp
qed simp

lemma read_footer_enc:
  assumes "16 \<le> length pre" and "ft_index_offset f < 2 ^ 64" "ft_index_count f < 2 ^ 32" "ft_bloom_offset f < 2 ^ 64"
  shows "read_footer (pre @ write_footer f) = Inr f"
proof -
  have "length (write_footer f) = 32" by (simp add: write_footer_def SST_MAGIC_def)
  then show ?thesis using assms
    by (simp add: read_footer_def SST_HEADER_LEN_def FOOTER_LEN_def Let_def)
      (simp add: write_footer_def SST_MAGIC_def)
qed

lemma decode_block_enc:
  assumes "length p < 2 ^ 32"
  shows "decode_block_at c (pre @ encode_block c p @ post) (length pre) True = Inr p"
  using assms by (simp add: decode_block_at_def encode_block_def CHECKSUM_BLOCK_HEADER_def Let_def)

lemma decode_layout:
  assumes "\<forall>g \<in> set gs. length (enc_group g) < 2 ^ 32" and "i < length gs"
    and "data = pre @ enc_groups c gs @ post"
  shows "decode_block_at c data (ix_offset (layout (length pre) gs ! i)) True = Inr (enc_group (gs ! i)) \<and>
    ix_first_key (layout (length pre) gs ! i) = fst (hd (gs ! i)) \<and>
    ix_offset (layout (length pre) gs ! i) < length data"
  using assms
proof (induction gs arbitrary: i pre)
  case (Cons g gs)
  have data: "data = pre @ encode_block c (enc_group g) @ enc_groups c gs @ post"
    using Cons.prems(3) by (simp add: enc_groups_def)
  show ?case
  proof (cases i)
    case 0
    have "decode_block_at c data (length pre) True = Inr (enc_group g)"
      unfolding data using Cons.prems(1) by (intro decode_block_enc) simp
    then show ?thesis using data by (simp add: 0)
  next
    case (Suc j)
    have "length (pre @ encode_block c (enc_group g)) = length pre + 8 + length (enc_group g)" by simp
    then show ?thesis
      using Cons.IH [of j "pre @ encode_block c (enc_group g)"] Cons.prems(1,2) data
      by (simp add: Suc add.assoc)
  qed
qed simp

text \<open>What a table needs of its entries for the length fields of the format to hold.\<close>

definition entries_fit :: "(bytes \<times> bytes) list \<Rightarrow> bool" where
  "entries_fit kvs \<longleftrightarrow> (\<forall>kv \<in> set kvs. kv_fits kv) \<and> length kvs < 2 ^ 32"

lemma length_groups: "[] \<notin> set gs \<Longrightarrow> length gs \<le> length (concat gs)"
proof (induction gs)
  case (Cons g gs)
  then show ?case by (cases g) auto
qed simp

lemma group_bytes:
  assumes "group_small g" and "\<forall>kv \<in> set g. kv_fits kv"
  shows "length (enc_group g) < 2 ^ 32"
proof (cases "length g \<le> 1")
  case True
  then consider "g = []" | k v where "g = [(k, v)]"
    by (cases g) (auto simp: Suc_le_eq)
  then show ?thesis using assms(2) by cases (auto simp: kv_fits_def)
next
  case False
  then show ?thesis using assms(1) by (simp add: group_small_def BLOCK_SIZE_def)
qed

text \<open>Opening reads everything but the block section, whatever bytes that holds.\<close>

lemma sst_open_parts:
  fixes B :: bytes and f :: bloom and es :: "index_entry list"
  defines "ft \<equiv> \<lparr>ft_index_offset = 16 + length B + length (bloom_encode f),
    ft_index_count = length es, ft_bloom_offset = 16 + length B\<rparr>"
  defines "img \<equiv> sst_header @ B @ bloom_encode f @ concat (map encode_index_entry es) @ write_footer ft"
  assumes fits: "\<forall>e \<in> set es. index_fits e" and count: "length es < 2 ^ 32"
    and f: "bloom_inv f" and size: "length img < 2 ^ 63"
  shows "sst_open img = Inr \<lparr>rd_data = img, rd_index = es, rd_bloom = f, rd_checksum_blocks = True\<rparr>"
proof -
  let ?F = "bloom_encode f" and ?I = "concat (map encode_index_entry es)"
  have img: "img = sst_header @ B @ ?F @ ?I @ write_footer ft" by (simp add: img_def)
  have "read_footer img = Inr ft"
    using read_footer_enc [of "sst_header @ B @ ?F @ ?I" ft] size count img by (simp add: ft_def)
  moreover have "read_index_entries img (length es) (16 + length B + length ?F) = Inr es"
    using read_index_entries_enc [OF fits, of img "sst_header @ B @ ?F" "write_footer ft"] img
    by (simp add: add.assoc)
  moreover have "read_exact img (16 + length B) (length ?F) = Inr ?F"
    by (rule read_exact_at [of _ "sst_header @ B" _ "?I @ write_footer ft"]) (simp_all add: img)
  moreover have "read_exact img 0 4 = Inr SST_MAGIC" "read_exact img 4 2 = Inr (nat_to_le 2 3)"
    by (simp_all add: read_exact_def img sst_header_def SST_MAGIC_def SST_VERSION_V3_def)
  ultimately show ?thesis
    using size img bloom_decode_encode [OF f]
    by (simp add: sst_open_def read_index_def read_bloom_def seek_start_def ft_def
        SST_VERSION_def SST_VERSION_V2_def SST_VERSION_V3_def Let_def)
qed

lemma layout_fits:
  assumes "entries_fit (concat gs)" "[] \<notin> set gs" "16 + length (enc_groups c gs) < 2 ^ 64"
  shows "(\<forall>e \<in> set (layout 16 gs). index_fits e) \<and> length (layout 16 gs) < 2 ^ 32"
proof -
  have "index_fits (layout 16 gs ! i)" if i: "i < length gs" for i
  proof -
    have split: "gs = take i gs @ gs ! i # drop (Suc i) gs" using id_take_nth_drop [OF i] .
    have "layout 16 gs ! i = layout (16 + length (enc_groups c (take i gs))) (gs ! i # drop (Suc i) gs) ! 0"
      using i by (subst split, subst layout_append [where c = c]) (simp add: nth_append)
    moreover have "length (enc_groups c (take i gs)) \<le> length (enc_groups c gs)"
      by (subst (2) split) (simp add: enc_groups_def)
    moreover have "kv_fits (hd (gs ! i))"
      using assms(1) group_first_mem [OF assms(2) i] i unfolding entries_fit_def by (auto simp: Bex_def)
    ultimately show ?thesis using assms(3) by (simp add: index_fits_def kv_fits_def)
  qed
  moreover have "length gs < 2 ^ 32"
    using length_groups [OF assms(2)] assms(1) by (simp add: entries_fit_def)
  ultimately show ?thesis by (auto simp: in_set_conv_nth)
qed

lemma sst_open_image:
  fixes c f gs
  defines "img \<equiv> sst_image c f gs"
  assumes "entries_fit (concat gs)" "bt_sorted (concat gs)" "[] \<notin> set gs" "\<forall>g \<in> set gs. group_small g"
    and f: "bloom_inv f" "\<forall>k \<in> fst ` set (concat gs). may_contain k f = Inr True"
    and size: "length img < 2 ^ 63"
  shows "\<exists>rd. sst_open img = Inr rd \<and> sst_ok c rd gs \<and> rd_index rd = layout 16 gs"
proof -
  have small: "\<forall>g \<in> set gs. length (enc_group g) < 2 ^ 32"
    using assms(2,5) group_bytes by (fastforce simp: entries_fit_def)
  have dec: "decode_block_at c img (ix_offset (layout 16 gs ! i)) True = Inr (enc_group (gs ! i)) \<and>
      ix_first_key (layout 16 gs ! i) = fst (hd (gs ! i))" if "i < length gs" for i
    using decode_layout [OF small that, of img sst_header c] by (simp add: img_def sst_image_def)
  have "16 + length (enc_groups c gs) < 2 ^ 64" using size by (simp add: img_def sst_image_def)
  note fits = layout_fits [OF assms(2,4) this]
  have "sst_open img = Inr \<lparr>rd_data = img, rd_index = layout 16 gs, rd_bloom = f, rd_checksum_blocks = True\<rparr>"
    using sst_open_parts [of "layout 16 gs" f "enc_groups c gs"] fits f(1) size
    by (simp add: img_def sst_image_def)
  then show ?thesis
    using dec assms(2-4) f bloom_inv_m by (auto simp: sst_ok_def read_block_def entries_fit_def)
qed

section \<open>The reader satisfies the interface\<close>

definition sst_inv :: "(bytes \<Rightarrow> u32) \<Rightarrow> sst_reader \<Rightarrow> bool" where
  "sst_inv c rd \<longleftrightarrow> (\<exists>gs. sst_ok c rd gs)"

definition sst_content :: "(bytes \<Rightarrow> u32) \<Rightarrow> sst_reader \<Rightarrow> (bytes \<times> bytes) list" where
  "sst_content c rd = (case sst_entries c rd of Inl _ \<Rightarrow> [] | Inr kvs \<Rightarrow> kvs)"

lemma sst_content_ok: "sst_ok c rd gs \<Longrightarrow> sst_content c rd = concat gs"
  by (simp add: sst_content_def sst_entries_ok)

interpretation sst: sorted_table "sst_inv c" "sst_content c" "sst_get c" "sst_range_entries c" for c
proof unfold_locales
  fix rd assume "sst_inv c rd"
  then obtain gs where gs: "sst_ok c rd gs" by (auto simp: sst_inv_def)
  show "bt_sorted (sst_content c rd)" unfolding sst_content_ok [OF gs] using gs by (simp add: sst_ok_def)
  show "sst_get c rd k = Inr (bt_get (sst_content c rd) k)" for k
    using gs by (simp add: sst_get_ok sst_content_ok bt_get_def)
  show "sst_range_entries c rd lo hi = Inr (filter (in_range lo hi) (sst_content c rd))" for lo hi
    using gs by (simp add: sst_range_entries_ok sst_content_ok)
qed

lemma sst_open_written:
  assumes "bt_sorted kvs" "entries_fit kvs" and "write_from_entries c raw_m raw_k kvs = Inr (file, n)"
    and "length file < 2 ^ 63"
  shows "\<exists>rd. sst_open file = Inr rd \<and> sst_inv c rd \<and> sst_content c rd = kvs \<and> n = length kvs"
proof -
  obtain f gs where w: "write_from_entries c raw_m raw_k kvs = Inr (sst_image c f gs, length kvs)"
    "concat gs = kvs" "[] \<notin> set gs" "\<forall>g \<in> set gs. group_small g" "bloom_inv f"
    "\<forall>k \<in> fst ` set kvs. may_contain k f = Inr True"
    using write_from_entries_image by blast
  then obtain rd where "sst_open file = Inr rd" "sst_ok c rd gs"
    using sst_open_image [of gs f c] assms by auto
  then show ?thesis using w assms(3) sst_content_ok by (auto simp: sst_inv_def)
qed

text \<open>A bound on the size of a written file: the filter has at most 2^32 bits.\<close>

definition image_bytes :: "(bytes \<times> bytes) list \<Rightarrow> nat" where
  "image_bytes kvs = (\<Sum>(k, v) \<leftarrow> kvs. 24 + 2 * length k + length v)"

lemma image_bytes_simps [simp]:
  "image_bytes [] = 0" "image_bytes ((k, v) # kvs) = 24 + 2 * length k + length v + image_bytes kvs"
  "image_bytes (xs @ ys) = image_bytes xs + image_bytes ys"
  by (simp_all add: image_bytes_def)

lemma groups_length:
  "[] \<notin> set gs \<Longrightarrow>
     length (enc_groups c gs) + length (concat (map encode_index_entry (layout off gs))) \<le> image_bytes (concat gs)"
proof (induction gs arbitrary: off)
  case (Cons g gs)
  then obtain k v g' where g: "g = (k, v) # g'" by (cases g) auto
  have "length (enc_group g') \<le> image_bytes g'"
    by (induction g') (auto simp: enc_group_def)
  then show ?case
    using Cons.IH [of "off + 8 + length (enc_group g)"] Cons.prems g
    by (simp add: enc_groups_def encode_index_entry_def)
qed (simp add: enc_groups_def)

lemma sst_image_length:
  assumes "[] \<notin> set gs" "bloom_inv f"
  shows "length (sst_image c f gs) < 2 ^ 33 + image_bytes (concat gs)"
proof -
  have "length (bl_bits f) \<le> 2 ^ 32"
    using assms(2) unsigned_less [of "bl_m f", where 'a = nat] by (simp add: bloom_inv_def)
  then show ?thesis
    using groups_length [OF assms(1), of c 16]
    by (simp add: sst_image_def length_bloom_encode write_footer_def SST_MAGIC_def)
qed

definition table_fits :: "(bytes \<times> bytes) list \<Rightarrow> bool" where
  "table_fits kvs \<longleftrightarrow> entries_fit kvs \<and> image_bytes kvs < 2 ^ 62"

lemma write_from_entries_ok:
  assumes "bt_sorted kvs" "table_fits kvs"
  shows "\<exists>data rd. write_from_entries c raw_m raw_k kvs = Inr (data, length kvs) \<and>
    sst_open data = Inr rd \<and> sst_inv c rd \<and> sst_content c rd = kvs"
proof -
  obtain f gs where w: "write_from_entries c raw_m raw_k kvs = Inr (sst_image c f gs, length kvs)"
    "concat gs = kvs" "[] \<notin> set gs" "bloom_inv f"
    using write_from_entries_image by blast
  have "length (sst_image c f gs) < 2 ^ 63"
    using sst_image_length [OF w(3,4), of c] assms(2) w(2) by (simp add: table_fits_def)
  then show ?thesis using sst_open_written [OF assms(1) _ w(1)] assms(2) w(1) by (auto simp: table_fits_def)
qed

text \<open>The smallest table, as an instance.\<close>

definition one_entry :: memtable where
  "one_entry = \<lparr>mt_map = [([1], [2])], mt_bytes = entry_bytes [1] [2]\<rparr>"

lemma one_entry_ok: "memtable_inv one_entry" "entries_fit (memtable_iter one_entry)"
  by (simp_all add: one_entry_def memtable_inv_def bt_sorted_def entries_fit_def kv_fits_def memtable_iter_def)

lemma one_entry_image:
  "\<exists>f. write_from_memtable c (\<lambda>_. 0) (\<lambda>_ _. 0) one_entry = Inr (sst_image c f [[([1], [2])]], 1) \<and>
     bloom_inv f \<and> may_contain [1] f = Inr True \<and> length (sst_image c f [[([1], [2])]]) < 2 ^ 63"
proof -
  obtain f gs where w: "write_from_entries c (\<lambda>_. 0) (\<lambda>_ _. 0) (memtable_iter one_entry) =
      Inr (sst_image c f gs, length (memtable_iter one_entry))"
    and gs: "concat gs = memtable_iter one_entry" "[] \<notin> set gs" and f: "bloom_inv f"
    "\<forall>k \<in> fst ` set (memtable_iter one_entry). may_contain k f = Inr True"
    using write_from_entries_image [of c] by blast
  have "gs = [[([1], [2])]]"
    using gs length_groups [OF gs(2)] unfolding memtable_iter_def one_entry_def
    by (cases gs; cases "tl gs") (auto simp: append_eq_Cons_conv)
  moreover have "length (bl_bits f) \<le> 2 ^ 32"
    using f unsigned_less [of "bl_m f", where 'a = nat] by (simp add: bloom_inv_def)
  then have "length (sst_image c f [[([1], [2])]]) < 2 ^ 63"
    by (simp add: sst_image_def enc_groups_def length_bloom_encode encode_index_entry_def
        write_footer_def SST_MAGIC_def)
  ultimately show ?thesis
    using w f by (auto simp: write_from_memtable_def memtable_iter_def one_entry_def)
qed

section \<open>Properties\<close>

text \<open>
  C7. A sorted string table is a faithful copy of the memory table it is written from: for
  every checksum function and every result of the filter sizing, writing a well-formed table
  whose entries fit the length fields (and the offsets) succeeds, the file opens, point lookup through filter,
  index search and block scan returns exactly the table's answer for every key (absent keys
  included), the full scan returns the entries in order, and the range scan returns exactly
  the entries of the half-open interval.
\<close>

theorem sst_write_read:
  assumes "memtable_inv t" and "table_fits (memtable_iter t)"
  shows "\<exists>data rd. write_from_memtable c raw_m raw_k t = Inr (data, memtable_len t) \<and> sst_open data = Inr rd \<and>
    (\<forall>k. sst_get c rd k = Inr (bt_get (memtable_iter t) k)) \<and>
    sst_entries c rd = Inr (memtable_iter t) \<and>
    (\<forall>lo hi. sst_range_entries c rd lo hi = Inr (filter (\<lambda>(k, _). lo \<le> k \<and> k < hi) (memtable_iter t)))"
proof -
  have srt: "bt_sorted (memtable_iter t)" using assms(1) by (simp add: memtable_inv_def memtable_iter_def)
  obtain data rd where w: "write_from_entries c raw_m raw_k (memtable_iter t) = Inr (data, length (memtable_iter t))"
    and rd: "sst_open data = Inr rd" "sst_inv c rd" "sst_content c rd = memtable_iter t"
    using write_from_entries_ok [OF srt assms(2)] by blast
  from rd have "sst_entries c rd = Inr (memtable_iter t)"
    by (auto simp: sst_inv_def sst_entries_ok sst_content_ok)
  then show ?thesis
    using w rd sst.get_content [OF rd(2)] sst.range_content [OF rd(2)]
    by (auto simp: write_from_memtable_def memtable_len_def memtable_iter_def)
qed

text \<open>A one-entry table, with a constant checksum and the smallest filter.\<close>

theorem sst_write_read_witness:
  "\<exists>data rd. write_from_memtable (\<lambda>_. 0) (\<lambda>_. 0) (\<lambda>_ _. 0) one_entry = Inr (data, 1) \<and>
    sst_open data = Inr rd \<and> sst_get (\<lambda>_. 0) rd [1] = Inr (Some [2]) \<and>
    sst_get (\<lambda>_. 0) rd [3] = Inr None"
proof -
  have "table_fits (memtable_iter one_entry)"
    using one_entry_ok by (simp add: table_fits_def one_entry_def memtable_iter_def)
  from sst_write_read [OF one_entry_ok(1) this, of "\<lambda>_. 0" "\<lambda>_. 0" "\<lambda>_ _. 0"] show ?thesis
    by (auto simp: one_entry_def memtable_iter_def memtable_len_def bt_get_def)
qed

end
