(* ===== verification/Sst_Scrub.thy ===== *)
theory Sst_Scrub
  imports Sst_Table
begin

text \<open>
  The services around the table format: write options (\<^verbatim>\<open>sstable/options.rs\<close>), block compression
  (\<^verbatim>\<open>compress.rs\<close>, with the LZ4 crate as two parameters), the block reader of \<^verbatim>\<open>mmap_io.rs\<close> and
  the disk scrubber (\<^verbatim>\<open>scrub.rs\<close>). The scrubber finds every changed byte of a block payload that
  the checksum function distinguishes.
\<close>

section \<open>Write options\<close>

record sst_write_options =
  wo_compress_blocks :: bool
  wo_xor_filter :: bool

definition SST_FLAG_LZ4_BLOCKS :: nat where "SST_FLAG_LZ4_BLOCKS = 1"
definition SST_FLAG_XOR_FILTER :: nat where "SST_FLAG_XOR_FILTER = 2"

definition phase3_default :: sst_write_options where
  "phase3_default = \<lparr>wo_compress_blocks = True, wo_xor_filter = False\<rparr>"

definition with_xor_filter :: sst_write_options where
  "with_xor_filter = \<lparr>wo_compress_blocks = True, wo_xor_filter = True\<rparr>"

definition legacy_options :: sst_write_options where
  "legacy_options = \<lparr>wo_compress_blocks = False, wo_xor_filter = False\<rparr>"

definition options_version :: "sst_write_options \<Rightarrow> nat" where
  "options_version opts = (if wo_compress_blocks opts \<or> wo_xor_filter opts then SST_VERSION_V2 else SST_VERSION)"

definition options_header_flags :: "sst_write_options \<Rightarrow> nat" where
  "options_header_flags opts =
     (if wo_compress_blocks opts then SST_FLAG_LZ4_BLOCKS else 0) +
     (if wo_xor_filter opts then SST_FLAG_XOR_FILTER else 0)"

text \<open>The writer ignores the options.\<close>

definition write_from_memtable_opts ::
  "(bytes \<Rightarrow> u32) \<Rightarrow> (nat \<Rightarrow> int) \<Rightarrow> (u32 \<Rightarrow> nat \<Rightarrow> int) \<Rightarrow> memtable \<Rightarrow> sst_write_options \<Rightarrow> fault + (bytes \<times> nat)" where
  "write_from_memtable_opts c raw_m raw_k t opts = write_from_memtable c raw_m raw_k t"

section \<open>Block compression\<close>

definition BLOCK_RAW :: u8 where "BLOCK_RAW = 0"
definition BLOCK_LZ4 :: u8 where "BLOCK_LZ4 = 1"

definition maybe_compress_block :: "(bytes \<Rightarrow> bytes) \<Rightarrow> bytes \<Rightarrow> bytes" where
  "maybe_compress_block compress data =
     (if length data < 64 then BLOCK_RAW # data
      else
        let compressed = compress data in
        if length compressed + 1 < length data then BLOCK_LZ4 # compressed else BLOCK_RAW # data)"

definition decompress_block :: "(bytes \<Rightarrow> string + bytes) \<Rightarrow> bytes \<Rightarrow> storage_error + bytes" where
  "decompress_block decompress stored =
     (case stored of
        [] \<Rightarrow> Inl (CorruptSstable ''empty SST block'')
      | codec # rest \<Rightarrow>
          if codec = BLOCK_RAW then Inr rest
          else if codec = BLOCK_LZ4 then
            (case decompress rest of Inl e \<Rightarrow> Inl (Io (''LZ4 decompress: '' @ e)) | Inr d \<Rightarrow> Inr d)
          else Inl (CorruptSstable ''unknown SST block codec''))"

section \<open>Blocks of a mapped file\<close>

definition read_block_from_slice :: "bytes \<Rightarrow> nat \<Rightarrow> storage_error + bytes" where
  "read_block_from_slice data off =
     (if length data < off + 4 then Inl (CorruptSstable ''block length header past EOF'')
      else
        let len = nat_of_le (take 4 (drop off data)); start = off + 4 in
        if length data < start + len then Inl (CorruptSstable ''block past EOF'')
        else Inr (take len (drop start data)))"

section \<open>The scrubber\<close>

record scrub_report =
  sr_files_scanned :: nat
  sr_blocks_verified :: nat
  sr_checksum_failures :: nat

definition scrub_sst :: "(bytes \<Rightarrow> u32) \<Rightarrow> bytes \<Rightarrow> fault + nat" where
  "scrub_sst c data = try_bind (sst_open data) (\<lambda>rd. lift_err (verify_all_blocks c rd))"

definition has_sst_ext :: "string \<Rightarrow> bool" where
  "has_sst_ext name \<longleftrightarrow> 4 < length name \<and> drop (length name - 4) name = ''.sst''"

primrec scrub_entries ::
  "(bytes \<Rightarrow> u32) \<Rightarrow> (string \<times> bytes) list \<Rightarrow> scrub_report \<Rightarrow> fault + scrub_report" where
  "scrub_entries c [] report = Inr report"
| "scrub_entries c (entry # entries) report =
     (let (path, data) = entry in
      if \<not> has_sst_ext path then scrub_entries c entries report
      else
        case scrub_sst c data of
          Inr blocks \<Rightarrow> scrub_entries c entries
            (report\<lparr>sr_files_scanned := sr_files_scanned report + 1,
              sr_blocks_verified := sr_blocks_verified report + blocks\<rparr>)
        | Inl (Err ChecksumMismatch) \<Rightarrow> scrub_entries c entries
            (report\<lparr>sr_files_scanned := sr_files_scanned report + 1,
              sr_checksum_failures := sr_checksum_failures report + 1\<rparr>)
        | Inl e \<Rightarrow> Inl e)"

definition scrub_data_dir :: "(bytes \<Rightarrow> u32) \<Rightarrow> (string \<times> bytes) list option \<Rightarrow> fault + scrub_report" where
  "scrub_data_dir c sst_dir =
     (let empty = \<lparr>sr_files_scanned = 0, sr_blocks_verified = 0, sr_checksum_failures = 0\<rparr> in
      case sst_dir of None \<Rightarrow> Inr empty | Some entries \<Rightarrow> scrub_entries c entries empty)"

section \<open>Lemmas\<close>

lemma read_block_from_slice_eq: "read_block_from_slice data off = decode_block_at c data off False"
  by (simp add: read_block_from_slice_def decode_block_at_def LEGACY_BLOCK_HEADER_def Let_def)

lemma verify_blocks_ok:
  "\<forall>e \<in> set es. \<exists>b. read_block c rd (ix_offset e) = Inr b \<Longrightarrow>
     verify_blocks c rd es n = Inr (n + length es)"
  by (induction es arbitrary: n) auto

lemma verify_blocks_bad:
  "\<forall>e \<in> set es. \<exists>b. read_block c rd (ix_offset e) = Inr b \<Longrightarrow>
     read_block c rd (ix_offset e') = Inl err \<Longrightarrow> verify_blocks c rd (es @ e' # es') n = Inl err"
  by (induction es arbitrary: n) auto

lemma scrub_sst_ok:
  assumes "sst_open data = Inr rd" and "sst_ok c rd gs"
  shows "scrub_sst c data = Inr (length gs)"
proof -
  have "\<exists>b. read_block c rd (ix_offset e) = Inr b" if "e \<in> set (rd_index rd)" for e
    using assms(2) that by (auto simp: sst_ok_def in_set_conv_nth)
  then show ?thesis
    using assms verify_blocks_ok [of "rd_index rd" c rd 0]
    by (simp add: scrub_sst_def verify_all_blocks_def sst_ok_def)
qed

text \<open>A block whose payload no longer matches its stored checksum.\<close>

lemma decode_block_damaged:
  assumes "length p < 2 ^ 32" "length p' = length p" "c p' \<noteq> c p"
  shows "decode_block_at c (pre @ (nat_to_le 4 (length p) @ u32_to_le (c p) @ p') @ post) (length pre) True =
    Inl ChecksumMismatch"
  using assms by (simp add: decode_block_at_def CHECKSUM_BLOCK_HEADER_def Let_def)

lemma layout_nth_offset:
  assumes "i < length gs"
  shows "ix_offset (layout off gs ! i) = off + length (enc_groups c (take i gs))"
proof -
  have "gs = take i gs @ gs ! i # drop (Suc i) gs" using id_take_nth_drop [OF assms] .
  then have "layout off gs ! i = layout (off + length (enc_groups c (take i gs))) (gs ! i # drop (Suc i) gs) ! 0"
    using assms by (metis layout_append length_layout length_take min.absorb4 nth_append_length_plus add.right_neutral)
  then show ?thesis by simp
qed

lemma scrub_damaged:
  assumes fit: "entries_fit (concat gs)" "[] \<notin> set gs" "\<forall>g \<in> set gs. group_small g" "bloom_inv f"
    and size: "length (sst_image c f gs) < 2 ^ 63" and i: "i < length gs"
    and j: "j < length (enc_group (gs ! i))" and detect: "c ((enc_group (gs ! i))[j := b]) \<noteq> c (enc_group (gs ! i))"
  shows "scrub_sst c ((sst_image c f gs)[ix_offset (layout 16 gs ! i) + 8 + j := b]) = Inl (Err ChecksumMismatch)"
proof -
  define p where "p = enc_group (gs ! i)"
  let ?hd = "nat_to_le 4 (length p) @ u32_to_le (c p)"
  let ?pre = "enc_groups c (take i gs)" and ?post = "enc_groups c (drop (Suc i) gs)"
  define B where "B = ?pre @ (?hd @ p[j := b]) @ ?post"
  define rest where "rest = bloom_encode f @ concat (map encode_index_entry (layout 16 gs)) @
    write_footer \<lparr>ft_index_offset = 16 + length (enc_groups c gs) + length (bloom_encode f),
       ft_index_count = length gs, ft_bloom_offset = 16 + length (enc_groups c gs)\<rparr>"
  have gs: "gs = take i gs @ gs ! i # drop (Suc i) gs" using id_take_nth_drop [OF i] .
  have body: "enc_groups c gs = ?pre @ (?hd @ p) @ ?post"
    by (subst gs) (simp add: enc_groups_def encode_block_def p_def)
  have len: "length B = length (enc_groups c gs)" by (simp add: body B_def)
  have off: "ix_offset (layout 16 gs ! i) = 16 + length ?pre" by (rule layout_nth_offset [OF i])
  have img: "sst_image c f gs = sst_header @ enc_groups c gs @ rest"
    by (simp add: sst_image_def rest_def)
  have upd: "(sst_image c f gs)[ix_offset (layout 16 gs ! i) + 8 + j := b] = sst_header @ B @ rest"
    using j unfolding img body B_def p_def [symmetric] off by (simp add: list_update_append)
  have "16 + length (enc_groups c gs) < 2 ^ 64" using size by (simp add: img)
  note fits = layout_fits [OF fit(1,2) this]
  define rd where "rd = \<lparr>rd_data = sst_header @ B @ rest, rd_index = layout 16 gs, rd_bloom = f, rd_checksum_blocks = True\<rparr>"
  have "sst_open (sst_header @ B @ rest) = Inr rd"
    using sst_open_parts [of "layout 16 gs" f B] fits fit(4) size len
    by (simp add: rd_def rest_def img)
  moreover have "read_block c rd (ix_offset (layout 16 gs ! i)) = Inl ChecksumMismatch"
  proof -
    have "length p < 2 ^ 32"
      using fit(1,3) nth_mem [OF i] group_bytes [of "gs ! i"] by (simp add: p_def entries_fit_def)
    then show ?thesis
      using decode_block_damaged [of p "p[j := b]" c "sst_header @ ?pre" "?post @ rest"] detect off
      by (simp add: rd_def read_block_def B_def p_def)
  qed
  moreover have "\<exists>bl. read_block c rd (ix_offset e) = Inr bl" if "e \<in> set (take i (layout 16 gs))" for e
  proof -
    obtain k where k: "k < i" "e = layout 16 gs ! k" using \<open>e \<in> _\<close> i by (auto simp: in_set_conv_nth)
    have small: "\<forall>g \<in> set (take i gs). length (enc_group g) < 2 ^ 32"
      using fit(1,3) group_bytes by (fastforce simp: entries_fit_def dest: in_set_takeD)
    have "layout 16 gs ! k = layout 16 (take i gs) ! k"
      using k i by (subst gs, subst layout_append [where c = c]) (simp add: nth_append)
    then show ?thesis
      using decode_layout [OF small, of k "rd_data rd" sst_header c "(?hd @ p[j := b]) @ ?post @ rest"] k i
      by (simp add: rd_def read_block_def B_def)
  qed
  moreover have "layout 16 gs = take i (layout 16 gs) @ layout 16 gs ! i # drop (Suc i) (layout 16 gs)"
    using id_take_nth_drop [of i "layout 16 gs"] i by simp
  ultimately show ?thesis
    using verify_blocks_bad [of "take i (layout 16 gs)" c rd "layout 16 gs ! i" ChecksumMismatch
        "drop (Suc i) (layout 16 gs)" 0]
    unfolding upd by (simp add: scrub_sst_def verify_all_blocks_def rd_def)
qed

section \<open>Properties\<close>

text \<open>
  C18. The scrubber finds bit rot: for a file written from a well-formed table, the scrub
  verifies one block per index entry; and after changing any one byte of any block payload,
  for a checksum function that distinguishes the changed payload, it reports a checksum
  mismatch. The checksum function is otherwise arbitrary.
\<close>

theorem scrub_detects_bit_rot:
  assumes "memtable_inv t" "entries_fit (memtable_iter t)"
    and "write_from_memtable c raw_m raw_k t = Inr (file, n)" "length file < 2 ^ 63"
  shows "\<exists>rd. sst_open file = Inr rd \<and> scrub_sst c file = Inr (length (rd_index rd)) \<and>
    (\<forall>i p j b. i < length (rd_index rd) \<longrightarrow> read_block c rd (ix_offset (rd_index rd ! i)) = Inr p \<longrightarrow>
       j < length p \<longrightarrow> c (p[j := b]) \<noteq> c p \<longrightarrow>
       scrub_sst c (file[ix_offset (rd_index rd ! i) + 8 + j := b]) = Inl (Err ChecksumMismatch))"
proof -
  obtain f gs where w: "file = sst_image c f gs" "concat gs = memtable_iter t" "[] \<notin> set gs"
    "\<forall>g \<in> set gs. group_small g" "bloom_inv f" "\<forall>k \<in> fst ` set (memtable_iter t). may_contain k f = Inr True"
    using write_from_entries_image [of c raw_m raw_k "memtable_iter t"] assms(3)
    by (auto simp: write_from_memtable_def)
  have srt: "bt_sorted (concat gs)" using assms(1) w(2) by (simp add: memtable_inv_def memtable_iter_def)
  have fit: "entries_fit (concat gs)" using assms(2) w(2) by simp
  obtain rd where rd: "sst_open file = Inr rd" "sst_ok c rd gs" "rd_index rd = layout 16 gs"
    using sst_open_image [OF fit srt w(3,4,5), of c] w(1,2,6) assms(4) by auto
  then show ?thesis
    using scrub_sst_ok [OF rd(1,2)] scrub_damaged [OF fit w(3,4,5)] assms(4) w(1)
    by (auto simp: sst_ok_def)
qed

text \<open>The witness changes the value byte of a one-entry table.\<close>

theorem scrub_detects_bit_rot_witness:
  "\<exists>file pos. write_from_memtable (\<lambda>p. ucast (last p)) (\<lambda>_. 0) (\<lambda>_ _. 0) one_entry = Inr (file, 1) \<and>
    scrub_sst (\<lambda>p. ucast (last p)) file = Inr 1 \<and>
    scrub_sst (\<lambda>p. ucast (last p)) (file[pos := 3]) = Inl (Err ChecksumMismatch)"
proof -
  let ?c = "\<lambda>p. ucast (last p :: u8) :: u32" and ?g = "[([1], [2])] :: (bytes \<times> bytes) list"
  obtain f where w: "write_from_memtable ?c (\<lambda>_. 0) (\<lambda>_ _. 0) one_entry = Inr (sst_image ?c f [?g], 1)"
    "bloom_inv f" "may_contain [1] f = Inr True" "length (sst_image ?c f [?g]) < 2 ^ 63"
    using one_entry_image [of ?c] by blast
  obtain rd where rd: "sst_open (sst_image ?c f [?g]) = Inr rd" "sst_ok ?c rd [?g]"
    using sst_open_image [of "[?g]" f ?c] w one_entry_ok
    by (auto simp: one_entry_def memtable_iter_def bt_sorted_def group_small_def)
  have p: "length (rd_index rd) = 1" "read_block ?c rd (ix_offset (rd_index rd ! 0)) = Inr (enc_group ?g)"
    using rd(2) by (auto simp: sst_ok_def)
  have "7 < length (enc_group ?g)" "?c ((enc_group ?g)[7 := 3]) \<noteq> ?c (enc_group ?g)"
    by (simp_all add: encode_record_def list_update_append)
  then have "scrub_sst ?c ((sst_image ?c f [?g])[ix_offset (rd_index rd ! 0) + 8 + 7 := 3]) = Inl (Err ChecksumMismatch)"
    "scrub_sst ?c (sst_image ?c f [?g]) = Inr 1"
    using scrub_detects_bit_rot [OF one_entry_ok w(1,4)] rd(1) p by (auto simp del: enc_group_simps)
  with w(1) show ?thesis by blast
qed

text \<open>
  Block compression is transparent: for every compressor that its decompressor inverts,
  decoding a stored block returns the data, whichever codec was chosen, and a stored block is
  at most one byte longer than its data.
\<close>

theorem compress_round_trip:
  assumes "\<And>d. decompress (compress d) = Inr d"
  shows "decompress_block decompress (maybe_compress_block compress data) = Inr data \<and>
    length (maybe_compress_block compress data) \<le> length data + 1"
  using assms
  by (simp add: decompress_block_def maybe_compress_block_def BLOCK_RAW_def BLOCK_LZ4_def Let_def)

theorem compress_round_trip_witness:
  "decompress_block (\<lambda>b. Inr b) (maybe_compress_block (\<lambda>b. b) (replicate 100 7)) = Inr (replicate 100 (7 :: u8))"
  using compress_round_trip [of "\<lambda>b. Inr b" "\<lambda>b. b" "replicate 100 (7 :: u8)"] by simp

end
