(* ===== verification/Manifest.thy ===== *)
theory Manifest
  imports Noe_Prelude
begin

text \<open>
  The level inventory (\<^verbatim>\<open>manifest.rs\<close>) with its atomic replacement (\<^verbatim>\<open>atomic_io.rs\<close>), and the write
  throttle (\<^verbatim>\<open>write_stall.rs\<close>). Paths are strings; the text format is parsed the way
  \<^verbatim>\<open>str::lines\<close>, \<^verbatim>\<open>strip_prefix\<close>, \<^verbatim>\<open>trim\<close>, \<^verbatim>\<open>parse::<u64>\<close> and \<^verbatim>\<open>split(',')\<close> do it.
\<close>

section \<open>Strings\<close>

abbreviation NL :: char where "NL \<equiv> CHR 0x0A"
abbreviation CR :: char where "CR \<equiv> CHR 0x0D"

text \<open>\<^verbatim>\<open>str::split(c)\<close>\<close>

fun split_on :: "char \<Rightarrow> string \<Rightarrow> string list" where
  "split_on c [] = [[]]"
| "split_on c (x # xs) =
     (if x = c then [] # split_on c xs
      else case split_on c xs of [] \<Rightarrow> [[x]] | y # ys \<Rightarrow> (x # y) # ys)"

text \<open>\<^verbatim>\<open>str::lines\<close>: a final empty piece is dropped, and a carriage return before a line feed.\<close>

definition strip_cr :: "string \<Rightarrow> string" where
  "strip_cr l = (if l \<noteq> [] \<and> last l = CR then butlast l else l)"

definition str_lines :: "string \<Rightarrow> string list" where
  "str_lines s =
     (let ps = split_on NL s; ps = (if last ps = [] then butlast ps else ps) in map strip_cr ps)"

definition strip_prefix :: "string \<Rightarrow> string \<Rightarrow> string option" where
  "strip_prefix p s = (if starts_with s p then Some (drop (length p) s) else None)"

definition is_ws :: "char \<Rightarrow> bool" where
  "is_ws c \<longleftrightarrow> c \<in> {CHR 0x20, CHR 0x09, NL, CHR 0x0B, CHR 0x0C, CR}"

definition str_trim :: "string \<Rightarrow> string" where
  "str_trim s = rev (dropWhile is_ws (rev (dropWhile is_ws s)))"

definition digit_val :: "char \<Rightarrow> nat option" where
  "digit_val c = (let n = of_char c in if 48 \<le> n \<and> n \<le> (57 :: nat) then Some (n - 48) else None)"

fun parse_digits :: "string \<Rightarrow> nat \<Rightarrow> nat option" where
  "parse_digits [] acc = Some acc"
| "parse_digits (c # cs) acc =
     (case digit_val c of
        None \<Rightarrow> None
      | Some d \<Rightarrow> if acc * 10 + d < 2 ^ 64 then parse_digits cs (acc * 10 + d) else None)"

definition parse_u64 :: "string \<Rightarrow> nat option" where
  "parse_u64 s =
     (let ds = (case s of c # cs \<Rightarrow> if c = CHR ''+'' then cs else s | [] \<Rightarrow> [])
      in if ds = [] then None else parse_digits ds 0)"

fun show_nat :: "nat \<Rightarrow> string" where
  "show_nat n = (if n < 10 then [char_of (48 + n)] else show_nat (n div 10) @ [char_of (48 + n mod 10)])"

declare show_nat.simps [simp del]

fun str_join :: "string \<Rightarrow> string list \<Rightarrow> string" where
  "str_join sep [] = []"
| "str_join sep [s] = s"
| "str_join sep (s # t # ss) = s @ sep @ str_join sep (t # ss)"

section \<open>The manifest\<close>

record manifest_snapshot =
  ms_level0 :: "string list"
  ms_level1 :: "string list"
  ms_sequence :: nat

definition manifest_encode :: "manifest_snapshot \<Rightarrow> string" where
  "manifest_encode snap =
     ''seq='' @ show_nat (ms_sequence snap) @ [NL] @
     ''level0='' @ str_join '','' (ms_level0 snap) @ [NL] @
     ''level1='' @ str_join '','' (ms_level1 snap) @ [NL]"

definition split_paths :: "string \<Rightarrow> string list" where
  "split_paths raw = filter (\<lambda>s. s \<noteq> []) (split_on (CHR '','') raw)"

fun parse_lines :: "string list \<Rightarrow> manifest_snapshot \<Rightarrow> storage_error + manifest_snapshot" where
  "parse_lines [] m = Inr m"
| "parse_lines (line # ls) m =
     (case strip_prefix ''seq='' line of
        Some rest \<Rightarrow>
          (case parse_u64 (str_trim rest) of
             None \<Rightarrow> Inl (CorruptSstable ''bad manifest seq'')
           | Some seq \<Rightarrow> parse_lines ls (m\<lparr>ms_sequence := seq\<rparr>))
      | None \<Rightarrow>
          (case strip_prefix ''level0='' line of
             Some rest \<Rightarrow> parse_lines ls (m\<lparr>ms_level0 := split_paths rest\<rparr>)
           | None \<Rightarrow>
               (case strip_prefix ''level1='' line of
                  Some rest \<Rightarrow> parse_lines ls (m\<lparr>ms_level1 := split_paths rest\<rparr>)
                | None \<Rightarrow> parse_lines ls m)))"

definition manifest_parse :: "string \<Rightarrow> storage_error + manifest_snapshot option" where
  "manifest_parse raw =
     try_bind (parse_lines (str_lines raw) \<lparr>ms_level0 = [], ms_level1 = [], ms_sequence = 0\<rparr>)
       (\<lambda>m. Inr (Some m))"

text \<open>
  The directory as far as \<^verbatim>\<open>atomic_write\<close> sees it: the temporary file beside the target, and the
  target. The content goes to the temporary file, and a rename replaces the target.
\<close>

record atomic_dir =
  ad_tmp :: "string option"
  ad_target :: "string option"

definition file_create :: "atomic_dir \<Rightarrow> atomic_dir" where
  "file_create d = d\<lparr>ad_tmp := Some []\<rparr>"

definition file_write :: "string \<Rightarrow> atomic_dir \<Rightarrow> atomic_dir" where
  "file_write content d = d\<lparr>ad_tmp := map_option (\<lambda>old. old @ content) (ad_tmp d)\<rparr>"

definition fs_rename :: "atomic_dir \<Rightarrow> atomic_dir" where
  "fs_rename d = d\<lparr>ad_tmp := None, ad_target := ad_tmp d\<rparr>"

definition atomic_write :: "string \<Rightarrow> atomic_dir \<Rightarrow> atomic_dir" where
  "atomic_write content d = fs_rename (file_write content (file_create d))"

text \<open>The same steps cut by a crash: before the start, after \<open>n\<close> written bytes, or at the end.\<close>

fun atomic_write_crash :: "nat \<Rightarrow> string \<Rightarrow> atomic_dir \<Rightarrow> atomic_dir" where
  "atomic_write_crash 0 content d = d"
| "atomic_write_crash (Suc n) content d =
     (if n \<le> length content then file_write (take n content) (file_create d)
      else atomic_write content d)"

definition manifest_load :: "atomic_dir \<Rightarrow> storage_error + manifest_snapshot option" where
  "manifest_load d = (case ad_target d of None \<Rightarrow> Inr None | Some raw \<Rightarrow> manifest_parse raw)"

definition manifest_commit :: "manifest_snapshot \<Rightarrow> atomic_dir \<Rightarrow> atomic_dir" where
  "manifest_commit snap d = atomic_write (manifest_encode snap) d"

section \<open>Write throttling\<close>

record write_stall_config =
  st_l0_slowdown_trigger :: nat
  st_l0_stop_trigger :: nat
  st_slowdown_ms_per_file :: nat
  st_max_slowdown_ms :: nat

definition stall_default :: write_stall_config where
  "stall_default = \<lparr>st_l0_slowdown_trigger = 3, st_l0_stop_trigger = 8,
     st_slowdown_ms_per_file = 8, st_max_slowdown_ms = 250\<rparr>"

definition stall_relaxed :: write_stall_config where
  "stall_relaxed = \<lparr>st_l0_slowdown_trigger = 12, st_l0_stop_trigger = 32,
     st_slowdown_ms_per_file = 4, st_max_slowdown_ms = 500\<rparr>"

text \<open>The result is the list of sleeps in milliseconds, or the refusal.\<close>

definition gate_write :: "write_stall_config \<Rightarrow> nat \<Rightarrow> nat \<Rightarrow> nat \<Rightarrow> storage_error + nat list" where
  "gate_write cfg l0_count mem_bytes max_mem_bytes =
     (if st_l0_stop_trigger cfg \<le> l0_count
      then Inl (ResourceExhausted ''L0 SST backlog at stop threshold - compaction required'')
      else
        Inr ((if st_l0_slowdown_trigger cfg \<le> l0_count
              then let excess = l0_count - st_l0_slowdown_trigger cfg + 1
                   in [min (min (excess * st_slowdown_ms_per_file cfg) (2 ^ 64 - 1)) (st_max_slowdown_ms cfg)]
              else []) @
             (if 0 < max_mem_bytes \<and> max_mem_bytes * 9 div 10 \<le> mem_bytes then [5] else [])))"

section \<open>Printing and parsing\<close>

lemma split_on_plain [simp]: "c \<notin> set s \<Longrightarrow> split_on c s = [s]"
  by (induction s) auto

lemma split_on_append [simp]: "c \<notin> set s \<Longrightarrow> split_on c (s @ c # t) = s # split_on c t"
  by (induction s) auto

lemma strip_cr_plain [simp]: "CR \<notin> set l \<Longrightarrow> strip_cr l = l"
  by (auto simp: strip_cr_def dest: last_in_set)

lemma str_lines_three:
  assumes "\<forall>l \<in> {a, b, d}. NL \<notin> set l \<and> CR \<notin> set l"
  shows "str_lines (a @ [NL] @ b @ [NL] @ d @ [NL]) = [a, b, d]"
  using assms by (simp add: str_lines_def Let_def)

lemma digit_val_char [simp]: "d < 10 \<Longrightarrow> digit_val (char_of (48 + d)) = Some d"
  by (simp add: digit_val_def Let_def)

lemma show_nat_digits: "\<forall>c \<in> set (show_nat n). digit_val c \<noteq> None"
  by (induction n rule: show_nat.induct) (subst show_nat.simps, simp)

lemma show_nat_nonempty [simp]: "show_nat n \<noteq> []"
  by (subst show_nat.simps) simp

lemma parse_digits_append:
  "parse_digits (s @ t) acc = Option.bind (parse_digits s acc) (parse_digits t)"
  by (induction s arbitrary: acc) (auto split: option.splits)

lemma parse_digits_show: "n < 2 ^ 64 \<Longrightarrow> parse_digits (show_nat n) 0 = Some n"
proof (induction n rule: show_nat.induct)
  case (1 n)
  show ?case
  proof (cases "n < 10")
    case True
    then show ?thesis by (subst show_nat.simps) simp
  next
    case False
    moreover have "parse_digits (show_nat (n div 10)) 0 = Some (n div 10)" using 1 False by simp
    ultimately show ?thesis using "1.prems" by (subst show_nat.simps) (simp add: parse_digits_append)
  qed
qed

lemma digit_not_special:
  "digit_val c \<noteq> None \<Longrightarrow> c \<noteq> NL \<and> c \<noteq> CR \<and> c \<noteq> CHR ''+'' \<and> \<not> is_ws c"
  by (auto simp: digit_val_def is_ws_def Let_def)

lemma str_trim_plain: "\<forall>c \<in> set s. \<not> is_ws c \<Longrightarrow> str_trim s = s"
proof -
  have "dropWhile is_ws xs = xs" if "\<forall>c \<in> set xs. \<not> is_ws c" for xs using that by (cases xs) auto
  from this [of s] this [of "rev s"] show "\<forall>c \<in> set s. \<not> is_ws c \<Longrightarrow> ?thesis"
    by (simp add: str_trim_def)
qed

lemma parse_show_nat: "n < 2 ^ 64 \<Longrightarrow> parse_u64 (str_trim (show_nat n)) = Some n"
proof -
  assume n: "n < 2 ^ 64"
  obtain c cs where s: "show_nat n = c # cs" using show_nat_nonempty [of n] by (cases "show_nat n") auto
  have "c \<noteq> CHR ''+''" using show_nat_digits [of n] digit_not_special unfolding s by simp
  moreover have "str_trim (show_nat n) = show_nat n"
    using show_nat_digits digit_not_special by (blast intro: str_trim_plain)
  ultimately show ?thesis using parse_digits_show [OF n] by (simp add: parse_u64_def s)
qed

text \<open>Paths the manifest can hold.\<close>

definition path_ok :: "string \<Rightarrow> bool" where
  "path_ok p \<longleftrightarrow> p \<noteq> [] \<and> CHR '','' \<notin> set p \<and> NL \<notin> set p \<and> CR \<notin> set p"

lemma split_paths_join: "list_all path_ok ps \<Longrightarrow> split_paths (str_join '','' ps) = ps"
proof (induction ps rule: induct_list012)
  case (3 p q ps)
  then have "split_on (CHR '','') (p @ CHR '','' # str_join '','' (q # ps)) =
      p # split_on (CHR '','') (str_join '','' (q # ps))"
    by (simp add: path_ok_def)
  then show ?case using 3 by (simp add: split_paths_def path_ok_def)
qed (simp_all add: split_paths_def path_ok_def)

lemma join_no_breaks: "list_all path_ok ps \<Longrightarrow> NL \<notin> set (str_join '','' ps) \<and> CR \<notin> set (str_join '','' ps)"
  by (induction ps rule: induct_list012) (auto simp: path_ok_def)

definition snapshot_ok :: "manifest_snapshot \<Rightarrow> bool" where
  "snapshot_ok m \<longleftrightarrow> list_all path_ok (ms_level0 m) \<and> list_all path_ok (ms_level1 m) \<and> ms_sequence m < 2 ^ 64"

lemma manifest_parse_encode:
  assumes "snapshot_ok m"
  shows "manifest_parse (manifest_encode m) = Inr (Some m)"
proof -
  let ?a = "''seq='' @ show_nat (ms_sequence m)"
  let ?b = "''level0='' @ str_join '','' (ms_level0 m)"
  let ?d = "''level1='' @ str_join '','' (ms_level1 m)"
  have "\<forall>c \<in> set (show_nat (ms_sequence m)). c \<noteq> NL \<and> c \<noteq> CR"
    using show_nat_digits digit_not_special by blast
  then have "\<forall>l \<in> {?a, ?b, ?d}. NL \<notin> set l \<and> CR \<notin> set l"
    using assms join_no_breaks by (auto simp: snapshot_ok_def)
  then have "str_lines (manifest_encode m) = [?a, ?b, ?d]"
    using str_lines_three [of ?a ?b ?d] by (simp add: manifest_encode_def)
  then show ?thesis
    using assms parse_show_nat split_paths_join
    by (simp add: manifest_parse_def strip_prefix_def starts_with_def snapshot_ok_def)
qed

section \<open>Properties\<close>

text \<open>
  C21. The manifest survives a restart and a crash while it is replaced: loading after a commit
  gives the committed inventory, and loading after a crash in the middle of a second commit
  gives the first or the second inventory, whole. Paths must be non-empty and free of commas
  and line breaks, which the format does not escape.
\<close>

theorem manifest_commit_atomic:
  assumes "snapshot_ok m" "snapshot_ok m'"
  shows "manifest_load (manifest_commit m d) = Inr (Some m) \<and>
    manifest_load (atomic_write_crash n (manifest_encode m') (manifest_commit m d)) =
      Inr (Some (if n \<le> length (manifest_encode m') + 1 then m else m'))"
  using assms manifest_parse_encode
  by (cases n) (simp_all add: manifest_load_def manifest_commit_def atomic_write_def file_create_def
      file_write_def fs_rename_def)

theorem manifest_commit_atomic_witness:
  "manifest_load (atomic_write_crash 7
     (manifest_encode \<lparr>ms_level0 = [''sst/b'', ''sst/c''], ms_level1 = [''sst/d''], ms_sequence = 43\<rparr>)
     (manifest_commit \<lparr>ms_level0 = [''sst/a''], ms_level1 = [], ms_sequence = 42\<rparr>
       \<lparr>ad_tmp = None, ad_target = None\<rparr>)) =
   Inr (Some \<lparr>ms_level0 = [''sst/a''], ms_level1 = [], ms_sequence = 42\<rparr>)"
  using manifest_commit_atomic [of "\<lparr>ms_level0 = [''sst/a''], ms_level1 = [], ms_sequence = 42\<rparr>"
      "\<lparr>ms_level0 = [''sst/b'', ''sst/c''], ms_level1 = [''sst/d''], ms_sequence = 43\<rparr>"
      "\<lparr>ad_tmp = None, ad_target = None\<rparr>" 7]
  by (simp add: snapshot_ok_def path_ok_def manifest_encode_def)

end
