(* ===== verification/Compaction.thy ===== *)
theory Compaction
  imports Sst_Table Manifest "HOL-Library.Char_ord" "HOL-Library.Product_Lexorder"
begin

text \<open>
  Table files and compaction (\<^verbatim>\<open>compaction.rs\<close>): allocation of file names in the \<^verbatim>\<open>sst\<close> directory
  and the merge of all level-0 tables into one level-1 table. The directory is a map from file
  names to contents, and a table path is the file name in it. The binary heap of the merge is
  the ascending list of its entries; an entry is a key, a value and the number of the stream it
  comes from, compared in this order.
\<close>

section \<open>Names and numbers\<close>

type_synonym sst_dir = "(string \<times> bytes) list"

definition sst_prefix :: "nat \<Rightarrow> string" where
  "sst_prefix level = ''L'' @ show_nat level @ ''-''"

definition strip_suffix :: "string \<Rightarrow> string \<Rightarrow> string option" where
  "strip_suffix q s =
     (if length q \<le> length s \<and> drop (length s - length q) s = q
      then Some (take (length s - length q) s) else None)"

definition sst_id_of :: "nat \<Rightarrow> string \<Rightarrow> nat option" where
  "sst_id_of level name =
     (case strip_prefix (sst_prefix level) name of
        None \<Rightarrow> None
      | Some s \<Rightarrow> (case strip_suffix ''.sst'' s of None \<Rightarrow> None | Some id_str \<Rightarrow> parse_u64 id_str))"

definition next_sst_id :: "sst_dir \<Rightarrow> nat \<Rightarrow> fault + nat" where
  "next_sst_id d level =
     (let max_id = fold (\<lambda>(name, _) m. case sst_id_of level name of None \<Rightarrow> m | Some i \<Rightarrow> max m i) d 0
      in if max_id + 1 < 2 ^ 64 then Inr (max_id + 1) else Inl Panic)"

text \<open>\<^verbatim>\<open>format!("L{level}-{id:09}.sst")\<close>\<close>

definition sst_name :: "nat \<Rightarrow> nat \<Rightarrow> string" where
  "sst_name level i =
     sst_prefix level @ replicate (9 - length (show_nat i)) (CHR ''0'') @ show_nat i @ ''.sst''"

definition file_ext :: "string \<Rightarrow> string option" where
  "file_ext name =
     (let r = takeWhile (\<lambda>ch. ch \<noteq> CHR ''.'') (rev name)
      in if length r + 1 < length name then Some (rev r) else None)"

definition ascii_lower :: "char \<Rightarrow> char" where
  "ascii_lower ch = (let n = of_char ch in if 65 \<le> n \<and> n \<le> (90 :: nat) then char_of (n + 32) else ch)"

text \<open>\<^verbatim>\<open>files.sort()\<close>: the directory is already in ascending order.\<close>

definition list_sst_level :: "sst_dir \<Rightarrow> nat \<Rightarrow> string list" where
  "list_sst_level d level =
     filter (\<lambda>name. starts_with name (sst_prefix level) \<and>
        (case file_ext name of None \<Rightarrow> False | Some ext \<Rightarrow> map ascii_lower ext = ''sst''))
       (map fst d)"

definition alloc_sst_path :: "sst_dir \<Rightarrow> nat \<Rightarrow> fault + string" where
  "alloc_sst_path d level = try_bind (next_sst_id d level) (\<lambda>i. Inr (sst_name level i))"

section \<open>The merge\<close>

definition L0_COMPACTION_TRIGGER :: nat where "L0_COMPACTION_TRIGGER = 4"

type_synonym sst_stream = "(storage_error + (bytes \<times> bytes)) list"
type_synonym merge_entry = "bytes \<times> bytes \<times> nat"

text \<open>\<^verbatim>\<open>collect::<Result<Vec<_>, _>>()\<close>\<close>

primrec try_map :: "('a \<Rightarrow> 'e + 'b) \<Rightarrow> 'a list \<Rightarrow> 'e + 'b list" where
  "try_map f [] = Inr []"
| "try_map f (x # xs) = try_bind (f x) (\<lambda>y. try_bind (try_map f xs) (\<lambda>ys. Inr (y # ys)))"

definition stream_next :: "nat \<Rightarrow> sst_stream list \<Rightarrow> (storage_error + (bytes \<times> bytes)) option \<times> sst_stream list" where
  "stream_next i ss =
     (if i < length ss then
        case ss ! i of [] \<Rightarrow> (None, ss) | x # xs \<Rightarrow> (Some x, ss[i := xs])
      else (None, ss))"

definition push_next :: "nat \<Rightarrow> merge_entry list \<times> sst_stream list \<Rightarrow> merge_entry list \<times> sst_stream list" where
  "push_next i hs =
     (let (heap, ss) = hs in
      case stream_next i ss of
        (Some (Inr (k, v)), ss') \<Rightarrow> (insort (k, v, i) heap, ss')
      | (_, ss') \<Rightarrow> (heap, ss'))"

definition merge_size :: "merge_entry list \<times> sst_stream list \<Rightarrow> nat" where
  "merge_size hs = length (fst hs) + sum_list (map length (snd hs))"

lemma stream_next_size:
  assumes "stream_next i ss = (r, ss')"
  shows "sum_list (map length ss') + (if r = None then 0 else 1) = sum_list (map length ss)"
proof (cases "i < length ss \<and> ss ! i \<noteq> []")
  case True
  then obtain x xs where x: "ss ! i = x # xs" by (cases "ss ! i") auto
  have "Suc (length xs) \<le> sum_list (map length ss)"
    using elem_le_sum_list [of i "map length ss"] True x by simp
  then show ?thesis using assms True x by (auto simp: stream_next_def map_update sum_list_update)
next
  case False
  then show ?thesis using assms by (auto simp: stream_next_def split: if_splits list.splits)
qed

lemma push_next_size: "merge_size (push_next i hs) \<le> merge_size hs"
proof -
  obtain heap ss where hs: "hs = (heap, ss)" by (cases hs)
  obtain r ss' where nx: "stream_next i ss = (r, ss')" by (cases "stream_next i ss")
  show ?thesis
    using stream_next_size [OF nx]
    by (auto simp: hs push_next_def nx merge_size_def split: option.splits sum.splits)
qed

definition merge_init :: "sst_stream list \<Rightarrow> merge_entry list \<times> sst_stream list" where
  "merge_init streams = fold push_next [0..<length streams] ([], streams)"

text \<open>\<^verbatim>\<open>while let Some(..) = heap.pop()\<close>\<close>

function merge_loop :: "merge_entry list \<times> sst_stream list \<Rightarrow> memtable \<Rightarrow> storage_error + memtable" where
  "merge_loop hs merged =
     (case fst hs of
        [] \<Rightarrow> Inr merged
      | (k, v, i) # heap \<Rightarrow>
          try_bind (memtable_put k v merged) (\<lambda>merged'.
            merge_loop (push_next i (heap, snd hs)) merged'))"
  by pat_completeness auto
termination
proof (relation "measure (\<lambda>(hs, _). merge_size hs)", goal_cases)
  case (2 hs merged x heap k vi v i merged')
  then show ?case
    using push_next_size [of i "(heap, snd hs)"] by (cases hs) (simp add: merge_size_def)
qed simp

declare merge_loop.simps [simp del]

section \<open>Compaction\<close>

definition io_missing :: storage_error where
  "io_missing = Io ''No such file or directory''"

definition sst_open_file :: "sst_dir \<Rightarrow> string \<Rightarrow> fault + sst_reader" where
  "sst_open_file d path =
     (case bt_get d path of None \<Rightarrow> Inl (Err io_missing) | Some data \<Rightarrow> sst_open data)"

primrec remove_files :: "string list \<Rightarrow> sst_dir \<Rightarrow> fault + sst_dir" where
  "remove_files [] d = Inr d"
| "remove_files (f # fs) d =
     (if bt_get d f = None then Inl (Err io_missing) else remove_files fs (bt_remove f d))"

definition sst_stream_of :: "(bytes \<Rightarrow> u32) \<Rightarrow> sst_reader \<Rightarrow> fault + sst_stream" where
  "sst_stream_of c rd = try_bind (lift_err (sst_scan c rd)) (\<lambda>it. Inr (sst_items c it))"

definition compact_level0_to_l1 ::
  "(bytes \<Rightarrow> u32) \<Rightarrow> (nat \<Rightarrow> int) \<Rightarrow> (u32 \<Rightarrow> nat \<Rightarrow> int) \<Rightarrow> sst_dir \<Rightarrow> string list \<Rightarrow> fault + (string \<times> sst_dir)" where
  "compact_level0_to_l1 c raw_m raw_k d l0_files =
     (if l0_files = [] then Inl (Err (InvalidInput ''nothing to compact''))
      else
        try_bind (try_map (sst_open_file d) l0_files) (\<lambda>readers.
        try_bind (try_map (sst_stream_of c) readers) (\<lambda>streams.
        try_bind (lift_err (merge_loop (merge_init streams) memtable_new)) (\<lambda>merged.
        try_bind (alloc_sst_path d 1) (\<lambda>out.
        try_bind (write_from_memtable c raw_m raw_k merged) (\<lambda>(data, _).
        try_bind (remove_files l0_files (bt_insert out data d)) (\<lambda>d'.
          Inr (out, d'))))))))"

section \<open>Correctness of the merge\<close>

text \<open>
  The streams of readable tables are lists of pairs; \<open>J\<close> are the streams whose head has been
  pushed. A stream in \<open>J\<close> that still has entries is represented in the heap by an entry below
  all of them.
\<close>

definition heap_streams :: "merge_entry list \<Rightarrow> nat set" where
  "heap_streams heap = (snd \<circ> snd) ` set heap"

definition merge_inv :: "nat set \<Rightarrow> merge_entry list \<Rightarrow> (bytes \<times> bytes) list list \<Rightarrow> bool" where
  "merge_inv J heap tss \<longleftrightarrow>
     sorted heap \<and> distinct (map (snd \<circ> snd) heap) \<and>
     (\<forall>(k, v, i) \<in> set heap. i < length tss \<and> (\<forall>k' \<in> fst ` set (tss ! i). k < k')) \<and>
     (\<forall>i < length tss. bt_sorted (tss ! i) \<and> (i \<in> J \<longrightarrow> tss ! i \<noteq> [] \<longrightarrow> i \<in> heap_streams heap))"

definition pending :: "merge_entry list \<Rightarrow> (bytes \<times> bytes) list list \<Rightarrow> (bytes \<times> bytes) set" where
  "pending heap tss = (\<lambda>(k, v, i). (k, v)) ` set heap \<union> \<Union> (set ` set tss)"

lemma push_next_Inr:
  "i < length tss \<Longrightarrow> push_next i (heap, map (map Inr) tss) =
     (case tss ! i of [] \<Rightarrow> (heap, map (map Inr) tss)
      | (k, v) # r \<Rightarrow> (insort (k, v, i) heap, map (map Inr) (tss[i := r])))"
  by (auto simp: push_next_def stream_next_def map_update split: list.splits)

lemma distinct_insort_snd:
  "distinct (map f (insort x xs)) \<longleftrightarrow> distinct (map f (x # xs))"
  by (induction xs) (auto simp: set_insort_key)

lemma push_inv:
  assumes inv: "merge_inv J heap tss" and i: "i < length tss" "i \<notin> heap_streams heap"
  shows "\<exists>heap' tss'. push_next i (heap, map (map Inr) tss) = (heap', map (map Inr) tss') \<and>
    merge_inv (insert i J) heap' tss' \<and> pending heap' tss' = pending heap tss \<and> length tss' = length tss"
proof (cases "tss ! i")
  case Nil
  moreover have "merge_inv (insert i J) heap tss" using inv i Nil by (auto simp: merge_inv_def)
  ultimately show ?thesis using i by (auto simp: push_next_Inr)
next
  case (Cons kv r)
  obtain k v where kv: "kv = (k, v)" by (cases kv)
  have "bt_sorted (tss ! i)" using inv i by (simp add: merge_inv_def)
  then have srt: "bt_sorted ((k, v) # r)" by (simp add: Cons kv)
  have push: "push_next i (heap, map (map Inr) tss) = (insort (k, v, i) heap, map (map Inr) (tss[i := r]))"
    using Cons kv i by (simp add: push_next_Inr)
  have "merge_inv (insert i J) (insort (k, v, i) heap) (tss[i := r])"
    unfolding merge_inv_def
  proof (intro conjI allI impI ballI)
    show "sorted (insort (k, v, i) heap)" using inv by (simp add: merge_inv_def sorted_insort)
    show "distinct (map (snd \<circ> snd) (insort (k, v, i) heap))"
      using inv i by (auto simp: distinct_insort_snd merge_inv_def heap_streams_def)
    show "case e of (k, v, j) \<Rightarrow> j < length (tss[i := r]) \<and> (\<forall>k' \<in> fst ` set (tss[i := r] ! j). k < k')"
      if "e \<in> set (insort (k, v, i) heap)" for e
      using that inv i srt
      by (fastforce simp: set_insort_key merge_inv_def heap_streams_def nth_list_update image_iff split: prod.splits)
    fix j assume j: "j < length (tss[i := r])"
    show "bt_sorted (tss[i := r] ! j)"
      using j inv srt by (cases "j = i") (auto simp: merge_inv_def)
    show "j \<in> heap_streams (insort (k, v, i) heap)" if "j \<in> insert i J" "tss[i := r] ! j \<noteq> []"
      using that j inv by (cases "j = i") (auto simp: merge_inv_def heap_streams_def set_insort_key)
  qed
  moreover have "pending (insort (k, v, i) heap) (tss[i := r]) = pending heap tss"
  proof -
    have "tss = take i tss @ ((k, v) # r) # drop (Suc i) tss"
      using id_take_nth_drop [OF i(1)] Cons kv by simp
    moreover have "tss[i := r] = take i tss @ r # drop (Suc i) tss"
      using i(1) by (simp add: upd_conv_take_nth_drop)
    moreover have "\<Union> (set ` set (a @ ((k, v) # r) # b)) = insert (k, v) (\<Union> (set ` set (a @ r # b)))" for a b
      by auto
    ultimately have "\<Union> (set ` set tss) = insert (k, v) (\<Union> (set ` set (tss[i := r])))" by metis
    then show ?thesis by (simp add: pending_def set_insort_key)
  qed
  ultimately show ?thesis using push by auto
qed

lemma pending_min:
  assumes inv: "merge_inv UNIV ((k, v, i) # heap) tss" and p: "(k', v') \<in> pending heap tss"
  shows "k < k' \<or> k = k' \<and> v \<le> v'"
proof -
  have least: "k < k2 \<or> k = k2 \<and> v \<le> v2" if "(k2, v2, j) \<in> set ((k, v, i) # heap)" for k2 v2 j
    using inv that by (auto simp: merge_inv_def less_eq_prod_def)
  consider (heap) j where "(k', v', j) \<in> set heap" | (stream) j where "j < length tss" "(k', v') \<in> set (tss ! j)"
    using p by (auto simp: pending_def) (metis in_set_conv_nth)
  then show ?thesis
  proof cases
    case heap
    then show ?thesis using least by auto
  next
    case stream
    have "tss ! j \<noteq> []" using stream(2) by auto
    with inv stream(1) have "j \<in> heap_streams ((k, v, i) # heap)" unfolding merge_inv_def by simp
    then obtain k2 v2 where e: "(k2, v2, j) \<in> set ((k, v, i) # heap)"
      unfolding heap_streams_def by fastforce
    have "\<forall>(k, v, i) \<in> set ((k, v, i) # heap). \<forall>k' \<in> fst ` set (tss ! i). k < k'"
      using inv unfolding merge_inv_def by blast
    from bspec [OF this e] have "\<forall>x \<in> fst ` set (tss ! j). k2 < x" by simp
    then have "k2 < k'" using stream(2) by force
    then show ?thesis using least [OF e] by auto
  qed
qed

lemma memtable_put_get:
  assumes "memtable_inv m" "k \<noteq> []"
  shows "\<exists>m'. memtable_put k v m = Inr m' \<and> memtable_inv m' \<and>
    (\<forall>k'. bt_get (mt_map m') k' = (if k' = k then Some v else bt_get (mt_map m) k'))"
proof -
  obtain m' where m': "memtable_put k v m = Inr m'" using assms(2) by (auto simp: memtable_put_eq)
  moreover have "mt_map m' = bt_insert k v (mt_map m)" using m' assms(2) by (auto simp: memtable_put_eq)
  moreover have "bt_sorted (mt_map m)" using assms(1) by (simp add: memtable_inv_def)
  ultimately show ?thesis using memtable_inv_put [OF assms(1) m'] by (simp add: bt_get_insert)
qed

text \<open>For every key the largest of the pending values ends up in the table.\<close>

lemma merge_loop_spec:
  assumes "merge_inv UNIV heap tss" and "memtable_inv m" and "\<forall>(k, v) \<in> pending heap tss. k \<noteq> []"
    and "\<forall>(k, v) \<in> pending heap tss. \<forall>w. bt_get (mt_map m) k = Some w \<longrightarrow> w \<le> v"
  shows "\<exists>m'. merge_loop (heap, map (map Inr) tss) m = Inr m' \<and> memtable_inv m' \<and>
    (\<forall>k. bt_get (mt_map m') k =
       (let vs = {v. (k, v) \<in> pending heap tss} in if vs = {} then bt_get (mt_map m) k else Some (Max vs)))"
  using assms
proof (induction "merge_size (heap, map (map Inr :: _ \<Rightarrow> sst_stream) tss)" arbitrary: heap tss m rule: less_induct)
  case less
  show ?case
  proof (cases heap)
    case Nil
    then have "tss ! i = []" if "i < length tss" for i
      using less.prems(1) that by (auto simp: merge_inv_def heap_streams_def)
    then have "pending heap tss = {}" by (auto simp: pending_def Nil in_set_conv_nth)
    then show ?thesis using less.prems(2) by (subst merge_loop.simps) (simp add: Nil)
  next
    case (Cons e heap2)
    obtain k v i where e: "e = (k, v, i)" by (cases e)
    have inv2: "merge_inv (UNIV - {i}) heap2 tss" and i: "i < length tss" "i \<notin> heap_streams heap2"
      using less.prems(1) by (auto simp: merge_inv_def Cons e heap_streams_def)
    obtain heap3 tss3 where push: "push_next i (heap2, map (map Inr) tss) = (heap3, map (map Inr) tss3)"
      and inv3: "merge_inv UNIV heap3 tss3" and pen: "pending heap3 tss3 = pending heap2 tss"
      using push_inv [OF inv2 i] by (auto simp: insert_UNIV)
    have all: "pending heap tss = insert (k, v) (pending heap3 tss3)"
      unfolding pen by (simp add: pending_def Cons e)
    have "k \<noteq> []" using less.prems(3) all by auto
    then obtain m1 where m1: "memtable_put k v m = Inr m1" "memtable_inv m1"
      "\<And>k'. bt_get (mt_map m1) k' = (if k' = k then Some v else bt_get (mt_map m) k')"
      using memtable_put_get [OF less.prems(2)] by blast
    have min: "v \<le> v'" if "(k, v') \<in> pending heap3 tss3" for v'
      using pending_min [of k v i heap2 tss k v'] less.prems(1) that by (auto simp: Cons e pen)
    have size: "merge_size (heap3, map (map Inr :: _ \<Rightarrow> sst_stream) tss3) < merge_size (heap, map (map Inr :: _ \<Rightarrow> sst_stream) tss)"
      using push_next_size [of i "(heap2, map (map Inr) tss)"] by (simp add: push Cons merge_size_def)
    have low: "\<forall>(k', v') \<in> pending heap3 tss3. \<forall>w. bt_get (mt_map m1) k' = Some w \<longrightarrow> w \<le> v'"
      using less.prems(4) min unfolding all m1(3) by (auto split: if_splits)
    have ne: "\<forall>(k', v') \<in> pending heap3 tss3. k' \<noteq> []" using less.prems(3) all by auto
    from less.hyps [OF size inv3 m1(2) ne low] obtain m' where
      m': "merge_loop (heap3, map (map Inr) tss3) m1 = Inr m'" "memtable_inv m'"
      "\<And>k'. bt_get (mt_map m') k' = (let vs = {v. (k', v) \<in> pending heap3 tss3}
         in if vs = {} then bt_get (mt_map m1) k' else Some (Max vs))"
      by (elim exE conjE) simp
    have "merge_loop (heap, map (map Inr) tss) m = Inr m'"
      using m'(1) m1(1) push by (subst merge_loop.simps) (simp add: Cons e)
    moreover have "finite (pending heap3 tss3)" by (simp add: pending_def)
    then have fin: "finite {v. (k', v) \<in> pending heap3 tss3}" for k'
      by (rule finite_subset [rotated, OF finite_imageI [of _ snd]]) force
    have "bt_get (mt_map m') k' = (let vs = {v. (k', v) \<in> pending heap tss}
         in if vs = {} then bt_get (mt_map m) k' else Some (Max vs))" for k'
    proof (cases "k' = k")
      case True
      have "{w. (k, w) \<in> pending heap tss} = insert v {w. (k, w) \<in> pending heap3 tss3}" using all by auto
      moreover have "Max (insert v {w. (k, w) \<in> pending heap3 tss3}) = Max {w. (k, w) \<in> pending heap3 tss3}"
        if "{w. (k, w) \<in> pending heap3 tss3} \<noteq> {}"
        using Max_in [OF fin that] min fin that by (simp add: max_absorb2)
      ultimately show ?thesis using m'(3) m1(3) True by (simp add: Let_def)
    next
      case False
      then show ?thesis using m'(3) m1(3) all by (simp add: Let_def)
    qed
    ultimately show ?thesis using m'(2) by blast
  qed
qed

lemma merge_init_spec:
  assumes "\<forall>ts \<in> set tss. bt_sorted ts"
  shows "\<exists>heap tss'. merge_init (map (map Inr) tss) = (heap, map (map Inr) tss') \<and>
    merge_inv UNIV heap tss' \<and> pending heap tss' = \<Union> (set ` set tss)"
proof -
  have "\<exists>heap tss'. fold push_next [0..<n] ([], map (map Inr) tss) = (heap, map (map Inr) tss') \<and>
      merge_inv {..<n} heap tss' \<and> pending heap tss' = \<Union> (set ` set tss) \<and>
      heap_streams heap \<subseteq> {..<n} \<and> length tss' = length tss" if "n \<le> length tss" for n
    using that
  proof (induction n)
    case 0
    then show ?case using assms by (auto simp: merge_inv_def heap_streams_def pending_def)
  next
    case (Suc n)
    then obtain heap tss' where IH: "fold push_next [0..<n] ([], map (map Inr) tss) = (heap, map (map Inr) tss')"
      "merge_inv {..<n} heap tss'" "pending heap tss' = \<Union> (set ` set tss)"
      "heap_streams heap \<subseteq> {..<n}" "length tss' = length tss" by auto
    have n: "n < length tss'" "n \<notin> heap_streams heap" using Suc.prems IH(4,5) by auto
    obtain heap2 tss2 where push: "push_next n (heap, map (map Inr) tss') = (heap2, map (map Inr) tss2)"
      "merge_inv (insert n {..<n}) heap2 tss2" "pending heap2 tss2 = pending heap tss'" "length tss2 = length tss'"
      using push_inv [OF IH(2) n] by auto
    have "heap_streams heap2 \<subseteq> insert n (heap_streams heap)"
      using push(1) n(1)
      by (auto simp: push_next_Inr heap_streams_def set_insort_key split: list.splits)
    also have "\<dots> \<subseteq> {..<Suc n}" using IH(4) by auto
    finally have "heap_streams heap2 \<subseteq> {..<Suc n}" .
    then show ?case using push IH by (simp add: lessThan_Suc)
  qed
  from this [of "length tss"] obtain heap tss' where
    *: "merge_init (map (map Inr) tss) = (heap, map (map Inr) tss')"
    "merge_inv {..<length tss} heap tss'" "pending heap tss' = \<Union> (set ` set tss)" "length tss' = length tss"
    by (auto simp: merge_init_def)
  from *(2,4) have "merge_inv UNIV heap tss'" by (simp add: merge_inv_def)
  with * show ?thesis by blast
qed

text \<open>What the compacted table holds, as a function of the merged contents.\<close>

definition largest_value :: "(bytes \<times> bytes) list list \<Rightarrow> bytes \<Rightarrow> bytes option" where
  "largest_value tss k =
     (let vs = {v. \<exists>ts \<in> set tss. bt_get ts k = Some v} in if vs = {} then None else Some (Max vs))"

lemma merge_spec:
  assumes "\<forall>ts \<in> set tss. bt_sorted ts \<and> [] \<notin> fst ` set ts"
  shows "\<exists>m. merge_loop (merge_init (map (map Inr) tss)) memtable_new = Inr m \<and> memtable_inv m \<and>
    (\<forall>k. bt_get (mt_map m) k = largest_value tss k)"
proof -
  obtain heap tss' where init: "merge_init (map (map Inr) tss) = (heap, map (map Inr) tss')"
    "merge_inv UNIV heap tss'" "pending heap tss' = \<Union> (set ` set tss)"
    using merge_init_spec [of tss] assms by auto
  have "(k, v) \<in> set ts \<longleftrightarrow> bt_get ts k = Some v" if ts: "ts \<in> set tss" for k v ts
    using bt.in_entries_iff [of ts k v] assms ts by simp
  then have vs: "{v. (k, v) \<in> pending heap tss'} = {v. \<exists>ts \<in> set tss. bt_get ts k = Some v}" for k
    unfolding init by auto
  have ne: "\<forall>(k, v) \<in> pending heap tss'. k \<noteq> []" using assms unfolding init by force
  have new: "bt_get (mt_map memtable_new) k = None" for k by (simp add: memtable_new_def bt_get_def)
  then have "\<forall>(k, v) \<in> pending heap tss'. \<forall>w. bt_get (mt_map memtable_new) k = Some w \<longrightarrow> w \<le> v"
    by simp
  from merge_loop_spec [OF init(2) memtable_inv_new ne this] show ?thesis
    unfolding init(1) vs new largest_value_def .
qed

section \<open>File names\<close>

lemma parse_digits_zeros: "parse_digits (replicate n (CHR ''0'') @ s) 0 = parse_digits s 0"
proof (induction n)
  case (Suc n)
  have "digit_val (CHR ''0'') = Some 0" by (simp add: digit_val_def)
  then show ?case using Suc by simp
qed simp

lemma strip_suffix_append [simp]: "strip_suffix q (s @ q) = Some s"
  by (simp add: strip_suffix_def)

lemma sst_id_of_name: "i < 2 ^ 64 \<Longrightarrow> sst_id_of level (sst_name level i) = Some i"
proof -
  assume i: "i < 2 ^ 64"
  let ?ds = "replicate (9 - length (show_nat i)) (CHR ''0'') @ show_nat i"
  have "c \<noteq> CHR ''+''" if "c \<in> set ?ds" for c
    using that show_nat_digits [of i] digit_not_special [of c] by (auto split: if_splits)
  then have "(case ?ds of c # cs \<Rightarrow> if c = CHR ''+'' then cs else ?ds | [] \<Rightarrow> []) = ?ds"
    by (cases ?ds) auto
  then have "parse_u64 ?ds = Some i"
    using parse_digits_show [OF i] by (simp add: parse_u64_def parse_digits_zeros)
  then show ?thesis
    using strip_suffix_append [of "''.sst''" ?ds]
    by (simp add: sst_id_of_def sst_name_def strip_prefix_def)
qed

lemma next_sst_id_bound:
  assumes "next_sst_id d level = Inr n" and "(name, x) \<in> set d" and "sst_id_of level name = Some i"
  shows "i < n \<and> n < 2 ^ 64"
proof -
  let ?f = "\<lambda>(name, _) m. case sst_id_of level name of None \<Rightarrow> m | Some i \<Rightarrow> max m i"
  have up: "m \<le> fold ?f d m" for d :: sst_dir and m
  proof (induction d arbitrary: m)
    case (Cons e d)
    have "m \<le> ?f e m" by (cases e) (simp split: option.split)
    then show ?case using Cons [of "?f e m"] by simp
  qed simp
  have "i \<le> fold ?f d m" if "(name, x) \<in> set d" for d m
    using that
  proof (induction d arbitrary: m)
    case (Cons e d)
    show ?case
    proof (cases "e = (name, x)")
      case True
      then show ?thesis using assms(3) up [of "max m i" d] by (simp add: max_def split: if_splits)
    qed (use Cons in simp)
  qed simp
  from this [OF assms(2), of 0] show ?thesis
    using assms(1) by (auto simp: next_sst_id_def Let_def split: if_splits)
qed

lemma next_sst_id_less: "next_sst_id d level = Inr n \<Longrightarrow> n < 2 ^ 64"
  by (auto simp: next_sst_id_def Let_def split: if_splits)

text \<open>A fresh path is never the path of an existing file.\<close>

lemma alloc_sst_path_fresh:
  assumes "alloc_sst_path d level = Inr path"
  shows "path \<notin> fst ` set d"
proof
  assume "path \<in> fst ` set d"
  then obtain x where x: "(path, x) \<in> set d" by force
  obtain n where n: "next_sst_id d level = Inr n" "path = sst_name level n"
    using assms by (auto simp: alloc_sst_path_def try_bind_Inr)
  show False
    using next_sst_id_bound [OF n(1) x] sst_id_of_name [OF next_sst_id_less [OF n(1)]] n(2) by auto
qed

section \<open>The compacted table\<close>

text \<open>A readable table file, and its entries.\<close>

definition table_ok :: "(bytes \<Rightarrow> u32) \<Rightarrow> sst_dir \<Rightarrow> string \<Rightarrow> bool" where
  "table_ok c d path \<longleftrightarrow>
     (\<exists>rd. sst_open_file d path = Inr rd \<and> sst_inv c rd \<and> [] \<notin> fst ` set (sst_content c rd))"

definition table_at :: "(bytes \<Rightarrow> u32) \<Rightarrow> sst_dir \<Rightarrow> string \<Rightarrow> (bytes \<times> bytes) list" where
  "table_at c d path = (case sst_open_file d path of Inl _ \<Rightarrow> [] | Inr rd \<Rightarrow> sst_content c rd)"

lemma table_ok_at:
  assumes "table_ok c d path"
  obtains rd where "sst_open_file d path = Inr rd" "sst_inv c rd" "sst_content c rd = table_at c d path"
  using assms by (auto simp: table_ok_def table_at_def)

lemma table_at_sorted: "table_ok c d path \<Longrightarrow> bt_sorted (table_at c d path) \<and> [] \<notin> fst ` set (table_at c d path)"
  using sst.content_sorted by (auto simp: table_ok_def table_at_def)

lemma table_at_fits: "table_ok c d path \<Longrightarrow> kv \<in> set (table_at c d path) \<Longrightarrow> kv_fits kv"
  by (auto simp: table_ok_def table_at_def sst_inv_def sst_content_ok) (auto simp: sst_ok_def)

lemma table_same_file:
  "bt_get d' path = bt_get d path \<Longrightarrow> table_ok c d' path = table_ok c d path \<and> table_at c d' path = table_at c d path"
  by (simp add: table_ok_def table_at_def sst_open_file_def)

lemma sst_stream_of_ok: "sst_inv c rd \<Longrightarrow> sst_stream_of c rd = Inr (map Inr (sst_content c rd))"
proof -
  assume "sst_inv c rd"
  then have "sst_entries c rd = Inr (sst_content c rd)"
    by (auto simp: sst_inv_def sst_entries_ok sst_content_ok)
  then obtain it where "sst_scan c rd = Inr it" "sst_collect c it = Inr (sst_content c rd)"
    by (auto simp: sst_entries_def try_bind_Inr)
  then show ?thesis by (simp add: sst_stream_of_def sst_items_collect)
qed

lemma open_streams:
  "\<forall>f \<in> set fs. table_ok c d f \<Longrightarrow>
     \<exists>rds. try_map (sst_open_file d) fs = Inr rds \<and>
       try_map (sst_stream_of c) rds = Inr (map (map Inr) (map (table_at c d) fs))"
proof (induction fs)
  case (Cons f fs)
  then obtain rd rds where "sst_open_file d f = Inr rd" "sst_inv c rd" "sst_content c rd = table_at c d f"
    "try_map (sst_open_file d) fs = Inr rds"
    "try_map (sst_stream_of c) rds = Inr (map (map Inr) (map (table_at c d) fs))"
    by (auto elim!: table_ok_at)
  then show ?case using sst_stream_of_ok [of c rd] by simp
qed simp

lemma remove_files_spec:
  "bt_sorted d \<Longrightarrow> distinct fs \<Longrightarrow> \<forall>f \<in> set fs. bt_get d f \<noteq> None \<Longrightarrow>
     \<exists>d'. remove_files fs d = Inr d' \<and> bt_sorted d' \<and>
       (\<forall>p. bt_get d' p = (if p \<in> set fs then None else bt_get d p))"
proof (induction fs arbitrary: d)
  case (Cons f fs)
  have "\<exists>d'. remove_files fs (bt_remove f d) = Inr d' \<and> bt_sorted d' \<and>
       (\<forall>p. bt_get d' p = (if p \<in> set fs then None else bt_get (bt_remove f d) p))"
    using Cons by (intro Cons.IH) (auto simp: btree_simps inv_intros)
  then show ?case using Cons.prems by (auto simp: btree_simps)
qed simp

lemma largest_value_mem:
  assumes "largest_value tss k = Some v"
  shows "\<exists>ts \<in> set tss. bt_get ts k = Some v"
proof -
  let ?vs = "{v. \<exists>ts \<in> set tss. bt_get ts k = Some v}"
  have "?vs \<subseteq> \<Union> ((\<lambda>ts. set_option (bt_get ts k)) ` set tss)" by force
  then have "finite ?vs" by (rule finite_subset) simp
  moreover have "?vs \<noteq> {}" "v = Max ?vs"
    using assms unfolding largest_value_def Let_def by (simp_all split: if_splits)
  ultimately show ?thesis using Max_in by blast
qed

lemma merged_bytes:
  assumes "distinct xs" "set xs \<subseteq> set ys"
  shows "image_bytes xs \<le> image_bytes ys"
proof -
  let ?f = "\<lambda>(k :: bytes, v :: bytes). 24 + 2 * length k + length v"
  have "image_bytes xs = sum ?f (set xs)"
    unfolding image_bytes_def using assms(1) by (simp add: sum_list_distinct_conv_sum_set)
  also have "\<dots> \<le> sum ?f (set ys)" using assms(2) by (intro sum_mono2) auto
  also have "\<dots> \<le> image_bytes ys"
    unfolding image_bytes_def by (induction ys) (auto simp: sum.insert_if)
  finally show ?thesis .
qed

lemma merged_fits:
  assumes "memtable_inv m" "\<forall>k. bt_get (mt_map m) k = largest_value tss k"
    and "\<forall>ts \<in> set tss. bt_sorted ts" "\<forall>ts \<in> set tss. \<forall>kv \<in> set ts. kv_fits kv"
    and "length (concat tss) < 2 ^ 32" "image_bytes (concat tss) < 2 ^ 62"
  shows "table_fits (memtable_iter m)"
proof -
  have srt: "bt_sorted (mt_map m)" using assms(1) by (simp add: memtable_inv_def)
  have sub: "set (mt_map m) \<subseteq> set (concat tss)"
  proof clarify
    fix k v assume "(k, v) \<in> set (mt_map m)"
    then have "largest_value tss k = Some v" using bt.in_entries_iff [OF srt] assms(2) by simp
    then obtain ts where "ts \<in> set tss" "bt_get ts k = Some v" using largest_value_mem by blast
    then show "(k, v) \<in> set (concat tss)" using bt.in_entries_iff [of ts] assms(3) by auto
  qed
  have dist: "distinct (mt_map m)" using bt_sorted_distinct [OF srt] by (simp add: distinct_map)
  then have "length (mt_map m) = card (set (mt_map m))" by (simp add: distinct_card)
  also have "\<dots> \<le> card (set (concat tss))" using sub by (intro card_mono) auto
  also have "\<dots> \<le> length (concat tss)" by (rule card_length)
  finally show ?thesis
    using sub assms(4-6) merged_bytes [OF dist sub]
    by (auto simp: table_fits_def entries_fit_def memtable_iter_def)
qed

definition tables_small :: "(bytes \<times> bytes) list list \<Rightarrow> bool" where
  "tables_small tss \<longleftrightarrow> length (concat tss) < 2 ^ 32 \<and> image_bytes (concat tss) < 2 ^ 62"

lemma compact_spec:
  assumes d: "bt_sorted d" and l0: "l0 \<noteq> []" "distinct l0" "\<forall>f \<in> set l0. table_ok c d f"
    and small: "tables_small (map (table_at c d) l0)" and room: "next_sst_id d 1 = Inr n"
  shows "\<exists>d'. compact_level0_to_l1 c raw_m raw_k d l0 = Inr (sst_name 1 n, d') \<and> bt_sorted d' \<and>
    sst_name 1 n \<notin> fst ` set d \<and> table_ok c d' (sst_name 1 n) \<and>
    (\<forall>k. bt_get (table_at c d' (sst_name 1 n)) k = largest_value (map (table_at c d) l0) k) \<and>
    (\<forall>p. p \<noteq> sst_name 1 n \<longrightarrow> bt_get d' p = (if p \<in> set l0 then None else bt_get d p))"
proof -
  let ?tss = "map (table_at c d) l0" and ?out = "sst_name 1 n"
  obtain rds where rds: "try_map (sst_open_file d) l0 = Inr rds"
    "try_map (sst_stream_of c) rds = Inr (map (map Inr) ?tss)"
    using open_streams [OF l0(3)] by blast
  have srt: "\<forall>ts \<in> set ?tss. bt_sorted ts \<and> [] \<notin> fst ` set ts" using l0(3) table_at_sorted by auto
  from merge_spec [OF this] obtain m where m: "merge_loop (merge_init (map (map Inr) ?tss)) memtable_new = Inr m"
    "memtable_inv m" "\<forall>k. bt_get (mt_map m) k = largest_value ?tss k" by blast
  have "\<forall>ts \<in> set ?tss. \<forall>kv \<in> set ts. kv_fits kv" using l0(3) table_at_fits by fastforce
  then have "table_fits (memtable_iter m)"
    using merged_fits [OF m(2,3)] srt small by (simp add: tables_small_def)
  moreover have "bt_sorted (memtable_iter m)" using m(2) by (simp add: memtable_inv_def memtable_iter_def)
  ultimately obtain data rd where w: "write_from_memtable c raw_m raw_k m = Inr (data, length (memtable_iter m))"
    "sst_open data = Inr rd" "sst_inv c rd" "sst_content c rd = memtable_iter m"
    using write_from_entries_ok [of "memtable_iter m"] unfolding write_from_memtable_def by blast
  have alloc: "alloc_sst_path d 1 = Inr ?out" using room by (simp add: alloc_sst_path_def)
  note fresh = alloc_sst_path_fresh [OF alloc]
  have in_d: "bt_get d f \<noteq> None" if "f \<in> set l0" for f
    using l0(3) that by (auto simp: table_ok_def sst_open_file_def split: option.splits)
  then have out: "?out \<notin> set l0" using fresh by (auto simp: bt_get_def map_of_eq_None_iff)
  have "\<forall>f \<in> set l0. bt_get (bt_insert ?out data d) f \<noteq> None" using in_d d by (simp add: bt_get_insert)
  from remove_files_spec [OF bt_sorted_insert [OF d] l0(2) this]
  obtain d' where d': "remove_files l0 (bt_insert ?out data d) = Inr d'" "bt_sorted d'"
    "\<forall>p. bt_get d' p = (if p \<in> set l0 then None else bt_get (bt_insert ?out data d) p)" by blast
  have "compact_level0_to_l1 c raw_m raw_k d l0 = Inr (?out, d')"
    using l0(1) rds m(1) alloc w(1) d'(1) by (simp add: compact_level0_to_l1_def)
  moreover have "sst_open_file d' ?out = Inr rd" using d'(3) out d w(2) by (simp add: sst_open_file_def bt_get_insert)
  then have "table_ok c d' ?out" "table_at c d' ?out = mt_map m"
    using w m(2) by (auto simp: table_ok_def table_at_def memtable_iter_def memtable_inv_def)
  ultimately show ?thesis using d' d fresh m(3) by (auto simp: bt_get_insert)
qed

text \<open>A directory with one file, for instances.\<close>

definition written :: "(bytes \<times> bytes) list \<Rightarrow> bytes" where
  "written kvs = (case write_from_entries (\<lambda>_. 0) (\<lambda>_. 0) (\<lambda>_ _. 0) kvs of Inl _ \<Rightarrow> [] | Inr (data, _) \<Rightarrow> data)"

lemma written_table:
  assumes "bt_sorted kvs" "table_fits kvs" "[] \<notin> fst ` set kvs" "bt_get d path = Some (written kvs)"
  shows "table_ok (\<lambda>_. 0) d path" "table_at (\<lambda>_. 0) d path = kvs"
proof -
  obtain rd where "sst_open (written kvs) = Inr rd" "sst_inv (\<lambda>_. 0) rd" "sst_content (\<lambda>_. 0) rd = kvs"
    using write_from_entries_ok [OF assms(1,2), of "\<lambda>_. 0" "\<lambda>_. 0" "\<lambda>_ _. 0"] by (auto simp: written_def)
  then show "table_ok (\<lambda>_. 0) d path" "table_at (\<lambda>_. 0) d path = kvs"
    using assms(3,4) by (auto simp: table_ok_def table_at_def sst_open_file_def)
qed

section \<open>Properties\<close>

text \<open>
  Compaction loses no key and no unrelated file: from readable level-0 tables it always
  succeeds, writes one readable table under a fresh name, removes exactly its inputs, and the
  new table holds exactly the keys of the inputs. When tables disagree on a key, the
  lexicographically largest value wins, whichever table is newer.
\<close>

theorem compaction_largest_wins:
  assumes "bt_sorted d" and "l0 \<noteq> []" and "distinct l0" and "\<forall>f \<in> set l0. table_ok c d f"
    and "tables_small (map (table_at c d) l0)" and "next_sst_id d 1 = Inr n"
  shows "\<exists>out d'. compact_level0_to_l1 c raw_m raw_k d l0 = Inr (out, d') \<and>
    out \<notin> fst ` set d \<and> table_ok c d' out \<and>
    (\<forall>k. bt_get (table_at c d' out) k = largest_value (map (table_at c d) l0) k) \<and>
    (\<forall>p. p \<noteq> out \<longrightarrow> bt_get d' p = (if p \<in> set l0 then None else bt_get d p))"
  using compact_spec [OF assms, of raw_m raw_k] by blast

text \<open>Key 1 has the value 2 in the older table and the value 1 in the newer one: 2 survives.\<close>

theorem compaction_largest_wins_witness:
  "\<exists>out d'. compact_level0_to_l1 (\<lambda>_. 0) (\<lambda>_. 0) (\<lambda>_ _. 0)
      [(sst_name 0 1, written [([1], [2])]), (sst_name 0 2, written [([1], [1]), ([3], [4])])]
      [sst_name 0 1, sst_name 0 2] = Inr (out, d') \<and>
    bt_get (table_at (\<lambda>_. 0) d' out) [1] = Some [2] \<and> bt_get (table_at (\<lambda>_. 0) d' out) [3] = Some [4]"
proof -
  let ?c = "\<lambda>_ :: bytes. 0 :: u32"
  let ?n1 = "sst_name 0 1" and ?n2 = "sst_name 0 2"
  let ?t1 = "[([1], [2])] :: (bytes \<times> bytes) list" and ?t2 = "[([1], [1]), ([3], [4])] :: (bytes \<times> bytes) list"
  let ?d = "[(?n1, written ?t1), (?n2, written ?t2)]"
  have names: "?n1 = ''L0-000000001.sst''" "?n2 = ''L0-000000002.sst''"
    by code_simp+
  have d: "bt_sorted ?d" unfolding names by (simp add: bt_sorted_def less_char_def)
  have g: "bt_get ?d ?n1 = Some (written ?t1)" "bt_get ?d ?n2 = Some (written ?t2)"
    unfolding names by (simp_all add: bt_get_def)
  have t1: "table_ok ?c ?d ?n1" "table_at ?c ?d ?n1 = ?t1"
    using written_table [OF _ _ _ g(1)] by (auto simp: table_fits_def entries_fit_def kv_fits_def)
  have t2: "table_ok ?c ?d ?n2" "table_at ?c ?d ?n2 = ?t2"
    using written_table [OF _ _ _ g(2)] by (auto simp: table_fits_def entries_fit_def kv_fits_def)
  have room: "next_sst_id ?d 1 = Inr 1"
    unfolding names by (simp add: next_sst_id_def sst_id_of_def sst_prefix_def strip_prefix_def starts_with_def show_nat.simps char_of_def)
  have "\<exists>out d'. compact_level0_to_l1 ?c (\<lambda>_. 0) (\<lambda>_ _. 0) ?d [?n1, ?n2] = Inr (out, d') \<and>
    out \<notin> fst ` set ?d \<and> table_ok ?c d' out \<and>
    (\<forall>k. bt_get (table_at ?c d' out) k = largest_value (map (table_at ?c ?d) [?n1, ?n2]) k) \<and>
    (\<forall>p. p \<noteq> out \<longrightarrow> bt_get d' p = (if p \<in> set [?n1, ?n2] then None else bt_get ?d p))"
    using d t1 t2 room
    by (intro compaction_largest_wins [where n = 1]) (simp_all add: names tables_small_def)
  moreover have "{v. \<exists>ts \<in> set [?t1, ?t2]. bt_get ts [1] = Some v} = {[2], [1]}"
    "{v. \<exists>ts \<in> set [?t1, ?t2]. bt_get ts [3] = Some v} = {[4]}" by (auto simp: bt_get_def)
  then have "largest_value [?t1, ?t2] [1] = Some [2]" "largest_value [?t1, ?t2] [3] = Some [4]"
    unfolding largest_value_def by simp_all
  ultimately show ?thesis using t1(2) t2(2) by auto
qed

end
