(* ===== verification/Mvcc_Key.thy ===== *)
theory Mvcc_Key
  imports Engine
begin

text \<open>
  Multi-version records: the version type (\<^verbatim>\<open>mvcc/version.rs\<close>), its byte encoding (\<^verbatim>\<open>mvcc/codec.rs\<close>),
  the internal keys (\<^verbatim>\<open>mvcc/key.rs\<close>), the read view (\<^verbatim>\<open>mvcc/read_view.rs\<close>) and the timestamp
  oracle (\<^verbatim>\<open>mvcc/oracle.rs\<close>). The order of internal keys is newest first within a user key.
\<close>

unbundle bit_operations_syntax

section \<open>Versions\<close>

type_synonym commit_ts = u64
type_synonym txn_id = u64

record version =
  ver_commit_ts :: commit_ts
  ver_value :: bytes
  ver_deleted :: bool

definition version_put :: "commit_ts \<Rightarrow> bytes \<Rightarrow> version" where
  "version_put ts value = \<lparr>ver_commit_ts = ts, ver_value = value, ver_deleted = False\<rparr>"

definition version_tombstone :: "commit_ts \<Rightarrow> version" where
  "version_tombstone ts = \<lparr>ver_commit_ts = ts, ver_value = [], ver_deleted = True\<rparr>"

definition version_intent :: "bytes \<Rightarrow> version" where
  "version_intent value = \<lparr>ver_commit_ts = 0, ver_value = value, ver_deleted = False\<rparr>"

definition version_delete_intent :: version where
  "version_delete_intent = \<lparr>ver_commit_ts = 0, ver_value = [], ver_deleted = True\<rparr>"

section \<open>Version codec\<close>

definition MVCC_MAGIC :: bytes where "MVCC_MAGIC = [77, 86, 67, 67]"
definition FORMAT_V1 :: u8 where "FORMAT_V1 = 1"

definition encode_version :: "version \<Rightarrow> storage_error + bytes" where
  "encode_version v =
     (if ver_commit_ts v = 0 then Inl (InvalidInput ''cannot persist uncommitted intent'')
      else Inr (MVCC_MAGIC @ [FORMAT_V1] @ u64_to_le (ver_commit_ts v) @
        [if ver_deleted v then 1 else 0] @ nat_to_le 4 (length (ver_value v)) @ ver_value v))"

definition decode_version :: "bytes \<Rightarrow> storage_error + version" where
  "decode_version bs =
     (if length bs < 18 then Inl (CorruptSstable ''truncated MVCC value'')
      else if take 4 bs \<noteq> MVCC_MAGIC then Inl (CorruptSstable ''bad MVCC magic'')
      else if bs ! 4 \<noteq> FORMAT_V1 then Inl (CorruptSstable ''unsupported MVCC format'')
      else
        let commit_ts = u64_of_le (take 8 (drop 5 bs));
            deleted = (bs ! 13 \<noteq> 0);
            val_len = nat_of_le (take 4 (drop 14 bs))
        in
          if length bs < 18 + val_len then Inl (CorruptSstable ''truncated MVCC payload'')
          else Inr \<lparr>ver_commit_ts = commit_ts, ver_value = take val_len (drop 18 bs), ver_deleted = deleted\<rparr>)"

definition decode_or_legacy :: "bytes \<Rightarrow> storage_error + version" where
  "decode_or_legacy bs =
     (if starts_with bs MVCC_MAGIC then decode_version bs else Inr (version_put 1 bs))"

definition decode_version_ref :: "bytes \<Rightarrow> (commit_ts \<times> bool \<times> bytes) option" where
  "decode_version_ref bs =
     (if length bs < 18 \<or> take 4 bs \<noteq> MVCC_MAGIC \<or> bs ! 4 \<noteq> FORMAT_V1 then None
      else
        let commit_ts = u64_of_le (take 8 (drop 5 bs));
            deleted = (bs ! 13 \<noteq> 0);
            val_len = nat_of_le (take 4 (drop 14 bs))
        in
          case get_slice bs 18 val_len of
            None \<Rightarrow> None
          | Some value \<Rightarrow> Some (commit_ts, deleted, value))"

section \<open>Internal keys\<close>

definition u64_to_be :: "u64 \<Rightarrow> bytes" where
  "u64_to_be w = rev (u64_to_le w)"

definition encode_internal_key :: "bytes \<Rightarrow> commit_ts \<Rightarrow> bytes" where
  "encode_internal_key user_key ts = user_key @ u64_to_be (NOT ts)"

definition decode_user_key :: "bytes \<Rightarrow> bytes" where
  "decode_user_key internal = take (length internal - 8) internal"

text \<open>The same loop as \<^verbatim>\<open>prefix_end\<close> of \<^verbatim>\<open>engine.rs\<close>.\<close>

definition user_key_prefix_end :: "bytes \<Rightarrow> bytes" where
  "user_key_prefix_end user_key = rev (prefix_end_rev (rev user_key))"

section \<open>Read views and the oracle\<close>

record read_view =
  rv_snapshot_ts :: commit_ts
  rv_active_txns :: "txn_id set"
  rv_txn_id :: txn_id

definition read_view_new :: "txn_id \<Rightarrow> commit_ts \<Rightarrow> txn_id set \<Rightarrow> read_view" where
  "read_view_new txn ts active = \<lparr>rv_snapshot_ts = ts, rv_active_txns = active, rv_txn_id = txn\<rparr>"

definition is_visible :: "read_view \<Rightarrow> version \<Rightarrow> txn_id option \<Rightarrow> bool" where
  "is_visible view v writer =
     (if ver_commit_ts v = 0 then writer = Some (rv_txn_id view)
      else if rv_snapshot_ts view < ver_commit_ts v then False
      else
        case writer of
          Some w \<Rightarrow> \<not> (w \<in> rv_active_txns view \<and> w \<noteq> rv_txn_id view)
        | None \<Rightarrow> True)"

text \<open>
  The oracle is its atomic counter. \<^verbatim>\<open>fetch_add\<close> wraps; the returned value saturates and is at
  least 1.
\<close>

definition oracle_next :: "u64 \<Rightarrow> commit_ts \<times> u64" where
  "oracle_next lst =
     (let prev = lst; ts = (if prev = - 1 then prev else prev + 1) in (max ts 1, lst + 1))"

definition oracle_fetch_add :: "u64 \<Rightarrow> u64 \<Rightarrow> u64 \<times> u64" where
  "oracle_fetch_add n lst = (lst, lst + n)"

definition oracle_now :: "u64 \<Rightarrow> commit_ts" where
  "oracle_now lst = lst"

section \<open>Codec round trips\<close>

lemma decode_encode_version:
  assumes "encode_version v = Inr bs" and "length (ver_value v) < 2 ^ 32"
  shows "decode_version bs = Inr v" and "starts_with bs MVCC_MAGIC"
    and "decode_version_ref bs = Some (ver_commit_ts v, ver_deleted v, ver_value v)"
proof -
  have bs: "bs = MVCC_MAGIC @ [FORMAT_V1] @ u64_to_le (ver_commit_ts v) @
      [if ver_deleted v then 1 else 0] @ nat_to_le 4 (length (ver_value v)) @ ver_value v"
    using assms(1) by (auto simp: encode_version_def split: if_splits)
  have 13: "bs ! 13 = (if ver_deleted v then 1 else 0)"
    by (simp add: bs MVCC_MAGIC_def nth_append u64_to_le_def)
  have "u64_of_le (take 8 (drop 5 bs)) = ver_commit_ts v" "take 4 bs = MVCC_MAGIC" "bs ! 4 = FORMAT_V1"
    "nat_of_le (take 4 (drop 14 bs)) = length (ver_value v)" "drop 18 bs = ver_value v"
    "length bs = 18 + length (ver_value v)"
    using assms(2) by (simp_all add: bs MVCC_MAGIC_def)
  with 13 show "decode_version bs = Inr v"
    "decode_version_ref bs = Some (ver_commit_ts v, ver_deleted v, ver_value v)"
    by (simp_all add: decode_version_def decode_version_ref_def get_slice_def)
  show "starts_with bs MVCC_MAGIC" by (simp add: bs starts_with_iff)
qed

lemma decode_version_ref_eq:
  "decode_version_ref bs =
     (case decode_version bs of Inl _ \<Rightarrow> None
      | Inr v \<Rightarrow> Some (ver_commit_ts v, ver_deleted v, ver_value v))"
  by (simp add: decode_version_ref_def decode_version_def get_slice_def Let_def)

lemma decode_encode_key [simp]: "decode_user_key (encode_internal_key k ts) = k"
  by (simp add: decode_user_key_def encode_internal_key_def u64_to_be_def)

lemma length_u64_to_be [simp]: "length (u64_to_be w) = 8"
  by (simp add: u64_to_be_def)

lemma u64_to_be_inj [simp]: "u64_to_be a = u64_to_be b \<longleftrightarrow> a = b"
proof
  assume "u64_to_be a = u64_to_be b"
  then have "u64_of_le (u64_to_le a) = u64_of_le (u64_to_le b)" by (simp add: u64_to_be_def)
  then show "a = b" by simp
qed simp

lemma encode_internal_key_inj [simp]:
  "encode_internal_key k ts = encode_internal_key k' ts' \<longleftrightarrow> k = k' \<and> ts = ts'"
proof -
  have "NOT ts = NOT ts' \<longleftrightarrow> ts = ts'" by simp
  then show ?thesis by (auto simp: encode_internal_key_def)
qed

text \<open>Big-endian bytes of equal width compare as the numbers do.\<close>

lemma snoc_less:
  fixes xs ys :: bytes
  assumes "length xs = length ys"
  shows "xs @ [a] < ys @ [b] \<longleftrightarrow> xs < ys \<or> xs = ys \<and> a < b"
  using assms by (induction xs ys rule: list_induct2) auto

lemma nat_be_less:
  "x < 256 ^ n \<Longrightarrow> y < 256 ^ n \<Longrightarrow> rev (nat_to_le n x) < rev (nat_to_le n y) \<longleftrightarrow> x < y"
proof (induction n arbitrary: x y)
  case (Suc n)
  have b: "x div 256 < 256 ^ n" "y div 256 < 256 ^ n"
    using Suc.prems by (simp_all add: less_mult_imp_div_less mult.commute)
  have w: "(word_of_nat x :: u8) < word_of_nat y \<longleftrightarrow> x mod 256 < y mod 256"
    by (simp add: word_less_nat_alt unsigned_of_nat take_bit_nat_def)
  have eq: "nat_to_le n (x div 256) = nat_to_le n (y div 256) \<longleftrightarrow> x div 256 = y div 256"
  proof
    assume "nat_to_le n (x div 256) = nat_to_le n (y div 256)"
    then have "nat_of_le (nat_to_le n (x div 256)) = nat_of_le (nat_to_le n (y div 256))" by simp
    then show "x div 256 = y div 256" unfolding nat_of_le_to_le [OF b(1)] nat_of_le_to_le [OF b(2)] .
  qed simp
  have "x < y \<longleftrightarrow> x div 256 < y div 256 \<or> x div 256 = y div 256 \<and> x mod 256 < y mod 256"
  proof -
    define q1 q2 r1 r2 where "q1 = x div 256" and "q2 = y div 256" and "r1 = x mod 256" and "r2 = y mod 256"
    have "x = 256 * q1 + r1" "y = 256 * q2 + r2" "r1 < 256" "r2 < 256"
      by (simp_all add: q1_def q2_def r1_def r2_def)
    then have "x < y \<longleftrightarrow> q1 < q2 \<or> q1 = q2 \<and> r1 < r2" by linarith
    then show ?thesis by (simp only: q1_def q2_def r1_def r2_def)
  qed
  then show ?case using Suc.IH [OF b] w eq by (simp add: snoc_less)
qed simp

lemma u64_be_less: "u64_to_be a < u64_to_be b \<longleftrightarrow> a < b"
  using nat_be_less [of "unat a" 8 "unat b"] unat_u64_less [of a] unat_u64_less [of b]
  by (simp add: u64_to_be_def u64_to_le_def word_less_nat_alt)

text \<open>Newest first: a larger commit timestamp sorts before a smaller one.\<close>

lemma unat_not: "unat (NOT (w :: u64)) = 2 ^ 64 - 1 - unat w"
proof -
  have "NOT w = - 1 - w" by (simp add: not_eq_complement)
  then have "unat (NOT w) = unat (- 1 :: u64) - unat w"
    using unat_sub [of w "- 1"] by (simp only:) (simp add: word_order.extremum)
  then show ?thesis by (simp add: unsigned_minus_1_eq_mask mask_eq_exp_minus_1)
qed

lemma not_less_not: "NOT (a :: u64) < NOT b \<longleftrightarrow> b < a"
  unfolding word_less_nat_alt [of "NOT a"] word_less_nat_alt [of b] unat_not
  using unat_u64_less [of a] unat_u64_less [of b] by simp linarith

text \<open>The first byte is the most significant one.\<close>

lemma nat_to_le_snoc: "nat_to_le (Suc n) v = nat_to_le n v @ [word_of_nat (v div 256 ^ n)]"
proof (induction n arbitrary: v)
  case (Suc n)
  have "nat_to_le (Suc (Suc n)) v = word_of_nat v # nat_to_le (Suc n) (v div 256)" by simp
  also have "\<dots> = word_of_nat v # nat_to_le n (v div 256) @ [word_of_nat (v div 256 div 256 ^ n)]"
    by (simp only: Suc.IH)
  finally show ?case by (simp add: div_mult2_eq)
qed simp

lemma u64_to_be_Cons: "\<exists>r. u64_to_be w = word_of_nat (unat w div 256 ^ 7) # r"
  using nat_to_le_snoc [of 7 "unat w"] by (simp add: u64_to_be_def u64_to_le_def del: nat_to_le.simps)

lemma internal_key_order: "encode_internal_key k a < encode_internal_key k b \<longleftrightarrow> b < a"
  by (simp add: encode_internal_key_def append_less_iff u64_be_less not_less_not)

lemma internal_key_window:
  assumes "\<not> set k \<subseteq> {255}"
  shows "k \<le> encode_internal_key k ts" "encode_internal_key k ts < user_key_prefix_end k"
  using starts_with_range [OF assms, of "encode_internal_key k ts"]
  by (simp_all add: encode_internal_key_def starts_with_iff user_key_prefix_end_def prefix_end_def)

section \<open>Properties\<close>

text \<open>
  Internal keys implement newest-first multi-versioning: the encoding is injective and its
  user key is recovered; versions of one user key sort by descending commit timestamp; and,
  unless the user key is made of 0xff bytes only, all of them lie in the half-open window from
  the key to its \<open>user_key_prefix_end\<close>.
\<close>

theorem internal_keys_newest_first:
  "decode_user_key (encode_internal_key k ts) = k \<and>
   (encode_internal_key k ts = encode_internal_key k' ts' \<longleftrightarrow> k = k' \<and> ts = ts') \<and>
   (encode_internal_key k ts < encode_internal_key k ts' \<longleftrightarrow> ts' < ts) \<and>
   (set k \<subseteq> {255} \<or> k \<le> encode_internal_key k ts \<and> encode_internal_key k ts < user_key_prefix_end k)"
  by (cases "set k \<subseteq> {255}") (simp_all add: internal_key_order internal_key_window)

text \<open>
  A committed version survives its encoding: for every version with a value below 4 GiB
  the encoder refuses exactly the uncommitted ones, and what it produces is recognised as
  multi-version data and decodes, by the copying and by the borrowing decoder alike, to the
  version itself.
\<close>

theorem version_codec_round_trip:
  assumes "length (ver_value v) < 2 ^ 32"
  shows "if ver_commit_ts v = 0 then encode_version v = Inl (InvalidInput ''cannot persist uncommitted intent'')
    else \<exists>bs. encode_version v = Inr bs \<and> decode_or_legacy bs = Inr v \<and>
      decode_version_ref bs = Some (ver_commit_ts v, ver_deleted v, ver_value v)"
proof (cases "ver_commit_ts v = 0")
  case True
  then show ?thesis by (simp add: encode_version_def)
next
  case False
  then obtain bs where "encode_version v = Inr bs" by (simp add: encode_version_def)
  with decode_encode_version [OF this assms] False show ?thesis by (simp add: decode_or_legacy_def)
qed

theorem version_codec_round_trip_witness:
  "\<exists>bs. encode_version (version_put 42 [1, 2]) = Inr bs \<and> decode_or_legacy bs = Inr (version_put 42 [1, 2])"
  using version_codec_round_trip [of "version_put 42 [1, 2]"] by (auto simp: version_put_def)

end
