(* ===== verification/Lsm.thy ===== *)
theory Lsm
  imports Compaction Wal_Segments Mvcc_Key Sst_Scrub
begin

text \<open>
  The log-structured merge tree (\<^verbatim>\<open>lsm.rs\<close>, \<^verbatim>\<open>lsm_mvcc.rs\<close>): write-ahead log, active memory table,
  level-0 and level-1 table files, manifest, write throttling, flush and compaction, point
  reads with multi-version resolution, and the merged range scan. The tree holds what it has
  on disk (\<open>lt_sst_dir\<close>, \<open>lt_manifest_dir\<close>, and the log directory inside the segment manager), so
  that a crash is the loss of the other fields. An operation that fails returns the error only.
  Sequence numbers are taken below 2^64.
\<close>

section \<open>Configuration and state\<close>

record lsm_config =
  lc_max_mem_bytes :: nat
  lc_l0_compaction_trigger :: nat
  lc_wal_sync :: wal_sync_mode
  lc_sst :: sst_write_options
  lc_wal_batch_size :: nat
  lc_write_stall :: write_stall_config

definition lsm_config_default :: lsm_config where
  "lsm_config_default = \<lparr>lc_max_mem_bytes = DEFAULT_MAX_MEM_BYTES,
     lc_l0_compaction_trigger = L0_COMPACTION_TRIGGER, lc_wal_sync = EveryAppend,
     lc_sst = phase3_default, lc_wal_batch_size = 1, lc_write_stall = stall_default\<rparr>"

definition lsm_config_throughput :: lsm_config where
  "lsm_config_throughput = \<lparr>lc_max_mem_bytes = 16 * 1024 * 1024,
     lc_l0_compaction_trigger = 64, lc_wal_sync = OnFlush,
     lc_sst = phase3_default, lc_wal_batch_size = 256, lc_write_stall = stall_relaxed\<rparr>"

record lsm_tree =
  lt_wal :: wal_mgr
  lt_active :: memtable
  lt_level0 :: "string list"
  lt_level1 :: "string list"
  lt_config :: lsm_config
  lt_flushed_wal_segment :: nat
  lt_sst_cache :: "(string \<times> sst_reader) list"
  lt_wal_pending :: nat
  lt_manifest_seq :: nat
  lt_sst_dir :: sst_dir
  lt_manifest_dir :: atomic_dir

text \<open>The functions outside the sources: block checksum and the filter sizing in floats.\<close>

record sst_env =
  se_crc :: "bytes \<Rightarrow> u32"
  se_raw_m :: "nat \<Rightarrow> int"
  se_raw_k :: "u32 \<Rightarrow> nat \<Rightarrow> int"

definition lsm_open :: "lsm_config \<Rightarrow> wal_dir \<Rightarrow> sst_dir \<Rightarrow> atomic_dir \<Rightarrow> storage_error + lsm_tree" where
  "lsm_open config wd sd md =
     try_bind (replay_all wd memtable_new) (\<lambda>(_, active).
     try_bind (manifest_load md) (\<lambda>manifest.
     let level0 = (case manifest of Some m \<Rightarrow> ms_level0 m | None \<Rightarrow> list_sst_level sd 0);
         level1 = (case manifest of Some m \<Rightarrow> ms_level1 m | None \<Rightarrow> list_sst_level sd 1);
         manifest_seq = (case manifest of Some m \<Rightarrow> ms_sequence m | None \<Rightarrow> 0)
     in
       try_bind (wal_mgr_open (lc_wal_sync config) wd) (\<lambda>wal.
         Inr \<lparr>lt_wal = wal, lt_active = active, lt_level0 = level0, lt_level1 = level1,
           lt_config = config, lt_flushed_wal_segment = 0, lt_sst_cache = [], lt_wal_pending = 0,
           lt_manifest_seq = manifest_seq, lt_sst_dir = sd, lt_manifest_dir = md\<rparr>)))"

section \<open>Log and throttle\<close>

definition lsm_sync :: "lsm_tree \<Rightarrow> storage_error + lsm_tree" where
  "lsm_sync t = try_bind (wal_mgr_sync (lt_wal t)) (\<lambda>w. Inr (t\<lparr>lt_wal := w, lt_wal_pending := 0\<rparr>))"

definition maybe_sync_wal :: "lsm_tree \<Rightarrow> storage_error + lsm_tree" where
  "maybe_sync_wal t =
     (if lc_wal_sync (lt_config t) = EveryAppend \<or> lc_wal_batch_size (lt_config t) \<le> lt_wal_pending t
      then lsm_sync t else Inr t)"

definition lsm_gate_write :: "lsm_tree \<Rightarrow> storage_error + nat list" where
  "lsm_gate_write t =
     gate_write (lc_write_stall (lt_config t)) (length (lt_level0 t)) (approx_bytes (lt_active t))
       (lc_max_mem_bytes (lt_config t))"

text \<open>\<^verbatim>\<open>wal.append(..)?; wal_pending += 1; maybe_sync_wal()?\<close>, the prefix of every logged write.\<close>

definition lsm_log :: "log_entry \<Rightarrow> lsm_tree \<Rightarrow> storage_error + lsm_tree" where
  "lsm_log entry t =
     try_bind (wal_mgr_append entry (lt_wal t)) (\<lambda>w.
       maybe_sync_wal (t\<lparr>lt_wal := w, lt_wal_pending := lt_wal_pending t + 1\<rparr>))"

section \<open>Flush and compaction\<close>

definition clear_sst_cache :: "lsm_tree \<Rightarrow> lsm_tree" where
  "clear_sst_cache t = t\<lparr>lt_sst_cache := []\<rparr>"

definition persist_manifest :: "lsm_tree \<Rightarrow> lsm_tree" where
  "persist_manifest t =
     (let seq = lt_manifest_seq t + 1 in
      t\<lparr>lt_manifest_seq := seq,
        lt_manifest_dir := manifest_commit
          \<lparr>ms_level0 = lt_level0 t, ms_level1 = lt_level1 t, ms_sequence = seq\<rparr> (lt_manifest_dir t)\<rparr>)"

text \<open>The part of \<^verbatim>\<open>flush_active\<close> before the manifest is written; a crash may fall between the two.\<close>

definition flush_tables :: "sst_env \<Rightarrow> lsm_tree \<Rightarrow> fault + lsm_tree" where
  "flush_tables env t =
     (let frozen = lt_active t; t = t\<lparr>lt_active := memtable_new\<rparr> in
      try_bind (alloc_sst_path (lt_sst_dir t) 0) (\<lambda>path.
      try_bind (write_from_memtable (se_crc env) (se_raw_m env) (se_raw_k env) frozen) (\<lambda>(data, _).
      let t = clear_sst_cache (t\<lparr>lt_sst_dir := bt_insert path data (lt_sst_dir t),
            lt_level0 := lt_level0 t @ [path]\<rparr>)
      in
        try_bind (lift_err (wal_mgr_rotate (lt_wal t))) (\<lambda>(old_wal, w).
        let w = fold wal_mgr_delete_segment [lt_flushed_wal_segment t..<Suc old_wal] w
        in Inr (t\<lparr>lt_wal := w, lt_flushed_wal_segment := wm_active_id w, lt_wal_pending := 0\<rparr>)))))"

definition flush_active :: "sst_env \<Rightarrow> lsm_tree \<Rightarrow> fault + lsm_tree" where
  "flush_active env t =
     (if memtable_is_empty (lt_active t) then Inr (t\<lparr>lt_active := memtable_new\<rparr>)
      else try_bind (flush_tables env t) (\<lambda>t. Inr (persist_manifest t)))"

definition run_compaction :: "sst_env \<Rightarrow> lsm_tree \<Rightarrow> fault + lsm_tree" where
  "run_compaction env t =
     try_bind (compact_level0_to_l1 (se_crc env) (se_raw_m env) (se_raw_k env) (lt_sst_dir t) (lt_level0 t))
       (\<lambda>(l1_path, d).
         Inr (persist_manifest (clear_sst_cache
           (t\<lparr>lt_sst_dir := d, lt_level0 := [], lt_level1 := lt_level1 t @ [l1_path]\<rparr>))))"

definition maybe_flush_and_compact :: "sst_env \<Rightarrow> lsm_tree \<Rightarrow> fault + lsm_tree" where
  "maybe_flush_and_compact env t =
     (if approx_bytes (lt_active t) < lc_max_mem_bytes (lt_config t) then Inr t
      else
        try_bind (flush_active env t) (\<lambda>t.
          if lc_l0_compaction_trigger (lt_config t) \<le> length (lt_level0 t) then run_compaction env t
          else Inr t))"

section \<open>Reading\<close>

text \<open>
  The cache is filled by reads. \<open>cached_reader\<close> returns the reader and the tree with the cache
  afterwards; the reads below use the reader only, since a cached reader equals a freshly
  opened one (\<open>cached_reader_transparent\<close>).
\<close>

definition cached_reader :: "string \<Rightarrow> lsm_tree \<Rightarrow> fault + (sst_reader \<times> lsm_tree)" where
  "cached_reader path t =
     (case map_of (lt_sst_cache t) path of
        Some rd \<Rightarrow> Inr (rd, t)
      | None \<Rightarrow>
          try_bind (sst_open_file (lt_sst_dir t) path) (\<lambda>rd.
            Inr (rd, t\<lparr>lt_sst_cache := (path, rd) # lt_sst_cache t\<rparr>)))"

definition reader_at :: "string \<Rightarrow> lsm_tree \<Rightarrow> fault + sst_reader" where
  "reader_at path t = try_bind (cached_reader path t) (\<lambda>(rd, _). Inr rd)"

definition get_from_sst :: "sst_env \<Rightarrow> string \<Rightarrow> bytes \<Rightarrow> lsm_tree \<Rightarrow> fault + bytes option" where
  "get_from_sst env path key t = try_bind (reader_at path t) (\<lambda>rd. sst_get (se_crc env) rd key)"

text \<open>The closure \<^verbatim>\<open>consider\<close>, and the loops that feed it.\<close>

definition consider_ver :: "read_view \<Rightarrow> version \<Rightarrow> version option \<Rightarrow> version option" where
  "consider_ver view v best =
     (if \<not> is_visible view v None then best
      else case best of
             None \<Rightarrow> Some v
           | Some b \<Rightarrow> if ver_commit_ts b < ver_commit_ts v then Some v else best)"

primrec consider_all ::
  "read_view \<Rightarrow> bytes \<Rightarrow> (bytes \<times> bytes) list \<Rightarrow> version option \<Rightarrow> fault + version option" where
  "consider_all view user_key [] best = Inr best"
| "consider_all view user_key (e # es) best =
     (let (ik, raw) = e in
      if decode_user_key ik \<noteq> user_key \<and> ik \<noteq> user_key then consider_all view user_key es best
      else try_bind (lift_err (decode_or_legacy raw)) (\<lambda>v.
             consider_all view user_key es (consider_ver view v best)))"

primrec consider_tables ::
  "sst_env \<Rightarrow> read_view \<Rightarrow> bytes \<Rightarrow> lsm_tree \<Rightarrow> string list \<Rightarrow> version option \<Rightarrow> fault + version option" where
  "consider_tables env view user_key t [] best = Inr best"
| "consider_tables env view user_key t (path # paths) best =
     (case reader_at path t of
        Inl Panic \<Rightarrow> Inl Panic
      | Inl (Err _) \<Rightarrow> consider_tables env view user_key t paths best
      | Inr rd \<Rightarrow>
          (case sst_scan_range (se_crc env) rd user_key (user_key_prefix_end user_key) of
             Inl _ \<Rightarrow> consider_tables env view user_key t paths best
           | Inr it \<Rightarrow>
               try_bind (consider_all view user_key (oks (sst_range_items (se_crc env) it)) best)
                 (consider_tables env view user_key t paths)))"

definition find_visible_version ::
  "sst_env \<Rightarrow> bytes \<Rightarrow> read_view \<Rightarrow> lsm_tree \<Rightarrow> fault + version option" where
  "find_visible_version env user_key view t =
     try_bind (memtable_range user_key (user_key_prefix_end user_key) (lt_active t)) (\<lambda>es.
     try_bind (consider_all view user_key es None)
       (consider_tables env view user_key t (rev (lt_level0 t) @ rev (lt_level1 t))))"

definition latest_view :: read_view where
  "latest_view = read_view_new 0 (- 1) {}"

definition version_cell :: "version option \<Rightarrow> bytes option" where
  "version_cell v = (case v of None \<Rightarrow> None | Some v \<Rightarrow> if ver_deleted v then None else Some (ver_value v))"

definition get_visible :: "sst_env \<Rightarrow> bytes \<Rightarrow> read_view \<Rightarrow> lsm_tree \<Rightarrow> fault + bytes option" where
  "get_visible env user_key view t =
     try_bind (find_visible_version env user_key view t) (\<lambda>v. Inr (version_cell v))"

definition get_latest :: "sst_env \<Rightarrow> bytes \<Rightarrow> lsm_tree \<Rightarrow> fault + bytes option" where
  "get_latest env user_key t = get_visible env user_key latest_view t"

definition get_at_ts :: "sst_env \<Rightarrow> bytes \<Rightarrow> commit_ts \<Rightarrow> lsm_tree \<Rightarrow> fault + bytes option" where
  "get_at_ts env user_key ts t = get_visible env user_key (read_view_new 0 ts {}) t"

primrec get_from_ssts :: "sst_env \<Rightarrow> bytes \<Rightarrow> lsm_tree \<Rightarrow> string list \<Rightarrow> fault + bytes option" where
  "get_from_ssts env key t [] = Inr None"
| "get_from_ssts env key t (path # paths) =
     try_bind (get_from_sst env path key t) (\<lambda>r.
       case r of Some v \<Rightarrow> Inr (Some v) | None \<Rightarrow> get_from_ssts env key t paths)"

definition lsm_get_below :: "sst_env \<Rightarrow> bytes \<Rightarrow> lsm_tree \<Rightarrow> fault + bytes option" where
  "lsm_get_below env key t =
     try_bind (find_visible_version env key latest_view t) (\<lambda>found.
       case found of
         Some v \<Rightarrow> Inr (version_cell (Some v))
       | None \<Rightarrow> get_from_ssts env key t (rev (lt_level0 t) @ rev (lt_level1 t)))"

definition lsm_get :: "sst_env \<Rightarrow> bytes \<Rightarrow> lsm_tree \<Rightarrow> fault + bytes option" where
  "lsm_get env key t =
     try_bind (lift_err (memtable_get key (lt_active t))) (\<lambda>raw.
       case raw of
         Some raw \<Rightarrow>
           if starts_with raw MVCC_MAGIC then
             (case decode_or_legacy raw of
                Inr v \<Rightarrow> Inr (version_cell (Some v))
              | Inl _ \<Rightarrow> lsm_get_below env key t)
           else Inr (Some raw)
       | None \<Rightarrow> lsm_get_below env key t)"

section \<open>Writing\<close>

definition lsm_put :: "sst_env \<Rightarrow> bytes \<Rightarrow> bytes \<Rightarrow> lsm_tree \<Rightarrow> fault + lsm_tree" where
  "lsm_put env key value t =
     try_bind (lift_err (lsm_gate_write t)) (\<lambda>_.
     try_bind (lift_err (lsm_log (entry_put key value) t)) (\<lambda>t.
     try_bind (lift_err (memtable_put key value (lt_active t))) (\<lambda>active.
       maybe_flush_and_compact env (t\<lparr>lt_active := active\<rparr>))))"

primrec put_batch_entries :: "(bytes \<times> bytes) list \<Rightarrow> lsm_tree \<Rightarrow> storage_error + lsm_tree" where
  "put_batch_entries [] t = Inr t"
| "put_batch_entries (e # es) t =
     (let (key, value) = e in
      try_bind (wal_mgr_append (entry_put key value) (lt_wal t)) (\<lambda>w.
      try_bind (memtable_put key value (lt_active t)) (\<lambda>active.
        put_batch_entries es (t\<lparr>lt_wal := w, lt_active := active\<rparr>))))"

definition lsm_put_batch :: "sst_env \<Rightarrow> (bytes \<times> bytes) list \<Rightarrow> lsm_tree \<Rightarrow> fault + lsm_tree" where
  "lsm_put_batch env entries t =
     try_bind (lift_err (lsm_gate_write t)) (\<lambda>_.
     try_bind (lift_err (put_batch_entries entries t)) (\<lambda>t.
     try_bind (lift_err (wal_mgr_sync (lt_wal t))) (\<lambda>w.
       maybe_flush_and_compact env (t\<lparr>lt_wal := w\<rparr>))))"

definition lsm_put_version :: "sst_env \<Rightarrow> bytes \<Rightarrow> version \<Rightarrow> lsm_tree \<Rightarrow> fault + lsm_tree" where
  "lsm_put_version env user_key v t =
     (let ik = encode_internal_key user_key (ver_commit_ts v) in
      try_bind (lift_err (encode_version v)) (\<lambda>val.
      try_bind (lift_err (lsm_log (entry_put ik val) t)) (\<lambda>t.
      try_bind (lift_err (memtable_put ik val (lt_active t))) (\<lambda>active.
        maybe_flush_and_compact env (t\<lparr>lt_active := active\<rparr>)))))"

definition saturating_succ :: "u64 \<Rightarrow> u64" where
  "saturating_succ x = (if x = - 1 then x else x + 1)"

definition lsm_delete :: "sst_env \<Rightarrow> bytes \<Rightarrow> lsm_tree \<Rightarrow> fault + (bool \<times> lsm_tree)" where
  "lsm_delete env key t =
     try_bind (lift_err (lsm_gate_write t)) (\<lambda>_.
     try_bind (lift_err (lsm_log (entry_delete key) t)) (\<lambda>t.
     try_bind (lift_err (memtable_delete key (lt_active t))) (\<lambda>(removed_active, active).
     let t = t\<lparr>lt_active := active\<rparr> in
     try_bind (lsm_get env key t) (\<lambda>r.
       if r \<noteq> None then
         try_bind (find_visible_version env key latest_view t) (\<lambda>found.
         let next_ts = (case found of None \<Rightarrow> 2 | Some v \<Rightarrow> saturating_succ (ver_commit_ts v)) in
         try_bind (lsm_put_version env key (version_tombstone next_ts) t) (\<lambda>t.
         try_bind (maybe_flush_and_compact env t) (\<lambda>t. Inr (True, t))))
       else try_bind (maybe_flush_and_compact env t) (\<lambda>t. Inr (removed_active, t))))))"

section \<open>Merged scans\<close>

type_synonym 'w candidate = "bytes \<times> commit_ts \<times> bool \<times> 'w"

definition scan_windows :: "bytes \<Rightarrow> bytes \<Rightarrow> (bytes \<times> bytes) list" where
  "scan_windows start stop =
     (if stop = [] then [(start, replicate 64 255)]
      else (start, stop) #
        concat (map (\<lambda>plen. let p = take plen stop in
            if start \<le> p \<and> p < stop then [(p, p @ replicate 9 255)] else [])
          [1..<length stop]))"

definition ingest ::
  "read_view \<Rightarrow> (bytes \<times> bytes) option \<Rightarrow> (bytes \<Rightarrow> 'w) \<Rightarrow> bytes \<times> bytes \<Rightarrow> 'w candidate list" where
  "ingest view bounds wrap entry =
     (let (ik, raw) = entry;
          is_mvcc = starts_with raw MVCC_MAGIC \<and> 8 < length ik
      in
        case (if is_mvcc then decode_version_ref raw else Some (1, False, raw)) of
          None \<Rightarrow> []
        | Some (commit_ts, deleted, value) \<Rightarrow>
            let user = (if is_mvcc then decode_user_key ik else ik);
                outside = (case bounds of None \<Rightarrow> False
                  | Some (start, stop) \<Rightarrow> user < start \<or> stop \<noteq> [] \<and> stop \<le> user)
            in
              if outside \<or> commit_ts = 0 \<or> rv_snapshot_ts view < commit_ts then []
              else [(user, commit_ts, deleted, wrap value)])"

text \<open>The entries of one table file the scan looks at; unreadable files are skipped.\<close>

definition table_scan ::
  "sst_env \<Rightarrow> (bytes \<times> bytes) list option \<Rightarrow> string \<Rightarrow> lsm_tree \<Rightarrow> fault + (bytes \<times> bytes) list" where
  "table_scan env windows path t =
     (case reader_at path t of
        Inl Panic \<Rightarrow> Inl Panic
      | Inl (Err _) \<Rightarrow> Inr []
      | Inr rd \<Rightarrow>
          Inr (case windows of
            Some ws \<Rightarrow>
              concat (map (\<lambda>(lo, hi).
                case sst_scan_range (se_crc env) rd lo hi of
                  Inl _ \<Rightarrow> [] | Inr it \<Rightarrow> oks (sst_range_items (se_crc env) it)) ws)
          | None \<Rightarrow>
              (case sst_scan (se_crc env) rd of
                 Inl _ \<Rightarrow> [] | Inr it \<Rightarrow> oks (sst_items (se_crc env) it))))"

definition active_scan :: "(bytes \<times> bytes) list option \<Rightarrow> lsm_tree \<Rightarrow> fault + (bytes \<times> bytes) list" where
  "active_scan windows t =
     (case windows of
        Some ws \<Rightarrow> try_bind (try_map (\<lambda>(lo, hi). memtable_range lo hi (lt_active t)) ws) (\<lambda>ess. Inr (concat ess))
      | None \<Rightarrow> Inr (memtable_iter (lt_active t)))"

text \<open>
  The order of \<^verbatim>\<open>sort_unstable_by\<close>; equal elements may come in any order, so the sort is an
  argument of the scan.
\<close>

definition candidate_le :: "'w candidate \<Rightarrow> 'w candidate \<Rightarrow> bool" where
  "candidate_le a b \<longleftrightarrow> fst a < fst b \<or> fst a = fst b \<and> fst (snd b) \<le> fst (snd a)"

primrec dedup_users :: "'w candidate list \<Rightarrow> bytes option \<Rightarrow> (bytes \<times> commit_ts \<times> bool \<times> 'w) list" where
  "dedup_users [] prev = []"
| "dedup_users (e # es) prev =
     (if prev = Some (fst e) then dedup_users es prev else e # dedup_users es (Some (fst e)))"

definition merge_visible_fold ::
  "('w candidate list \<Rightarrow> 'w candidate list) \<Rightarrow> sst_env \<Rightarrow> read_view \<Rightarrow> (bytes \<times> bytes) option \<Rightarrow>
   (bytes \<Rightarrow> 'w) \<Rightarrow> lsm_tree \<Rightarrow> fault + (bytes \<times> commit_ts \<times> bool \<times> 'w) list" where
  "merge_visible_fold srt env view bounds wrap t =
     (let windows = map_option (\<lambda>(start, stop). scan_windows start stop) bounds in
      try_bind (try_map (\<lambda>path. table_scan env windows path t) (lt_level1 t @ lt_level0 t)) (\<lambda>ess.
      try_bind (active_scan windows t) (\<lambda>es.
      let candidates = concat (map (ingest view bounds wrap) (concat ess @ es))
      in Inr (dedup_users (srt candidates) None))))"

definition live_cells :: "(bytes \<times> commit_ts \<times> bool \<times> 'w) list \<Rightarrow> (bytes \<times> 'w) list" where
  "live_cells out = concat (map (\<lambda>(k, ts, deleted, w). if deleted then [] else [(k, w)]) out)"

definition range_visible where
  "range_visible srt env start stop view t =
     try_bind (merge_visible_fold srt env view (Some (start, stop)) (\<lambda>v. v) t) (\<lambda>out. Inr (live_cells out))"

definition range_visible_keys where
  "range_visible_keys srt env start stop view t =
     try_bind (merge_visible_fold srt env view (Some (start, stop)) (\<lambda>_. ()) t) (\<lambda>out. Inr (map fst (live_cells out)))"

definition lsm_iter where
  "lsm_iter srt env t =
     try_bind (merge_visible_fold srt env latest_view None (\<lambda>v. v) t) (\<lambda>out. Inr (live_cells out))"

definition lsm_range where
  "lsm_range srt env start stop t = range_visible srt env start stop latest_view t"

definition lsm_range_keys where
  "lsm_range_keys srt env start stop t = range_visible_keys srt env start stop latest_view t"

section \<open>Version garbage collection\<close>

text \<open>\<^verbatim>\<open>latest\<close>: the newest commit timestamp per user key of the active table, 0 by default.\<close>

definition latest_ts :: "(bytes \<times> bytes) list \<Rightarrow> (bytes \<times> commit_ts) list" where
  "latest_ts es =
     fold (\<lambda>(ik, raw) m.
        case decode_or_legacy raw of
          Inl _ \<Rightarrow> m
        | Inr v \<Rightarrow>
            let uk = decode_user_key ik;
                slot = (case bt_get m uk of None \<Rightarrow> 0 | Some ts \<Rightarrow> ts)
            in bt_insert uk (if slot < ver_commit_ts v then ver_commit_ts v else slot) m) es []"

definition gc_victims :: "commit_ts \<Rightarrow> (bytes \<times> bytes) list \<Rightarrow> bytes list" where
  "gc_victims min_retain_ts es =
     concat (map (\<lambda>(ik, raw).
       case decode_or_legacy raw of
         Inl _ \<Rightarrow> []
       | Inr v \<Rightarrow>
           let is_latest = (bt_get (latest_ts es) (decode_user_key ik) = Some (ver_commit_ts v)) in
           if 0 < ver_commit_ts v \<and> ver_commit_ts v < min_retain_ts \<and> \<not> is_latest then [ik] else []) es)"

definition gc_mvcc_active :: "commit_ts \<Rightarrow> lsm_tree \<Rightarrow> nat \<times> lsm_tree" where
  "gc_mvcc_active min_retain_ts t =
     (let keys = gc_victims min_retain_ts (memtable_iter (lt_active t));
          active = fold (\<lambda>ik a. case memtable_delete ik a of Inl _ \<Rightarrow> a | Inr (_, a') \<Rightarrow> a') keys (lt_active t)
      in (length keys, t\<lparr>lt_active := active\<rparr>))"

end
