(* ===== verification/Lsm_Read.thy ===== *)
theory Lsm_Read
  imports Lsm
begin

text \<open>
  What the reads of the tree return. \<open>sources\<close> lists the contents the reads look through, newest
  first: the active table, level 0 from the last flushed file, level 1 likewise. Point reads
  are characterised on the concatenation of these lists.
\<close>

section \<open>Invariant and sources\<close>

definition lsm_paths :: "lsm_tree \<Rightarrow> string list" where
  "lsm_paths t = rev (lt_level0 t) @ rev (lt_level1 t)"

definition lsm_inv :: "sst_env \<Rightarrow> lsm_tree \<Rightarrow> bool" where
  "lsm_inv env t \<longleftrightarrow> memtable_inv (lt_active t) \<and> bt_sorted (lt_sst_dir t) \<and> distinct (lsm_paths t) \<and>
     (\<forall>p \<in> set (lsm_paths t). table_ok (se_crc env) (lt_sst_dir t) p) \<and>
     (\<forall>(p, rd) \<in> set (lt_sst_cache t). sst_open_file (lt_sst_dir t) p = Inr rd)"

definition tables :: "sst_env \<Rightarrow> lsm_tree \<Rightarrow> (bytes \<times> bytes) list list" where
  "tables env t = map (table_at (se_crc env) (lt_sst_dir t)) (lsm_paths t)"

definition sources :: "sst_env \<Rightarrow> lsm_tree \<Rightarrow> (bytes \<times> bytes) list list" where
  "sources env t = mt_map (lt_active t) # tables env t"

definition lsm_entries :: "sst_env \<Rightarrow> lsm_tree \<Rightarrow> (bytes \<times> bytes) list" where
  "lsm_entries env t = concat (sources env t)"

text \<open>A cached reader is the reader that opening the file gives; filling the cache keeps this.\<close>

lemma cached_reader_transparent:
  assumes "lsm_inv env t"
  shows "reader_at path t = sst_open_file (lt_sst_dir t) path"
    and "cached_reader path t = Inr (rd, t') \<Longrightarrow>
      lsm_inv env t' \<and> sources env t' = sources env t \<and> sst_open_file (lt_sst_dir t) path = Inr rd"
proof -
  have c: "map_of (lt_sst_cache t) path = Some rd \<Longrightarrow> sst_open_file (lt_sst_dir t) path = Inr rd" for rd
    using assms by (auto simp: lsm_inv_def dest: map_of_SomeD)
  show "reader_at path t = sst_open_file (lt_sst_dir t) path"
    using c by (cases "map_of (lt_sst_cache t) path"; cases "sst_open_file (lt_sst_dir t) path")
      (simp_all add: reader_at_def cached_reader_def)
  assume "cached_reader path t = Inr (rd, t')"
  then show "lsm_inv env t' \<and> sources env t' = sources env t \<and> sst_open_file (lt_sst_dir t) path = Inr rd"
    using assms c
    by (auto simp: cached_reader_def try_bind_Inr lsm_inv_def sources_def tables_def lsm_paths_def split: option.splits)
qed

lemma table_range:
  assumes "lsm_inv env t" "p \<in> set (lsm_paths t)"
  obtains rd it where "reader_at p t = Inr rd" "sst_inv (se_crc env) rd"
    "sst_content (se_crc env) rd = table_at (se_crc env) (lt_sst_dir t) p"
    "sst_scan_range (se_crc env) rd lo hi = Inr it"
    "oks (sst_range_items (se_crc env) it) =
       filter (\<lambda>(k, _). lo \<le> k \<and> k < hi) (table_at (se_crc env) (lt_sst_dir t) p)"
proof -
  have "table_ok (se_crc env) (lt_sst_dir t) p" using assms by (simp add: lsm_inv_def)
  then obtain rd where rd: "sst_open_file (lt_sst_dir t) p = Inr rd" "sst_inv (se_crc env) rd"
    "sst_content (se_crc env) rd = table_at (se_crc env) (lt_sst_dir t) p"
    by (rule table_ok_at)
  from sst.range_content [OF rd(2), of lo hi]
  obtain it where "sst_scan_range (se_crc env) rd lo hi = Inr it"
    "sst_range_collect (se_crc env) it =
       Inr (filter (\<lambda>(k, _). lo \<le> k \<and> k < hi) (table_at (se_crc env) (lt_sst_dir t) p))"
    by (auto simp: sst_range_entries_def try_bind_Inr rd(3))
  then show ?thesis
    using that rd cached_reader_transparent(1) [OF assms(1)] by (simp add: sst_range_items_collect)
qed

section \<open>Versions of a key\<close>

definition key_matches :: "bytes \<Rightarrow> bytes \<Rightarrow> bool" where
  "key_matches key ik \<longleftrightarrow> decode_user_key ik = key \<or> ik = key"

lemma key_matches_window:
  assumes "key \<noteq> []" "\<not> set key \<subseteq> {255}" "key_matches key ik"
  shows "key \<le> ik \<and> ik < user_key_prefix_end key"
proof -
  have "starts_with ik key"
  proof (cases "ik = key")
    case False
    then have "take (length ik - 8) ik = key" using assms(3) by (simp add: key_matches_def decode_user_key_def)
    then have "ik = key @ drop (length ik - 8) ik" by (metis append_take_drop_id)
    then show ?thesis by (metis starts_with_append)
  qed (simp add: starts_with_def)
  then show ?thesis
    using starts_with_range [OF assms(2)] by (simp add: user_key_prefix_end_def prefix_end_def)
qed

lemma consider_all_append:
  "consider_all view key (xs @ ys) best =
     try_bind (consider_all view key xs best) (consider_all view key ys)"
proof (induction xs arbitrary: best)
  case (Cons e xs)
  obtain ik raw where e: "e = (ik, raw)" by (cases e)
  show ?case using Cons by (cases "decode_or_legacy raw") (auto simp: e)
qed simp

lemma consider_all_filter:
  assumes "\<And>ik raw. key_matches key ik \<Longrightarrow> P (ik, raw)"
  shows "consider_all view key (filter P es) best = consider_all view key es best"
proof (induction es arbitrary: best)
  case (Cons e es)
  obtain ik raw where e: "e = (ik, raw)" by (cases e)
  show ?case
    using Cons assms [of ik raw] by (cases "decode_or_legacy raw") (auto simp: e key_matches_def)
qed simp

lemma consider_tables_eq:
  assumes inv: "lsm_inv env t" and key: "key \<noteq> []" "\<not> set key \<subseteq> {255}"
    and "set ps \<subseteq> set (lsm_paths t)"
  shows "consider_tables env view key t ps best =
    consider_all view key (concat (map (table_at (se_crc env) (lt_sst_dir t)) ps)) best"
  using assms(4)
proof (induction ps arbitrary: best)
  case (Cons p ps)
  let ?lo = key and ?hi = "user_key_prefix_end key"
  have "p \<in> set (lsm_paths t)" using Cons.prems by simp
  from table_range [OF inv this, of ?lo ?hi] obtain rd it where
    rd: "reader_at p t = Inr rd" "sst_scan_range (se_crc env) rd ?lo ?hi = Inr it"
    "oks (sst_range_items (se_crc env) it) =
       filter (\<lambda>(k, _). ?lo \<le> k \<and> k < ?hi) (table_at (se_crc env) (lt_sst_dir t) p)" .
  have "consider_all view key (oks (sst_range_items (se_crc env) it)) best =
      consider_all view key (table_at (se_crc env) (lt_sst_dir t) p) best"
    unfolding rd(3) by (rule consider_all_filter) (use key_matches_window [OF key] in simp)
  moreover have "consider_tables env view key t ps = 
      consider_all view key (concat (map (table_at (se_crc env) (lt_sst_dir t)) ps))"
    using Cons by (intro ext) simp
  ultimately show ?case using rd by (simp add: consider_all_append)
qed simp

text \<open>The search of \<open>find_visible_version\<close> is one pass over all sources, newest first.\<close>

lemma find_visible_eq:
  assumes "lsm_inv env t" and key: "key \<noteq> []" "\<not> set key \<subseteq> {255}"
  shows "find_visible_version env key view t = consider_all view key (lsm_entries env t) None"
proof -
  have win: "key \<le> user_key_prefix_end key"
    using key_matches_window [OF key, of key] by (auto simp: key_matches_def)
  have "consider_all view key (filter (\<lambda>(k, _). key \<le> k \<and> k < user_key_prefix_end key) (mt_map (lt_active t))) None =
      consider_all view key (mt_map (lt_active t)) None"
    by (rule consider_all_filter) (use key_matches_window [OF key] in simp)
  moreover have "consider_tables env view key t (rev (lt_level0 t) @ rev (lt_level1 t)) =
      consider_all view key (concat (tables env t))"
    using consider_tables_eq [OF assms, of "lsm_paths t"] by (intro ext) (simp add: tables_def lsm_paths_def)
  ultimately show ?thesis
    using win
    by (simp add: find_visible_version_def memtable_range_def bt_range_Some lsm_entries_def sources_def
        consider_all_append)
qed

text \<open>The decoded versions of a key, in source order.\<close>

definition versions_in :: "bytes \<Rightarrow> (bytes \<times> bytes) list \<Rightarrow> version list" where
  "versions_in key es = oks (map (\<lambda>(_, raw). decode_or_legacy raw) (filter (\<lambda>(ik, _). key_matches key ik) es))"

lemma set_versions_in:
  "set (versions_in key es) = {v. \<exists>ik raw. (ik, raw) \<in> set es \<and> key_matches key ik \<and> decode_or_legacy raw = Inr v}"
  by (force simp: versions_in_def oks_def split: sum.splits)

definition decodable :: "bytes \<Rightarrow> (bytes \<times> bytes) list \<Rightarrow> bool" where
  "decodable key es \<longleftrightarrow> (\<forall>(ik, raw) \<in> set es. key_matches key ik \<longrightarrow> (\<exists>v. decode_or_legacy raw = Inr v))"

lemma consider_all_decodable:
  "decodable key es \<Longrightarrow>
     consider_all view key es best = Inr (fold (consider_ver view) (versions_in key es) best)"
proof (induction es arbitrary: best)
  case (Cons e es)
  obtain ik raw where e: "e = (ik, raw)" by (cases e)
  show ?case
    using Cons by (auto simp: e decodable_def versions_in_def key_matches_def oks_def)
qed (simp add: versions_in_def oks_def)

text \<open>The fold keeps the first of the newest visible versions.\<close>

lemma fold_consider_spec:
  "fold (consider_ver view) vs None = None \<longleftrightarrow> (\<forall>v \<in> set vs. \<not> is_visible view v None)"
  "fold (consider_ver view) vs None = Some b \<Longrightarrow>
     b \<in> set vs \<and> is_visible view b None \<and>
     (\<forall>v \<in> set vs. is_visible view v None \<longrightarrow> ver_commit_ts v \<le> ver_commit_ts b)"
proof -
  have keep: "fold (consider_ver view) vs (Some b) \<noteq> None" for vs b
    by (induction vs arbitrary: b) (auto simp: consider_ver_def)
  have none: "consider_ver view v None = (if is_visible view v None then Some v else None)" for v
    by (simp add: consider_ver_def)
  show "fold (consider_ver view) vs None = None \<longleftrightarrow> (\<forall>v \<in> set vs. \<not> is_visible view v None)"
    by (induction vs) (auto simp: none keep)
  have "fold (consider_ver view) vs best = Some b \<Longrightarrow>
      (b \<in> set vs \<and> is_visible view b None \<or> best = Some b) \<and>
      (\<forall>v \<in> set vs. is_visible view v None \<longrightarrow> ver_commit_ts v \<le> ver_commit_ts b) \<and>
      (\<forall>a. best = Some a \<longrightarrow> ver_commit_ts a \<le> ver_commit_ts b)" for vs best b
  proof (induction vs arbitrary: best)
    case (Cons v vs)
    define w where "w = consider_ver view v best"
    have w: "w = Some v \<and> is_visible view v None \<or> w = best"
      "\<And>a. best = Some a \<Longrightarrow> \<exists>a'. w = Some a' \<and> ver_commit_ts a \<le> ver_commit_ts a'"
      "is_visible view v None \<Longrightarrow> \<exists>a'. w = Some a' \<and> ver_commit_ts v \<le> ver_commit_ts a'"
      by (auto simp: w_def consider_ver_def split: option.splits)
    have "fold (consider_ver view) vs w = Some b" using Cons.prems by (simp add: w_def)
    note IH = Cons.IH [OF this]
    have "ver_commit_ts a \<le> ver_commit_ts b" if "best = Some a" for a
      using w(2) [OF that] IH by (auto intro: order_trans)
    moreover have "ver_commit_ts v \<le> ver_commit_ts b" if "is_visible view v None"
      using w(3) [OF that] IH by (auto intro: order_trans)
    ultimately show ?case using w(1) IH by auto
  qed simp
  from this [of vs None b] show "fold (consider_ver view) vs None = Some b \<Longrightarrow>
     b \<in> set vs \<and> is_visible view b None \<and>
     (\<forall>v \<in> set vs. is_visible view v None \<longrightarrow> ver_commit_ts v \<le> ver_commit_ts b)" by simp
qed

text \<open>The specification of a read: of the visible versions the first with the largest timestamp.\<close>

definition newest_visible :: "read_view \<Rightarrow> version list \<Rightarrow> version option" where
  "newest_visible view vs =
     (let vis = filter (\<lambda>v. is_visible view v None) vs
      in find (\<lambda>v. \<forall>w \<in> set vis. ver_commit_ts w \<le> ver_commit_ts v) vis)"

definition vis_list :: "read_view \<Rightarrow> version list \<Rightarrow> version list" where
  "vis_list view vs = filter (\<lambda>v. is_visible view v None) vs"

lemma fold_consider_vis:
  "fold (consider_ver view) vs best = fold (consider_ver view) (vis_list view vs) best"
  by (induction vs arbitrary: best) (auto simp: consider_ver_def vis_list_def)

lemma find_append: "find P (xs @ ys) = (case find P xs of None \<Rightarrow> find P ys | Some x \<Rightarrow> Some x)"
  by (induction xs) simp_all

lemma find_first_max:
  "\<forall>v \<in> set vs. is_visible view v None \<Longrightarrow>
     find (\<lambda>v. \<forall>w \<in> set vs. ver_commit_ts w \<le> ver_commit_ts v) vs = fold (consider_ver view) vs None"
proof (induction vs rule: rev_induct)
  case (snoc v vs)
  let ?P = "\<lambda>vs v. \<forall>w \<in> set vs. ver_commit_ts w \<le> ver_commit_ts v"
  have IH: "find (?P vs) vs = fold (consider_ver view) vs None" using snoc by simp
  show ?case
  proof (cases "fold (consider_ver view) vs None")
    case None
    then have "vs = []" using fold_consider_spec(1) [of view vs] snoc.prems by (cases vs) auto
    then show ?thesis using snoc.prems by (simp add: consider_ver_def)
  next
    case (Some b)
    note b = fold_consider_spec(2) [OF Some]
    have new: "fold (consider_ver view) (vs @ [v]) None = (if ver_commit_ts b < ver_commit_ts v then Some v else Some b)"
      using Some snoc.prems by (simp add: consider_ver_def)
    show ?thesis
    proof (cases "ver_commit_ts b < ver_commit_ts v")
      case True
      then have "find (?P (vs @ [v])) vs = None" "?P (vs @ [v]) v"
        using b snoc.prems by (fastforce simp: find_None_iff)+
      then show ?thesis using new True by (simp add: find_append)
    next
      case False
      then have "find (?P (vs @ [v])) vs = find (?P vs) vs"
        using b by (intro find_cong) (auto intro: order_trans)
      then show ?thesis using new False IH Some by (simp add: find_append)
    qed
  qed
qed simp

lemma fold_consider_newest: "fold (consider_ver view) vs None = newest_visible view vs"
  unfolding newest_visible_def Let_def vis_list_def [symmetric]
  by (subst fold_consider_vis, rule find_first_max [symmetric]) (simp add: vis_list_def)

section \<open>Point reads\<close>

text \<open>
  A key is clean in a set of entries when the two kinds of entries are told apart: a value
  stored under the key itself is raw data, and a value stored under the key plus eight bytes is
  an encoded committed version.
\<close>

definition key_clean :: "bytes \<Rightarrow> (bytes \<times> bytes) list \<Rightarrow> bool" where
  "key_clean key es \<longleftrightarrow> (\<forall>(ik, raw) \<in> set es.
     (ik = key \<longrightarrow> \<not> starts_with raw MVCC_MAGIC) \<and>
     (decode_user_key ik = key \<longrightarrow> starts_with raw MVCC_MAGIC \<and>
        (\<exists>v. decode_version raw = Inr v \<and> ver_commit_ts v \<noteq> 0)))"

definition key_ok :: "bytes \<Rightarrow> bool" where
  "key_ok key \<longleftrightarrow> key \<noteq> [] \<and> \<not> set key \<subseteq> {255}"

lemma key_clean_decodable: "key_clean key es \<Longrightarrow> decodable key es"
  by (fastforce simp: key_clean_def decodable_def key_matches_def decode_or_legacy_def)

lemma find_visible_spec:
  assumes "lsm_inv env t" "key_ok key" "decodable key (lsm_entries env t)"
  shows "find_visible_version env key view t = Inr (newest_visible view (versions_in key (lsm_entries env t)))"
  using find_visible_eq [OF assms(1)] assms(2,3)
  by (simp add: key_ok_def consider_all_decodable fold_consider_newest)

lemma get_visible_spec:
  assumes "lsm_inv env t" "key_ok key" "decodable key (lsm_entries env t)"
  shows "get_visible env key view t =
    Inr (version_cell (newest_visible view (versions_in key (lsm_entries env t))))"
  using find_visible_spec [OF assms] by (simp add: get_visible_def)

lemma get_from_ssts_eq:
  assumes inv: "lsm_inv env t" and "set ps \<subseteq> set (lsm_paths t)"
  shows "get_from_ssts env key t ps =
    Inr (map_of (concat (map (table_at (se_crc env) (lt_sst_dir t)) ps)) key)"
  using assms(2)
proof (induction ps)
  case (Cons p ps)
  have "p \<in> set (lsm_paths t)" using Cons.prems by simp
  then obtain rd where rd: "reader_at p t = Inr rd" "sst_inv (se_crc env) rd"
    "sst_content (se_crc env) rd = table_at (se_crc env) (lt_sst_dir t) p"
    using table_range [OF inv, of p "[]" "[]"] by blast
  have "get_from_sst env p key t = Inr (map_of (table_at (se_crc env) (lt_sst_dir t) p) key)"
    using rd sst.get_content [OF rd(2), of key] by (simp add: get_from_sst_def bt_get_def)
  then show ?case using Cons by (auto simp: map_add_def split: option.splits)
qed simp

lemma raw_version_in:
  assumes "key_clean key es" "map_of es key = Some raw"
  shows "version_put 1 raw \<in> set (versions_in key es)"
proof -
  have "(key, raw) \<in> set es" using assms(2) by (rule map_of_SomeD)
  moreover have "decode_or_legacy raw = Inr (version_put 1 raw)"
    using assms(1) calculation by (auto simp: key_clean_def decode_or_legacy_def)
  ultimately show ?thesis
    by (force simp: versions_in_def oks_def key_matches_def)
qed

lemma newest_visible_None: "newest_visible view vs = None \<longleftrightarrow> (\<forall>v \<in> set vs. \<not> is_visible view v None)"
  using fold_consider_spec(1) [of view vs] by (simp only: fold_consider_newest)

lemma newest_visible_Some:
  "newest_visible view vs = Some b \<Longrightarrow> b \<in> set vs \<and> is_visible view b None \<and>
     (\<forall>v \<in> set vs. is_visible view v None \<longrightarrow> ver_commit_ts v \<le> ver_commit_ts b)"
  unfolding fold_consider_newest [symmetric] by (rule fold_consider_spec(2))

lemma latest_visible: "is_visible latest_view v None \<longleftrightarrow> ver_commit_ts v \<noteq> 0"
  by (simp add: is_visible_def latest_view_def read_view_new_def word_order.extremum_strict)

lemma lsm_get_spec:
  assumes inv: "lsm_inv env t" and key: "key_ok key" and clean: "key_clean key (lsm_entries env t)"
  shows "lsm_get env key t = Inr
    (case bt_get (mt_map (lt_active t)) key of
       Some raw \<Rightarrow> Some raw
     | None \<Rightarrow> version_cell (newest_visible latest_view (versions_in key (lsm_entries env t))))"
proof -
  let ?vs = "versions_in key (lsm_entries env t)"
  have get: "memtable_get key (lt_active t) = Inr (bt_get (mt_map (lt_active t)) key)"
    using key by (simp add: memtable_get_eq key_ok_def)
  show ?thesis
  proof (cases "bt_get (mt_map (lt_active t)) key")
    case (Some raw)
    then have "(key, raw) \<in> set (lsm_entries env t)"
      by (auto simp: lsm_entries_def sources_def bt_get_def dest: map_of_SomeD)
    then have "\<not> starts_with raw MVCC_MAGIC" using clean by (auto simp: key_clean_def)
    then show ?thesis using Some get by (simp add: lsm_get_def)
  next
    case None
    have found: "find_visible_version env key latest_view t = Inr (newest_visible latest_view ?vs)"
      using find_visible_spec [OF inv key key_clean_decodable [OF clean]] .
    have "map_of (concat (tables env t)) key = None" if "newest_visible latest_view ?vs = None"
    proof (rule ccontr)
      assume "map_of (concat (tables env t)) key \<noteq> None"
      then obtain raw where "map_of (lsm_entries env t) key = Some raw"
        using None by (auto simp: lsm_entries_def sources_def map_add_def bt_get_def split: option.splits)
      from raw_version_in [OF clean this] that show False
        unfolding newest_visible_None by (auto simp: latest_visible version_put_def)
    qed
    then have "lsm_get_below env key t = Inr (version_cell (newest_visible latest_view ?vs))"
      using found get_from_ssts_eq [OF inv, of "lsm_paths t" key]
      by (auto simp: lsm_get_below_def lsm_paths_def tables_def version_cell_def split: option.splits)
    then show ?thesis using None get by (simp add: lsm_get_def)
  qed
qed

text \<open>Without versions of the key the tree reads as one map, the newest source first.\<close>

definition raw_only :: "bytes \<Rightarrow> (bytes \<times> bytes) list \<Rightarrow> bool" where
  "raw_only key es \<longleftrightarrow> (\<forall>(ik, raw) \<in> set es.
     decode_user_key ik \<noteq> key \<and> (ik = key \<longrightarrow> \<not> starts_with raw MVCC_MAGIC))"

lemma raw_only_clean: "raw_only key es \<Longrightarrow> key_clean key es"
  by (fastforce simp: raw_only_def key_clean_def)

lemma raw_only_versions:
  "raw_only key es \<Longrightarrow> versions_in key es = map (\<lambda>(_, raw). version_put 1 raw) (filter (\<lambda>(ik, _). ik = key) es)"
  by (induction es)
    (auto simp: versions_in_def oks_def raw_only_def key_matches_def decode_or_legacy_def)

lemma map_of_filter_hd: "map_of es k = (case filter (\<lambda>(ik, _). ik = k) es of [] \<Rightarrow> None | (_, v) # _ \<Rightarrow> Some v)"
  by (induction es) auto

lemma newest_visible_ones:
  "newest_visible latest_view (map (\<lambda>(_, raw). version_put 1 raw) es) =
     (case es of [] \<Rightarrow> None | (_, raw) # _ \<Rightarrow> Some (version_put 1 raw))"
  by (cases es) (auto simp: newest_visible_def latest_visible version_put_def filter_True split: prod.splits)

lemma lsm_get_raw:
  assumes "lsm_inv env t" "key_ok key" "raw_only key (lsm_entries env t)"
  shows "lsm_get env key t = Inr (map_of (lsm_entries env t) key)"
proof -
  have "version_cell (newest_visible latest_view (versions_in key (lsm_entries env t))) =
      map_of (lsm_entries env t) key"
    unfolding raw_only_versions [OF assms(3)] newest_visible_ones map_of_filter_hd [of "lsm_entries env t"]
    by (auto simp: version_cell_def version_put_def split: list.splits)
  moreover have "map_of (lsm_entries env t) key = Some raw" if "bt_get (mt_map (lt_active t)) key = Some raw" for raw
    using that by (simp add: lsm_entries_def sources_def bt_get_def)
  ultimately show ?thesis
    using lsm_get_spec [OF assms(1,2) raw_only_clean [OF assms(3)]] by (auto split: option.splits)
qed

end
