(* ===== verification/Lsm_Recovery.thy ===== *)
theory Lsm_Recovery
  imports Lsm_Read
begin

text \<open>
  Crash safety of the tree. A crash keeps the table files, the manifest and the synced part of
  every log segment. The invariant \<open>lsm_durable\<close> says that replaying the log gives the active
  table and that the manifest names the levels; every operation keeps it, so reopening after a
  crash gives a tree with the same reads.
\<close>

section \<open>The log\<close>

definition crash_file :: "wal_file \<Rightarrow> wal_file" where
  "crash_file f = f\<lparr>wf_data := take (wf_synced f) (wf_data f)\<rparr>"

definition crash_dir :: "wal_dir \<Rightarrow> wal_dir" where
  "crash_dir d = d\<lparr>wd_files := map (\<lambda>(i, f). (i, crash_file f)) (wd_files d)\<rparr>"

definition wal_ids :: "wal_mgr \<Rightarrow> nat set" where
  "wal_ids m = fst ` set (wd_files (wm_dir m))"

definition wal_durable :: "wal_mgr \<Rightarrow> bool" where
  "wal_durable m \<longleftrightarrow> wal_mgr_inv m \<and> wm_sync_mode m = EveryAppend \<and>
     (case wd_current (wm_dir m) of None \<Rightarrow> 1 | Some i \<Rightarrow> i) = wm_active_id m \<and>
     (\<forall>f \<in> snd ` set (wd_files (wm_dir m)). wf_synced f = length (wf_data f))"

lemma crash_dir_synced: "wal_durable m \<Longrightarrow> crash_dir (wm_dir m) = wm_dir m"
proof -
  assume "wal_durable m"
  then have "map (\<lambda>(i, f). (i, crash_file f)) (wd_files (wm_dir m)) = wd_files (wm_dir m)"
    by (intro map_idI) (force simp: wal_durable_def crash_file_def)
  then show ?thesis by (simp add: crash_dir_def)
qed

lemma replace_active_durable:
  assumes "wal_durable m" "wal_mgr_inv m'" "wf_synced f = length (wf_data f)"
    "m' = m\<lparr>wm_dir := (wm_dir m)\<lparr>wd_files := bt_insert (wm_active_id m) f (wd_files (wm_dir m))\<rparr>\<rparr>"
  shows "wal_durable m' \<and> wal_ids m' = wal_ids m"
proof -
  have "wm_active_id m \<in> wal_ids m" using assms(1) by (simp add: wal_durable_def wal_mgr_inv_def wal_ids_def)
  then show ?thesis
    using assms set_bt_insert_subset [of "wm_active_id m" f "wd_files (wm_dir m)"]
    by (fastforce simp: wal_durable_def wal_ids_def insert_absorb)
qed

lemma wal_durable_append:
  assumes d: "wal_durable m" and e: "entry_fits e"
  shows "\<exists>m'. wal_mgr_append e m = Inr m' \<and> wal_durable m' \<and>
    dir_entries (wm_dir m') = dir_entries (wm_dir m) @ [e] \<and> wal_ids m' = wal_ids m"
proof -
  have inv: "wal_mgr_inv m" and mode: "wm_sync_mode m = EveryAppend" using d by (simp_all add: wal_durable_def)
  obtain f where f: "bt_get (wd_files (wm_dir m)) (wm_active_id m) = Some f" "file_ok f"
    using wal_mgr_active [OF inv] .
  obtain f' where f': "wal_append e True f = Inr f'" "wf_synced f' = length (wf_data f')"
    using wal_append_spec [OF f(2) e, of True] by blast
  obtain m' where m': "active_append e True m = Inr m'" "wal_mgr_inv m'"
    "dir_entries (wm_dir m') = dir_entries (wm_dir m) @ [e]"
    using active_append_spec [OF inv e] by blast
  have "m' = m\<lparr>wm_dir := (wm_dir m)\<lparr>wd_files := bt_insert (wm_active_id m) f' (wd_files (wm_dir m))\<rparr>\<rparr>"
    using m'(1) f(1) f'(1) by (simp add: active_append_def)
  then show ?thesis
    using replace_active_durable [OF d m'(2) f'(2)] m' mode by (simp add: wal_mgr_append_def)
qed

lemma wal_durable_sync:
  assumes d: "wal_durable m"
  shows "\<exists>m'. wal_mgr_sync m = Inr m' \<and> wal_durable m' \<and>
    dir_entries (wm_dir m') = dir_entries (wm_dir m) \<and> wal_ids m' = wal_ids m"
proof -
  have inv: "wal_mgr_inv m" using d by (simp add: wal_durable_def)
  obtain f where f: "bt_get (wd_files (wm_dir m)) (wm_active_id m) = Some f"
    using wal_mgr_active [OF inv] by blast
  obtain m' where m': "wal_mgr_sync m = Inr m'" "wal_mgr_inv m'" "dir_entries (wm_dir m') = dir_entries (wm_dir m)"
    using wal_mgr_sync_spec [OF inv] by blast
  have "m' = m\<lparr>wm_dir := (wm_dir m)\<lparr>wd_files := bt_insert (wm_active_id m) (wal_sync f) (wd_files (wm_dir m))\<rparr>\<rparr>"
    using m'(1) f by (simp add: wal_mgr_sync_def)
  from replace_active_durable [OF d m'(2) _ this] m' show ?thesis by (simp add: wal_sync_def)
qed

lemma fold_delete_segments:
  "fold wal_mgr_delete_segment ids m =
     m\<lparr>wm_dir := (wm_dir m)\<lparr>wd_files := filter (\<lambda>(i, _). i \<notin> set ids) (wd_files (wm_dir m))\<rparr>\<rparr>"
proof (induction ids arbitrary: m)
  case (Cons i ids)
  have "filter (\<lambda>(j, _). j \<notin> set ids) (bt_remove i fs) = filter (\<lambda>(j, _). j \<notin> set (i # ids)) fs"
    for fs :: "(nat \<times> wal_file) list"
    by (induction fs) (auto simp: bt_remove_def)
  then show ?case using Cons by (simp add: wal_mgr_delete_segment_def)
qed simp

text \<open>Rotation followed by the deletion of the flushed segments leaves an empty log.\<close>

lemma wal_durable_rotate:
  assumes d: "wal_durable m" and low: "\<forall>i \<in> wal_ids m. lo \<le> i"
  shows "\<exists>m1. wal_mgr_rotate m = Inr (wm_active_id m, m1) \<and>
    (let m2 = fold wal_mgr_delete_segment [lo..<Suc (wm_active_id m)] m1 in
     wal_durable m2 \<and> dir_entries (wm_dir m2) = [] \<and> (\<forall>i \<in> wal_ids m2. wm_active_id m2 \<le> i))"
proof -
  obtain m0 where m0: "wal_mgr_sync m = Inr m0" "wal_durable m0" "wal_ids m0 = wal_ids m"
    using wal_durable_sync [OF d] by blast
  have inv: "wal_mgr_inv m" "wal_mgr_inv m0" using d m0 by (simp_all add: wal_durable_def)
  have act: "wm_active_id m0 = wm_active_id m" "wm_sync_mode m0 = EveryAppend"
    using m0 d by (auto simp: wal_mgr_sync_def wal_durable_def split: option.splits)
  let ?i = "wm_active_id m0 + 1"
  have ok: "dir_ok (wm_dir m0)" using inv(2) by (simp add: wal_mgr_inv_def)
  obtain d' f where seg: "segment_open ?i (wm_dir m0) = Inr d'" "dir_ok d'"
    "d' = (wm_dir m0)\<lparr>wd_files := bt_insert ?i f (wd_files (wm_dir m0))\<rparr>"
    "file_entries f = (case bt_get (wd_files (wm_dir m0)) ?i of None \<Rightarrow> [] | Some g \<Rightarrow> file_entries g)"
    using segment_open_spec [OF ok, of ?i] by blast
  have above: "\<forall>(j, g) \<in> set (wd_files (wm_dir m0)). wm_active_id m0 < j \<longrightarrow> file_entries g = []"
    using inv(2) by (simp add: wal_mgr_inv_def)
  have fe: "file_entries f = []"
    using seg(4) above bt_get_mem [of "wd_files (wm_dir m0)"] ok
    by (fastforce simp: dir_ok_def split: option.splits)
  have sync: "wf_synced f = length (wf_data f)"
  proof -
    have f: "wal_open (bt_get (wd_files (wm_dir m0)) ?i) = Inr f"
      using seg(1,3) ok by (auto simp: segment_open_def try_bind_Inr dir_ok_def dest!: arg_cong [of _ _ wd_files])
        (metis bt_get_insert option.inject)
    have "wf_synced g = length (wf_data g)" if "bt_get (wd_files (wm_dir m0)) ?i = Some g" for g
      using m0(2) bt_get_mem [of "wd_files (wm_dir m0)"] ok that by (force simp: wal_durable_def dir_ok_def)
    then show ?thesis
      using f by (auto simp: wal_open_def wal_sync_def Let_def try_bind_Inr split: option.splits if_splits)
  qed
  define m1 where "m1 = m0\<lparr>wm_active_id := ?i, wm_dir := write_current ?i d'\<rparr>"
  have rot: "wal_mgr_rotate m = Inr (wm_active_id m, m1)"
    using m0(1) seg(1) act by (simp add: wal_mgr_rotate_def Let_def m1_def)
  define m2 where "m2 = fold wal_mgr_delete_segment [lo..<Suc (wm_active_id m)] m1"
  let ?fs = "bt_insert ?i f (wd_files (wm_dir m0))"
  have lo: "lo \<le> wm_active_id m0"
    using low m0(3) inv(2) by (auto simp: wal_mgr_inv_def wal_ids_def)
  have iff: "(i \<notin> set [lo..<Suc (wm_active_id m)]) = (wm_active_id m0 < i)" if mem: "(i, g) \<in> set ?fs" for i g
  proof -
    have "i \<in> fst ` set ?fs" using imageI [OF mem, of fst] by (simp only: fst_conv)
    then show ?thesis using low lo m0(3) act by (auto simp: keys_bt_insert wal_ids_def)
  qed
  have "filter (\<lambda>(i, _). i \<notin> set [lo..<Suc (wm_active_id m)]) ?fs = filter (\<lambda>(i, _). wm_active_id m0 < i) ?fs"
    by (rule filter_cong [OF refl]) (use iff in \<open>simp only: split_paired_all prod.case\<close>)
  then have m2: "m2 = m1\<lparr>wm_dir := (wm_dir m1)\<lparr>wd_files := filter (\<lambda>(i, _). wm_active_id m0 < i) ?fs\<rparr>\<rparr>"
    unfolding m2_def fold_delete_segments by (simp add: m1_def write_current_def seg(3))
  have mem: "(?i, f) \<in> set ?fs" by (metis bt_get_insert bt_get_mem bt_sorted_insert dir_ok_def ok)
  have ent: "\<forall>(j, g) \<in> set ?fs. wm_active_id m0 < j \<longrightarrow> file_entries g = []"
    using set_bt_insert_subset [of ?i f "wd_files (wm_dir m0)"] above fe by fastforce
  have "dir_ok (wm_dir m2)"
    using seg(2) by (auto simp: m2 m1_def dir_ok_def seg(3) bt_sorted_filter)
  moreover have "wm_active_id m2 \<in> fst ` set (wd_files (wm_dir m2))"
    using mem by (force simp: m2 m1_def)
  ultimately have "wal_mgr_inv m2" using ent by (auto simp: wal_mgr_inv_def m2 m1_def)
  moreover have "\<forall>g \<in> snd ` set ?fs. wf_synced g = length (wf_data g)"
    using set_bt_insert_subset [of ?i f "wd_files (wm_dir m0)"] sync m0(2) by (fastforce simp: wal_durable_def)
  ultimately have "wal_durable m2"
    using act(2) by (auto simp: wal_durable_def m2 m1_def write_current_def)
  moreover have "dir_entries (wm_dir m2) = []" using ent by (force simp: dir_entries_def m2)
  moreover have "\<forall>i \<in> wal_ids m2. wm_active_id m2 \<le> i" by (auto simp: wal_ids_def m2 m1_def)
  ultimately show ?thesis using rot by (simp add: m2_def Let_def)
qed

section \<open>The tree\<close>

definition manifest_matches :: "lsm_tree \<Rightarrow> bool" where
  "manifest_matches t \<longleftrightarrow>
     (case manifest_load (lt_manifest_dir t) of
        Inl _ \<Rightarrow> False
      | Inr None \<Rightarrow> lt_level0 t = list_sst_level (lt_sst_dir t) 0 \<and>
          lt_level1 t = list_sst_level (lt_sst_dir t) 1 \<and> lt_manifest_seq t = 0
      | Inr (Some m) \<Rightarrow> m = \<lparr>ms_level0 = lt_level0 t, ms_level1 = lt_level1 t, ms_sequence = lt_manifest_seq t\<rparr>)"

lemma manifest_matches_upd [simp]:
  "manifest_matches (t\<lparr>lt_wal := w\<rparr>) = manifest_matches t"
  "manifest_matches (t\<lparr>lt_wal_pending := n\<rparr>) = manifest_matches t"
  "manifest_matches (t\<lparr>lt_active := a\<rparr>) = manifest_matches t"
  "manifest_matches (t\<lparr>lt_sst_cache := c\<rparr>) = manifest_matches t"
  by (simp_all add: manifest_matches_def cong: sum.case_cong option.case_cong)

definition lsm_files_ok :: "lsm_tree \<Rightarrow> bool" where
  "lsm_files_ok t \<longleftrightarrow> list_all path_ok (lt_level0 t @ lt_level1 t) \<and>
     (\<forall>(p, rd) \<in> set (lt_sst_cache t). sst_open_file (lt_sst_dir t) p = Inr rd)"

definition lsm_log_ok :: "lsm_tree \<Rightarrow> bool" where
  "lsm_log_ok t \<longleftrightarrow> wal_durable (lt_wal t) \<and> lc_wal_sync (lt_config t) = EveryAppend \<and>
     (\<forall>i \<in> wal_ids (lt_wal t). lt_flushed_wal_segment t \<le> i)"

text \<open>The manifest clause is void once the sequence number has left its width.\<close>

definition lsm_durable :: "lsm_tree \<Rightarrow> bool" where
  "lsm_durable t \<longleftrightarrow> lsm_log_ok t \<and> lsm_files_ok t \<and>
     apply_entries (dir_entries (wm_dir (lt_wal t))) memtable_new = Inr (lt_active t) \<and>
     (lt_manifest_seq t < 2 ^ 64 \<longrightarrow> manifest_matches t)"

lemma path_ok_sst_name: "path_ok (sst_name level i)"
proof -
  have "c \<noteq> CHR '','' \<and> c \<noteq> NL \<and> c \<noteq> CR" if "c \<in> set (show_nat j)" for c j
    using that show_nat_digits [of j] digit_not_special [of c] by (auto simp: digit_val_def)
  then show ?thesis
    by (auto simp: path_ok_def sst_name_def sst_prefix_def split: if_splits)
qed

lemma alloc_path_ok: "alloc_sst_path d level = Inr path \<Longrightarrow> path_ok path"
  by (auto simp: alloc_sst_path_def try_bind_Inr path_ok_sst_name)

lemma persist_manifest_matches:
  assumes "list_all path_ok (lt_level0 t @ lt_level1 t)" "lt_manifest_seq (persist_manifest t) < 2 ^ 64"
  shows "manifest_matches (persist_manifest t)"
proof -
  let ?m = "\<lparr>ms_level0 = lt_level0 t, ms_level1 = lt_level1 t, ms_sequence = lt_manifest_seq t + 1\<rparr>"
  have "snapshot_ok ?m" using assms by (simp add: snapshot_ok_def persist_manifest_def Let_def)
  from manifest_parse_encode [OF this]
  have "manifest_load (manifest_commit ?m d) = Inr (Some ?m)" for d
    by (simp add: manifest_load_def manifest_commit_def atomic_write_def file_create_def file_write_def fs_rename_def)
  then show ?thesis by (simp add: manifest_matches_def persist_manifest_def Let_def)
qed

lemma persist_manifest_durable:
  assumes "lsm_log_ok t" "lsm_files_ok t"
    and "apply_entries (dir_entries (wm_dir (lt_wal t))) memtable_new = Inr (lt_active t)"
  shows "lsm_durable (persist_manifest t)"
  using assms persist_manifest_matches [of t]
  by (simp add: lsm_durable_def lsm_log_ok_def lsm_files_ok_def) (simp add: persist_manifest_def Let_def)

lemma lsm_durable_active:
  assumes "lsm_durable t"
  shows "memtable_inv (lt_active t)"
proof -
  have "wal_mgr_inv (lt_wal t)" using assms by (simp add: lsm_durable_def lsm_log_ok_def wal_durable_def)
  from wal_mgr_records_fit [OF this] have "\<forall>e \<in> set (dir_entries (wm_dir (lt_wal t))). le_key e \<noteq> []"
    by (auto simp: entry_fits_def entry_ok_def)
  from apply_entries_spec [OF memtable_inv_new this] show ?thesis
    using assms by (auto simp: lsm_durable_def)
qed

lemma flush_active_durable:
  assumes d: "lsm_durable t" and f: "flush_active env t = Inr t'"
  shows "lsm_durable t'"
proof (cases "memtable_is_empty (lt_active t)")
  case True
  then have "lt_active t = memtable_new"
    using lsm_durable_active [OF d] by (simp add: memtable_is_empty_def memtable_new_def memtable_inv_def)
  then have "t' = t" using f True by (cases t) (simp add: flush_active_def)
  then show ?thesis using d by simp
next
  case False
  then obtain t1 where t1: "flush_tables env t = Inr t1" "t' = persist_manifest t1"
    using f by (auto simp: flush_active_def try_bind_Inr)
  have log: "wal_durable (lt_wal t)" "\<forall>i \<in> wal_ids (lt_wal t). lt_flushed_wal_segment t \<le> i"
    using d by (simp_all add: lsm_durable_def lsm_log_ok_def)
  obtain path data n where alloc: "alloc_sst_path (lt_sst_dir t) 0 = Inr path"
    and w: "write_from_memtable (se_crc env) (se_raw_m env) (se_raw_k env) (lt_active t) = Inr (data, n)"
    using t1(1) by (auto simp: flush_tables_def Let_def try_bind_Inr)
  obtain m1 where m1: "wal_mgr_rotate (lt_wal t) = Inr (wm_active_id (lt_wal t), m1)"
    and m2: "let m2 = fold wal_mgr_delete_segment [lt_flushed_wal_segment t..<Suc (wm_active_id (lt_wal t))] m1 in
     wal_durable m2 \<and> dir_entries (wm_dir m2) = [] \<and> (\<forall>i \<in> wal_ids m2. wm_active_id m2 \<le> i)"
    using wal_durable_rotate [OF log] by blast
  define m2 where "m2 = fold wal_mgr_delete_segment [lt_flushed_wal_segment t..<Suc (wm_active_id (lt_wal t))] m1"
  have t1_eq: "t1 = t\<lparr>lt_active := memtable_new, lt_sst_dir := bt_insert path data (lt_sst_dir t),
      lt_level0 := lt_level0 t @ [path], lt_sst_cache := [], lt_wal := m2,
      lt_flushed_wal_segment := wm_active_id m2, lt_wal_pending := 0\<rparr>"
    using t1(1) alloc w m1
    by (simp add: flush_tables_def Let_def clear_sst_cache_def m2_def del: upt_Suc)
  have "lsm_log_ok t1" "lsm_files_ok t1"
    using m2 d alloc_path_ok [OF alloc]
    by (auto simp: t1_eq lsm_log_ok_def lsm_files_ok_def lsm_durable_def Let_def m2_def simp del: upt_Suc)
  moreover have "apply_entries (dir_entries (wm_dir (lt_wal t1))) memtable_new = Inr (lt_active t1)"
    using m2 by (simp add: t1_eq m2_def Let_def del: upt_Suc)
  ultimately show ?thesis using t1(2) persist_manifest_durable by blast
qed

lemma run_compaction_durable:
  assumes d: "lsm_durable t" and f: "run_compaction env t = Inr t'"
  shows "lsm_durable t'"
proof -
  obtain out dir where c: "compact_level0_to_l1 (se_crc env) (se_raw_m env) (se_raw_k env) (lt_sst_dir t) (lt_level0 t) =
      Inr (out, dir)"
    and t': "t' = persist_manifest (clear_sst_cache
           (t\<lparr>lt_sst_dir := dir, lt_level0 := [], lt_level1 := lt_level1 t @ [out]\<rparr>))"
    using f by (auto simp: run_compaction_def try_bind_Inr)
  have "path_ok out"
    using c alloc_path_ok by (auto simp: compact_level0_to_l1_def try_bind_Inr split: if_splits)
  define t1 where "t1 = t\<lparr>lt_sst_dir := dir, lt_level0 := [], lt_level1 := lt_level1 t @ [out], lt_sst_cache := []\<rparr>"
  have "lsm_log_ok t1" "apply_entries (dir_entries (wm_dir (lt_wal t1))) memtable_new = Inr (lt_active t1)"
    using d by (simp_all add: t1_def lsm_durable_def lsm_log_ok_def)
  moreover have "lsm_files_ok t1"
    using d \<open>path_ok out\<close> by (simp add: t1_def lsm_durable_def lsm_files_ok_def)
  moreover have "t' = persist_manifest t1" by (simp add: t' t1_def clear_sst_cache_def)
  ultimately show ?thesis using persist_manifest_durable [of t1] by simp
qed

lemma maybe_flush_durable:
  assumes "lsm_durable t" and "maybe_flush_and_compact env t = Inr t'"
  shows "lsm_durable t'"
proof (cases "approx_bytes (lt_active t) < lc_max_mem_bytes (lt_config t)")
  case False
  then obtain t1 where t1: "flush_active env t = Inr t1"
    "(if lc_l0_compaction_trigger (lt_config t1) \<le> length (lt_level0 t1) then run_compaction env t1 else Inr t1) = Inr t'"
    using assms(2) by (auto simp: maybe_flush_and_compact_def try_bind_Inr)
  have "lsm_durable t1" using flush_active_durable [OF assms(1) t1(1)] .
  with t1(2) show ?thesis using run_compaction_durable [of t1 env t'] by (simp split: if_splits)
qed (use assms in \<open>simp add: maybe_flush_and_compact_def\<close>)

text \<open>Logging an operation and applying it to the active table.\<close>

lemma set_wal_durable:
  assumes "lsm_durable t" "wal_durable w" "wal_ids w = wal_ids (lt_wal t)"
    and "apply_entries (dir_entries (wm_dir w)) memtable_new = Inr a"
  shows "lsm_durable (t\<lparr>lt_wal := w, lt_wal_pending := n, lt_active := a\<rparr>)"
  using assms by (simp add: lsm_durable_def lsm_log_ok_def lsm_files_ok_def)

lemma lsm_log_durable:
  assumes d: "lsm_durable t" and e: "entry_fits e" and a: "apply_entry e (lt_active t) = Inr a"
    and log: "lsm_log e t = Inr t1"
  shows "lt_active t1 = lt_active t \<and> lsm_durable (t1\<lparr>lt_active := a\<rparr>)"
proof -
  have w: "wal_durable (lt_wal t)" "lc_wal_sync (lt_config t) = EveryAppend"
    using d by (simp_all add: lsm_durable_def lsm_log_ok_def)
  obtain w1 where w1: "wal_mgr_append e (lt_wal t) = Inr w1" "wal_durable w1"
    "dir_entries (wm_dir w1) = dir_entries (wm_dir (lt_wal t)) @ [e]" "wal_ids w1 = wal_ids (lt_wal t)"
    using wal_durable_append [OF w(1) e] by blast
  obtain w2 where w2: "wal_mgr_sync w1 = Inr w2" "wal_durable w2"
    "dir_entries (wm_dir w2) = dir_entries (wm_dir w1)" "wal_ids w2 = wal_ids w1"
    using wal_durable_sync [OF w1(2)] by blast
  have t1: "t1 = t\<lparr>lt_wal := w2, lt_wal_pending := 0\<rparr>"
    using log w1(1) w2(1) w(2) by (simp add: lsm_log_def maybe_sync_wal_def lsm_sync_def)
  have "apply_entries (dir_entries (wm_dir w2)) memtable_new = Inr a"
    using d a by (simp add: w2 w1 apply_entries_append lsm_durable_def)
  from set_wal_durable [OF d w2(2) _ this, of 0] w1 w2 show ?thesis by (simp add: t1)
qed

lemma put_batch_durable:
  "lsm_durable t \<Longrightarrow> \<forall>(k, v) \<in> set kvs. entry_fits (entry_put k v) \<Longrightarrow> put_batch_entries kvs t = Inr t' \<Longrightarrow>
     lsm_durable t'"
proof (induction kvs arbitrary: t)
  case (Cons kv kvs)
  obtain k v where kv: "kv = (k, v)" by (cases kv)
  from Cons.prems(3) obtain w1 a where w1: "wal_mgr_append (entry_put k v) (lt_wal t) = Inr w1"
    and a: "memtable_put k v (lt_active t) = Inr a"
    and rest: "put_batch_entries kvs (t\<lparr>lt_wal := w1, lt_active := a\<rparr>) = Inr t'"
    by (auto simp: kv try_bind_Inr)
  have "wal_durable (lt_wal t)" "entry_fits (entry_put k v)"
    using Cons.prems by (simp_all add: lsm_durable_def lsm_log_ok_def kv)
  from wal_durable_append [OF this] w1 have w: "wal_durable w1" "wal_ids w1 = wal_ids (lt_wal t)"
    "dir_entries (wm_dir w1) = dir_entries (wm_dir (lt_wal t)) @ [entry_put k v]" by auto
  have "apply_entries (dir_entries (wm_dir w1)) memtable_new = Inr a"
    using Cons.prems(1) a by (simp add: w apply_entries_append lsm_durable_def apply_entry_def entry_put_def)
  from set_wal_durable [OF Cons.prems(1) w(1,2) this, of "lt_wal_pending t"]
  have "lsm_durable (t\<lparr>lt_wal := w1, lt_active := a\<rparr>)"
    by (cases t) simp
  from Cons.IH [OF this _ rest] Cons.prems(2) show ?case by simp
qed simp

section \<open>Histories\<close>

datatype lsm_op =
    OpPut bytes bytes
  | OpPutBatch "(bytes \<times> bytes) list"
  | OpPutVersion bytes version
  | OpDelete bytes
  | OpSync
  | OpRead string

text \<open>\<open>OpRead\<close> stands for any read: its effect is a table in the cache.\<close>

fun lsm_step :: "sst_env \<Rightarrow> lsm_op \<Rightarrow> lsm_tree \<Rightarrow> fault + lsm_tree" where
  "lsm_step env (OpPut k v) t = lsm_put env k v t"
| "lsm_step env (OpPutBatch kvs) t = lsm_put_batch env kvs t"
| "lsm_step env (OpPutVersion k v) t = lsm_put_version env k v t"
| "lsm_step env (OpDelete k) t = try_bind (lsm_delete env k t) (\<lambda>(_, t'). Inr t')"
| "lsm_step env OpSync t = lift_err (lsm_sync t)"
| "lsm_step env (OpRead p) t = try_bind (cached_reader p t) (\<lambda>(_, t'). Inr t')"

primrec lsm_run :: "sst_env \<Rightarrow> lsm_op list \<Rightarrow> lsm_tree \<Rightarrow> fault + lsm_tree" where
  "lsm_run env [] t = Inr t"
| "lsm_run env (op # ops) t = try_bind (lsm_step env op t) (lsm_run env ops)"

definition version_fits :: "bytes \<Rightarrow> version \<Rightarrow> bool" where
  "version_fits k v \<longleftrightarrow> length k + length (ver_value v) + 39 < 2 ^ 32"

fun op_fits :: "lsm_op \<Rightarrow> bool" where
  "op_fits (OpPut k v) = entry_fits (entry_put k v)"
| "op_fits (OpPutBatch kvs) = (\<forall>(k, v) \<in> set kvs. entry_fits (entry_put k v))"
| "op_fits (OpPutVersion k v) = version_fits k v"
| "op_fits (OpDelete k) = (k \<noteq> [] \<and> length k + 39 < 2 ^ 32)"
| "op_fits OpSync = True"
| "op_fits (OpRead p) = True"

lemma version_entry_fits:
  assumes "version_fits k v" "encode_version v = Inr val"
  shows "entry_fits (entry_put (encode_internal_key k (ver_commit_ts v)) val)"
proof -
  have "length val = 18 + length (ver_value v)"
    using assms(2) by (auto simp: encode_version_def MVCC_MAGIC_def split: if_splits)
  moreover have "u64_to_be w \<noteq> []" for w using length_u64_to_be [of w] by fastforce
  ultimately show ?thesis
    using assms(1) by (simp add: version_fits_def entry_fits_def entry_ok_def entry_put_def encode_internal_key_def)
qed

lemma put_version_durable:
  assumes "lsm_durable t" "version_fits k v" "lsm_put_version env k v t = Inr t'"
  shows "lsm_durable t'"
proof -
  let ?ik = "encode_internal_key k (ver_commit_ts v)"
  obtain val t1 a where s: "encode_version v = Inr val" "lsm_log (entry_put ?ik val) t = Inr t1"
    "memtable_put ?ik val (lt_active t1) = Inr a" "maybe_flush_and_compact env (t1\<lparr>lt_active := a\<rparr>) = Inr t'"
    using assms(3) by (auto simp: lsm_put_version_def Let_def try_bind_Inr)
  have act: "lt_active t1 = lt_active t"
    using s(2) by (auto simp: lsm_log_def maybe_sync_wal_def lsm_sync_def try_bind_Inr split: if_splits)
  have "apply_entry (entry_put ?ik val) (lt_active t) = Inr a"
    using s(3) act by (simp add: apply_entry_def entry_put_def)
  from lsm_log_durable [OF assms(1) version_entry_fits [OF assms(2) s(1)] this s(2)] s(4)
  show ?thesis using maybe_flush_durable by blast
qed

lemma lsm_log_active: "lsm_log e t = Inr t1 \<Longrightarrow> lt_active t1 = lt_active t"
  by (auto simp: lsm_log_def maybe_sync_wal_def lsm_sync_def try_bind_Inr split: if_splits)

lemma lsm_put_durable:
  assumes "lsm_durable t" "entry_fits (entry_put k v)" "lsm_put env k v t = Inr t'"
  shows "lsm_durable t'"
proof -
  obtain t1 a where s: "lsm_log (entry_put k v) t = Inr t1" "memtable_put k v (lt_active t1) = Inr a"
    "maybe_flush_and_compact env (t1\<lparr>lt_active := a\<rparr>) = Inr t'"
    using assms(3) by (auto simp: lsm_put_def try_bind_Inr)
  have "apply_entry (entry_put k v) (lt_active t) = Inr a"
    using s(2) lsm_log_active [OF s(1)] by (simp add: apply_entry_def entry_put_def)
  from lsm_log_durable [OF assms(1,2) this s(1)] s(3) show ?thesis using maybe_flush_durable by blast
qed

lemma lsm_put_batch_durable:
  assumes "lsm_durable t" "\<forall>(k, v) \<in> set kvs. entry_fits (entry_put k v)" "lsm_put_batch env kvs t = Inr t'"
  shows "lsm_durable t'"
proof -
  obtain t1 w where s: "put_batch_entries kvs t = Inr t1" "wal_mgr_sync (lt_wal t1) = Inr w"
    "maybe_flush_and_compact env (t1\<lparr>lt_wal := w\<rparr>) = Inr t'"
    using assms(3) by (auto simp: lsm_put_batch_def try_bind_Inr)
  have d: "lsm_durable t1" using put_batch_durable [OF assms(1,2) s(1)] .
  then have "wal_durable (lt_wal t1)" by (simp add: lsm_durable_def lsm_log_ok_def)
  from wal_durable_sync [OF this] s(2) have w: "wal_durable w" "wal_ids w = wal_ids (lt_wal t1)"
    "dir_entries (wm_dir w) = dir_entries (wm_dir (lt_wal t1))" by auto
  have "lsm_durable (t1\<lparr>lt_wal := w\<rparr>)"
    using d w by (simp add: lsm_durable_def lsm_log_ok_def lsm_files_ok_def)
  then show ?thesis using s(3) maybe_flush_durable by blast
qed

lemma lsm_delete_durable:
  assumes d: "lsm_durable t" and k: "k \<noteq> []" "length k + 39 < 2 ^ 32" and del: "lsm_delete env k t = Inr (b, t')"
  shows "lsm_durable t'"
proof -
  obtain t1 r a where s: "lsm_log (entry_delete k) t = Inr t1" "memtable_delete k (lt_active t1) = Inr (r, a)"
    using del by (auto simp: lsm_delete_def try_bind_Inr)
  have e: "entry_fits (entry_delete k)" using k by (simp add: entry_fits_def entry_ok_def entry_delete_def)
  have "apply_entry (entry_delete k) (lt_active t) = Inr a"
    using s(2) lsm_log_active [OF s(1)] by (simp add: apply_entry_def entry_delete_def)
  from lsm_log_durable [OF d e this s(1)] have d1: "lsm_durable (t1\<lparr>lt_active := a\<rparr>)" by simp
  from del s consider
      (tomb) ts t2 where "lsm_put_version env k (version_tombstone ts) (t1\<lparr>lt_active := a\<rparr>) = Inr t2"
        "maybe_flush_and_compact env t2 = Inr t'"
    | (plain) "maybe_flush_and_compact env (t1\<lparr>lt_active := a\<rparr>) = Inr t'"
    by (auto simp: lsm_delete_def try_bind_Inr Let_def split: if_splits)
  then show ?thesis
  proof cases
    case tomb
    have "version_fits k (version_tombstone ts)" using k by (simp add: version_fits_def version_tombstone_def)
    from put_version_durable [OF d1 this tomb(1)] tomb(2) show ?thesis using maybe_flush_durable by blast
  next
    case plain
    then show ?thesis using d1 maybe_flush_durable by blast
  qed
qed

lemma lsm_step_durable:
  assumes d: "lsm_durable t" and fits: "op_fits op" and s: "lsm_step env op t = Inr t'"
  shows "lsm_durable t'"
proof (cases op)
  case OpSync
  have "wal_durable (lt_wal t)" using d by (simp add: lsm_durable_def lsm_log_ok_def)
  from wal_durable_sync [OF this] obtain w where "wal_mgr_sync (lt_wal t) = Inr w" "wal_durable w"
    "wal_ids w = wal_ids (lt_wal t)" "dir_entries (wm_dir w) = dir_entries (wm_dir (lt_wal t))" by blast
  then show ?thesis
    using d s OpSync by (auto simp: lsm_sync_def lsm_durable_def lsm_log_ok_def lsm_files_ok_def)
next
  case (OpRead p)
  then obtain rd where "cached_reader p t = Inr (rd, t')" using s by (auto simp: try_bind_Inr)
  then show ?thesis
    using d by (auto simp: cached_reader_def try_bind_Inr lsm_durable_def lsm_log_ok_def lsm_files_ok_def
        split: option.splits)
next
  case (OpDelete k)
  then show ?thesis using lsm_delete_durable [OF d] fits s by (auto simp: try_bind_Inr)
next
  case (OpPut k v)
  then show ?thesis using lsm_put_durable [OF d, of k v env t'] fits s by simp
next
  case (OpPutBatch kvs)
  then show ?thesis using lsm_put_batch_durable [OF d, of kvs env t'] fits s by simp
next
  case (OpPutVersion k v)
  then show ?thesis using put_version_durable [OF d, of k v env t'] fits s by simp
qed

lemma lsm_run_durable:
  "lsm_durable t \<Longrightarrow> \<forall>op \<in> set ops. op_fits op \<Longrightarrow> lsm_run env ops t = Inr t' \<Longrightarrow> lsm_durable t'"
  by (induction ops arbitrary: t) (auto simp: try_bind_Inr dest: lsm_step_durable)

section \<open>Reopening\<close>

text \<open>Trees with the same active table, levels and readable files read alike.\<close>

definition same_reads :: "lsm_tree \<Rightarrow> lsm_tree \<Rightarrow> bool" where
  "same_reads t t' \<longleftrightarrow> lt_active t' = lt_active t \<and> lt_level0 t' = lt_level0 t \<and>
     lt_level1 t' = lt_level1 t \<and> (\<forall>p. reader_at p t' = reader_at p t)"

lemma same_reads_find:
  assumes "same_reads t t'"
  shows "find_visible_version env key view t' = find_visible_version env key view t"
proof -
  have "consider_tables env view key t' ps best = consider_tables env view key t ps best" for ps best
  proof (induction ps arbitrary: best)
    case (Cons p ps)
    then have IH: "consider_tables env view key t' ps = consider_tables env view key t ps" by blast
    have r: "reader_at p t' = reader_at p t" using assms by (simp add: same_reads_def)
    show ?case unfolding consider_tables.simps IH r ..
  qed simp
  then have "consider_tables env view key t' = consider_tables env view key t" by blast
  then show ?thesis using assms by (simp add: find_visible_version_def same_reads_def)
qed

lemma same_reads_get:
  assumes "same_reads t t'"
  shows "lsm_get env key t' = lsm_get env key t" "get_visible env key view t' = get_visible env key view t"
proof -
  have "get_from_ssts env key t' ps = get_from_ssts env key t ps" for ps
  proof (induction ps)
    case (Cons p ps)
    have "get_from_sst env p key t' = get_from_sst env p key t"
      using assms by (simp add: get_from_sst_def same_reads_def)
    then show ?case unfolding get_from_ssts.simps Cons by simp
  qed simp
  then have below: "lsm_get_below env key t' = lsm_get_below env key t"
    unfolding lsm_get_below_def same_reads_find [OF assms] using assms by (simp add: same_reads_def)
  have act: "lt_active t' = lt_active t" using assms by (simp add: same_reads_def)
  show "lsm_get env key t' = lsm_get env key t" unfolding lsm_get_def below act ..
  show "get_visible env key view t' = get_visible env key view t"
    using same_reads_find [OF assms] by (simp add: get_visible_def)
qed

lemma reader_at_cached:
  assumes "\<forall>(p, rd) \<in> set (lt_sst_cache t). sst_open_file (lt_sst_dir t) p = Inr rd"
  shows "reader_at p t = sst_open_file (lt_sst_dir t) p"
proof (cases "map_of (lt_sst_cache t) p")
  case None
  then show ?thesis
    by (cases "sst_open_file (lt_sst_dir t) p") (simp_all add: reader_at_def cached_reader_def)
next
  case (Some rd)
  with bspec [OF assms map_of_SomeD [OF Some]] show ?thesis by (simp add: reader_at_def cached_reader_def)
qed

lemma segment_reopen:
  assumes "bt_sorted fs" "bt_get fs i = Some f"
  shows "bt_insert i f fs = fs"
  using bt_insert_split [OF assms] by auto

lemma wal_durable_reopen:
  assumes d: "wal_durable m"
  shows "wal_mgr_open EveryAppend (wm_dir m) = Inr m"
proof -
  have inv: "wal_mgr_inv m" using d by (simp add: wal_durable_def)
  obtain f where f: "bt_get (wd_files (wm_dir m)) (wm_active_id m) = Some f" "file_ok f"
    using wal_mgr_active [OF inv] .
  have "wal_open (Some f) = Inr f"
  proof -
    obtain es where es: "wf_data f = wal_image es" using f(2) by (auto simp: file_ok_def)
    moreover have "wal_header \<noteq> []" using length_wal_header by fastforce
    ultimately show ?thesis by (auto simp: wal_open_def Let_def wal_image_def WAL_HEADER_LEN_def)
  qed
  then have "segment_open (wm_active_id m) (wm_dir m) = Inr (wm_dir m)"
    using f(1) segment_reopen [OF _ f(1)] inv by (simp add: segment_open_def wal_mgr_inv_def dir_ok_def)
  then show ?thesis using d by (simp add: wal_mgr_open_def read_current_def wal_durable_def)
qed

lemma lsm_reopen:
  assumes d: "lsm_durable t" and seq: "lt_manifest_seq t < 2 ^ 64"
  shows "\<exists>t2. lsm_open (lt_config t) (crash_dir (wm_dir (lt_wal t))) (lt_sst_dir t) (lt_manifest_dir t) = Inr t2 \<and>
    same_reads t t2 \<and> lsm_durable t2"
proof -
  have log: "wal_durable (lt_wal t)" "lc_wal_sync (lt_config t) = EveryAppend"
    and act: "apply_entries (dir_entries (wm_dir (lt_wal t))) memtable_new = Inr (lt_active t)"
    and files: "lsm_files_ok t" and man: "manifest_matches t"
    using d seq by (simp_all add: lsm_durable_def lsm_log_ok_def)
  have inv: "wal_mgr_inv (lt_wal t)" using log by (simp add: wal_durable_def)
  have rep: "replay_all (wm_dir (lt_wal t)) memtable_new = Inr (length (dir_entries (wm_dir (lt_wal t))), lt_active t)"
    using inv act by (simp add: replay_all_spec wal_mgr_inv_def)
  obtain mo where mo: "manifest_load (lt_manifest_dir t) = Inr mo"
    using man by (auto simp: manifest_matches_def split: sum.splits)
  have lv: "(case mo of Some m \<Rightarrow> ms_level0 m | None \<Rightarrow> list_sst_level (lt_sst_dir t) 0) = lt_level0 t"
    "(case mo of Some m \<Rightarrow> ms_level1 m | None \<Rightarrow> list_sst_level (lt_sst_dir t) 1) = lt_level1 t"
    "(case mo of Some m \<Rightarrow> ms_sequence m | None \<Rightarrow> 0) = lt_manifest_seq t"
    using man by (auto simp: manifest_matches_def mo split: option.splits)
  define t2 where "t2 = t\<lparr>lt_flushed_wal_segment := 0, lt_sst_cache := [], lt_wal_pending := 0\<rparr>"
  have "lsm_open (lt_config t) (crash_dir (wm_dir (lt_wal t))) (lt_sst_dir t) (lt_manifest_dir t) = Inr t2"
    using rep wal_durable_reopen [OF log(1)] log(2)
    by (simp add: lsm_open_def crash_dir_synced [OF log(1)] mo lv t2_def Let_def)
  moreover have "same_reads t t2"
    using files reader_at_cached [of t] reader_at_cached [of t2]
    by (simp add: same_reads_def t2_def lsm_files_ok_def)
  moreover have "manifest_matches t2"
    using man by (simp add: manifest_matches_def mo t2_def split: option.splits)
  then have "lsm_durable t2"
    using d by (simp add: lsm_durable_def lsm_log_ok_def lsm_files_ok_def t2_def)
  ultimately show ?thesis by blast
qed

lemma lsm_open_fresh:
  assumes "lc_wal_sync config = EveryAppend"
  shows "\<exists>t0. lsm_open config \<lparr>wd_files = [], wd_current = None\<rparr> [] \<lparr>ad_tmp = None, ad_target = None\<rparr> = Inr t0 \<and>
    lsm_durable t0 \<and> lt_config t0 = config"
proof -
  let ?d = "\<lparr>wd_files = [], wd_current = None\<rparr> :: wal_dir"
  have "dir_ok ?d" by (simp add: dir_ok_def)
  from wal_mgr_open_spec [OF this, of EveryAppend] obtain m
    where m: "wal_mgr_open EveryAppend ?d = Inr m" "wal_mgr_inv m" "dir_entries (wm_dir m) = dir_entries ?d" by auto
  have "wal_durable m"
    using m(1,2)
    by (auto simp: wal_durable_def wal_mgr_open_def read_current_def segment_open_def bt_get_def wal_open_def wal_sync_def)
  moreover have "dir_entries ?d = []" by (simp add: dir_entries_def)
  ultimately show ?thesis
    using m assms
    by (simp add: lsm_open_def replay_all_def manifest_load_def Let_def lsm_durable_def lsm_log_ok_def
        lsm_files_ok_def manifest_matches_def list_sst_level_def)
qed

text \<open>An instance of the external functions: a constant checksum and the smallest filter.\<close>

definition env0 :: sst_env where
  "env0 = \<lparr>se_crc = \<lambda>_. 0, se_raw_m = \<lambda>_. 0, se_raw_k = \<lambda>_ _. 0\<rparr>"

text \<open>A put that neither throttles nor flushes.\<close>

lemma lsm_put_no_flush:
  assumes d: "lsm_durable t" and e: "entry_fits (entry_put k v)"
    and gate: "length (lt_level0 t) < st_l0_stop_trigger (lc_write_stall (lt_config t))"
    and a: "memtable_put k v (lt_active t) = Inr a" "approx_bytes a < lc_max_mem_bytes (lt_config t)"
  shows "\<exists>t'. lsm_put env k v t = Inr t' \<and> lt_active t' = a \<and> lt_manifest_seq t' = lt_manifest_seq t \<and>
    lt_level0 t' = lt_level0 t \<and> lt_level1 t' = lt_level1 t \<and> lt_sst_dir t' = lt_sst_dir t \<and> lt_config t' = lt_config t \<and>
    lt_sst_cache t' = lt_sst_cache t"
proof -
  have w: "wal_durable (lt_wal t)" using d by (simp add: lsm_durable_def lsm_log_ok_def)
  obtain w1 where w1: "wal_mgr_append (entry_put k v) (lt_wal t) = Inr w1" "wal_durable w1"
    using wal_durable_append [OF w e] by blast
  obtain w2 where w2: "wal_mgr_sync w1 = Inr w2" using wal_durable_sync [OF w1(2)] by blast
  have "lc_wal_sync (lt_config t) = EveryAppend" using d by (simp add: lsm_durable_def lsm_log_ok_def)
  then have "lsm_log (entry_put k v) t = Inr (t\<lparr>lt_wal := w2, lt_wal_pending := 0\<rparr>)"
    using w1(1) w2 by (simp add: lsm_log_def maybe_sync_wal_def lsm_sync_def)
  moreover have "\<exists>ms. lsm_gate_write t = Inr ms" using gate by (simp add: lsm_gate_write_def gate_write_def)
  ultimately show ?thesis using a by (auto simp: lsm_put_def maybe_flush_and_compact_def)
qed

section \<open>Properties\<close>

text \<open>
  C2. Crash safety of the tree with a log that is synced on every append: after any history of
  accepted puts, batches, versioned puts, deletes, syncs and reads on a fresh data directory,
  a crash between two operations loses nothing. Reopening from the synced part of the log, the
  table files and the manifest succeeds, and every point read and snapshot read answers as
  before the crash. The records must fit the log format and the manifest sequence number its
  64 bits.
\<close>

theorem lsm_crash_recovery:
  assumes "lc_wal_sync config = EveryAppend"
    and "lsm_open config \<lparr>wd_files = [], wd_current = None\<rparr> [] \<lparr>ad_tmp = None, ad_target = None\<rparr> = Inr t0"
    and "\<forall>op \<in> set ops. op_fits op" and "lsm_run env ops t0 = Inr t" and "lt_manifest_seq t < 2 ^ 64"
  shows "\<exists>t2. lsm_open (lt_config t) (crash_dir (wm_dir (lt_wal t))) (lt_sst_dir t) (lt_manifest_dir t) = Inr t2 \<and>
    (\<forall>key. lsm_get env key t2 = lsm_get env key t) \<and>
    (\<forall>key view. get_visible env key view t2 = get_visible env key view t)"
proof -
  have "lsm_durable t0" using lsm_open_fresh [OF assms(1)] assms(2) by auto
  from lsm_reopen [OF lsm_run_durable [OF this assms(3,4)] assms(5)]
  show ?thesis using same_reads_get by blast
qed

text \<open>One put with the default configuration.\<close>

theorem lsm_crash_recovery_witness:
  "\<exists>t0 t t2. lsm_open lsm_config_default \<lparr>wd_files = [], wd_current = None\<rparr> []
      \<lparr>ad_tmp = None, ad_target = None\<rparr> = Inr t0 \<and> lsm_run env0 [OpPut [1] [2]] t0 = Inr t \<and>
    lsm_open (lt_config t) (crash_dir (wm_dir (lt_wal t))) (lt_sst_dir t) (lt_manifest_dir t) = Inr t2 \<and>
    lsm_get env0 [1] t2 = Inr (Some [2])"
proof -
  have mode: "lc_wal_sync lsm_config_default = EveryAppend" by (simp add: lsm_config_default_def)
  obtain t0 where t0: "lsm_open lsm_config_default \<lparr>wd_files = [], wd_current = None\<rparr> []
      \<lparr>ad_tmp = None, ad_target = None\<rparr> = Inr t0" "lsm_durable t0" "lt_config t0 = lsm_config_default"
    using lsm_open_fresh [OF mode] by blast
  have empty: "lt_active t0 = memtable_new" "lt_level0 t0 = []" "lt_manifest_seq t0 = 0"
    using t0(1) by (auto simp: lsm_open_def replay_all_def manifest_load_def try_bind_Inr list_sst_level_def)
  let ?a = "\<lparr>mt_map = [([1], [2])], mt_bytes = 2\<rparr> :: memtable"
  have fits: "entry_fits (entry_put [1] [2])" by (simp add: entry_fits_def entry_ok_def entry_put_def)
  have "memtable_put [1] [2] (lt_active t0) = Inr ?a"
    by (simp add: empty memtable_put_eq memtable_new_def entry_bytes_def bt_get_def)
  from lsm_put_no_flush [OF t0(2) fits _ this, of env0]
  obtain t where t: "lsm_put env0 [1] [2] t0 = Inr t" "lt_active t = ?a" "lt_manifest_seq t = 0"
    by (auto simp: t0(3) empty lsm_config_default_def stall_default_def approx_bytes_def DEFAULT_MAX_MEM_BYTES_def)
  have "\<exists>t2. lsm_open (lt_config t) (crash_dir (wm_dir (lt_wal t))) (lt_sst_dir t) (lt_manifest_dir t) = Inr t2 \<and>
    (\<forall>key. lsm_get env0 key t2 = lsm_get env0 key t) \<and>
    (\<forall>key view. get_visible env0 key view t2 = get_visible env0 key view t)"
    using t fits by (intro lsm_crash_recovery [OF mode t0(1), where ops = "[OpPut [1] [2]]"]) simp_all
  moreover have "lsm_get env0 [1] t = Inr (Some [2])"
    by (simp add: lsm_get_def t(2) memtable_get_eq bt_get_def starts_with_def MVCC_MAGIC_def)
  ultimately show ?thesis using t0(1) t(1) by auto
qed

end
