(* ===== verification/Lsm_Write.thy ===== *)
theory Lsm_Write
  imports Lsm_Recovery
begin

text \<open>
  What flush, compaction and the write path do to the reads of the tree. A flush moves the
  active table to the front of the table list, so the entries the reads search are the same; a
  compaction replaces the level-0 tables by one table with the largest value of each key.
\<close>

section \<open>Flush\<close>

lemma tables_extend:
  fixes data
  assumes "lsm_inv env t" "path \<notin> fst ` set (lt_sst_dir t)"
  defines "d \<equiv> bt_insert path data (lt_sst_dir t)"
  shows "\<forall>p \<in> set (lsm_paths t). p \<noteq> path \<and> bt_get d p = bt_get (lt_sst_dir t) p"
proof
  fix p assume p: "p \<in> set (lsm_paths t)"
  then obtain rd where "sst_open_file (lt_sst_dir t) p = Inr rd"
    using assms(1) by (auto simp: lsm_inv_def table_ok_def)
  then have "bt_get (lt_sst_dir t) p \<noteq> None" by (auto simp: sst_open_file_def split: option.splits)
  then have "p \<noteq> path" using assms(2) by (auto simp: bt_get_def map_of_eq_None_iff)
  then show "p \<noteq> path \<and> bt_get d p = bt_get (lt_sst_dir t) p"
    using assms(1) by (simp add: d_def bt_get_insert lsm_inv_def)
qed

definition flushed :: "string \<Rightarrow> bytes \<Rightarrow> wal_mgr \<Rightarrow> lsm_tree \<Rightarrow> lsm_tree" where
  "flushed path data w t = t\<lparr>lt_active := memtable_new, lt_sst_dir := bt_insert path data (lt_sst_dir t),
      lt_level0 := lt_level0 t @ [path], lt_sst_cache := [], lt_wal := w,
      lt_flushed_wal_segment := wm_active_id w, lt_wal_pending := 0\<rparr>"

lemma flushed_tables:
  assumes inv: "lsm_inv env t" and fresh: "path \<notin> fst ` set (lt_sst_dir t)"
    and rd: "sst_open data = Inr rd" "sst_inv (se_crc env) rd" "sst_content (se_crc env) rd = mt_map (lt_active t)"
  shows "lsm_inv env (flushed path data w t) \<and>
    tables env (flushed path data w t) = mt_map (lt_active t) # tables env t"
proof -
  let ?c = "se_crc env" and ?d = "bt_insert path data (lt_sst_dir t)"
  have srt: "bt_sorted (lt_sst_dir t)" and act: "memtable_inv (lt_active t)" using inv by (simp_all add: lsm_inv_def)
  have old: "p \<noteq> path \<and> table_ok ?c ?d p \<and> table_at ?c ?d p = table_at ?c (lt_sst_dir t) p"
    if p: "p \<in> set (lsm_paths t)" for p
    using tables_extend [OF inv fresh, of data] table_same_file [of ?d p "lt_sst_dir t" ?c] inv p
    by (simp add: lsm_inv_def)
  have new: "table_ok ?c ?d path" "table_at ?c ?d path = mt_map (lt_active t)"
    using rd act srt
    by (auto simp: table_ok_def table_at_def sst_open_file_def bt_get_insert memtable_inv_def)
  have paths: "lsm_paths (flushed path data w t) = path # lsm_paths t" by (simp add: lsm_paths_def flushed_def)
  have "map (table_at ?c ?d) (lsm_paths t) = map (table_at ?c (lt_sst_dir t)) (lsm_paths t)" using old by simp
  then have "tables env (flushed path data w t) = mt_map (lt_active t) # tables env t"
    unfolding tables_def paths using new by (simp add: flushed_def)
  moreover have "lsm_inv env (flushed path data w t)"
    unfolding lsm_inv_def paths using inv old new
    by (auto simp: flushed_def bt_sorted_insert lsm_inv_def)
  ultimately show ?thesis by blast
qed

lemma flush_tables_spec:
  assumes d: "lsm_durable t" and inv: "lsm_inv env t"
    and fits: "table_fits (mt_map (lt_active t))" and room: "next_sst_id (lt_sst_dir t) 0 = Inr n"
  shows "\<exists>data w. flush_tables env t = Inr (flushed (sst_name 0 n) data w t) \<and>
    lsm_inv env (flushed (sst_name 0 n) data w t) \<and> wal_durable w \<and> dir_entries (wm_dir w) = [] \<and>
    tables env (flushed (sst_name 0 n) data w t) = mt_map (lt_active t) # tables env t"
proof -
  have log: "wal_durable (lt_wal t)" "\<forall>i \<in> wal_ids (lt_wal t). lt_flushed_wal_segment t \<le> i"
    using d by (simp_all add: lsm_durable_def lsm_log_ok_def)
  have alloc: "alloc_sst_path (lt_sst_dir t) 0 = Inr (sst_name 0 n)" using room by (simp add: alloc_sst_path_def)
  have srt: "bt_sorted (mt_map (lt_active t))" using inv by (simp add: lsm_inv_def memtable_inv_def)
  obtain data rd where w: "write_from_entries (se_crc env) (se_raw_m env) (se_raw_k env) (mt_map (lt_active t)) =
      Inr (data, length (mt_map (lt_active t)))"
    and rd: "sst_open data = Inr rd" "sst_inv (se_crc env) rd" "sst_content (se_crc env) rd = mt_map (lt_active t)"
    using write_from_entries_ok [OF srt fits] by blast
  obtain m1 where m1: "wal_mgr_rotate (lt_wal t) = Inr (wm_active_id (lt_wal t), m1)"
    and m2: "let m2 = fold wal_mgr_delete_segment [lt_flushed_wal_segment t..<Suc (wm_active_id (lt_wal t))] m1 in
     wal_durable m2 \<and> dir_entries (wm_dir m2) = [] \<and> (\<forall>i \<in> wal_ids m2. wm_active_id m2 \<le> i)"
    using wal_durable_rotate [OF log] by blast
  define m2 where "m2 = fold wal_mgr_delete_segment [lt_flushed_wal_segment t..<Suc (wm_active_id (lt_wal t))] m1"
  have "flush_tables env t = Inr (flushed (sst_name 0 n) data m2 t)"
    using alloc w m1
    by (simp add: flush_tables_def Let_def clear_sst_cache_def m2_def write_from_memtable_def memtable_iter_def
        flushed_def del: upt_Suc)
  then show ?thesis
    using flushed_tables [OF inv alloc_sst_path_fresh [OF alloc] rd, of m2] m2
    by (auto simp: Let_def m2_def simp del: upt_Suc)
qed

lemma lsm_inv_persist [simp]: "lsm_inv env (persist_manifest t) = lsm_inv env t"
  "tables env (persist_manifest t) = tables env t" "sources env (persist_manifest t) = sources env t"
  by (simp_all add: lsm_inv_def tables_def sources_def lsm_paths_def persist_manifest_def Let_def)

lemma flush_active_spec:
  assumes d: "lsm_durable t" and inv: "lsm_inv env t"
    and fits: "table_fits (mt_map (lt_active t))" and room: "next_sst_id (lt_sst_dir t) 0 = Inr n"
  shows "\<exists>t'. flush_active env t = Inr t' \<and> lsm_durable t' \<and> lsm_inv env t' \<and>
    lsm_entries env t' = lsm_entries env t \<and> mt_map (lt_active t') = [] \<and>
    lt_level1 t' = lt_level1 t \<and> lt_config t' = lt_config t \<and>
    (lt_active t = memtable_new \<and> t' = t \<or>
     (\<exists>data. lt_level0 t' = lt_level0 t @ [sst_name 0 n] \<and>
        lt_sst_dir t' = bt_insert (sst_name 0 n) data (lt_sst_dir t) \<and>
        tables env t' = mt_map (lt_active t) # tables env t))"
proof (cases "memtable_is_empty (lt_active t)")
  case True
  then have "lt_active t = memtable_new"
    using inv by (simp add: memtable_is_empty_def memtable_new_def memtable_inv_def lsm_inv_def)
  moreover have "flush_active env t = Inr t" using True calculation by (cases t) (simp add: flush_active_def)
  ultimately show ?thesis using d inv by (simp add: memtable_new_def)
next
  case False
  obtain data w where s: "flush_tables env t = Inr (flushed (sst_name 0 n) data w t)"
    "lsm_inv env (flushed (sst_name 0 n) data w t)"
    "tables env (flushed (sst_name 0 n) data w t) = mt_map (lt_active t) # tables env t"
    using flush_tables_spec [OF d inv fits room] by blast
  let ?t' = "persist_manifest (flushed (sst_name 0 n) data w t)"
  have f: "flush_active env t = Inr ?t'" using s(1) False by (simp add: flush_active_def)
  have "lt_active ?t' = memtable_new" "lt_level0 ?t' = lt_level0 t @ [sst_name 0 n]" "lt_level1 ?t' = lt_level1 t"
    "lt_config ?t' = lt_config t" "lt_sst_dir ?t' = bt_insert (sst_name 0 n) data (lt_sst_dir t)"
    by (simp_all add: persist_manifest_def flushed_def Let_def)
  then show ?thesis
    using f flush_active_durable [OF d f] s by (auto simp: lsm_entries_def sources_def memtable_new_def)
qed

section \<open>Compaction\<close>

lemma run_compaction_spec:
  assumes inv: "lsm_inv env t" and l0: "lt_level0 t \<noteq> []"
    and small: "tables_small (map (table_at (se_crc env) (lt_sst_dir t)) (lt_level0 t))"
    and room: "next_sst_id (lt_sst_dir t) 1 = Inr n"
  shows "\<exists>t' merged. run_compaction env t = Inr t' \<and> lsm_inv env t' \<and> lt_active t' = lt_active t \<and>
    tables env t' = merged # map (table_at (se_crc env) (lt_sst_dir t)) (rev (lt_level1 t)) \<and> bt_sorted merged \<and>
    (\<forall>k. bt_get merged k = largest_value (map (table_at (se_crc env) (lt_sst_dir t)) (lt_level0 t)) k)"
proof -
  let ?c = "se_crc env" and ?d = "lt_sst_dir t" and ?out = "sst_name 1 n"
  have i: "bt_sorted ?d" "distinct (lt_level0 t)" "\<forall>f \<in> set (lt_level0 t). table_ok ?c ?d f"
    using inv by (simp_all add: lsm_inv_def lsm_paths_def)
  obtain d' where c: "compact_level0_to_l1 ?c (se_raw_m env) (se_raw_k env) ?d (lt_level0 t) = Inr (?out, d')"
    "bt_sorted d'" "?out \<notin> fst ` set ?d" "table_ok ?c d' ?out"
    "\<forall>k. bt_get (table_at ?c d' ?out) k = largest_value (map (table_at ?c ?d) (lt_level0 t)) k"
    "\<forall>p. p \<noteq> ?out \<longrightarrow> bt_get d' p = (if p \<in> set (lt_level0 t) then None else bt_get ?d p)"
    using compact_spec [OF i(1) l0 i(2,3) small room, of "se_raw_m env" "se_raw_k env"] by blast
  have old: "p \<noteq> ?out \<and> table_ok ?c d' p \<and> table_at ?c d' p = table_at ?c ?d p" if p: "p \<in> set (lt_level1 t)" for p
  proof -
    have "p \<notin> set (lt_level0 t)" "p \<in> set (lsm_paths t)" using inv p by (auto simp: lsm_inv_def lsm_paths_def)
    moreover have "p \<noteq> ?out" using tables_extend [OF inv c(3)] calculation(2) by blast
    ultimately have "bt_get d' p = bt_get ?d p" using c(6) by simp
    from table_same_file [OF this] show ?thesis
      using \<open>p \<noteq> ?out\<close> \<open>p \<in> set (lsm_paths t)\<close> inv by (simp add: lsm_inv_def)
  qed
  define t1 where "t1 = t\<lparr>lt_sst_dir := d', lt_level0 := [], lt_level1 := lt_level1 t @ [?out], lt_sst_cache := []\<rparr>"
  have run: "run_compaction env t = Inr (persist_manifest t1)"
    using c(1) by (simp add: run_compaction_def t1_def clear_sst_cache_def)
  have paths: "lsm_paths t1 = ?out # rev (lt_level1 t)" by (simp add: lsm_paths_def t1_def)
  have "distinct (lt_level1 t)" "memtable_inv (lt_active t)" using inv by (simp_all add: lsm_inv_def lsm_paths_def)
  then have "lsm_inv env t1"
    unfolding lsm_inv_def paths using old c(2,4) by (auto simp: t1_def)
  moreover have "map (table_at ?c d') (rev (lt_level1 t)) = map (table_at ?c ?d) (rev (lt_level1 t))" using old by simp
  then have "tables env t1 = table_at ?c d' ?out # map (table_at ?c ?d) (rev (lt_level1 t))"
    unfolding tables_def paths by (simp add: t1_def)
  moreover have "bt_sorted (table_at ?c d' ?out)" using table_at_sorted [OF c(4)] by blast
  moreover have "lt_active (persist_manifest t1) = lt_active t" by (simp add: persist_manifest_def t1_def Let_def)
  ultimately show ?thesis using run c(5) by auto
qed

lemma merged_subset:
  assumes "bt_sorted merged" "\<forall>k. bt_get merged k = largest_value tss k" "\<forall>ts \<in> set tss. bt_sorted ts"
  shows "set merged \<subseteq> \<Union> (set ` set tss)"
proof clarify
  fix k v assume kv: "(k, v) \<in> set merged"
  have "bt_get merged k = Some v" using iffD1 [OF bt.in_entries_iff [OF assms(1)] kv] .
  then have "largest_value tss k = Some v" using assms(2) [rule_format, of k] by simp
  from largest_value_mem [OF this] obtain ts where ts: "ts \<in> set tss" "bt_get ts k = Some v" by blast
  then have "(k, v) \<in> set ts" using bt.in_entries_iff [of ts k v] assms(3) by simp
  then show "(k, v) \<in> \<Union> (set ` set tss)" using ts by blast
qed

lemma next_sst_id_insert_other:
  assumes "sst_id_of level name = None"
  shows "next_sst_id (bt_insert name x d) level = next_sst_id d level"
proof -
  let ?f = "\<lambda>(name, _) m. case sst_id_of level name of None \<Rightarrow> m | Some i \<Rightarrow> max m i"
  have "fold ?f (bt_insert name x d) m = fold ?f d m" for m
    using assms by (induction name x d arbitrary: m rule: bt_insert.induct) auto
  then show ?thesis by (simp add: next_sst_id_def)
qed

lemma sst_prefix_01: "sst_prefix 0 = ''L0-''" "sst_prefix 1 = ''L1-''"
  by code_simp+

lemma sst_id_of_other: "sst_id_of 1 (sst_name 0 n) = None"
  unfolding sst_id_of_def sst_name_def strip_prefix_def starts_with_def sst_prefix_01 by simp

section \<open>Writing and reading back\<close>

lemma raw_only_put:
  assumes "raw_only k es" "\<not> starts_with v MVCC_MAGIC" "k \<noteq> []" "set es' \<subseteq> insert (k, v) (set es)"
  shows "raw_only k es'"
proof -
  have "length (decode_user_key k) < length k" using assms(3) by (cases k) (simp_all add: decode_user_key_def)
  then have "decode_user_key k \<noteq> k" by auto
  then show ?thesis using assms by (auto simp: raw_only_def)
qed

definition level0_values :: "sst_env \<Rightarrow> bytes \<Rightarrow> lsm_tree \<Rightarrow> bytes set" where
  "level0_values env k t =
     {w. \<exists>p \<in> set (lt_level0 t). bt_get (table_at (se_crc env) (lt_sst_dir t) p) k = Some w}"

text \<open>The put flushes, and the flush starts a compaction.\<close>

definition put_flushes :: "bytes \<Rightarrow> bytes \<Rightarrow> lsm_tree \<Rightarrow> bool" where
  "put_flushes k v t \<longleftrightarrow>
     (case memtable_put k v (lt_active t) of
        Inl _ \<Rightarrow> False | Inr a \<Rightarrow> lc_max_mem_bytes (lt_config t) \<le> approx_bytes a)"

definition put_compacts :: "bytes \<Rightarrow> bytes \<Rightarrow> lsm_tree \<Rightarrow> bool" where
  "put_compacts k v t \<longleftrightarrow> put_flushes k v t \<and> lc_l0_compaction_trigger (lt_config t) \<le> length (lt_level0 t) + 1"

text \<open>Room for the files a put may create: names and sizes within the format.\<close>

definition put_room :: "sst_env \<Rightarrow> bytes \<Rightarrow> bytes \<Rightarrow> lsm_tree \<Rightarrow> bool" where
  "put_room env k v t \<longleftrightarrow>
     table_fits (bt_insert k v (mt_map (lt_active t))) \<and>
     (\<exists>n. next_sst_id (lt_sst_dir t) 0 = Inr n) \<and> (\<exists>n. next_sst_id (lt_sst_dir t) 1 = Inr n) \<and>
     tables_small (map (table_at (se_crc env) (lt_sst_dir t)) (lt_level0 t) @ [bt_insert k v (mt_map (lt_active t))])"

lemma apply_entry_put [simp]: "apply_entry (entry_put k v) = memtable_put k v"
  by (rule ext) (simp add: apply_entry_def entry_put_def)

lemma lsm_log_ok_step:
  assumes d: "lsm_durable t" and e: "entry_fits e" and a: "apply_entry e (lt_active t) = Inr a"
  shows "\<exists>w. lsm_log e t = Inr (t\<lparr>lt_wal := w, lt_wal_pending := 0\<rparr>) \<and>
    lsm_durable (t\<lparr>lt_wal := w, lt_wal_pending := 0, lt_active := a\<rparr>)"
proof -
  have w: "wal_durable (lt_wal t)" "lc_wal_sync (lt_config t) = EveryAppend"
    using d by (simp_all add: lsm_durable_def lsm_log_ok_def)
  obtain w1 where w1: "wal_mgr_append e (lt_wal t) = Inr w1" "wal_durable w1"
    using wal_durable_append [OF w(1) e] by blast
  obtain w2 where w2: "wal_mgr_sync w1 = Inr w2" using wal_durable_sync [OF w1(2)] by blast
  have log: "lsm_log e t = Inr (t\<lparr>lt_wal := w2, lt_wal_pending := 0\<rparr>)"
    using w1(1) w2 w(2) by (simp add: lsm_log_def maybe_sync_wal_def lsm_sync_def)
  from lsm_log_durable [OF d e a log] log show ?thesis by auto
qed

lemma lsm_put_flow:
  assumes d: "lsm_durable t" and e: "entry_fits (entry_put k v)" and a: "memtable_put k v (lt_active t) = Inr a"
    and inv: "lsm_inv env t"
    and gate: "length (lt_level0 t) < st_l0_stop_trigger (lc_write_stall (lt_config t))"
  shows "\<exists>t1. lsm_put env k v t = maybe_flush_and_compact env t1 \<and> lsm_durable t1 \<and> lsm_inv env t1 \<and>
    lt_active t1 = a \<and> lt_level0 t1 = lt_level0 t \<and> lt_level1 t1 = lt_level1 t \<and> lt_sst_dir t1 = lt_sst_dir t \<and>
    lt_config t1 = lt_config t \<and> tables env t1 = tables env t"
proof -
  obtain w where w: "lsm_log (entry_put k v) t = Inr (t\<lparr>lt_wal := w, lt_wal_pending := 0\<rparr>)"
    "lsm_durable (t\<lparr>lt_wal := w, lt_wal_pending := 0, lt_active := a\<rparr>)"
    using lsm_log_ok_step [OF d e, of a] a by auto
  let ?t1 = "t\<lparr>lt_wal := w, lt_wal_pending := 0, lt_active := a\<rparr>"
  obtain ms where "lsm_gate_write t = Inr ms" using gate by (simp add: lsm_gate_write_def gate_write_def)
  then have "lsm_put env k v t = maybe_flush_and_compact env ?t1" using w(1) a by (simp add: lsm_put_def)
  moreover have "memtable_inv a" using memtable_inv_put [OF _ a] inv by (simp add: lsm_inv_def)
  then have "lsm_inv env ?t1" using inv by (simp add: lsm_inv_def lsm_paths_def)
  ultimately show ?thesis using w(2) by (intro exI [of _ ?t1]) (simp add: tables_def lsm_paths_def)
qed

lemma put_no_compaction:
  assumes d: "lsm_durable t" and inv: "lsm_inv env t" and k: "k \<noteq> []" and e: "entry_fits (entry_put k v)"
    and gate: "length (lt_level0 t) < st_l0_stop_trigger (lc_write_stall (lt_config t))"
    and room: "put_room env k v t" and nc: "\<not> put_compacts k v t"
  shows "\<exists>t'. lsm_put env k v t = Inr t' \<and> lsm_inv env t' \<and>
    lsm_entries env t' = bt_insert k v (mt_map (lt_active t)) @ concat (tables env t)"
proof -
  obtain a where a: "memtable_put k v (lt_active t) = Inr a" "mt_map a = bt_insert k v (mt_map (lt_active t))"
    using k by (simp add: memtable_put_eq)
  obtain t1 where t1: "lsm_put env k v t = maybe_flush_and_compact env t1" "lsm_durable t1" "lsm_inv env t1"
    "lt_active t1 = a" "lt_level0 t1 = lt_level0 t" "lt_sst_dir t1 = lt_sst_dir t"
    "lt_config t1 = lt_config t" "tables env t1 = tables env t"
    using lsm_put_flow [OF d e a(1) inv gate] by blast
  have ent: "lsm_entries env t1 = bt_insert k v (mt_map (lt_active t)) @ concat (tables env t)"
    by (simp add: lsm_entries_def sources_def t1 a)
  show ?thesis
  proof (cases "put_flushes k v t")
    case False
    then have "maybe_flush_and_compact env t1 = Inr t1"
      using a t1 by (simp add: put_flushes_def maybe_flush_and_compact_def)
    then show ?thesis using t1 ent by auto
  next
    case True
    obtain n where n: "next_sst_id (lt_sst_dir t1) 0 = Inr n" using room t1 by (auto simp: put_room_def)
    have "table_fits (mt_map (lt_active t1))" using room t1 a by (simp add: put_room_def)
    from flush_active_spec [OF t1(2,3) this n] obtain t2
      where t2: "flush_active env t1 = Inr t2" "lsm_inv env t2" "lsm_entries env t2 = lsm_entries env t1"
        "lt_config t2 = lt_config t1" "t2 = t1 \<or> lt_level0 t2 = lt_level0 t1 @ [sst_name 0 n]"
      by blast
    have "length (lt_level0 t2) \<le> length (lt_level0 t) + 1" using t2(5) t1(5) by auto
    then have "maybe_flush_and_compact env t1 = Inr t2"
      using True nc a t1 t2 by (simp add: put_flushes_def put_compacts_def maybe_flush_and_compact_def)
    then show ?thesis using t1(1) t2 ent by auto
  qed
qed

lemma put_with_compaction:
  assumes d: "lsm_durable t" and inv: "lsm_inv env t" and k: "k \<noteq> []" and e: "entry_fits (entry_put k v)"
    and gate: "length (lt_level0 t) < st_l0_stop_trigger (lc_write_stall (lt_config t))"
    and room: "put_room env k v t" and pc: "put_compacts k v t"
  defines "tss \<equiv> map (table_at (se_crc env) (lt_sst_dir t)) (lt_level0 t) @ [bt_insert k v (mt_map (lt_active t))]"
  shows "\<exists>t' merged. lsm_put env k v t = Inr t' \<and> lsm_inv env t' \<and> mt_map (lt_active t') = [] \<and>
    lsm_entries env t' = merged @ concat (map (table_at (se_crc env) (lt_sst_dir t)) (rev (lt_level1 t))) \<and>
    bt_sorted merged \<and> (\<forall>k. bt_get merged k = largest_value tss k)"
proof -
  let ?c = "se_crc env"
  obtain a where a: "memtable_put k v (lt_active t) = Inr a" "mt_map a = bt_insert k v (mt_map (lt_active t))"
    using k by (simp add: memtable_put_eq)
  obtain t1 where t1: "lsm_put env k v t = maybe_flush_and_compact env t1" "lsm_durable t1" "lsm_inv env t1"
    "lt_active t1 = a" "lt_level0 t1 = lt_level0 t" "lt_level1 t1 = lt_level1 t" "lt_sst_dir t1 = lt_sst_dir t"
    "lt_config t1 = lt_config t" "tables env t1 = tables env t"
    using lsm_put_flow [OF d e a(1) inv gate] by blast
  obtain n where n: "next_sst_id (lt_sst_dir t1) 0 = Inr n" using room t1 by (auto simp: put_room_def)
  have fits: "table_fits (mt_map (lt_active t1))" using room t1 a by (simp add: put_room_def)
  have "fst ` set (mt_map a) \<noteq> {}" unfolding a(2) keys_bt_insert by simp
  then have "lt_active t1 \<noteq> memtable_new" using t1(4) by (auto simp: memtable_new_def)
  with flush_active_spec [OF t1(2,3) fits n] obtain t2 data
    where t2: "flush_active env t1 = Inr t2" "lsm_inv env t2" "mt_map (lt_active t2) = []"
      "lt_level1 t2 = lt_level1 t" "lt_config t2 = lt_config t" "lt_level0 t2 = lt_level0 t @ [sst_name 0 n]"
      "lt_sst_dir t2 = bt_insert (sst_name 0 n) data (lt_sst_dir t)" "tables env t2 = mt_map a # tables env t"
    using t1 by auto
  have "tables env t2 = table_at ?c (lt_sst_dir t2) (sst_name 0 n) # map (table_at ?c (lt_sst_dir t2)) (lsm_paths t)"
    unfolding tables_def lsm_paths_def t2(4,6) by simp
  then have new: "table_at ?c (lt_sst_dir t2) (sst_name 0 n) = mt_map a"
    and old: "\<forall>p \<in> set (lsm_paths t). table_at ?c (lt_sst_dir t2) p = table_at ?c (lt_sst_dir t) p"
    using t2(8) by (simp_all add: tables_def)
  have l0: "map (table_at ?c (lt_sst_dir t2)) (lt_level0 t2) = tss"
    using new old by (simp add: t2(6) tss_def a(2) lsm_paths_def)
  have l1: "map (table_at ?c (lt_sst_dir t2)) (rev (lt_level1 t)) = map (table_at ?c (lt_sst_dir t)) (rev (lt_level1 t))"
    using old by (simp add: lsm_paths_def)
  obtain n1 where n1: "next_sst_id (lt_sst_dir t2) 1 = Inr n1"
    using room next_sst_id_insert_other [OF sst_id_of_other] by (auto simp: put_room_def t2(7))
  have "tables_small (map (table_at ?c (lt_sst_dir t2)) (lt_level0 t2))"
    unfolding l0 using room by (simp add: put_room_def tss_def)
  from run_compaction_spec [OF t2(2) _ this n1] obtain t' merged
    where t': "run_compaction env t2 = Inr t'" "lsm_inv env t'" "lt_active t' = lt_active t2"
      "tables env t' = merged # map (table_at ?c (lt_sst_dir t)) (rev (lt_level1 t))" "bt_sorted merged"
      "\<forall>k. bt_get merged k = largest_value tss k"
    unfolding l0 t2(4) l1 using t2(6) by auto
  have "lsm_put env k v t = Inr t'"
    using t1 t2 t'(1) pc a(1)
    by (simp add: put_compacts_def put_flushes_def maybe_flush_and_compact_def)
  then show ?thesis using t' t2(3) by (auto simp: lsm_entries_def sources_def)
qed

lemma largest_value_put:
  assumes "bt_sorted a"
  shows "largest_value (map (table_at (se_crc env) (lt_sst_dir t)) (lt_level0 t) @ [bt_insert k v a]) k =
    Some (Max (insert v (level0_values env k t)))"
proof -
  have "{w. \<exists>ts \<in> set (map (table_at (se_crc env) (lt_sst_dir t)) (lt_level0 t) @ [bt_insert k v a]). bt_get ts k = Some w} =
      insert v (level0_values env k t)"
    using assms by (auto simp: level0_values_def bt_get_insert)
  then show ?thesis by (simp add: largest_value_def)
qed

lemma tables_entries: "p \<in> set (lsm_paths t) \<Longrightarrow> set (table_at (se_crc env) (lt_sst_dir t) p) \<subseteq> set (lsm_entries env t)"
  by (auto simp: lsm_entries_def sources_def tables_def)

lemma active_entries: "set (mt_map (lt_active t)) \<subseteq> set (lsm_entries env t)"
  by (auto simp: lsm_entries_def sources_def)

lemma put_get_compacted:
  assumes d: "lsm_durable t" and inv: "lsm_inv env t" and k: "key_ok k" and e: "entry_fits (entry_put k v)"
    and gate: "length (lt_level0 t) < st_l0_stop_trigger (lc_write_stall (lt_config t))"
    and room: "put_room env k v t" and pc: "put_compacts k v t"
    and raw: "raw_only k (lsm_entries env t)" "\<not> starts_with v MVCC_MAGIC"
  shows "\<exists>t'. lsm_put env k v t = Inr t' \<and> lsm_get env k t' = Inr (Some (Max (insert v (level0_values env k t))))"
proof -
  let ?c = "se_crc env"
  let ?tss = "map (table_at ?c (lt_sst_dir t)) (lt_level0 t) @ [bt_insert k v (mt_map (lt_active t))]"
  have act: "bt_sorted (mt_map (lt_active t))" using inv by (simp add: lsm_inv_def memtable_inv_def)
  have "k \<noteq> []" using k by (simp add: key_ok_def)
  from put_with_compaction [OF d inv this e gate room pc] obtain t' merged where
    t': "lsm_put env k v t = Inr t'" "lsm_inv env t'"
      "lsm_entries env t' = merged @ concat (map (table_at ?c (lt_sst_dir t)) (rev (lt_level1 t)))"
      "bt_sorted merged" "\<forall>k. bt_get merged k = largest_value ?tss k" by blast
  have "\<forall>p \<in> set (lt_level0 t). bt_sorted (table_at ?c (lt_sst_dir t) p)"
    using inv table_at_sorted by (auto simp: lsm_inv_def lsm_paths_def)
  then have "set merged \<subseteq> \<Union> (set ` set ?tss)"
    using act by (intro merged_subset [OF t'(4,5)]) (auto simp: bt_sorted_insert)
  also have "\<dots> \<subseteq> insert (k, v) (set (lsm_entries env t))"
    using set_bt_insert_subset [of k v "mt_map (lt_active t)"] active_entries [of t env]
      tables_entries [of _ t env] by (auto simp: lsm_paths_def)
  finally have "set (lsm_entries env t') \<subseteq> insert (k, v) (set (lsm_entries env t))"
    using tables_entries [of _ t env] by (auto simp: t'(3) lsm_paths_def)
  then have "raw_only k (lsm_entries env t')" using raw_only_put raw \<open>k \<noteq> []\<close> by blast
  moreover have "map_of (lsm_entries env t') k = Some (Max (insert v (level0_values env k t)))"
    using t'(5) largest_value_put [OF act, of env t k v] by (simp add: t'(3) bt_get_def)
  ultimately show ?thesis using t'(1) lsm_get_raw [OF t'(2) k] by simp
qed

lemma put_get_kept:
  assumes d: "lsm_durable t" and inv: "lsm_inv env t" and k: "key_ok k" and e: "entry_fits (entry_put k v)"
    and gate: "length (lt_level0 t) < st_l0_stop_trigger (lc_write_stall (lt_config t))"
    and room: "put_room env k v t" and nc: "\<not> put_compacts k v t"
    and raw: "raw_only k (lsm_entries env t)" "\<not> starts_with v MVCC_MAGIC"
  shows "\<exists>t'. lsm_put env k v t = Inr t' \<and> lsm_get env k t' = Inr (Some v) \<and>
    (\<forall>k'. k' \<noteq> k \<longrightarrow> decode_user_key k \<noteq> k' \<longrightarrow> key_ok k' \<longrightarrow> raw_only k' (lsm_entries env t) \<longrightarrow>
       lsm_get env k' t' = lsm_get env k' t)"
proof -
  have act: "bt_sorted (mt_map (lt_active t))" using inv by (simp add: lsm_inv_def memtable_inv_def)
  have "k \<noteq> []" using k by (simp add: key_ok_def)
  from put_no_compaction [OF d inv this e gate room nc] obtain t' where
    t': "lsm_put env k v t = Inr t'" "lsm_inv env t'"
      "lsm_entries env t' = bt_insert k v (mt_map (lt_active t)) @ concat (tables env t)" by blast
  have ent: "lsm_entries env t = mt_map (lt_active t) @ concat (tables env t)" by (simp add: lsm_entries_def sources_def)
  have sub: "set (lsm_entries env t') \<subseteq> insert (k, v) (set (lsm_entries env t))"
    using set_bt_insert_subset [of k v "mt_map (lt_active t)"] by (auto simp: t'(3) ent)
  have look: "map_of (lsm_entries env t') k' = (if k' = k then Some v else map_of (lsm_entries env t) k')" for k'
    using bt_get_insert [OF act, of k v k'] by (simp add: t'(3) ent map_add_def bt_get_def)
  have "raw_only k (lsm_entries env t')" using raw_only_put [OF raw \<open>k \<noteq> []\<close> sub] .
  then have "lsm_get env k t' = Inr (Some v)" using lsm_get_raw [OF t'(2) k] look by simp
  moreover have "lsm_get env k' t' = lsm_get env k' t"
    if "k' \<noteq> k" "decode_user_key k \<noteq> k'" "key_ok k'" "raw_only k' (lsm_entries env t)" for k'
  proof -
    have "raw_only k' (lsm_entries env t')" using that sub by (auto simp: raw_only_def)
    then show ?thesis
      using lsm_get_raw [OF t'(2) that(3)] lsm_get_raw [OF inv that(3,4)] look that(1) by simp
  qed
  ultimately show ?thesis using t'(1) by blast
qed

section \<open>Properties\<close>

text \<open>
  C10. What a put stores is what a read returns, unless the put triggers a compaction: on a
  healthy tree with room, putting raw data succeeds; without a compaction the key reads back
  the new value (whether or not the active table is flushed) and other raw keys are unchanged;
  with a compaction the key reads back the largest of the new value and the values that the
  level-0 tables hold for it, which need not be the new one.
\<close>

theorem lsm_put_get:
  assumes "lsm_durable t" and "lsm_inv env t" and "key_ok k" and "entry_fits (entry_put k v)"
    and "length (lt_level0 t) < st_l0_stop_trigger (lc_write_stall (lt_config t))"
    and "put_room env k v t" and "raw_only k (lsm_entries env t)" and "\<not> starts_with v MVCC_MAGIC"
  shows "\<exists>t'. lsm_put env k v t = Inr t' \<and>
    lsm_get env k t' = Inr (Some (if put_compacts k v t then Max (insert v (level0_values env k t)) else v)) \<and>
    (\<forall>k'. \<not> put_compacts k v t \<and> k' \<noteq> k \<and> decode_user_key k \<noteq> k' \<and> key_ok k' \<and>
       raw_only k' (lsm_entries env t) \<longrightarrow> lsm_get env k' t' = lsm_get env k' t)"
proof (cases "put_compacts k v t")
  case True
  then show ?thesis using put_get_compacted [OF assms(1-6) True assms(7,8)] by auto
next
  case False
  then show ?thesis using put_get_kept [OF assms(1-6) False assms(7,8)] by auto
qed

text \<open>The first put on a fresh tree.\<close>

theorem lsm_put_get_witness:
  "\<exists>t0 t'. lsm_open lsm_config_default \<lparr>wd_files = [], wd_current = None\<rparr> []
      \<lparr>ad_tmp = None, ad_target = None\<rparr> = Inr t0 \<and> lsm_put env0 [1] [2] t0 = Inr t' \<and>
    lsm_get env0 [1] t' = Inr (Some [2])"
proof -
  have mode: "lc_wal_sync lsm_config_default = EveryAppend" by (simp add: lsm_config_default_def)
  obtain t0 where t0: "lsm_open lsm_config_default \<lparr>wd_files = [], wd_current = None\<rparr> []
      \<lparr>ad_tmp = None, ad_target = None\<rparr> = Inr t0" "lsm_durable t0" "lt_config t0 = lsm_config_default"
    using lsm_open_fresh [OF mode] by blast
  have e: "lt_active t0 = memtable_new" "lt_level0 t0 = []" "lt_level1 t0 = []" "lt_sst_dir t0 = []" "lt_sst_cache t0 = []"
    using t0(1) by (auto simp: lsm_open_def replay_all_def manifest_load_def try_bind_Inr list_sst_level_def)
  have "lsm_inv env0 t0" "lsm_entries env0 t0 = []"
    by (simp_all add: lsm_inv_def lsm_paths_def e lsm_entries_def sources_def tables_def memtable_new_def memtable_inv_def)
  moreover have "put_room env0 [1] [2] t0"
    by (simp add: put_room_def e memtable_new_def table_fits_def entries_fit_def kv_fits_def next_sst_id_def tables_small_def)
  moreover have "\<not> put_compacts [1] [2] t0"
    by (simp add: put_compacts_def put_flushes_def e memtable_put_eq memtable_new_def bt_get_def approx_bytes_def
        t0(3) lsm_config_default_def DEFAULT_MAX_MEM_BYTES_def entry_bytes_def)
  ultimately show ?thesis
    using lsm_put_get [OF t0(2), of env0 "[1]" "[2]"] t0
    by (auto simp: key_ok_def entry_fits_def entry_ok_def entry_put_def e lsm_config_default_def stall_default_def
        raw_only_def starts_with_def MVCC_MAGIC_def)
qed

text \<open>
  The crash window of a flush: on a tree that already has a manifest, a crash after the
  log segments of a flush are deleted and before the manifest names the new table loses the
  flushed data. A raw key held by the active table only reads back its value before the flush
  and nothing after reopening, although the table file with it is on disk.
\<close>

theorem flush_crash_window:
  assumes "lsm_durable t" and "lsm_inv env t" and "lt_manifest_seq t < 2 ^ 64"
    and "manifest_load (lt_manifest_dir t) = Inr (Some m)"
    and "table_fits (mt_map (lt_active t))" and "next_sst_id (lt_sst_dir t) 0 = Inr n"
    and "key_ok k" and "raw_only k (lsm_entries env t)"
    and "bt_get (mt_map (lt_active t)) k = Some v" and "map_of (concat (tables env t)) k = None"
  shows "lsm_get env k t = Inr (Some v) \<and>
    (\<exists>t1 t2. flush_tables env t = Inr t1 \<and>
       lsm_open (lt_config t1) (crash_dir (wm_dir (lt_wal t1))) (lt_sst_dir t1) (lt_manifest_dir t1) = Inr t2 \<and>
       lsm_get env k t2 = Inr None)"
proof -
  obtain data w where f: "flush_tables env t = Inr (flushed (sst_name 0 n) data w t)"
    "lsm_inv env (flushed (sst_name 0 n) data w t)" "wal_durable w" "dir_entries (wm_dir w) = []"
    "tables env (flushed (sst_name 0 n) data w t) = mt_map (lt_active t) # tables env t"
    using flush_tables_spec [OF assms(1,2,5,6)] by blast
  let ?t1 = "flushed (sst_name 0 n) data w t"
  define t2 where "t2 = ?t1\<lparr>lt_level0 := lt_level0 t, lt_flushed_wal_segment := 0\<rparr>"
  have mode: "lc_wal_sync (lt_config t) = EveryAppend" using assms(1) by (simp add: lsm_durable_def lsm_log_ok_def)
  have m: "m = \<lparr>ms_level0 = lt_level0 t, ms_level1 = lt_level1 t, ms_sequence = lt_manifest_seq t\<rparr>"
    using assms(1,3,4) by (simp add: lsm_durable_def manifest_matches_def)
  have inv: "wal_mgr_inv w" using f(3) by (simp add: wal_durable_def)
  have rep: "replay_all (wm_dir w) memtable_new = Inr (0, memtable_new)"
    using inv f(4) by (simp add: replay_all_spec wal_mgr_inv_def)
  have "lsm_open (lt_config ?t1) (crash_dir (wm_dir (lt_wal ?t1))) (lt_sst_dir ?t1) (lt_manifest_dir ?t1) = Inr t2"
    using rep wal_durable_reopen [OF f(3)] mode assms(4)
    by (simp add: lsm_open_def crash_dir_synced [OF f(3)] flushed_def m t2_def)
  moreover have "lsm_get env k t2 = Inr None"
  proof -
    have paths: "lsm_paths ?t1 = sst_name 0 n # lsm_paths t2" by (simp add: lsm_paths_def flushed_def t2_def)
    have "lsm_inv env t2" using f(2) unfolding lsm_inv_def paths by (simp add: t2_def flushed_def)
    moreover have "tables env t2 = tables env t"
      using f(5) unfolding tables_def [of env ?t1] paths by (simp add: tables_def t2_def)
    then have ent: "lsm_entries env t2 = concat (tables env t)"
      by (simp add: lsm_entries_def sources_def t2_def flushed_def memtable_new_def)
    then have "raw_only k (lsm_entries env t2)"
      using assms(8) by (auto simp: raw_only_def lsm_entries_def [of env t] sources_def)
    ultimately show ?thesis using lsm_get_raw [of env t2 k] assms(7,10) ent by simp
  qed
  moreover have "lsm_get env k t = Inr (Some v)"
    using lsm_get_raw [OF assms(2,7,8)] assms(9) by (simp add: lsm_entries_def sources_def bt_get_def)
  ultimately show ?thesis using f(1) by blast
qed

text \<open>A fresh tree with a committed manifest and one put.\<close>

theorem flush_crash_window_witness:
  "\<exists>t. lsm_get env0 [1] t = Inr (Some [2]) \<and>
    (\<exists>t1 t2. flush_tables env0 t = Inr t1 \<and>
       lsm_open (lt_config t1) (crash_dir (wm_dir (lt_wal t1))) (lt_sst_dir t1) (lt_manifest_dir t1) = Inr t2 \<and>
       lsm_get env0 [1] t2 = Inr None)"
proof -
  have mode: "lc_wal_sync lsm_config_default = EveryAppend" by (simp add: lsm_config_default_def)
  obtain t0 where t0: "lsm_open lsm_config_default \<lparr>wd_files = [], wd_current = None\<rparr> []
      \<lparr>ad_tmp = None, ad_target = None\<rparr> = Inr t0" "lsm_durable t0" "lt_config t0 = lsm_config_default"
    using lsm_open_fresh [OF mode] by blast
  let ?p = "persist_manifest t0"
  have p: "lsm_durable ?p"
    using t0(2) by (intro persist_manifest_durable) (simp_all add: lsm_durable_def)
  have e: "lt_active ?p = memtable_new" "lt_level0 ?p = []" "lt_level1 ?p = []" "lt_sst_dir ?p = []"
    "lt_sst_cache ?p = []" "lt_config ?p = lsm_config_default" "lt_manifest_seq ?p = 1"
    using t0(1) by (auto simp: lsm_open_def replay_all_def manifest_load_def try_bind_Inr list_sst_level_def
        persist_manifest_def Let_def)
  let ?a = "\<lparr>mt_map = [([1], [2])], mt_bytes = 2\<rparr> :: memtable"
  have fits: "entry_fits (entry_put [1] [2])" by (simp add: entry_fits_def entry_ok_def entry_put_def)
  have "memtable_put [1] [2] (lt_active ?p) = Inr ?a"
    by (simp add: e memtable_put_eq memtable_new_def entry_bytes_def bt_get_def)
  from lsm_put_no_flush [OF p fits _ this, of env0]
  obtain t where t: "lsm_put env0 [1] [2] ?p = Inr t" "lt_active t = ?a" "lt_manifest_seq t = 1"
    "lt_level0 t = []" "lt_level1 t = []" "lt_sst_dir t = []" "lt_sst_cache t = []"
    by (auto simp: e lsm_config_default_def stall_default_def approx_bytes_def DEFAULT_MAX_MEM_BYTES_def)
  have d: "lsm_durable t" using lsm_put_durable [OF p fits t(1)] .
  then obtain m where m: "manifest_load (lt_manifest_dir t) = Inr (Some m)"
    using t(3) by (auto simp: lsm_durable_def manifest_matches_def split: sum.splits option.splits)
  have inv: "lsm_inv env0 t"
    using lsm_durable_active [OF d] by (simp add: lsm_inv_def lsm_paths_def t)
  have tabs: "tables env0 t = []" by (simp add: tables_def lsm_paths_def t)
  have raw: "raw_only [1] (lsm_entries env0 t)"
    by (simp add: raw_only_def lsm_entries_def sources_def tabs t(2) decode_user_key_def starts_with_def MVCC_MAGIC_def)
  have fit: "table_fits (mt_map (lt_active t))" by (simp add: t(2) table_fits_def entries_fit_def kv_fits_def)
  have room: "next_sst_id (lt_sst_dir t) 0 = Inr 1" by (simp add: t(6) next_sst_id_def)
  from flush_crash_window [OF d inv _ m fit room _ raw, of "[2]"] show ?thesis
    by (intro exI [of _ t]) (simp add: t tabs key_ok_def bt_get_def)
qed

end
