(* ===== verification/Lsm_Delete.thy ===== *)
theory Lsm_Delete
  imports Lsm_Write
begin

text \<open>
  Deletion through tombstones, and two consequences of the write path: writes after a delete,
  and the limits of the high-throughput configuration.
\<close>

section \<open>The newest version\<close>

lemma newest_visible_unique:
  assumes "v \<in> set vs" "is_visible view v None"
    and "\<And>w. w \<in> set vs \<Longrightarrow> is_visible view w None \<Longrightarrow> w \<noteq> v \<Longrightarrow> ver_commit_ts w < ver_commit_ts v"
  shows "newest_visible view vs = Some v"
proof (cases "newest_visible view vs")
  case None
  then show ?thesis using assms(1,2) newest_visible_None by blast
next
  case (Some b)
  note b = newest_visible_Some [OF Some]
  have "b = v" using assms b by (metis leD)
  then show ?thesis using Some by simp
qed

section \<open>Maintenance keeps the entries\<close>

lemma maybe_flush_spec:
  assumes d: "lsm_durable t" and inv: "lsm_inv env t"
    and fits: "table_fits (mt_map (lt_active t))" and room: "next_sst_id (lt_sst_dir t) 0 = Inr n"
    and few: "length (lt_level0 t) + 1 < lc_l0_compaction_trigger (lt_config t)"
  shows "\<exists>t'. maybe_flush_and_compact env t = Inr t' \<and> lsm_durable t' \<and> lsm_inv env t' \<and>
    lsm_entries env t' = lsm_entries env t \<and> lt_config t' = lt_config t \<and>
    (if lc_max_mem_bytes (lt_config t) \<le> approx_bytes (lt_active t) then lt_active t' = memtable_new else t' = t)"
proof (cases "lc_max_mem_bytes (lt_config t) \<le> approx_bytes (lt_active t)")
  case False
  then show ?thesis using d inv by (simp add: maybe_flush_and_compact_def)
next
  case True
  obtain t' where t': "flush_active env t = Inr t'" "lsm_durable t'" "lsm_inv env t'"
    "lsm_entries env t' = lsm_entries env t" "mt_map (lt_active t') = []" "lt_config t' = lt_config t"
    "t' = t \<or> lt_level0 t' = lt_level0 t @ [sst_name 0 n]"
    using flush_active_spec [OF d inv fits room] by blast
  have "length (lt_level0 t') \<le> length (lt_level0 t) + 1" using t'(7) by auto
  then have "maybe_flush_and_compact env t = Inr t'"
    using True few t' by (simp add: maybe_flush_and_compact_def)
  moreover have "lt_active t' = memtable_new"
    using t'(3,5) by (simp add: lsm_inv_def memtable_inv_def memtable_new_def)
  ultimately show ?thesis using t' True by simp
qed

lemma put_version_flow:
  assumes d: "lsm_durable t" and inv: "lsm_inv env t"
    and val: "encode_version v = Inr val" and fv: "version_fits k v"
  shows "\<exists>t1 a. lsm_put_version env k v t = maybe_flush_and_compact env t1 \<and> lsm_durable t1 \<and> lsm_inv env t1 \<and>
    lt_active t1 = a \<and> mt_map a = bt_insert (encode_internal_key k (ver_commit_ts v)) val (mt_map (lt_active t)) \<and>
    lt_level0 t1 = lt_level0 t \<and> lt_sst_dir t1 = lt_sst_dir t \<and> lt_config t1 = lt_config t \<and> tables env t1 = tables env t"
proof -
  let ?ik = "encode_internal_key k (ver_commit_ts v)"
  have e: "entry_fits (entry_put ?ik val)" using version_entry_fits [OF fv val] .
  then have ik: "?ik \<noteq> []" by (simp add: entry_fits_def entry_ok_def entry_put_def)
  obtain a where a: "memtable_put ?ik val (lt_active t) = Inr a" "mt_map a = bt_insert ?ik val (mt_map (lt_active t))"
    using ik by (simp add: memtable_put_eq)
  obtain w where w: "lsm_log (entry_put ?ik val) t = Inr (t\<lparr>lt_wal := w, lt_wal_pending := 0\<rparr>)"
    "lsm_durable (t\<lparr>lt_wal := w, lt_wal_pending := 0, lt_active := a\<rparr>)"
    using lsm_log_ok_step [OF d e, of a] a(1) by auto
  let ?t1 = "t\<lparr>lt_wal := w, lt_wal_pending := 0, lt_active := a\<rparr>"
  have "lsm_put_version env k v t = maybe_flush_and_compact env ?t1"
    using w(1) a(1) val by (simp add: lsm_put_version_def)
  moreover have "memtable_inv a" using memtable_inv_put [OF _ a(1)] inv by (simp add: lsm_inv_def)
  then have "lsm_inv env ?t1" using inv by (simp add: lsm_inv_def lsm_paths_def)
  ultimately show ?thesis using w(2) a(2)
    by (intro exI [of _ ?t1] exI [of _ a]) (simp add: tables_def lsm_paths_def)
qed

section \<open>Room\<close>

text \<open>The active table with one more version record of the key still fits a table file.\<close>

definition active_room :: "bytes \<Rightarrow> lsm_tree \<Rightarrow> bool" where
  "active_room k t \<longleftrightarrow> length k + 8 < 2 ^ 16 \<and> (\<forall>kv \<in> set (mt_map (lt_active t)). kv_fits kv) \<and>
     length (mt_map (lt_active t)) + 1 < 2 ^ 32 \<and> image_bytes (mt_map (lt_active t)) + 2 ^ 20 < 2 ^ 62 \<and>
     (\<exists>n. next_sst_id (lt_sst_dir t) 0 = Inr n)"

lemma bt_insert_sizes:
  "length (bt_insert k v m) \<le> length m + 1" "image_bytes (bt_insert k v m) \<le> image_bytes m + 24 + 2 * length k + length v"
  by (induction k v m rule: bt_insert.induct) auto

lemma bt_remove_sizes: "length (bt_remove k m) \<le> length m" "image_bytes (bt_remove k m) \<le> image_bytes m"
  by (simp add: bt_remove_def) (induction m, auto simp: bt_remove_def)

lemma set_bt_remove: "set (bt_remove k m) \<subseteq> set m"
  by (auto simp: bt_remove_def)

lemma table_fits_remove: "active_room k t \<Longrightarrow> table_fits (bt_remove k' (mt_map (lt_active t)))"
  using bt_remove_sizes [of k' "mt_map (lt_active t)"] set_bt_remove [of k' "mt_map (lt_active t)"]
  by (auto simp: active_room_def table_fits_def entries_fit_def)

lemma table_fits_insert:
  assumes "active_room k t" "length ik = length k + 8" "length val = 18"
  shows "table_fits (bt_insert ik val (bt_remove k (mt_map (lt_active t))))"
proof -
  let ?m = "bt_remove k (mt_map (lt_active t))"
  have r: "length k + 8 < 2 ^ 16" "\<forall>kv \<in> set (mt_map (lt_active t)). kv_fits kv"
    "length (mt_map (lt_active t)) + 1 < 2 ^ 32" "image_bytes (mt_map (lt_active t)) + 2 ^ 20 < 2 ^ 62"
    using assms(1) unfolding active_room_def by blast+
  have "kv_fits (ik, val)" using assms(2,3) r(1) by (simp add: kv_fits_def)
  then have "\<forall>kv \<in> set (bt_insert ik val ?m). kv_fits kv"
    using set_bt_insert_subset [of ik val ?m] set_bt_remove [of k "mt_map (lt_active t)"] r(2) by blast
  moreover have "length (bt_insert ik val ?m) < 2 ^ 32"
    using bt_insert_sizes(1) [of ik val ?m] bt_remove_sizes(1) [of k "mt_map (lt_active t)"] r(3) by simp
  moreover have "image_bytes (bt_insert ik val ?m) < 2 ^ 62"
    using bt_insert_sizes(2) [of ik val ?m] bt_remove_sizes(2) [of k "mt_map (lt_active t)"] r(1,4) assms(2,3)
    by simp
  ultimately show ?thesis by (simp add: table_fits_def entries_fit_def)
qed

section \<open>Delete\<close>

lemma delete_flow:
  assumes d: "lsm_durable t" and inv: "lsm_inv env t" and k: "k \<noteq> []" "length k + 39 < 2 ^ 32"
  shows "\<exists>t1 removed. lsm_log (entry_delete k) t = Inr (t1\<lparr>lt_active := lt_active t\<rparr>) \<and>
    memtable_delete k (lt_active t) = Inr (removed, lt_active t1) \<and> lsm_durable t1 \<and> lsm_inv env t1 \<and>
    mt_map (lt_active t1) = bt_remove k (mt_map (lt_active t)) \<and> lt_level0 t1 = lt_level0 t \<and>
    lt_sst_dir t1 = lt_sst_dir t \<and> lt_config t1 = lt_config t \<and> tables env t1 = tables env t"
proof -
  have e: "entry_fits (entry_delete k)" using k by (simp add: entry_fits_def entry_ok_def entry_delete_def)
  have minv: "memtable_inv (lt_active t)" using inv by (simp add: lsm_inv_def)
  have same: "bt_remove k m = m" if "bt_get m k = None" for m :: "(bytes \<times> bytes) list"
    using that by (force simp: bt_remove_def bt_get_def map_of_eq_None_iff filter_id_conv)
  obtain removed a where a: "memtable_delete k (lt_active t) = Inr (removed, a)" "mt_map a = bt_remove k (mt_map (lt_active t))"
    using k(1) same [of "mt_map (lt_active t)"]
    by (cases "bt_get (mt_map (lt_active t)) k") (auto simp: memtable_delete_eq)
  have "apply_entry (entry_delete k) (lt_active t) = Inr a" using a(1) by (simp add: apply_entry_def entry_delete_def)
  from lsm_log_ok_step [OF d e this] obtain w where
    w: "lsm_log (entry_delete k) t = Inr (t\<lparr>lt_wal := w, lt_wal_pending := 0\<rparr>)"
    "lsm_durable (t\<lparr>lt_wal := w, lt_wal_pending := 0, lt_active := a\<rparr>)" by blast
  let ?t1 = "t\<lparr>lt_wal := w, lt_wal_pending := 0, lt_active := a\<rparr>"
  have "memtable_inv a" using lsm_durable_active [OF w(2)] by simp
  then have "lsm_inv env ?t1" using inv by (simp add: lsm_inv_def lsm_paths_def)
  moreover have "t\<lparr>lt_wal := w, lt_wal_pending := 0\<rparr> = ?t1\<lparr>lt_active := lt_active t\<rparr>" by simp
  ultimately show ?thesis using w a
    by (intro exI [of _ ?t1] exI [of _ removed]) (simp add: tables_def lsm_paths_def)
qed

lemma lsm_delete_eq:
  assumes "length (lt_level0 t) < st_l0_stop_trigger (lc_write_stall (lt_config t))"
    and "lsm_log (entry_delete k) t = Inr (t1\<lparr>lt_active := lt_active t\<rparr>)"
    and "memtable_delete k (lt_active t) = Inr (removed, lt_active t1)"
  shows "lsm_delete env k t =
     try_bind (lsm_get env k t1) (\<lambda>r.
       if r \<noteq> None then
         try_bind (find_visible_version env k latest_view t1) (\<lambda>found.
         let next_ts = (case found of None \<Rightarrow> 2 | Some v \<Rightarrow> saturating_succ (ver_commit_ts v)) in
         try_bind (lsm_put_version env k (version_tombstone next_ts) t1) (\<lambda>t.
         try_bind (maybe_flush_and_compact env t) (\<lambda>t. Inr (True, t))))
       else try_bind (maybe_flush_and_compact env t1) (\<lambda>t. Inr (removed, t)))"
proof -
  obtain ms where "lsm_gate_write t = Inr ms" using assms(1) by (simp add: lsm_gate_write_def gate_write_def)
  then show ?thesis using assms(2,3) by (simp add: lsm_delete_def Let_def cong: if_cong)
qed

lemma key_clean_subset: "key_clean k es \<Longrightarrow> set es' \<subseteq> set es \<Longrightarrow> key_clean k es'"
  unfolding key_clean_def by blast

lemma get_without_active:
  assumes "lsm_inv env t" "key_ok k" "key_clean k (lsm_entries env t)" "bt_get (mt_map (lt_active t)) k = None"
  shows "lsm_get env k t = Inr (version_cell (newest_visible latest_view (versions_in k (lsm_entries env t))))"
  using lsm_get_spec [OF assms(1-3)] assms(4) by simp

text \<open>A tombstone newer than every other version makes the key read as absent.\<close>

lemma tombstone_hides:
  assumes inv: "lsm_inv env t" and k: "key_ok k" and clean: "key_clean k es"
    and sub: "set (lsm_entries env t) \<subseteq> insert (encode_internal_key k ts, val) (set es)"
    and mem: "(encode_internal_key k ts, val) \<in> set (lsm_entries env t)"
    and val: "encode_version (version_tombstone ts) = Inr val"
    and new: "\<And>v. v \<in> set (versions_in k es) \<Longrightarrow> ver_commit_ts v < ts"
    and act: "bt_get (mt_map (lt_active t)) k = None"
  shows "lsm_get env k t = Inr None"
proof -
  let ?v = "version_tombstone ts" and ?ik = "encode_internal_key k ts"
  have ts: "ts \<noteq> 0" using val by (auto simp: encode_version_def version_tombstone_def split: if_splits)
  have dec: "decode_version val = Inr ?v" "starts_with val MVCC_MAGIC"
    using decode_encode_version [OF val] by (simp_all add: version_tombstone_def)
  then have dol: "decode_or_legacy val = Inr ?v" by (simp add: decode_or_legacy_def)
  have "length ?ik \<noteq> length k" by (simp add: encode_internal_key_def)
  then have "?ik \<noteq> k" by metis
  then have "key_clean k ((?ik, val) # es)"
    using dec ts clean by (simp add: key_clean_def version_tombstone_def)
  then have cl: "key_clean k (lsm_entries env t)" by (rule key_clean_subset) (use sub in simp)
  have vs: "set (versions_in k (lsm_entries env t)) \<subseteq> insert ?v (set (versions_in k es))"
  proof
    fix v assume "v \<in> set (versions_in k (lsm_entries env t))"
    then obtain ik raw where e: "(ik, raw) \<in> set (lsm_entries env t)" "key_matches k ik" "decode_or_legacy raw = Inr v"
      by (auto simp: set_versions_in)
    show "v \<in> insert ?v (set (versions_in k es))"
    proof (cases "(ik, raw) = (?ik, val)")
      case False
      then have "(ik, raw) \<in> set es" using e(1) sub by auto
      then show ?thesis using e(2,3) by (auto simp: set_versions_in)
    qed (use e dol in simp)
  qed
  have "?v \<in> set (versions_in k (lsm_entries env t))"
    unfolding set_versions_in using mem dol
    by (intro CollectI exI [of _ ?ik] exI [of _ val]) (simp add: key_matches_def)
  then have "newest_visible latest_view (versions_in k (lsm_entries env t)) = Some ?v"
  proof (rule newest_visible_unique)
    show "is_visible latest_view ?v None" using ts by (simp add: latest_visible version_tombstone_def)
    show "ver_commit_ts w < ver_commit_ts ?v" if "w \<in> set (versions_in k (lsm_entries env t))" "w \<noteq> ?v" for w
      using that vs new by (auto simp: version_tombstone_def)
  qed
  then show ?thesis
    using get_without_active [OF inv k cl act] by (simp add: version_cell_def version_tombstone_def)
qed

lemma delete_absent:
  assumes inv: "lsm_inv env t1" and k: "key_ok k" and clean: "key_clean k (lsm_entries env t1)"
    and act: "bt_get (mt_map (lt_active t1)) k = None" and none: "lsm_get env k t1 = Inr None"
    and flush: "lsm_inv env t'" "lsm_entries env t' = lsm_entries env t1" "lt_active t' = memtable_new \<or> t' = t1"
  shows "lsm_get env k t' = Inr None"
proof -
  have "bt_get (mt_map (lt_active t')) k = None"
    using flush(3) act by (auto simp: memtable_new_def bt_get_def)
  then have "lsm_get env k t' = Inr (version_cell (newest_visible latest_view (versions_in k (lsm_entries env t'))))"
    using get_without_active [OF flush(1) k] clean flush(2) by simp
  then show ?thesis using get_without_active [OF inv k clean act] none flush(2) by simp
qed

lemma saturating_succ_less: "x \<noteq> - 1 \<Longrightarrow> x < saturating_succ x \<and> saturating_succ x \<noteq> 0"
proof -
  assume "x \<noteq> - 1"
  then have "1 + x \<noteq> 0" by (metis add.inverse_unique)
  then have "x < x + 1 \<and> x + 1 \<noteq> 0" using unatSuc [of x] by (simp add: word_less_nat_alt add.commute)
  then show ?thesis using \<open>x \<noteq> - 1\<close> by (simp add: saturating_succ_def)
qed

lemma maybe_flush_idem:
  assumes "lc_max_mem_bytes (lt_config t) > 0"
    and "if lc_max_mem_bytes (lt_config t1) \<le> approx_bytes (lt_active t1) then lt_active t = memtable_new else t = t1"
  shows "maybe_flush_and_compact env t = Inr t"
  using assms by (auto simp: maybe_flush_and_compact_def approx_bytes_def memtable_new_def split: if_splits)

lemma delete_tombstone:
  assumes d: "lsm_durable t" and inv: "lsm_inv env t" and k: "key_ok k" and len: "length k + 8 < 2 ^ 16"
    and clean: "key_clean k (lsm_entries env t)" and act: "bt_get (mt_map (lt_active t)) k = None"
    and ts: "ts \<noteq> 0" "\<And>v. v \<in> set (versions_in k (lsm_entries env t)) \<Longrightarrow> ver_commit_ts v < ts"
    and fits: "\<And>val. length val = 18 \<Longrightarrow> table_fits (bt_insert (encode_internal_key k ts) val (mt_map (lt_active t)))"
    and room: "next_sst_id (lt_sst_dir t) 0 = Inr n"
    and few: "length (lt_level0 t) + 1 < lc_l0_compaction_trigger (lt_config t)"
    and mem: "0 < lc_max_mem_bytes (lt_config t)"
  shows "\<exists>t'. lsm_put_version env k (version_tombstone ts) t = Inr t' \<and> maybe_flush_and_compact env t' = Inr t' \<and>
    lsm_get env k t' = Inr None"
proof -
  let ?v = "version_tombstone ts" and ?ik = "encode_internal_key k ts"
  obtain val where val: "encode_version ?v = Inr val" "length val = 18"
    using ts(1) by (simp add: encode_version_def version_tombstone_def MVCC_MAGIC_def)
  have fv: "version_fits k ?v" using len by (simp add: version_fits_def version_tombstone_def)
  have vts: "ver_commit_ts ?v = ts" by (simp add: version_tombstone_def)
  obtain t1 where t1: "lsm_put_version env k ?v t = maybe_flush_and_compact env t1" "lsm_durable t1" "lsm_inv env t1"
    "mt_map (lt_active t1) = bt_insert ?ik val (mt_map (lt_active t))" "lt_level0 t1 = lt_level0 t"
    "lt_sst_dir t1 = lt_sst_dir t" "lt_config t1 = lt_config t" "tables env t1 = tables env t"
    using put_version_flow [OF d inv val(1) fv] unfolding vts by blast
  have "table_fits (mt_map (lt_active t1))" unfolding t1(4) by (rule fits [OF val(2)])
  from maybe_flush_spec [OF t1(2,3) this, of n] obtain t' where
    t': "maybe_flush_and_compact env t1 = Inr t'" "lsm_inv env t'" "lsm_entries env t' = lsm_entries env t1"
    "lt_config t' = lt_config t1"
    "if lc_max_mem_bytes (lt_config t1) \<le> approx_bytes (lt_active t1) then lt_active t' = memtable_new else t' = t1"
    using room few t1 by auto
  have ent: "lsm_entries env t1 = bt_insert ?ik val (mt_map (lt_active t)) @ concat (tables env t)"
    by (simp add: lsm_entries_def sources_def t1)
  have srt: "bt_sorted (mt_map (lt_active t))" using inv by (simp add: lsm_inv_def memtable_inv_def)
  have "lsm_get env k t' = Inr None"
  proof (rule tombstone_hides [OF t'(2) k clean _ _ val(1) ts(2)])
    show "set (lsm_entries env t') \<subseteq> insert (?ik, val) (set (lsm_entries env t))"
      using set_bt_insert_subset [of ?ik val "mt_map (lt_active t)"]
      by (auto simp: t'(3) ent lsm_entries_def [of env t] sources_def)
    show "(?ik, val) \<in> set (lsm_entries env t')"
      using bt_get_insert [OF srt, of ?ik val ?ik] bt.in_entries_iff [OF bt_sorted_insert [OF srt], of ?ik val ?ik val]
      by (simp add: t'(3) ent)
    have "length ?ik \<noteq> length k" by (simp add: encode_internal_key_def)
    then have "?ik \<noteq> k" by metis
    then show "bt_get (mt_map (lt_active t')) k = None"
      using t'(5) act bt_get_insert [OF srt, of ?ik val k] by (auto simp: t1(4) memtable_new_def bt_get_def split: if_splits)
  qed
  moreover have "maybe_flush_and_compact env t' = Inr t'"
    using maybe_flush_idem [OF _ t'(5)] mem t'(4) t1(7) by simp
  ultimately show ?thesis using t1(1) t'(1) by auto
qed

text \<open>What the first half of a delete leaves decides the answer.\<close>

lemma delete_live:
  assumes inv: "lsm_inv env t" and k: "key_ok k" and clean: "key_clean k (lsm_entries env t)"
    and act: "mt_map (lt_active t1) = bt_remove k (mt_map (lt_active t))" and tab: "tables env t1 = tables env t"
  shows "lsm_get env k t \<noteq> Inr None \<longleftrightarrow> bt_get (mt_map (lt_active t)) k \<noteq> None \<or>
    version_cell (newest_visible latest_view (versions_in k (lsm_entries env t1))) \<noteq> None"
proof (cases "bt_get (mt_map (lt_active t)) k")
  case None
  then have "bt_remove k (mt_map (lt_active t)) = mt_map (lt_active t)"
    by (force simp: bt_remove_def bt_get_def map_of_eq_None_iff filter_id_conv)
  then have "lsm_entries env t1 = lsm_entries env t" by (simp add: lsm_entries_def sources_def act tab)
  then show ?thesis using get_without_active [OF inv k clean None] None by simp
next
  case (Some raw)
  then show ?thesis using lsm_get_spec [OF inv k clean] by simp
qed

lemma newest_below_succ:
  assumes "newest_visible latest_view vs = Some b" "ver_commit_ts b \<noteq> - 1" "v \<in> set vs"
  shows "ver_commit_ts v < saturating_succ (ver_commit_ts b)"
proof (cases "ver_commit_ts v = 0")
  case True
  then show ?thesis using saturating_succ_less [OF assms(2)] by (simp add: word_gt_0)
next
  case False
  then have "ver_commit_ts v \<le> ver_commit_ts b"
    using newest_visible_Some [OF assms(1)] assms(3) by (simp add: latest_visible)
  also have "\<dots> < saturating_succ (ver_commit_ts b)" using saturating_succ_less [OF assms(2)] by simp
  finally show ?thesis .
qed

section \<open>A raw put beside versions\<close>

lemma put_versions_in:
  assumes "set es' \<subseteq> insert (k, v) (set es)" "\<not> starts_with v MVCC_MAGIC" "w \<in> set (versions_in k es')"
  shows "w = version_put 1 v \<or> w \<in> set (versions_in k es)"
proof -
  obtain ik raw where e: "(ik, raw) \<in> set es'" "key_matches k ik" "decode_or_legacy raw = Inr w"
    using assms(3) by (auto simp: set_versions_in)
  show ?thesis
  proof (cases "(ik, raw) = (k, v)")
    case True
    then show ?thesis using e(3) assms(2) by (simp add: decode_or_legacy_def)
  next
    case False
    then have "(ik, raw) \<in> set es" using e(1) assms(1) by auto
    then show ?thesis using e(2,3) by (auto simp: set_versions_in)
  qed
qed

lemma put_version_bound:
  assumes "w = version_put 1 v \<or> w \<in> set vs" "1 < ver_commit_ts b" "w \<noteq> b"
    and "\<And>w. w \<in> set vs \<Longrightarrow> w \<noteq> b \<Longrightarrow> ver_commit_ts w < ver_commit_ts b"
  shows "ver_commit_ts w < ver_commit_ts b"
  using assms by (auto simp: version_put_def)

lemma deleted_version_kept:
  assumes "bt_sorted (mt_map (lt_active t))" "key_clean k (lsm_entries env t)"
    "b \<in> set (versions_in k (lsm_entries env t))" "ver_deleted b"
  shows "b \<in> set (versions_in k (bt_insert k v (mt_map (lt_active t)) @ concat (tables env t)))"
proof -
  let ?m = "mt_map (lt_active t)"
  obtain ik raw where e: "(ik, raw) \<in> set (lsm_entries env t)" "key_matches k ik" "decode_or_legacy raw = Inr b"
    using assms(3) by (auto simp: set_versions_in)
  have "starts_with raw MVCC_MAGIC"
  proof (rule ccontr)
    assume "\<not> starts_with raw MVCC_MAGIC"
    then show False using e(3) assms(4) by (auto simp: decode_or_legacy_def version_put_def)
  qed
  then have ne: "ik \<noteq> k" using assms(2) e(1) by (auto simp: key_clean_def)
  have "(ik, raw) \<in> set (bt_insert k v ?m @ concat (tables env t))"
  proof (cases "(ik, raw) \<in> set ?m")
    case True
    then have "bt_get ?m ik = Some raw" using bt.in_entries_iff [OF assms(1), of ik raw] by simp
    then have "bt_get (bt_insert k v ?m) ik = Some raw" using bt_get_insert [OF assms(1), of k v ik] ne by simp
    then show ?thesis by (auto simp: bt_get_def dest: map_of_SomeD)
  next
    case False
    then show ?thesis using e(1) by (simp add: lsm_entries_def sources_def)
  qed
  then show ?thesis using e(2,3) unfolding set_versions_in by blast
qed

section \<open>Level 0 without compaction\<close>

lemma flush_tables_level0:
  assumes "flush_tables env t = Inr t'"
  shows "lt_config t' = lt_config t \<and> lt_level1 t' = lt_level1 t \<and>
    (\<exists>p. lt_level0 t' = lt_level0 t @ [p])"
proof -
  obtain path data n where 1: "alloc_sst_path (lt_sst_dir t) 0 = Inr path"
    "write_from_memtable (se_crc env) (se_raw_m env) (se_raw_k env) (lt_active t) = Inr (data, n)"
    using assms by (auto simp: flush_tables_def try_bind_Inr simp del: upt_Suc)
  obtain old w where 2: "lift_err (wal_mgr_rotate (lt_wal t)) = Inr (old, w)"
    using assms 1 by (auto simp: flush_tables_def try_bind_Inr Let_def clear_sst_cache_def simp del: upt_Suc)
  show ?thesis using assms 1 2 by (auto simp: flush_tables_def Let_def clear_sst_cache_def simp del: upt_Suc)
qed

lemma flush_active_level0:
  assumes "flush_active env t = Inr t'"
  shows "lt_config t' = lt_config t \<and> lt_level1 t' = lt_level1 t \<and>
    (\<exists>xs. lt_level0 t' = lt_level0 t @ xs \<and> length xs \<le> 1)"
proof (cases "memtable_is_empty (lt_active t)")
  case True
  then show ?thesis using assms by (auto simp: flush_active_def)
next
  case False
  then obtain t1 where "flush_tables env t = Inr t1" "t' = persist_manifest t1"
    using assms by (auto simp: flush_active_def try_bind_Inr)
  then show ?thesis using flush_tables_level0 [of env t t1] by (auto simp: persist_manifest_def Let_def)
qed

lemma maybe_flush_level0:
  assumes "maybe_flush_and_compact env t = Inr t'" "length (lt_level0 t) + 1 < lc_l0_compaction_trigger (lt_config t)"
  shows "lt_config t' = lt_config t \<and> lt_level1 t' = lt_level1 t \<and>
    (\<exists>xs. lt_level0 t' = lt_level0 t @ xs \<and> length xs \<le> 1)"
proof (cases "approx_bytes (lt_active t) < lc_max_mem_bytes (lt_config t)")
  case True
  then show ?thesis using assms(1) by (simp add: maybe_flush_and_compact_def)
next
  case False
  then obtain t1 where t1: "flush_active env t = Inr t1"
    using assms(1) by (auto simp: maybe_flush_and_compact_def try_bind_Inr)
  note f = flush_active_level0 [OF this]
  then have "length (lt_level0 t1) \<le> length (lt_level0 t) + 1" by auto
  then have "t' = t1" using False t1 f assms by (simp add: maybe_flush_and_compact_def)
  then show ?thesis using f by simp
qed

lemma lsm_log_level0:
  "lsm_log e t = Inr t' \<Longrightarrow> lt_config t' = lt_config t \<and> lt_level1 t' = lt_level1 t \<and> lt_level0 t' = lt_level0 t"
  by (auto simp: lsm_log_def maybe_sync_wal_def lsm_sync_def try_bind_Inr split: if_splits wal_sync_mode.splits)

lemma put_batch_level0:
  "put_batch_entries es t = Inr t' \<Longrightarrow>
     lt_config t' = lt_config t \<and> lt_level1 t' = lt_level1 t \<and> lt_level0 t' = lt_level0 t"
  by (induction es arbitrary: t) (auto simp: try_bind_Inr split: prod.splits)

text \<open>The writes behind the gate: everything but \<open>put_version\<close>.\<close>

fun gated_op :: "lsm_op \<Rightarrow> bool" where
  "gated_op (OpPut _ _) = True"
| "gated_op (OpPutBatch _) = True"
| "gated_op (OpDelete _) = True"
| "gated_op _ = False"

definition not_version :: "lsm_op \<Rightarrow> bool" where
  "not_version op = (case op of OpPutVersion _ _ \<Rightarrow> False | _ \<Rightarrow> True)"

lemma gated_op_refused:
  assumes "gated_op op" "st_l0_stop_trigger (lc_write_stall (lt_config t)) \<le> length (lt_level0 t)"
  shows "lsm_step env op t =
    Inl (Err (ResourceExhausted ''L0 SST backlog at stop threshold - compaction required''))"
proof -
  have "lsm_gate_write t = Inl (ResourceExhausted ''L0 SST backlog at stop threshold - compaction required'')"
    using assms(2) by (simp add: lsm_gate_write_def gate_write_def)
  then show ?thesis using assms(1)
    by (cases op) (simp_all add: lsm_put_def lsm_put_batch_def lsm_delete_def)
qed

text \<open>\<open>grows n t t'\<close>: at most \<open>n\<close> tables are added to level 0 and nothing is compacted.\<close>

definition grows :: "nat \<Rightarrow> lsm_tree \<Rightarrow> lsm_tree \<Rightarrow> bool" where
  "grows n t t' \<longleftrightarrow> lt_config t' = lt_config t \<and> lt_level1 t' = lt_level1 t \<and>
     (\<exists>xs. lt_level0 t' = lt_level0 t @ xs \<and> length xs \<le> n)"

lemma grows_refl: "grows n t t"
  by (simp add: grows_def)

lemma grows_trans: "grows m t t1 \<Longrightarrow> grows n t1 t2 \<Longrightarrow> grows (m + n) t t2"
  by (fastforce simp: grows_def)

lemma grows_length: "grows n t t' \<Longrightarrow> length (lt_level0 t') \<le> length (lt_level0 t) + n"
  by (auto simp: grows_def)

lemma grows_active [simp]: "grows n (t\<lparr>lt_active := a\<rparr>) t' \<longleftrightarrow> grows n t t'" "grows n (t\<lparr>lt_wal := w\<rparr>) t' \<longleftrightarrow> grows n t t'"
  by (simp_all add: grows_def)

lemma grows_log: "lsm_log e t = Inr t1 \<Longrightarrow> grows n t1 t' \<longleftrightarrow> grows n t t'"
  using lsm_log_level0 [of e t t1] by (simp add: grows_def)

lemma maybe_flush_grows:
  "maybe_flush_and_compact env t = Inr t' \<Longrightarrow> length (lt_level0 t) + 1 < lc_l0_compaction_trigger (lt_config t) \<Longrightarrow>
     grows 1 t t'"
  using maybe_flush_level0 [of env t t'] by (simp add: grows_def)

lemma put_version_grows:
  assumes "lsm_put_version env k v t = Inr t'" "length (lt_level0 t) + 1 < lc_l0_compaction_trigger (lt_config t)"
  shows "grows 1 t t'"
proof -
  obtain val t1 a where 1: "lsm_log (entry_put (encode_internal_key k (ver_commit_ts v)) val) t = Inr t1"
    "maybe_flush_and_compact env (t1\<lparr>lt_active := a\<rparr>) = Inr t'"
    using assms(1) by (auto simp: lsm_put_version_def try_bind_Inr Let_def)
  note l = lsm_log_level0 [OF 1(1)]
  show ?thesis using maybe_flush_grows [OF 1(2)] assms(2) l grows_log [OF 1(1)] by simp
qed

lemma lsm_put_grows:
  assumes "lsm_put env k v t = Inr t'" "length (lt_level0 t) + 1 < lc_l0_compaction_trigger (lt_config t)"
  shows "grows 1 t t'"
proof -
  obtain t1 a where 1: "lsm_log (entry_put k v) t = Inr t1"
    "maybe_flush_and_compact env (t1\<lparr>lt_active := a\<rparr>) = Inr t'"
    using assms(1) by (auto simp: lsm_put_def try_bind_Inr)
  show ?thesis using maybe_flush_grows [OF 1(2)] assms(2) lsm_log_level0 [OF 1(1)] grows_log [OF 1(1)] by simp
qed

lemma lsm_put_batch_grows:
  assumes "lsm_put_batch env kvs t = Inr t'" "length (lt_level0 t) + 1 < lc_l0_compaction_trigger (lt_config t)"
  shows "grows 1 t t'"
proof -
  obtain t1 w where 1: "put_batch_entries kvs t = Inr t1"
    "maybe_flush_and_compact env (t1\<lparr>lt_wal := w\<rparr>) = Inr t'"
    using assms(1) by (auto simp: lsm_put_batch_def try_bind_Inr)
  show ?thesis using maybe_flush_grows [OF 1(2)] assms(2) put_batch_level0 [OF 1(1)] by (simp add: grows_def)
qed

lemma lsm_delete_grows:
  assumes "lsm_delete env k t = Inr (b, t')" "length (lt_level0 t) + 2 < lc_l0_compaction_trigger (lt_config t)"
  shows "grows 2 t t'"
proof -
  obtain t1 removed a r where 1: "lsm_log (entry_delete k) t = Inr t1" "memtable_delete k (lt_active t1) = Inr (removed, a)"
    "lsm_get env k (t1\<lparr>lt_active := a\<rparr>) = Inr r"
    using assms(1) by (auto simp: lsm_delete_def try_bind_Inr Let_def)
  let ?t = "t1\<lparr>lt_active := a\<rparr>"
  have room: "length (lt_level0 ?t) + 2 < lc_l0_compaction_trigger (lt_config ?t)"
    using lsm_log_level0 [OF 1(1)] assms(2) by simp
  have "grows 2 ?t t'"
  proof (cases "r = None")
    case True
    then have "maybe_flush_and_compact env ?t = Inr t'"
      using assms(1) 1 by (auto simp: lsm_delete_def try_bind_Inr Let_def)
    from maybe_flush_grows [OF this] have "grows 1 ?t t'" using room by simp
    from grows_trans [OF this grows_refl [of 1]] show ?thesis by (simp add: numeral_2_eq_2)
  next
    case False
    then obtain v t2 where 2: "lsm_put_version env k v ?t = Inr t2" "maybe_flush_and_compact env t2 = Inr t'"
      using assms(1) 1 by (auto simp: lsm_delete_def try_bind_Inr Let_def)
    have g: "grows 1 ?t t2" using put_version_grows [OF 2(1)] room by simp
    have "lt_config t2 = lt_config ?t" using g by (simp add: grows_def)
    then have "grows 1 t2 t'" using maybe_flush_grows [OF 2(2)] grows_length [OF g] room by simp
    from grows_trans [OF g this] show ?thesis by (simp add: numeral_2_eq_2)
  qed
  then show ?thesis using grows_log [OF 1(1)] by simp
qed

lemma step_grows:
  assumes "lt_config t = lsm_config_throughput" "length (lt_level0 t) \<le> 33" "not_version op" "lsm_step env op t = Inr t'"
  shows "grows 2 t t' \<and> length (lt_level0 t') \<le> 33"
proof -
  have trig: "lc_l0_compaction_trigger (lt_config t) = 64" "st_l0_stop_trigger (lc_write_stall (lt_config t)) = 32"
    by (simp_all add: assms(1) lsm_config_throughput_def stall_relaxed_def)
  have two: "grows 1 t t' \<Longrightarrow> grows 2 t t'" by (auto simp: grows_def)
  have few: "length (lt_level0 t) < 32" if "gated_op op"
    using gated_op_refused [OF that, of t env] trig assms(4) by (metis Inl_Inr_False not_less)
  show ?thesis
  proof (cases "gated_op op")
    case True
    then have "grows 2 t t'"
      using assms(2,4) trig few two lsm_put_grows [of env _ _ t t'] lsm_put_batch_grows [of env _ t t']
        lsm_delete_grows [of env _ t _ t']
      by (cases op) (auto simp: try_bind_Inr)
    then show ?thesis using grows_length [of 2 t t'] few [OF True] by simp
  next
    case False
    then have "grows 2 t t' \<and> lt_level0 t' = lt_level0 t"
      using assms(3,4)
      by (cases op) (auto simp: not_version_def grows_def lsm_sync_def cached_reader_def try_bind_Inr split: option.splits)
    then show ?thesis using assms(2) by simp
  qed
qed

lemma lsm_run_append: "lsm_run env (xs @ ys) t = try_bind (lsm_run env xs t) (lsm_run env ys)"
  by (induction xs arbitrary: t) (simp_all add: try_bind_def split: sum.splits)

lemma run_grows:
  assumes "lt_config t = lsm_config_throughput" "length (lt_level0 t) \<le> 33" "\<forall>op \<in> set ops. not_version op"
    "lsm_run env ops t = Inr t'"
  shows "lt_config t' = lsm_config_throughput \<and> lt_level1 t' = lt_level1 t \<and> (\<exists>xs. lt_level0 t' = lt_level0 t @ xs) \<and>
    length (lt_level0 t') \<le> 33"
  using assms
proof (induction ops arbitrary: t)
  case (Cons op ops)
  obtain t1 where t1: "lsm_step env op t = Inr t1" "lsm_run env ops t1 = Inr t'"
    using Cons.prems by (auto simp: try_bind_Inr)
  have g: "grows 2 t t1" "length (lt_level0 t1) \<le> 33" using step_grows [OF Cons.prems(1,2) _ t1(1)] Cons.prems(3) by auto
  then have "lt_config t1 = lsm_config_throughput" using Cons.prems(1) by (simp add: grows_def)
  from Cons.IH [OF this g(2) _ t1(2)] show ?case using Cons.prems(3) g(1) by (auto simp: grows_def)
qed auto

section \<open>Properties\<close>

text \<open>
  C11. A deleted key reads as absent: on a healthy tree with room and without a compaction,
  deleting a key succeeds, afterwards the key reads as absent although older copies or versions
  remain in the table files, and the answer of the delete says whether a live value existed.
  No version of the key may carry the largest timestamp, where the tombstone's timestamp
  saturates.
\<close>

theorem lsm_delete_get:
  assumes "lsm_durable t" and "lsm_inv env t" and "key_ok k" and "active_room k t"
    and "length (lt_level0 t) < st_l0_stop_trigger (lc_write_stall (lt_config t))"
    and "length (lt_level0 t) + 1 < lc_l0_compaction_trigger (lt_config t)"
    and "0 < lc_max_mem_bytes (lt_config t)" and "key_clean k (lsm_entries env t)"
    and "\<forall>v \<in> set (versions_in k (lsm_entries env t)). ver_commit_ts v \<noteq> - 1"
  shows "\<exists>b t'. lsm_delete env k t = Inr (b, t') \<and> lsm_get env k t' = Inr None \<and>
    (b \<longleftrightarrow> lsm_get env k t \<noteq> Inr None)"
proof -
  have ne: "k \<noteq> []" and len: "length k + 8 < 2 ^ 16" "length k + 39 < 2 ^ 32"
    using assms(3,4) by (simp_all add: key_ok_def active_room_def)
  obtain n where n: "next_sst_id (lt_sst_dir t) 0 = Inr n" using assms(4) by (auto simp: active_room_def)
  obtain t1 removed where f: "lsm_log (entry_delete k) t = Inr (t1\<lparr>lt_active := lt_active t\<rparr>)"
    "memtable_delete k (lt_active t) = Inr (removed, lt_active t1)" "lsm_durable t1" "lsm_inv env t1"
    "mt_map (lt_active t1) = bt_remove k (mt_map (lt_active t))" "lt_level0 t1 = lt_level0 t"
    "lt_sst_dir t1 = lt_sst_dir t" "lt_config t1 = lt_config t" "tables env t1 = tables env t"
    using delete_flow [OF assms(1,2) ne len(2)] by blast
  have srt: "bt_sorted (mt_map (lt_active t))" using assms(2) by (simp add: lsm_inv_def memtable_inv_def)
  have act: "bt_get (mt_map (lt_active t1)) k = None" using srt by (simp add: f(5) bt_get_remove)
  have sub: "set (lsm_entries env t1) \<subseteq> set (lsm_entries env t)"
    using set_bt_remove [of k "mt_map (lt_active t)"] by (auto simp: lsm_entries_def sources_def f(5,9))
  have clean: "key_clean k (lsm_entries env t1)" using key_clean_subset [OF assms(8) sub] .
  have rem: "removed \<longleftrightarrow> bt_get (mt_map (lt_active t)) k \<noteq> None"
    using f(2) ne by (auto simp: memtable_delete_eq split: option.splits)
  let ?r = "version_cell (newest_visible latest_view (versions_in k (lsm_entries env t1)))"
  have r: "lsm_get env k t1 = Inr ?r" using get_without_active [OF f(4) assms(3) clean act] .
  have live: "lsm_get env k t \<noteq> Inr None \<longleftrightarrow> removed \<or> ?r \<noteq> None"
    using delete_live [OF assms(2,3,8) f(5,9)] rem by simp
  note del = lsm_delete_eq [OF assms(5) f(1,2), of env]
  show ?thesis
  proof (cases "?r = None")
    case True
    have "table_fits (mt_map (lt_active t1))" unfolding f(5) by (rule table_fits_remove [OF assms(4)])
    from maybe_flush_spec [OF f(3,4) this, of n] obtain t' where
      t': "maybe_flush_and_compact env t1 = Inr t'" "lsm_inv env t'" "lsm_entries env t' = lsm_entries env t1"
      "if lc_max_mem_bytes (lt_config t1) \<le> approx_bytes (lt_active t1) then lt_active t' = memtable_new else t' = t1"
      using n assms(6) f by auto
    have "lsm_get env k t' = Inr None"
      using delete_absent [OF f(4) assms(3) clean act _ t'(2,3)] r True t'(4) by (auto split: if_splits)
    moreover have "lsm_delete env k t = Inr (removed, t')" unfolding del using r True t'(1) by simp
    ultimately show ?thesis using live True by auto
  next
    case False
    then obtain b where b: "newest_visible latest_view (versions_in k (lsm_entries env t1)) = Some b"
      by (cases "newest_visible latest_view (versions_in k (lsm_entries env t1))") (auto simp: version_cell_def)
    note nb = newest_visible_Some [OF b]
    define ts where "ts = saturating_succ (ver_commit_ts b)"
    have "b \<in> set (versions_in k (lsm_entries env t))" using nb sub unfolding set_versions_in by blast
    then have bmax: "ver_commit_ts b \<noteq> - 1" using assms(9) by blast
    then have bts: "ts \<noteq> 0" using saturating_succ_less by (simp add: ts_def)
    have new: "ver_commit_ts v < ts" if "v \<in> set (versions_in k (lsm_entries env t1))" for v
      unfolding ts_def using newest_below_succ [OF b] that bmax by simp
    have "table_fits (bt_insert (encode_internal_key k ts) val (mt_map (lt_active t1)))" if "length val = 18" for val
      unfolding f(5) using that by (intro table_fits_insert [OF assms(4)]) (simp_all add: encode_internal_key_def)
    from delete_tombstone [OF f(3,4) assms(3) len(1) clean act bts new this, of n] obtain t' where
      t': "lsm_put_version env k (version_tombstone ts) t1 = Inr t'" "maybe_flush_and_compact env t' = Inr t'"
      "lsm_get env k t' = Inr None"
      using n assms(6,7) f by auto
    have "find_visible_version env k latest_view t1 = Inr (Some b)"
      using find_visible_spec [OF f(4) assms(3) key_clean_decodable [OF clean]] b by simp
    then have "lsm_delete env k t = Inr (True, t')" unfolding del using r False t' by (simp add: ts_def)
    then show ?thesis using t'(3) live False by auto
  qed
qed

text \<open>A fresh tree with one put, whose key is then deleted.\<close>

theorem lsm_delete_get_witness:
  "\<exists>t0 t b t'. lsm_open lsm_config_default \<lparr>wd_files = [], wd_current = None\<rparr> []
      \<lparr>ad_tmp = None, ad_target = None\<rparr> = Inr t0 \<and> lsm_put env0 [1] [2] t0 = Inr t \<and>
    lsm_delete env0 [1] t = Inr (b, t') \<and> b \<and> lsm_get env0 [1] t' = Inr None"
proof -
  have mode: "lc_wal_sync lsm_config_default = EveryAppend" by (simp add: lsm_config_default_def)
  obtain t0 where t0: "lsm_open lsm_config_default \<lparr>wd_files = [], wd_current = None\<rparr> []
      \<lparr>ad_tmp = None, ad_target = None\<rparr> = Inr t0" "lsm_durable t0" "lt_config t0 = lsm_config_default"
    using lsm_open_fresh [OF mode] by blast
  have e: "lt_active t0 = memtable_new" "lt_level0 t0 = []" "lt_level1 t0 = []" "lt_sst_dir t0 = []" "lt_sst_cache t0 = []"
    using t0(1) by (auto simp: lsm_open_def replay_all_def manifest_load_def try_bind_Inr list_sst_level_def)
  let ?a = "\<lparr>mt_map = [([1], [2])], mt_bytes = 2\<rparr> :: memtable"
  have fits: "entry_fits (entry_put [1] [2])" by (simp add: entry_fits_def entry_ok_def entry_put_def)
  have "memtable_put [1] [2] (lt_active t0) = Inr ?a"
    by (simp add: e memtable_put_eq memtable_new_def entry_bytes_def bt_get_def)
  from lsm_put_no_flush [OF t0(2) fits _ this, of env0] obtain t where
    t: "lsm_put env0 [1] [2] t0 = Inr t" "lt_active t = ?a" "lt_level0 t = []" "lt_level1 t = []" "lt_sst_dir t = []"
      "lt_config t = lsm_config_default" "lt_sst_cache t = []"
    by (auto simp: t0(3) e lsm_config_default_def stall_default_def approx_bytes_def DEFAULT_MAX_MEM_BYTES_def)
  have "lsm_durable t" using lsm_run_durable [OF t0(2), of "[OpPut [1] [2]]" env0 t] fits t(1) by simp
  moreover have inv: "lsm_inv env0 t" and ent: "lsm_entries env0 t = [([1], [2])]"
    using t by (simp_all add: lsm_inv_def lsm_paths_def lsm_entries_def sources_def tables_def memtable_inv_def bt_sorted_def
        entry_bytes_def)
  moreover have clean: "key_clean [1] (lsm_entries env0 t)"
    by (simp add: ent key_clean_def starts_with_def MVCC_MAGIC_def decode_user_key_def)
  moreover have "active_room [1] t"
    using t by (simp add: active_room_def kv_fits_def next_sst_id_def)
  moreover have "versions_in [1] (lsm_entries env0 t) = [version_put 1 [2]]"
    by (simp add: ent versions_in_def key_matches_def decode_or_legacy_def starts_with_def MVCC_MAGIC_def oks_def)
  moreover have k: "key_ok [1]" by (simp add: key_ok_def)
  moreover have "lsm_get env0 [1] t \<noteq> Inr None"
    using lsm_get_spec [OF inv k clean] t(2) by (simp add: bt_get_def)
  ultimately show ?thesis
    using lsm_delete_get [of t env0 "[1]"] t t0(1)
    by (auto simp: lsm_config_default_def stall_default_def L0_COMPACTION_TRIGGER_def DEFAULT_MAX_MEM_BYTES_def version_put_def)
qed

text \<open>
  A put after a delete does not survive a flush: when the newest version of a key is a
  tombstone with a timestamp above 1 and the raw key is not in the active table, a raw put
  succeeds and is read back as long as it stays in the active table, but as soon as the put
  itself flushes the table the key reads as deleted again.
\<close>

theorem lsm_put_after_delete:
  assumes "lsm_durable t" and "lsm_inv env t" and "key_ok k" and "entry_fits (entry_put k v)"
    and "length (lt_level0 t) < st_l0_stop_trigger (lc_write_stall (lt_config t))"
    and "put_room env k v t" and "length (lt_level0 t) + 1 < lc_l0_compaction_trigger (lt_config t)"
    and "key_clean k (lsm_entries env t)" and "\<not> starts_with v MVCC_MAGIC"
    and "b \<in> set (versions_in k (lsm_entries env t))" and "ver_deleted b" and "1 < ver_commit_ts b"
    and "\<forall>w \<in> set (versions_in k (lsm_entries env t)). w \<noteq> b \<longrightarrow> ver_commit_ts w < ver_commit_ts b"
  shows "\<exists>t'. lsm_put env k v t = Inr t' \<and> lsm_get env k t' = Inr (if put_flushes k v t then None else Some v)"
proof -
  have ne: "k \<noteq> []" using assms(3) by (simp add: key_ok_def)
  have srt: "bt_sorted (mt_map (lt_active t))" using assms(2) by (simp add: lsm_inv_def memtable_inv_def)
  obtain a where a: "memtable_put k v (lt_active t) = Inr a" "mt_map a = bt_insert k v (mt_map (lt_active t))"
    using ne by (simp add: memtable_put_eq)
  obtain t1 where t1: "lsm_put env k v t = maybe_flush_and_compact env t1" "lsm_durable t1" "lsm_inv env t1"
    "lt_active t1 = a" "lt_level0 t1 = lt_level0 t" "lt_sst_dir t1 = lt_sst_dir t"
    "lt_config t1 = lt_config t" "tables env t1 = tables env t"
    using lsm_put_flow [OF assms(1,4) a(1) assms(2,5)] by blast
  obtain n where "next_sst_id (lt_sst_dir t1) 0 = Inr n" "table_fits (mt_map (lt_active t1))"
    using assms(6) t1 a by (auto simp: put_room_def)
  from maybe_flush_spec [OF t1(2,3) this(2,1)] obtain t' where
    t': "maybe_flush_and_compact env t1 = Inr t'" "lsm_inv env t'" "lsm_entries env t' = lsm_entries env t1"
    "if lc_max_mem_bytes (lt_config t1) \<le> approx_bytes (lt_active t1) then lt_active t' = memtable_new else t' = t1"
    using assms(7) t1 by auto
  have ent: "lsm_entries env t' = bt_insert k v (mt_map (lt_active t)) @ concat (tables env t)"
    unfolding t'(3) by (simp add: lsm_entries_def sources_def t1(4,8) a(2))
  have sub: "set (lsm_entries env t') \<subseteq> insert (k, v) (set (lsm_entries env t))"
    using set_bt_insert_subset [of k v "mt_map (lt_active t)"]
    unfolding ent by (auto simp: lsm_entries_def sources_def)
  have "length k - 8 < length k" using ne by (cases k) simp_all
  then have "key_clean k ((k, v) # lsm_entries env t)"
    using assms(8,9) by (simp add: key_clean_def decode_user_key_def)
  then have clean: "key_clean k (lsm_entries env t')" by (rule key_clean_subset) (use sub in simp)
  have flushes: "put_flushes k v t \<longleftrightarrow> lc_max_mem_bytes (lt_config t1) \<le> approx_bytes (lt_active t1)"
    using a(1) t1(4,7) by (simp add: put_flushes_def)
  have "lsm_get env k t' = Inr (if put_flushes k v t then None else Some v)"
  proof (cases "put_flushes k v t")
    case True
    then have act: "bt_get (mt_map (lt_active t')) k = None"
      using t'(4) flushes by (simp add: memtable_new_def bt_get_def)
    have "newest_visible latest_view (versions_in k (lsm_entries env t')) = Some b"
    proof (rule newest_visible_unique)
      show "b \<in> set (versions_in k (lsm_entries env t'))"
        unfolding ent by (rule deleted_version_kept [OF srt assms(8,10,11)])
      show "is_visible latest_view b None" using assms(12) by (auto simp: latest_visible)
      show "ver_commit_ts w < ver_commit_ts b" if w: "w \<in> set (versions_in k (lsm_entries env t'))" "w \<noteq> b" for w
      proof (rule put_version_bound [OF _ assms(12) w(2)])
        show "w = version_put 1 v \<or> w \<in> set (versions_in k (lsm_entries env t))"
          using put_versions_in [OF sub assms(9) w(1)] .
        show "\<And>w. w \<in> set (versions_in k (lsm_entries env t)) \<Longrightarrow> w \<noteq> b \<Longrightarrow> ver_commit_ts w < ver_commit_ts b"
          using assms(13) by blast
      qed
    qed
    then show ?thesis using get_without_active [OF t'(2) assms(3) clean act] True assms(11) by (simp add: version_cell_def)
  next
    case False
    then have "bt_get (mt_map (lt_active t')) k = Some v"
      using t'(4) flushes bt_get_insert [OF srt, of k v k] by (simp add: t1(4) a(2))
    then show ?thesis using lsm_get_spec [OF t'(2) assms(3) clean] False by simp
  qed
  then show ?thesis using t1(1) t'(1) by auto
qed

text \<open>A tree with a small active table: a tombstone for a key, then a put of the key that flushes.\<close>

theorem lsm_put_after_delete_witness:
  "\<exists>t t'. find_visible_version env0 [1] latest_view t = Inr (Some (version_tombstone 2)) \<and>
    lsm_put env0 [1] [2] t = Inr t' \<and> lsm_get env0 [1] t' = Inr None"
proof -
  let ?c = "lsm_config_default\<lparr>lc_max_mem_bytes := 28\<rparr>" and ?v = "version_tombstone 2"
  let ?ik = "encode_internal_key [1] 2"
  have mode: "lc_wal_sync ?c = EveryAppend" by (simp add: lsm_config_default_def)
  obtain t0 where t0: "lsm_open ?c \<lparr>wd_files = [], wd_current = None\<rparr> []
      \<lparr>ad_tmp = None, ad_target = None\<rparr> = Inr t0" "lsm_durable t0" "lt_config t0 = ?c"
    using lsm_open_fresh [OF mode] by blast
  have e: "lt_active t0 = memtable_new" "lt_level0 t0 = []" "lt_level1 t0 = []" "lt_sst_dir t0 = []" "lt_sst_cache t0 = []"
    using t0(1) by (auto simp: lsm_open_def replay_all_def manifest_load_def try_bind_Inr list_sst_level_def)
  have inv0: "lsm_inv env0 t0" and tab0: "tables env0 t0 = []"
    by (simp_all add: lsm_inv_def lsm_paths_def e tables_def memtable_new_def memtable_inv_def)
  obtain val where val: "encode_version ?v = Inr val" "length val = 18"
    by (simp add: encode_version_def version_tombstone_def MVCC_MAGIC_def)
  have dec: "decode_version val = Inr ?v" "starts_with val MVCC_MAGIC"
    using decode_encode_version [OF val(1)] by (simp_all add: version_tombstone_def)
  have "version_fits [1] ?v" by (simp add: version_fits_def version_tombstone_def)
  from put_version_flow [OF t0(2) inv0 val(1) this] obtain t where
    t: "lsm_durable t" "lsm_inv env0 t" "mt_map (lt_active t) = [(?ik, val)]" "lt_level0 t = []" "lt_sst_dir t = []"
      "lt_config t = ?c" "tables env0 t = []"
    by (auto simp: e t0(3) tab0 memtable_new_def version_tombstone_def)
  have ent: "lsm_entries env0 t = [(?ik, val)]" by (simp add: lsm_entries_def sources_def t)
  have ik: "length ?ik = 9" "decode_user_key ?ik = [1]" by (simp_all add: encode_internal_key_def decode_user_key_def)
  then have "?ik \<noteq> [1]" by (metis One_nat_def length_Cons list.size(3) numeral_eq_one_iff semiring_norm(86))
  note ik = ik this
  have vs: "versions_in [1] (lsm_entries env0 t) = [?v]"
    by (simp add: ent versions_in_def key_matches_def decode_or_legacy_def dec ik oks_def)
  have clean: "key_clean [1] (lsm_entries env0 t)" using dec ik by (simp add: ent key_clean_def version_tombstone_def)
  have k: "key_ok [1]" by (simp add: key_ok_def)
  have "newest_visible latest_view [?v] = Some ?v"
    by (rule newest_visible_unique) (simp_all add: latest_visible version_tombstone_def)
  then have "find_visible_version env0 [1] latest_view t = Inr (Some ?v)"
    using find_visible_spec [OF t(2) k key_clean_decodable [OF clean]] vs by simp
  moreover have ins: "bt_insert [1] [2] (mt_map (lt_active t)) = [([1], [2]), (?ik, val)]"
    using length_u64_to_be [of "- 3"] by (cases "u64_to_be (- 3)") (simp_all add: t(3) encode_internal_key_def)
  have "put_room env0 [1] [2] t"
    unfolding put_room_def ins using ik val(2)
    by (simp add: t table_fits_def entries_fit_def kv_fits_def next_sst_id_def tables_small_def)
  moreover have "put_flushes [1] [2] t"
    using t(2) ik val(2) by (simp add: put_flushes_def memtable_put_eq t(3,6) lsm_inv_def memtable_inv_def entry_bytes_def
        approx_bytes_def bt_get_def)
  ultimately show ?thesis
    using lsm_put_after_delete [OF t(1,2) k, of "[2]" ?v] clean vs
    by (auto simp: t entry_fits_def entry_ok_def entry_put_def lsm_config_default_def stall_default_def
        L0_COMPACTION_TRIGGER_def starts_with_def MVCC_MAGIC_def version_tombstone_def)
qed

text \<open>
  C22. The throughput configuration wedges: its compaction trigger (64 tables) lies above the
  stop threshold of its write gate (32 tables). From a tree with at most 33 level-0 tables no
  sequence of puts, batches, deletes, syncs and reads ever compacts; level 0 only grows, it
  never exceeds 33 tables, and once it holds 32 every later put, batch and delete is refused.
\<close>

theorem throughput_never_compacts:
  assumes "lt_config t = lsm_config_throughput" and "length (lt_level0 t) \<le> 33"
    and "\<forall>op \<in> set ops. not_version op" and "lsm_run env ops t = Inr t'"
  shows "lt_level1 t' = lt_level1 t \<and> (\<exists>xs. lt_level0 t' = lt_level0 t @ xs) \<and> length (lt_level0 t') \<le> 33 \<and>
    (32 \<le> length (lt_level0 t) \<longrightarrow> \<not> (\<exists>op \<in> set ops. gated_op op)) \<and>
    (32 \<le> length (lt_level0 t') \<longrightarrow> (\<forall>op. gated_op op \<longrightarrow> lsm_step env op t' =
       Inl (Err (ResourceExhausted ''L0 SST backlog at stop threshold - compaction required''))))"
proof -
  note g = run_grows [OF assms]
  have stop: "st_l0_stop_trigger (lc_write_stall lsm_config_throughput) = 32"
    by (simp add: lsm_config_throughput_def stall_relaxed_def)
  have "\<not> gated_op op" if op: "op \<in> set ops" and full: "32 \<le> length (lt_level0 t)" for op
  proof
    assume gop: "gated_op op"
    obtain pre post where ops: "ops = pre @ op # post" using op by (auto simp: in_set_conv_decomp)
    obtain t1 t2 where run: "lsm_run env pre t = Inr t1" "lsm_step env op t1 = Inr t2"
      using assms(4) unfolding ops lsm_run_append by (auto simp: try_bind_Inr)
    have "lt_config t1 = lsm_config_throughput \<and> (\<exists>xs. lt_level0 t1 = lt_level0 t @ xs)"
      using run_grows [OF assms(1,2) _ run(1)] assms(3) ops by simp
    then have "lsm_step env op t1 \<noteq> Inr t2" using gated_op_refused [OF gop, of t1 env] stop full by auto
    then show False using run(2) by simp
  qed
  then show ?thesis using g gated_op_refused [of _ t' env] stop by auto
qed

text \<open>A tree with 32 level-0 tables refuses a put.\<close>

theorem throughput_never_compacts_witness:
  "\<exists>t0 t. lsm_open lsm_config_default \<lparr>wd_files = [], wd_current = None\<rparr> []
      \<lparr>ad_tmp = None, ad_target = None\<rparr> = Inr t0 \<and>
    t = t0\<lparr>lt_config := lsm_config_throughput, lt_level0 := replicate 32 ''t''\<rparr> \<and>
    lsm_put env0 [1] [2] t = Inl (Err (ResourceExhausted ''L0 SST backlog at stop threshold - compaction required''))"
proof -
  have mode: "lc_wal_sync lsm_config_default = EveryAppend" by (simp add: lsm_config_default_def)
  obtain t0 where t0: "lsm_open lsm_config_default \<lparr>wd_files = [], wd_current = None\<rparr> []
      \<lparr>ad_tmp = None, ad_target = None\<rparr> = Inr t0" using lsm_open_fresh [OF mode] by blast
  define t where "t = t0\<lparr>lt_config := lsm_config_throughput, lt_level0 := replicate 32 ''t''\<rparr>"
  have c: "lt_config t = lsm_config_throughput" "length (lt_level0 t) = 32" by (simp_all add: t_def)
  have run: "lsm_run env0 [] t = Inr t" by simp
  have "\<forall>op. gated_op op \<longrightarrow> lsm_step env0 op t =
      Inl (Err (ResourceExhausted ''L0 SST backlog at stop threshold - compaction required''))"
    using throughput_never_compacts [OF c(1) _ _ run] c(2) by simp
  from this [THEN spec, of "OpPut [1] [2]"] show ?thesis using t0 by (simp add: t_def)
qed

end
