(* ===== verification/Mvcc_Memtable.thy ===== *)
theory Mvcc_Memtable
  imports Mvcc_Key Memtable
begin

text \<open>
  The multi-version memory table (\<^verbatim>\<open>mvcc/memtable.rs\<close>) and its garbage collection (\<^verbatim>\<open>mvcc/gc.rs\<close>).
  Reads are specified against the history of committed writes: a read at a timestamp returns
  the write with the largest commit timestamp not above it.
\<close>

section \<open>State and operations\<close>

record mvcc_memtable =
  mm_data :: "(bytes \<times> version) list"
  mm_intents :: "(bytes \<times> txn_id) list"

definition mvcc_new :: mvcc_memtable where
  "mvcc_new = \<lparr>mm_data = [], mm_intents = []\<rparr>"

definition mvcc_len :: "mvcc_memtable \<Rightarrow> nat" where
  "mvcc_len t = length (mm_data t)"

definition mvcc_put :: "bytes \<Rightarrow> bytes \<Rightarrow> commit_ts \<Rightarrow> mvcc_memtable \<Rightarrow> mvcc_memtable" where
  "mvcc_put user_key value ts t =
     (let ik = encode_internal_key user_key ts
      in t\<lparr>mm_intents := bt_remove ik (mm_intents t),
           mm_data := bt_insert ik (version_put ts value) (mm_data t)\<rparr>)"

definition mvcc_delete :: "bytes \<Rightarrow> commit_ts \<Rightarrow> mvcc_memtable \<Rightarrow> mvcc_memtable" where
  "mvcc_delete user_key ts t =
     (let ik = encode_internal_key user_key ts
      in t\<lparr>mm_intents := bt_remove ik (mm_intents t),
           mm_data := bt_insert ik (version_tombstone ts) (mm_data t)\<rparr>)"

definition put_intent :: "bytes \<Rightarrow> bytes \<Rightarrow> txn_id \<Rightarrow> mvcc_memtable \<Rightarrow> mvcc_memtable" where
  "put_intent user_key value txn t =
     (let ik = encode_internal_key user_key (- 1)
      in t\<lparr>mm_intents := bt_insert ik txn (mm_intents t),
           mm_data := bt_insert ik (version_intent value) (mm_data t)\<rparr>)"

definition delete_intent :: "bytes \<Rightarrow> txn_id \<Rightarrow> mvcc_memtable \<Rightarrow> mvcc_memtable" where
  "delete_intent user_key txn t =
     (let ik = encode_internal_key user_key (- 1)
      in t\<lparr>mm_intents := bt_insert ik txn (mm_intents t),
           mm_data := bt_insert ik version_delete_intent (mm_data t)\<rparr>)"

definition abort_intents :: "txn_id \<Rightarrow> mvcc_memtable \<Rightarrow> mvcc_memtable" where
  "abort_intents txn t =
     (let keys = map fst (filter (\<lambda>(_, x). x = txn) (mm_intents t))
      in fold (\<lambda>ik t. t\<lparr>mm_intents := bt_remove ik (mm_intents t),
                        mm_data := bt_remove ik (mm_data t)\<rparr>) keys t)"

text \<open>\<^verbatim>\<open>best.is_none_or(|b| ver.commit_ts > b.commit_ts)\<close>\<close>

definition pick_newer :: "version \<Rightarrow> version option \<Rightarrow> version option" where
  "pick_newer v best =
     (case best of
        None \<Rightarrow> Some v
      | Some b \<Rightarrow> if ver_commit_ts b < ver_commit_ts v then Some v else best)"

definition mvcc_get_version :: "bytes \<Rightarrow> read_view \<Rightarrow> mvcc_memtable \<Rightarrow> fault + version option" where
  "mvcc_get_version user_key view t =
     (case bt_range user_key (user_key_prefix_end user_key) (mm_data t) of
        None \<Rightarrow> Inl Panic
      | Some entries \<Rightarrow>
          Inr (fold (\<lambda>(ik, ver) best.
                 if is_visible view ver (bt_get (mm_intents t) ik) then pick_newer ver best else best)
               (rev entries) None))"

definition mvcc_get :: "bytes \<Rightarrow> read_view \<Rightarrow> mvcc_memtable \<Rightarrow> fault + bytes option" where
  "mvcc_get user_key view t =
     try_bind (mvcc_get_version user_key view t) (\<lambda>r.
       Inr (case r of Some v \<Rightarrow> if ver_deleted v then None else Some (ver_value v) | None \<Rightarrow> None))"

definition mvcc_get_at_ts :: "bytes \<Rightarrow> commit_ts \<Rightarrow> mvcc_memtable \<Rightarrow> fault + bytes option" where
  "mvcc_get_at_ts user_key read_ts t = mvcc_get user_key (read_view_new 0 read_ts {}) t"

definition mvcc_versions :: "bytes \<Rightarrow> mvcc_memtable \<Rightarrow> fault + (commit_ts \<times> version) list" where
  "mvcc_versions user_key t =
     (case bt_range (encode_internal_key user_key (- 1)) (user_key_prefix_end user_key) (mm_data t) of
        None \<Rightarrow> Inl Panic
      | Some entries \<Rightarrow> Inr (map (\<lambda>(_, v). (ver_commit_ts v, v)) entries))"

definition mvcc_user_keys :: "mvcc_memtable \<Rightarrow> bytes list" where
  "mvcc_user_keys t = map fst (fold (\<lambda>(ik, _). bt_insert (decode_user_key ik) ()) (mm_data t) [])"

primrec scan_keys :: "read_view \<Rightarrow> mvcc_memtable \<Rightarrow> bytes list \<Rightarrow> fault + (bytes \<times> bytes) list" where
  "scan_keys view t [] = Inr []"
| "scan_keys view t (key # keys) =
     try_bind (mvcc_get_version key view t) (\<lambda>r.
     try_bind (scan_keys view t keys) (\<lambda>rest.
       Inr (case r of
              None \<Rightarrow> rest
            | Some ver \<Rightarrow> if ver_deleted ver then rest else (key, ver_value ver) # rest)))"

definition mvcc_scan :: "read_view \<Rightarrow> mvcc_memtable \<Rightarrow> fault + (bytes \<times> bytes) list" where
  "mvcc_scan view t = scan_keys view t (mvcc_user_keys t)"

definition mvcc_scan_at_ts :: "commit_ts \<Rightarrow> mvcc_memtable \<Rightarrow> fault + (bytes \<times> bytes) list" where
  "mvcc_scan_at_ts read_ts t = mvcc_scan (read_view_new 0 read_ts {}) t"

definition latest_step ::
  "read_view \<Rightarrow> mvcc_memtable \<Rightarrow> bytes \<Rightarrow> bytes \<Rightarrow> bytes \<times> version \<Rightarrow> (bytes \<times> version) list \<Rightarrow> (bytes \<times> version) list" where
  "latest_step view t start stop e latest =
     (let (ik, ver) = e; user = decode_user_key ik in
      if user < start \<or> (stop \<noteq> [] \<and> stop \<le> user) then latest
      else if \<not> is_visible view ver (bt_get (mm_intents t) ik) then latest
      else
        case bt_get latest user of
          None \<Rightarrow> bt_insert user ver latest
        | Some prev \<Rightarrow> if ver_commit_ts prev < ver_commit_ts ver then bt_insert user ver latest else latest)"

definition latest_in_range ::
  "read_view \<Rightarrow> bytes \<Rightarrow> bytes \<Rightarrow> mvcc_memtable \<Rightarrow> fault + (bytes \<times> version) list" where
  "latest_in_range view start stop t =
     (let guard = stop @ replicate 9 255 in
      case (if stop = [] then Some (bt_range_from start (mm_data t)) else bt_range start guard (mm_data t)) of
        None \<Rightarrow> Inl Panic
      | Some entries \<Rightarrow> Inr (fold (latest_step view t start stop) entries []))"

definition mvcc_scan_range ::
  "read_view \<Rightarrow> bytes \<Rightarrow> bytes \<Rightarrow> mvcc_memtable \<Rightarrow> fault + (bytes \<times> bytes) list" where
  "mvcc_scan_range view start stop t =
     try_bind (latest_in_range view start stop t) (\<lambda>latest.
       Inr (map (\<lambda>(k, ver). (k, ver_value ver)) (filter (\<lambda>(_, ver). \<not> ver_deleted ver) latest)))"

definition mvcc_scan_range_keys ::
  "read_view \<Rightarrow> bytes \<Rightarrow> bytes \<Rightarrow> mvcc_memtable \<Rightarrow> fault + bytes list" where
  "mvcc_scan_range_keys view start stop t =
     try_bind (latest_in_range view start stop t) (\<lambda>latest.
       Inr (map fst (filter (\<lambda>(_, ver). \<not> ver_deleted ver) latest)))"

definition prune_below :: "commit_ts \<Rightarrow> mvcc_memtable \<Rightarrow> nat \<times> mvcc_memtable" where
  "prune_below min_ts t =
     (let keep = (\<lambda>(ik, ver). ver_commit_ts ver = 0 \<or> min_ts \<le> ver_commit_ts ver);
          data = filter keep (mm_data t);
          gone = map fst (filter (\<lambda>e. \<not> keep e) (mm_data t))
      in (length (mm_data t) - length data,
          t\<lparr>mm_data := data, mm_intents := fold bt_remove gone (mm_intents t)\<rparr>))"

record gc_stats =
  gc_versions_pruned :: nat
  gc_min_retain_ts :: commit_ts

definition gc_versions :: "commit_ts \<Rightarrow> mvcc_memtable \<Rightarrow> gc_stats \<times> mvcc_memtable" where
  "gc_versions min_retain_ts t =
     (let (pruned, t') = prune_below min_retain_ts t
      in (\<lparr>gc_versions_pruned = pruned, gc_min_retain_ts = min_retain_ts\<rparr>, t'))"

section \<open>Invariant\<close>

text \<open>
  Keys ascending; every record is a committed version under its own timestamp, or an intent
  under the largest timestamp that has an owner.
\<close>

definition mvcc_inv :: "mvcc_memtable \<Rightarrow> bool" where
  "mvcc_inv t \<longleftrightarrow> bt_sorted (mm_data t) \<and> bt_sorted (mm_intents t) \<and>
     (\<forall>ik v. bt_get (mm_data t) ik = Some v \<longrightarrow>
        ver_commit_ts v \<noteq> 0 \<and> (\<exists>k. ik = encode_internal_key k (ver_commit_ts v)) \<or>
        ver_commit_ts v = 0 \<and> (\<exists>k. ik = encode_internal_key k (- 1)) \<and> bt_get (mm_intents t) ik \<noteq> None) \<and>
     (\<forall>ik. bt_get (mm_intents t) ik \<noteq> None \<longrightarrow> (\<exists>v. bt_get (mm_data t) ik = Some v \<and> ver_commit_ts v = 0))"

lemma mvcc_inv_new: "mvcc_inv mvcc_new"
  by (simp add: mvcc_inv_def mvcc_new_def bt_get_def)

lemma mvcc_inv_put: "mvcc_inv t \<Longrightarrow> ts \<noteq> 0 \<Longrightarrow> mvcc_inv (mvcc_put k v ts t)"
  unfolding mvcc_inv_def mvcc_put_def Let_def
  by (auto simp: bt_sorted_insert bt_sorted_remove bt_get_insert bt_get_remove version_put_def)

lemma mvcc_inv_delete: "mvcc_inv t \<Longrightarrow> ts \<noteq> 0 \<Longrightarrow> mvcc_inv (mvcc_delete k ts t)"
  unfolding mvcc_inv_def mvcc_delete_def Let_def
  by (auto simp: bt_sorted_insert bt_sorted_remove bt_get_insert bt_get_remove version_tombstone_def)

lemma mvcc_inv_put_intent: "mvcc_inv t \<Longrightarrow> mvcc_inv (put_intent k v txn t)"
  unfolding mvcc_inv_def put_intent_def Let_def
  by (auto simp: bt_sorted_insert bt_get_insert version_intent_def)

lemma mvcc_inv_delete_intent: "mvcc_inv t \<Longrightarrow> mvcc_inv (delete_intent k txn t)"
  unfolding mvcc_inv_def delete_intent_def Let_def
  by (auto simp: bt_sorted_insert bt_get_insert version_delete_intent_def)

lemma mvcc_inv_remove:
  "mvcc_inv t \<Longrightarrow> mvcc_inv (t\<lparr>mm_intents := bt_remove ik (mm_intents t), mm_data := bt_remove ik (mm_data t)\<rparr>)"
  unfolding mvcc_inv_def by (auto simp: bt_sorted_remove bt_get_remove)

lemma mvcc_inv_abort: "mvcc_inv t \<Longrightarrow> mvcc_inv (abort_intents txn t)"
proof -
  have "mvcc_inv t \<Longrightarrow> mvcc_inv (fold (\<lambda>ik t. t\<lparr>mm_intents := bt_remove ik (mm_intents t),
      mm_data := bt_remove ik (mm_data t)\<rparr>) keys t)" for keys
    by (induction keys arbitrary: t) (simp_all add: mvcc_inv_remove)
  then show "mvcc_inv t \<Longrightarrow> mvcc_inv (abort_intents txn t)" by (simp add: abort_intents_def Let_def)
qed

section \<open>The newest version of a list\<close>

definition newest :: "version list \<Rightarrow> version option" where
  "newest vs = fold pick_newer vs None"

lemma pick_newer_None [simp]: "pick_newer v None = Some v"
  by (simp add: pick_newer_def)

lemma fold_pick_newer:
  "fold pick_newer vs (Some b) = Some w \<Longrightarrow>
     w \<in> insert b (set vs) \<and> (\<forall>u \<in> insert b (set vs). ver_commit_ts u \<le> ver_commit_ts w)"
  by (induction vs arbitrary: b) (force simp: pick_newer_def split: if_splits)+

lemma fold_pick_newer_Some: "\<exists>w. fold pick_newer vs (Some b) = Some w"
  by (induction vs arbitrary: b) (auto simp: pick_newer_def)

lemma newest_spec:
  "case newest vs of
     None \<Rightarrow> vs = []
   | Some w \<Rightarrow> w \<in> set vs \<and> (\<forall>u \<in> set vs. ver_commit_ts u \<le> ver_commit_ts w)"
proof (cases vs)
  case (Cons v vs')
  obtain w where "fold pick_newer vs' (Some v) = Some w" using fold_pick_newer_Some by blast
  with fold_pick_newer [OF this] show ?thesis by (simp add: newest_def Cons)
qed (simp add: newest_def)

lemma fold_filter_pick:
  "fold (\<lambda>(ik, v) best. if P ik v then pick_newer v best else best) es b =
     fold pick_newer (map snd (filter (\<lambda>(ik, v). P ik v) es)) b"
  by (induction es arbitrary: b) auto

section \<open>Visible versions\<close>

definition version_of :: "mvcc_memtable \<Rightarrow> read_view \<Rightarrow> bytes \<Rightarrow> version \<Rightarrow> bool" where
  "version_of t view k v \<longleftrightarrow>
     (\<exists>ik. (ik, v) \<in> set (mm_data t) \<and> decode_user_key ik = k \<and> is_visible view v (bt_get (mm_intents t) ik))"

text \<open>\<open>r\<close> is the newest visible version of \<open>k\<close>, or none exists.\<close>

definition is_latest :: "mvcc_memtable \<Rightarrow> read_view \<Rightarrow> bytes \<Rightarrow> version option \<Rightarrow> bool" where
  "is_latest t view k r \<longleftrightarrow>
     (case r of
        None \<Rightarrow> \<forall>v. \<not> version_of t view k v
      | Some v \<Rightarrow> version_of t view k v \<and> (\<forall>u. version_of t view k u \<longrightarrow> ver_commit_ts u \<le> ver_commit_ts v))"

lemma is_latest_newest:
  assumes "\<And>v. v \<in> set vs \<longleftrightarrow> version_of t view k v"
  shows "is_latest t view k (newest vs)"
proof (cases "newest vs")
  case None
  then have "vs = []" using newest_spec [of vs] by simp
  then show ?thesis using assms by (simp add: is_latest_def None newest_def)
next
  case (Some w)
  then show ?thesis using newest_spec [of vs] assms by (simp add: is_latest_def)
qed

lemma mvcc_inv_entry:
  assumes "mvcc_inv t" "(ik, v) \<in> set (mm_data t)"
  shows "ver_commit_ts v \<noteq> 0 \<and> (\<exists>k. ik = encode_internal_key k (ver_commit_ts v)) \<or>
        ver_commit_ts v = 0 \<and> (\<exists>k. ik = encode_internal_key k (- 1)) \<and> bt_get (mm_intents t) ik \<noteq> None"
proof -
  have srt: "bt_sorted (mm_data t)" using assms(1) by (simp add: mvcc_inv_def)
  have "bt_get (mm_data t) ik = Some v" using assms(2) bt.in_entries_iff [OF srt] by simp
  with assms(1) [unfolded mvcc_inv_def, THEN conjunct2, THEN conjunct2, THEN conjunct1, rule_format]
  show ?thesis by blast
qed

text \<open>Versions of one key with the same timestamp are the same, so the newest is unique.\<close>

lemma version_of_unique:
  assumes inv: "mvcc_inv t" and "version_of t view k u" "version_of t view k v"
    and eq: "ver_commit_ts u = ver_commit_ts v"
  shows "u = v"
proof -
  obtain iu iv where i: "(iu, u) \<in> set (mm_data t)" "decode_user_key iu = k"
      "(iv, v) \<in> set (mm_data t)" "decode_user_key iv = k"
    using assms(2,3) by (auto simp: version_of_def)
  have "\<exists>k'. ik = encode_internal_key k' (if ver_commit_ts w = 0 then - 1 else ver_commit_ts w)"
    if "(ik, w) \<in> set (mm_data t)" for ik w
    using mvcc_inv_entry [OF inv that] by auto
  from this [OF i(1)] this [OF i(3)] have "iu = iv" using i(2,4) eq by auto
  moreover have srt: "bt_sorted (mm_data t)" using inv by (simp add: mvcc_inv_def)
  have "bt_get (mm_data t) iu = Some u" "bt_get (mm_data t) iv = Some v"
    using i bt.in_entries_iff [OF srt] by simp_all
  ultimately show ?thesis by simp
qed

lemma is_latest_unique:
  assumes inv: "mvcc_inv t" and "is_latest t view k r" "is_latest t view k r'"
  shows "r = r'"
proof (cases r; cases r')
  fix u v assume "r = Some u" "r' = Some v"
  with assms show ?thesis using version_of_unique [OF inv, of view k u v]
    by (auto simp: is_latest_def intro: order_antisym)
qed (use assms(2,3) in \<open>auto simp: is_latest_def\<close>)

section \<open>Point reads\<close>

text \<open>
  \<^verbatim>\<open>get_version\<close> does not compare the user key of what it finds. It is exact for a key that is no
  prefix of an internal key of another user key.
\<close>

definition key_isolated :: "bytes \<Rightarrow> mvcc_memtable \<Rightarrow> bool" where
  "key_isolated k t \<longleftrightarrow> (\<forall>(ik, _) \<in> set (mm_data t). starts_with ik k \<longrightarrow> decode_user_key ik = k)"

lemma decode_user_key_starts:
  assumes "mvcc_inv t" "(ik, v) \<in> set (mm_data t)"
  shows "starts_with ik (decode_user_key ik)" "\<exists>s. length s = 8 \<and> ik = decode_user_key ik @ s"
proof -
  obtain k ts where "ik = encode_internal_key k ts" using mvcc_inv_entry [OF assms] by blast
  then show "starts_with ik (decode_user_key ik)" "\<exists>s. length s = 8 \<and> ik = decode_user_key ik @ s"
    by (simp_all add: encode_internal_key_def starts_with_iff decode_user_key_def)
qed

lemma mvcc_get_version_latest:
  assumes inv: "mvcc_inv t" and iso: "key_isolated k t" and k: "\<not> set k \<subseteq> {255}"
  shows "\<exists>r. mvcc_get_version k view t = Inr r \<and> is_latest t view k r"
proof -
  have range: "bt_range k (user_key_prefix_end k) (mm_data t) = Some (filter (\<lambda>(ik, _). starts_with ik k) (mm_data t))"
  proof -
    have eq: "starts_with ik k \<longleftrightarrow> k \<le> ik \<and> ik < user_key_prefix_end k" for ik
      using starts_with_range [OF k] by (simp add: user_key_prefix_end_def prefix_end_def)
    then have "k < user_key_prefix_end k" using eq [of k] by (simp add: starts_with_iff)
    then show ?thesis by (simp add: bt_range_def eq)
  qed
  let ?vis = "\<lambda>ik v. is_visible view v (bt_get (mm_intents t) ik)"
  let ?es = "rev (filter (\<lambda>(ik, _). starts_with ik k) (mm_data t))"
  have "mvcc_get_version k view t = Inr (newest (map snd (filter (\<lambda>(ik, v). ?vis ik v) ?es)))"
    by (simp add: mvcc_get_version_def range newest_def fold_filter_pick [of ?vis])
  moreover have "starts_with ik k \<longleftrightarrow> decode_user_key ik = k" if "(ik, v) \<in> set (mm_data t)" for ik v
    using iso that decode_user_key_starts(1) [OF inv that] unfolding key_isolated_def by blast
  then have "filter (\<lambda>(ik, _). starts_with ik k) (mm_data t) = filter (\<lambda>(ik, _). decode_user_key ik = k) (mm_data t)"
    by (intro filter_cong) auto
  then have "v \<in> set (map snd (filter (\<lambda>(ik, v). ?vis ik v) ?es)) \<longleftrightarrow> version_of t view k v" for v
    by (simp only:) (force simp: version_of_def)
  ultimately show ?thesis using is_latest_newest by blast
qed

section \<open>Histories of committed writes\<close>

type_synonym commit = "bytes \<times> commit_ts \<times> bytes option"

definition mvcc_apply :: "commit \<Rightarrow> mvcc_memtable \<Rightarrow> mvcc_memtable" where
  "mvcc_apply w t =
     (let (k, ts, op) = w in case op of Some v \<Rightarrow> mvcc_put k v ts t | None \<Rightarrow> mvcc_delete k ts t)"

definition mvcc_run :: "commit list \<Rightarrow> mvcc_memtable" where
  "mvcc_run hist = fold mvcc_apply hist mvcc_new"

text \<open>The specification of a read: of the writes on \<open>k\<close> up to \<open>t\<close>, the newest (the last one on a tie).\<close>

definition read_step :: "bytes \<Rightarrow> commit_ts \<Rightarrow> commit \<Rightarrow> (commit_ts \<times> bytes option) option \<Rightarrow>
    (commit_ts \<times> bytes option) option" where
  "read_step k t w best =
     (let (k', ts, op) = w in
      if k' = k \<and> ts \<le> t \<and> (case best of None \<Rightarrow> True | Some (b, _) \<Rightarrow> b \<le> ts) then Some (ts, op) else best)"

definition read_spec :: "commit list \<Rightarrow> bytes \<Rightarrow> commit_ts \<Rightarrow> (commit_ts \<times> bytes option) option" where
  "read_spec hist k t = fold (read_step k t) hist None"

definition op_version :: "commit_ts \<Rightarrow> bytes option \<Rightarrow> version" where
  "op_version ts op = (case op of Some v \<Rightarrow> version_put ts v | None \<Rightarrow> version_tombstone ts)"

definition last_op :: "commit list \<Rightarrow> bytes \<Rightarrow> commit_ts \<Rightarrow> bytes option option" where
  "last_op hist k ts = map_of (rev (map (\<lambda>(k, ts, op). ((k, ts), op)) hist)) (k, ts)"

lemma op_version_ts [simp]: "ver_commit_ts (op_version ts op) = ts"
  by (cases op) (simp_all add: op_version_def version_put_def version_tombstone_def)

lemma mvcc_apply_eq:
  "mvcc_apply (k, ts, op) t =
     t\<lparr>mm_intents := bt_remove (encode_internal_key k ts) (mm_intents t),
       mm_data := bt_insert (encode_internal_key k ts) (op_version ts op) (mm_data t)\<rparr>"
  by (cases op) (simp_all add: mvcc_apply_def mvcc_put_def mvcc_delete_def op_version_def Let_def)

lemma mvcc_run_spec:
  assumes "\<forall>(k, ts, op) \<in> set hist. ts \<noteq> 0"
  shows "mvcc_inv (mvcc_run hist) \<and> mm_intents (mvcc_run hist) = [] \<and>
    (\<forall>k ts. bt_get (mm_data (mvcc_run hist)) (encode_internal_key k ts) =
      map_option (op_version ts) (last_op hist k ts)) \<and>
    (\<forall>ik. bt_get (mm_data (mvcc_run hist)) ik \<noteq> None \<longrightarrow> (\<exists>k ts op. (k, ts, op) \<in> set hist \<and> ik = encode_internal_key k ts))"
  using assms
proof (induction hist rule: rev_induct)
  case Nil
  then show ?case by (simp add: mvcc_run_def mvcc_inv_new last_op_def) (simp add: mvcc_new_def)
next
  case (snoc w hist)
  obtain k ts op where w: "w = (k, ts, op)" by (cases w)
  have run: "mvcc_run (hist @ [w]) = mvcc_apply w (mvcc_run hist)" by (simp add: mvcc_run_def)
  have IH: "mvcc_inv (mvcc_run hist)" "mm_intents (mvcc_run hist) = []"
    "\<forall>k ts. bt_get (mm_data (mvcc_run hist)) (encode_internal_key k ts) = map_option (op_version ts) (last_op hist k ts)"
    "\<forall>ik. bt_get (mm_data (mvcc_run hist)) ik \<noteq> None \<longrightarrow> (\<exists>k ts op. (k, ts, op) \<in> set hist \<and> ik = encode_internal_key k ts)"
    using snoc by auto
  have srt: "bt_sorted (mm_data (mvcc_run hist))" using IH(1) by (simp add: mvcc_inv_def)
  have "ts \<noteq> 0" using snoc.prems by (simp add: w)
  then have "mvcc_inv (mvcc_apply w (mvcc_run hist))"
    using IH(1) by (simp add: w mvcc_apply_def mvcc_inv_put mvcc_inv_delete split: option.split)
  moreover have "mm_intents (mvcc_apply w (mvcc_run hist)) = []"
    by (simp add: w mvcc_apply_eq IH(2) bt_remove_def)
  ultimately show ?case
    unfolding run using IH(3,4) srt by (auto simp: w mvcc_apply_eq bt_get_insert last_op_def) blast
qed

lemma last_op_snoc:
  "last_op (hist @ [(k', ts', op')]) k ts = (if k = k' \<and> ts = ts' then Some op' else last_op hist k ts)"
  by (auto simp: last_op_def)

lemma read_spec_spec:
  "case read_spec hist k t of
     None \<Rightarrow> \<forall>ts \<le> t. last_op hist k ts = None
   | Some (ts, op) \<Rightarrow> ts \<le> t \<and> last_op hist k ts = Some op \<and>
       (\<forall>ts' \<le> t. last_op hist k ts' \<noteq> None \<longrightarrow> ts' \<le> ts)"
proof (induction hist rule: rev_induct)
  case Nil
  then show ?case by (simp add: read_spec_def last_op_def)
next
  case (snoc w hist)
  obtain k' ts' op' where w: "w = (k', ts', op')" by (cases w)
  define best where "best = read_spec hist k t"
  have step: "read_spec (hist @ [w]) k t = read_step k t w best" by (simp add: read_spec_def best_def)
  note IH = snoc.IH [folded best_def]
  show ?case
  proof (cases "k' = k \<and> ts' \<le> t \<and> (case best of None \<Rightarrow> True | Some (b, _) \<Rightarrow> b \<le> ts')")
    case True
    then have new: "read_spec (hist @ [w]) k t = Some (ts', op')"
      unfolding step by (simp add: read_step_def w)
    have "ts'' \<le> ts'" if "ts'' \<le> t" "last_op hist k ts'' \<noteq> None" for ts''
    proof (cases best)
      case None
      then show ?thesis using IH that by simp
    next
      case (Some bo)
      then obtain b bop where "best = Some (b, bop)" by (cases bo) simp
      then have "ts'' \<le> b" "b \<le> ts'" using IH that True by auto
      then show ?thesis by (rule order_trans)
    qed
    then show ?thesis using True unfolding new by (auto simp: w last_op_snoc)
  next
    case False
    then have old: "read_spec (hist @ [w]) k t = best" unfolding step by (auto simp: read_step_def w)
    show ?thesis
    proof (cases best)
      case None
      then show ?thesis using IH False unfolding old by (auto simp: w last_op_snoc)
    next
      case (Some bo)
      then obtain b bop where best: "best = Some (b, bop)" by (cases bo) simp
      then have "ts' \<le> b" if "k' = k" "ts' \<le> t" using False that by auto
      moreover have "\<not> (k = k' \<and> b = ts')" using False IH best by auto
      ultimately show ?thesis using IH unfolding old best by (auto simp: w last_op_snoc)
    qed
  qed
qed

lemma mvcc_run_latest:
  assumes "\<forall>(k, ts, op) \<in> set hist. ts \<noteq> 0"
  shows "is_latest (mvcc_run hist) (read_view_new 0 t {}) k
    (map_option (\<lambda>(ts, op). op_version ts op) (read_spec hist k t))"
proof -
  note run = mvcc_run_spec [OF assms]
  have srt: "bt_sorted (mm_data (mvcc_run hist))" using run by (simp add: mvcc_inv_def)
  have zero: "last_op hist k 0 = None"
    unfolding last_op_def map_of_eq_None_iff using assms by auto
  have "version_of (mvcc_run hist) (read_view_new 0 t {}) k v \<longleftrightarrow>
      (\<exists>ts \<le> t. \<exists>op. last_op hist k ts = Some op \<and> v = op_version ts op)" (is "?L \<longleftrightarrow> ?R") for v
  proof
    assume ?L
    then obtain ik where ik: "bt_get (mm_data (mvcc_run hist)) ik = Some v" "decode_user_key ik = k"
      "is_visible (read_view_new 0 t {}) v None"
      using bt.in_entries_iff [OF srt] run by (auto simp: version_of_def)
    then obtain ts where "ik = encode_internal_key k ts" using run by force
    moreover from this obtain op where "last_op hist k ts = Some op" "v = op_version ts op"
      using ik(1) run by auto
    ultimately show ?R using ik(3) zero
      by (auto simp: is_visible_def read_view_new_def linorder_not_less split: if_splits)
  next
    assume ?R
    then obtain ts op where op: "ts \<le> t" "last_op hist k ts = Some op" "v = op_version ts op" by blast
    then have "bt_get (mm_data (mvcc_run hist)) (encode_internal_key k ts) = Some v" using run by simp
    moreover have "ts \<noteq> 0" using op(2) zero by auto
    ultimately show ?L using bt.in_entries_iff [OF srt] op run
      by (auto simp: version_of_def is_visible_def read_view_new_def intro!: exI [of _ "encode_internal_key k ts"])
  qed
  then show ?thesis
    using read_spec_spec [where hist = hist and k = k and t = t]
    by (cases "read_spec hist k t") (auto simp: is_latest_def)
qed

lemma mvcc_run_read:
  assumes "\<forall>(k', ts, op) \<in> set hist. ts \<noteq> 0" "\<not> set k \<subseteq> {255}" "key_isolated k (mvcc_run hist)"
  shows "mvcc_get_at_ts k t (mvcc_run hist) =
    Inr (case read_spec hist k t of Some (_, op) \<Rightarrow> op | None \<Rightarrow> None)"
proof -
  note run = mvcc_run_spec [OF assms(1)]
  obtain r where r: "mvcc_get_version k (read_view_new 0 t {}) (mvcc_run hist) = Inr r"
    "is_latest (mvcc_run hist) (read_view_new 0 t {}) k r"
    using mvcc_get_version_latest run assms(2,3) by blast
  then have "r = map_option (\<lambda>(ts, op). op_version ts op) (read_spec hist k t)"
    using is_latest_unique mvcc_run_latest [OF assms(1)] run by blast
  then show ?thesis
    using r(1) by (auto simp: mvcc_get_at_ts_def mvcc_get_def op_version_def version_put_def
        version_tombstone_def split: option.splits)
qed

section \<open>Range scans\<close>





section \<open>Properties\<close>

text \<open>
  C8. Time travel: after any history of committed puts and deletes, reading a key at any
  timestamp returns the value of the newest write on it at or before that timestamp, and
  nothing if that write is a delete or there is none. The key must not consist of 0xff bytes
  only and must not be a prefix of another key's internal key.
\<close>

theorem mvcc_time_travel:
  assumes "\<forall>(k', ts, op) \<in> set hist. ts \<noteq> 0"
    and "\<not> set k \<subseteq> {255}"
    and "\<forall>(k', ts, op) \<in> set hist. starts_with (encode_internal_key k' ts) k \<longrightarrow> k' = k"
  shows "mvcc_get_at_ts k t (mvcc_run hist) =
    Inr (case read_spec hist k t of Some (_, op) \<Rightarrow> op | None \<Rightarrow> None)"
proof -
  note run = mvcc_run_spec [OF assms(1)]
  have srt: "bt_sorted (mm_data (mvcc_run hist))" using run by (simp add: mvcc_inv_def)
  have "key_isolated k (mvcc_run hist)"
    unfolding key_isolated_def
  proof clarify
    fix ik v assume "(ik, v) \<in> set (mm_data (mvcc_run hist))" and pre: "starts_with ik k"
    then have "bt_get (mm_data (mvcc_run hist)) ik \<noteq> None" using bt.in_entries_iff [OF srt] by auto
    then obtain k' ts op where "(k', ts, op) \<in> set hist" "ik = encode_internal_key k' ts" using run by blast
    then show "decode_user_key ik = k" using assms(3) pre by auto
  qed
  then show ?thesis by (rule mvcc_run_read [OF assms(1,2)])
qed

theorem mvcc_time_travel_witness:
  "mvcc_get_at_ts [7] 5 (mvcc_run [([7], 2, Some [20]), ([7], 4, Some [40]), ([7], 6, None)]) = Inr (Some [40])"
  using mvcc_time_travel [of "[([7], 2, Some [20]), ([7], 4, Some [40]), ([7], 6, None)]" "[7]" 5]
  by (simp add: read_spec_def read_step_def)



text \<open>The first byte of an inverted timestamp below \<open>2 ^ 56\<close> is 0xff.\<close>

lemma u64_be_high:
  assumes "ts < 2 ^ 56" "b < 255"
  shows "(b :: u8) # w < u64_to_be (NOT ts)"
proof -
  have "unat ts < 2 ^ 56" using assms(1) by (simp add: word_less_nat_alt)
  then have "unat (NOT ts) div 256 ^ 7 = 255" unfolding unat_not by simp
  with u64_to_be_Cons [of "NOT ts"] obtain r where "u64_to_be (NOT ts) = 255 # r" by auto
  then show ?thesis using assms(2) by simp
qed

lemma mvcc_run_single:
  "ts \<noteq> 0 \<Longrightarrow> mvcc_run [(k, ts, op)] = \<lparr>mm_data = [(encode_internal_key k ts, op_version ts op)], mm_intents = []\<rparr>"
  by (simp add: mvcc_run_def mvcc_apply_eq mvcc_new_def bt_remove_def)

text \<open>
  A point read answers for longer keys: \<open>get_version\<close> takes every internal key in the window
  of the searched key, so on a table that holds only a key extending the searched one, the
  read of the searched key returns the other key's value.
\<close>

theorem mvcc_get_aliases_longer_key:
  assumes "\<not> set k \<subseteq> {255}" and "ts \<noteq> 0" and "ts \<le> t"
  shows "mvcc_get_at_ts k t (mvcc_run [(k @ x, ts, Some v)]) = Inr (Some v)"
proof -
  let ?ik = "encode_internal_key (k @ x) ts"
  have "starts_with ?ik k" by (simp add: encode_internal_key_def starts_with_iff)
  then have w: "k \<le> ?ik" "?ik < user_key_prefix_end k"
    using starts_with_range [OF assms(1)] by (simp_all add: user_key_prefix_end_def prefix_end_def)
  then have "\<not> user_key_prefix_end k < k" by (meson order.strict_trans1 less_asym)
  with w assms(2,3) show ?thesis
    by (simp add: mvcc_run_single mvcc_get_at_ts_def mvcc_get_def mvcc_get_version_def bt_range_def
        is_visible_def read_view_new_def op_version_def version_put_def linorder_not_less)
qed

theorem mvcc_get_aliases_longer_key_witness:
  "mvcc_get_at_ts [7] 5 (mvcc_run [([7] @ [1], 2, Some [20])]) = Inr (Some [20])"
  using mvcc_get_aliases_longer_key [of "[7]" 2 5 "[1]" "[20]"] by simp

text \<open>
  What garbage collection keeps: pruning the table of a history below a timestamp gives
  exactly the table of the writes at or above it. A key whose newest write is older than the
  bound is gone for every later reader, although that write is its live value.
\<close>

theorem prune_below_keeps:
  assumes "\<forall>(k, ts, op) \<in> set hist. ts \<noteq> 0"
  shows "snd (prune_below m (mvcc_run hist)) = mvcc_run (filter (\<lambda>(_, ts, _). m \<le> ts) hist) \<and>
    gc_versions_pruned (fst (gc_versions m (mvcc_run hist))) =
      mvcc_len (mvcc_run hist) - mvcc_len (mvcc_run (filter (\<lambda>(_, ts, _). m \<le> ts) hist))"
proof -
  let ?h = "filter (\<lambda>(_, ts, _). m \<le> ts) hist"
  let ?keep = "\<lambda>(ik :: bytes, ver). ver_commit_ts ver = 0 \<or> m \<le> ver_commit_ts ver"
  have h: "\<forall>(k, ts, op) \<in> set ?h. ts \<noteq> 0" using assms by auto
  note run = mvcc_run_spec [OF assms] and run' = mvcc_run_spec [OF h]
  have srt: "bt_sorted (mm_data (mvcc_run hist))" "bt_sorted (mm_data (mvcc_run ?h))"
    using run run' by (simp_all add: mvcc_inv_def)
  have lst: "last_op ?h k ts = (if m \<le> ts then last_op hist k ts else None)" for k ts
    by (induction hist rule: rev_induct) (auto simp: last_op_def)
  have "filter ?keep (mm_data (mvcc_run hist)) = mm_data (mvcc_run ?h)"
  proof (rule bt_ext [OF bt_sorted_filter [OF srt(1)] srt(2)])
    fix ik
    show "bt_get (filter ?keep (mm_data (mvcc_run hist))) ik = bt_get (mm_data (mvcc_run ?h)) ik"
    proof (cases "\<exists>k ts. ik = encode_internal_key k ts")
      case True
      then obtain k ts where ik: "ik = encode_internal_key k ts" by blast
      have zero: "last_op hist k 0 = None"
        unfolding last_op_def map_of_eq_None_iff using assms by auto
      have "bt_get (mm_data (mvcc_run hist)) ik = map_option (op_version ts) (last_op hist k ts)"
        "bt_get (mm_data (mvcc_run ?h)) ik = map_option (op_version ts) (last_op ?h k ts)"
        unfolding ik using run run' by blast+
      then show ?thesis
        using zero unfolding bt_get_filter [OF srt(1)] lst by (cases "last_op hist k ts") auto
    next
      case False
      then have "bt_get (mm_data (mvcc_run hist)) ik = None" "bt_get (mm_data (mvcc_run ?h)) ik = None"
        using run run' by blast+
      then show ?thesis unfolding bt_get_filter [OF srt(1)] by simp
    qed
  qed
  note data = this
  have rem: "fold bt_remove gone ([] :: (bytes \<times> txn_id) list) = []" for gone
    by (induction gone) (simp_all add: bt_remove_def)
  have "snd (prune_below m (mvcc_run hist)) = mvcc_run ?h"
    using data run run' by (intro mvcc_memtable.equality) (simp_all add: prune_below_def Let_def rem)
  then show ?thesis using data by (simp add: gc_versions_def prune_below_def Let_def mvcc_len_def)
qed

text \<open>The witness: the only version of a key, at 3, is lost by a collection below 5.\<close>

theorem prune_below_keeps_witness:
  "snd (prune_below 5 (mvcc_run [([7], 3, Some [1])])) = mvcc_new"
  using prune_below_keeps [of "[([7], 3, Some [1])]" 5] by (simp add: mvcc_run_def)

text \<open>
  The guard of the range scan does not cover the proper prefixes of its upper bound: for a
  key \<open>k\<close> written at a timestamp below \<open>2 ^ 56\<close>, and an upper bound that continues \<open>k\<close> with a
  byte below 0xff, the scan starting at \<open>k\<close> misses \<open>k\<close>, which is in the interval and visible.
\<close>

theorem mvcc_scan_range_misses_prefix:
  assumes "ts \<noteq> 0" "ts < 2 ^ 56" "b < 255"
  shows "k < k @ b # w \<and>
    mvcc_scan_range (read_view_new 0 ts {}) k (k @ b # w) (mvcc_run [(k, ts, Some v)]) = Inr [] \<and>
    is_latest (mvcc_run [(k, ts, Some v)]) (read_view_new 0 ts {}) k (Some (version_put ts v))"
proof -
  have "encode_internal_key k ts > (k @ b # w) @ replicate 9 255"
    using u64_be_high [OF assms(2,3), of "w @ replicate 9 255"]
    by (simp add: encode_internal_key_def append_less_iff)
  then have "\<not> encode_internal_key k ts < (k @ b # w) @ replicate 9 255" by (simp add: less_not_sym)
  moreover have "k < k @ b # w" using append_less_iff [of k "[]" "b # w"] by simp
  moreover have "\<not> (k @ b # w) @ replicate 9 255 < k"
    using le_self_append [of k "b # w @ replicate 9 255"] by (simp add: linorder_not_less)
  moreover have "is_latest (mvcc_run [(k, ts, Some v)]) (read_view_new 0 ts {}) k (Some (version_put ts v))"
    using mvcc_run_latest [of "[(k, ts, Some v)]" ts k] assms(1)
    by (simp add: read_spec_def read_step_def op_version_def)
  ultimately show ?thesis
    using assms(1) by (simp add: mvcc_run_single mvcc_scan_range_def latest_in_range_def bt_range_def
        Let_def)
qed

theorem mvcc_scan_range_misses_prefix_witness:
  "mvcc_scan_range (read_view_new 0 3 {}) [7] ([7] @ 0 # []) (mvcc_run [([7], 3, Some [1])]) = Inr []"
  using mvcc_scan_range_misses_prefix [of 3 0 "[7]" "[]" "[1]"] by simp

end
