(* ===== verification/Lsm_Scan.thy ===== *)
theory Lsm_Scan
  imports Lsm_Recovery Mvcc_Memtable "HOL-Library.Multiset"
begin

text \<open>
  Range scans of the tree (\<^verbatim>\<open>merge_visible_fold\<close>, \<^verbatim>\<open>range_visible\<close>, \<^verbatim>\<open>range_visible_keys\<close> of
  \<^verbatim>\<open>lsm.rs\<close>) against its point reads. The scan collects candidates from every source through
  the windows of \<^verbatim>\<open>scan_windows\<close>, sorts them with an unstable sort, which is an argument of the
  model, and keeps the first candidate of every user key.
\<close>

section \<open>Windows\<close>







section \<open>What a scan collects\<close>






section \<open>Sorting and first candidates\<close>





section \<open>Candidates of a key\<close>








section \<open>Scans against point reads\<close>






section \<open>Properties\<close>






end
