(* ===== verification/Snapshot_Store.thy ===== *)
theory Snapshot_Store
  imports Lsm_Scan
begin

text \<open>
  The snapshot reader of \<^verbatim>\<open>mvcc/snapshot_store.rs\<close>: a read-only engine that lays the pending
  writes of a transaction over the multi-version memory table and the tree, all at one read
  view. Ranges are a three-way merge of sorted streams, the iterator \<^verbatim>\<open>MergedRange\<close>.
\<close>

section \<open>Point reads\<close>

text \<open>\<open>ss_hooked\<close>: whether a read hook is installed; \<open>resolve_key\<close> returns the keys it was called with.\<close>

record snapshot_store =
  ss_base :: lsm_tree
  ss_mvcc :: mvcc_memtable
  ss_view :: read_view
  ss_writes :: "(bytes \<times> bytes option) list option"
  ss_hooked :: bool


definition with_read_hook :: "snapshot_store \<Rightarrow> snapshot_store" where
  "with_read_hook s = s\<lparr>ss_hooked := True\<rparr>"

definition resolve_key :: "sst_env \<Rightarrow> bytes \<Rightarrow> snapshot_store \<Rightarrow> bytes list \<times> (fault + bytes option)" where
  "resolve_key env key s =
     (if ss_hooked s then [key] else [],
      case (case ss_writes s of Some writes \<Rightarrow> bt_get writes key | None \<Rightarrow> None) of
        Some op \<Rightarrow> Inr op
      | None \<Rightarrow>
          try_bind (mvcc_get key (ss_view s) (ss_mvcc s)) (\<lambda>r.
            case r of
              Some v \<Rightarrow> Inr (Some v)
            | None \<Rightarrow> get_visible env key (ss_view s) (ss_base s)))"

definition snapshot_get :: "sst_env \<Rightarrow> bytes \<Rightarrow> snapshot_store \<Rightarrow> bytes list \<times> (fault + bytes option)" where
  "snapshot_get env key s = resolve_key env key s"

definition snapshot_put :: "bytes \<Rightarrow> bytes \<Rightarrow> snapshot_store \<Rightarrow> storage_error + snapshot_store" where
  "snapshot_put key value s = Inl (InvalidInput ''SnapshotStore is read-only'')"

definition snapshot_delete :: "bytes \<Rightarrow> snapshot_store \<Rightarrow> storage_error + (bool \<times> snapshot_store)" where
  "snapshot_delete key s = Inl (InvalidInput ''SnapshotStore is read-only'')"

section \<open>The merge iterator\<close>

datatype merge_src = SrcOverlay | SrcMvcc | SrcBase

primrec src_rank :: "merge_src \<Rightarrow> nat" where
  "src_rank SrcOverlay = 0"
| "src_rank SrcMvcc = 1"
| "src_rank SrcBase = 2"

lemma src_rank_inj: "src_rank a = src_rank b \<longleftrightarrow> a = b"
  by (cases a; cases b) simp_all

text \<open>\<^verbatim>\<open>#[derive(PartialOrd, Ord)]\<close>: the order of the declaration.\<close>

instantiation merge_src :: linorder
begin

definition less_eq_merge_src :: "merge_src \<Rightarrow> merge_src \<Rightarrow> bool" where
  "less_eq_merge_src a b \<longleftrightarrow> src_rank a \<le> src_rank b"

definition less_merge_src :: "merge_src \<Rightarrow> merge_src \<Rightarrow> bool" where
  "less_merge_src a b \<longleftrightarrow> src_rank a < src_rank b"

instance
  by standard (auto simp: less_eq_merge_src_def less_merge_src_def src_rank_inj dest: antisym)

end

record merged_range =
  mr_overlay :: "(bytes \<times> bytes option) list"
  mr_mvcc :: "(bytes \<times> bytes) list"
  mr_base :: "(bytes \<times> bytes) list"

definition skip_shadowed :: "bytes \<Rightarrow> bool \<Rightarrow> merged_range \<Rightarrow> merged_range" where
  "skip_shadowed key skip_mvcc m =
     (let drop_key = (\<lambda>it. dropWhile (\<lambda>e. fst e = key) it) in
      m\<lparr>mr_mvcc := (if skip_mvcc then drop_key (mr_mvcc m) else mr_mvcc m), mr_base := drop_key (mr_base m)\<rparr>)"

text \<open>\<^verbatim>\<open>candidates.into_iter().flatten().min()?\<close>\<close>

definition merge_pick :: "merged_range \<Rightarrow> (bytes \<times> merge_src) option" where
  "merge_pick m =
     (let peek = (\<lambda>keys src. case keys of [] \<Rightarrow> [] | k # _ \<Rightarrow> [(k, src)]) in
      case peek (map fst (mr_overlay m)) SrcOverlay @ peek (map fst (mr_mvcc m)) SrcMvcc @
           peek (map fst (mr_base m)) SrcBase of
        [] \<Rightarrow> None
      | c # cs \<Rightarrow> Some (fold min cs c))"

text \<open>The loop ends: every turn without a result consumes an element of the overlay.\<close>

function merged_next :: "merged_range \<Rightarrow> ((bytes \<times> bytes) \<times> merged_range) option" where
  "merged_next m =
     (case merge_pick m of
        None \<Rightarrow> None
      | Some (_, src) \<Rightarrow>
          (case src of
             SrcOverlay \<Rightarrow>
               (case mr_overlay m of
                  [] \<Rightarrow> None
                | (k, op) # rest \<Rightarrow>
                    let m' = skip_shadowed k True (m\<lparr>mr_overlay := rest\<rparr>) in
                    (case op of Some v \<Rightarrow> Some ((k, v), m') | None \<Rightarrow> merged_next m'))
           | SrcMvcc \<Rightarrow>
               (case mr_mvcc m of
                  [] \<Rightarrow> None
                | (k, v) # rest \<Rightarrow> Some ((k, v), skip_shadowed k False (m\<lparr>mr_mvcc := rest\<rparr>)))
           | SrcBase \<Rightarrow>
               (case mr_base m of
                  [] \<Rightarrow> None
                | e # rest \<Rightarrow> Some (e, m\<lparr>mr_base := rest\<rparr>))))"
  by pat_completeness auto

termination merged_next
  by (relation "measure (\<lambda>m. length (mr_overlay m))") (auto simp: skip_shadowed_def Let_def)

declare merged_next.simps [simp del]

definition merged_size :: "merged_range \<Rightarrow> nat" where
  "merged_size m = length (mr_overlay m) + length (mr_mvcc m) + length (mr_base m)"

lemma skip_shadowed_size:
  "merged_size (skip_shadowed k b m) \<le> merged_size m" "mr_overlay (skip_shadowed k b m) = mr_overlay m"
  using length_dropWhile_le [of "\<lambda>e. fst e = k" "mr_mvcc m"] length_dropWhile_le [of "\<lambda>e. fst e = k" "mr_base m"]
  by (auto simp: skip_shadowed_def merged_size_def Let_def)

lemma merged_next_size: "merged_next m = Some (e, m') \<Longrightarrow> merged_size m' < merged_size m"
proof (induction m rule: merged_next.induct)
  case (1 m)
  have sz: "merged_size (skip_shadowed k True (m\<lparr>mr_overlay := rest\<rparr>)) < merged_size m"
    if "mr_overlay m = (k, op) # rest" for k op rest
    using that skip_shadowed_size(1) [of k True "m\<lparr>mr_overlay := rest\<rparr>"] by (simp add: merged_size_def)
  have sz': "merged_size (skip_shadowed k False (m\<lparr>mr_mvcc := rest\<rparr>)) < merged_size m"
    if "mr_mvcc m = (k, v) # rest" for k v rest
    using that skip_shadowed_size(1) [of k False "m\<lparr>mr_mvcc := rest\<rparr>"] by (simp add: merged_size_def)
  show ?case
    using 1 sz sz' unfolding merged_next.simps [of m]
    by (fastforce simp: Let_def merged_size_def split: option.splits prod.splits merge_src.splits list.splits)
qed

function merged_collect :: "merged_range \<Rightarrow> (bytes \<times> bytes) list" where
  "merged_collect m =
     (case merged_next m of
        None \<Rightarrow> []
      | Some (e, m') \<Rightarrow> e # merged_collect m')"
  by pat_completeness auto

termination merged_collect
  by (relation "measure merged_size") (auto dest: merged_next_size)

declare merged_collect.simps [simp del]

section \<open>Scans\<close>

text \<open>\<^verbatim>\<open>writes.range((Included(start), Unbounded)).take_while(in_range)\<close>\<close>

definition overlay_range :: "bytes \<Rightarrow> bytes \<Rightarrow> snapshot_store \<Rightarrow> (bytes \<times> bytes option) list" where
  "overlay_range start stop s =
     (case ss_writes s of
        None \<Rightarrow> []
      | Some writes \<Rightarrow>
          takeWhile (\<lambda>(k, _). start \<le> k \<and> (stop = [] \<or> k < stop)) (bt_range_from start writes))"


definition snapshot_range_keys where
  "snapshot_range_keys srt env start stop s =
     try_bind (mvcc_scan_range_keys (ss_view s) start stop (ss_mvcc s)) (\<lambda>mvcc.
     try_bind (range_visible_keys srt env start stop (ss_view s) (ss_base s)) (\<lambda>base.
       Inr (map fst (merged_collect
         \<lparr>mr_overlay = map (\<lambda>(k, op). (k, map_option (\<lambda>_. []) op)) (overlay_range start stop s),
          mr_mvcc = map (\<lambda>k. (k, [])) mvcc, mr_base = map (\<lambda>k. (k, [])) base\<rparr>))))"

text \<open>\<^verbatim>\<open>merged.entry(k).or_insert_with(..)\<close>: the tree's visible value, else the value of its iterator.\<close>

primrec iter_base ::
  "sst_env \<Rightarrow> snapshot_store \<Rightarrow> (bytes \<times> bytes) list \<Rightarrow> (bytes \<times> bytes) list \<Rightarrow> fault + (bytes \<times> bytes) list" where
  "iter_base env s [] merged = Inr merged"
| "iter_base env s (e # es) merged =
     (let (k, v) = e in
      if bt_get merged k \<noteq> None then iter_base env s es merged
      else
        case get_visible env k (ss_view s) (ss_base s) of
          Inl Panic \<Rightarrow> Inl Panic
        | Inr (Some vv) \<Rightarrow> iter_base env s es (bt_insert k vv merged)
        | _ \<Rightarrow> iter_base env s es (bt_insert k v merged))"

definition snapshot_iter where
  "snapshot_iter srt env s =
     try_bind (mvcc_scan (ss_view s) (ss_mvcc s)) (\<lambda>mvcc.
     try_bind (lsm_iter srt env (ss_base s)) (\<lambda>base.
     try_bind (iter_base env s base (fold (\<lambda>(k, v). bt_insert k v) mvcc [])) (\<lambda>merged.
       Inr (case ss_writes s of
              None \<Rightarrow> merged
            | Some writes \<Rightarrow>
                fold (\<lambda>(k, op) m. case op of Some v \<Rightarrow> bt_insert k v m | None \<Rightarrow> bt_remove k m) writes merged))))"

section \<open>What the merge returns\<close>

definition merged_view :: "merged_range \<Rightarrow> bytes \<Rightarrow> bytes option" where
  "merged_view m k =
     (case bt_get (mr_overlay m) k of
        Some op \<Rightarrow> op
      | None \<Rightarrow> (case bt_get (mr_mvcc m) k of Some v \<Rightarrow> Some v | None \<Rightarrow> bt_get (mr_base m) k))"

definition merged_sorted :: "merged_range \<Rightarrow> bool" where
  "merged_sorted m \<longleftrightarrow> bt_sorted (mr_overlay m) \<and> bt_sorted (mr_mvcc m) \<and> bt_sorted (mr_base m)"

lemma bt_get_above:
  assumes "\<forall>e \<in> set es. k < fst e" "k' \<le> k"
  shows "bt_get es k' = None"
  using assms by (force simp: bt_get_def map_of_eq_None_iff)

lemma drop_key_spec:
  assumes "bt_sorted es" "\<forall>e \<in> set es. k \<le> fst e"
  defines "r \<equiv> dropWhile (\<lambda>e. fst e = k) es"
  shows "bt_sorted r" "\<forall>e \<in> set r. k < fst e" "bt_get r k' = (if k' \<le> k then None else bt_get es k')"
proof -
  have r: "es = [] \<and> r = [] \<or> (\<exists>e es'. es = e # es' \<and> r = (if fst e = k then es' else es))"
    using assms(1) unfolding r_def by (cases es; cases "tl es") (auto simp: bt_sorted_def)
  show srt: "bt_sorted r" using r assms(1) by (auto simp: bt_sorted_def)
  show above: "\<forall>e \<in> set r. k < fst e"
    using r
  proof (elim disjE exE conjE)
    fix e es' assume e: "es = e # es'" "r = (if fst e = k then es' else es)"
    have "\<forall>x \<in> set es'. fst e < fst x" "k \<le> fst e" using assms(1,2) e(1) by (simp_all add: bt_sorted_def)
    then show ?thesis using e by auto
  qed simp
  show "bt_get r k' = (if k' \<le> k then None else bt_get es k')"
    using r bt_get_above [OF above, of k'] by (auto simp: bt_get_def)
qed

lemma merge_pick_spec:
  assumes "merged_sorted m"
  shows "merge_pick m = None \<Longrightarrow> mr_overlay m = [] \<and> mr_mvcc m = [] \<and> mr_base m = []"
    and "merge_pick m = Some (k, SrcOverlay) \<Longrightarrow> \<exists>op rest. mr_overlay m = (k, op) # rest \<and>
      (\<forall>e \<in> set (mr_mvcc m). k \<le> fst e) \<and> (\<forall>e \<in> set (mr_base m). k \<le> fst e)"
    and "merge_pick m = Some (k, SrcMvcc) \<Longrightarrow> \<exists>v rest. mr_mvcc m = (k, v) # rest \<and>
      (\<forall>e \<in> set (mr_overlay m). k < fst e) \<and> (\<forall>e \<in> set (mr_base m). k \<le> fst e)"
    and "merge_pick m = Some (k, SrcBase) \<Longrightarrow> \<exists>v rest. mr_base m = (k, v) # rest \<and>
      (\<forall>e \<in> set (mr_overlay m). k < fst e) \<and> (\<forall>e \<in> set (mr_mvcc m). k < fst e)"
  using assms
  by (cases "mr_overlay m"; cases "mr_mvcc m"; cases "mr_base m";
      auto simp: merge_pick_def merged_sorted_def bt_sorted_def min_def less_eq_merge_src_def split: if_splits)+

text \<open>\<open>after k m m'\<close>: \<open>m'\<close> is \<open>m\<close> with every key up to \<open>k\<close> consumed.\<close>

definition after :: "bytes \<Rightarrow> merged_range \<Rightarrow> merged_range \<Rightarrow> bool" where
  "after k m m' \<longleftrightarrow> merged_sorted m' \<and> (\<forall>k'. merged_view m' k' = (if k' \<le> k then None else merged_view m k'))"

lemma bt_get_Cons: "bt_sorted ((k, v) # rest) \<Longrightarrow> bt_get rest k' = (if k' \<le> k then None else bt_get ((k, v) # rest) k')"
  using bt_get_above [of rest k k'] by (auto simp: bt_sorted_def bt_get_def)

lemma bt_get_at_least: "\<forall>e \<in> set es. k \<le> fst e \<Longrightarrow> k' < k \<Longrightarrow> bt_get es k' = None"
  by (force simp: bt_get_def map_of_eq_None_iff)


lemma skip_mvcc:
  assumes srt: "merged_sorted m" and pick: "merge_pick m = Some (k0, SrcMvcc)" and mv: "mr_mvcc m = (k, v) # rest"
  shows "after k m (skip_shadowed k False (m\<lparr>mr_mvcc := rest\<rparr>))" "merged_view m k = Some v"
    "\<forall>k' < k. merged_view m k' = None"
proof -
  have ge: "\<forall>e \<in> set (mr_overlay m). k < fst e" "\<forall>e \<in> set (mr_base m). k \<le> fst e"
    using merge_pick_spec(3) [OF srt pick] mv by auto
  have s: "bt_sorted (mr_overlay m)" "bt_sorted ((k, v) # rest)" "bt_sorted (mr_base m)" using srt mv by (simp_all add: merged_sorted_def)
  note none = bt_get_above [OF ge(1)]
  show "after k m (skip_shadowed k False (m\<lparr>mr_mvcc := rest\<rparr>))"
    using bt_get_Cons [OF s(2)] none drop_key_spec [OF s(3) ge(2)] s mv
    by (simp add: after_def merged_sorted_def merged_view_def skip_shadowed_def Let_def cong: option.case_cong)
  show "merged_view m k = Some v" using none [of k] by (simp add: merged_view_def mv bt_get_def)
  have "\<forall>e \<in> set (mr_mvcc m). k \<le> fst e" using s(2) mv by (auto simp: bt_sorted_def)
  then show "\<forall>k' < k. merged_view m k' = None"
    using ge(2) none by (simp add: merged_view_def bt_get_at_least)
qed




section \<open>Scans against point reads\<close>






section \<open>Properties\<close>



end
