(* ===== verification/Txn_Parts.thy ===== *)
theory Txn_Parts
  imports Mvcc_Memtable
begin

text \<open>
  The parts of the transaction manager (crate \<^verbatim>\<open>noedb-txn\<close>): transactions with their read and
  write sets (\<^verbatim>\<open>transaction.rs\<close>), the serializability checker (\<^verbatim>\<open>ssi.rs\<close>) and the wait-for graph
  (\<^verbatim>\<open>deadlock.rs\<close>). Instants and durations are numbers of nanoseconds; a duration since a later
  instant is zero.
\<close>

section \<open>Transactions\<close>

datatype txn_error =
    NoActiveTxn
  | TxnAlreadyActive
  | SerializationFailure string
  | DeadlockVictim
  | WaitTimeout
  | TxnStorage string

datatype write_op = WPut bytes | WDelete

datatype txn_state = TxnActive | TxnCommitted | TxnAborted

record transaction =
  tx_id :: txn_id
  tx_start_ts :: commit_ts
  tx_read_set :: "bytes list"
  tx_write_set :: "(bytes \<times> write_op) list"
  tx_state :: txn_state
  tx_started_at :: nat
  tx_waiting_on :: "bytes option"

definition transaction_new :: "nat \<Rightarrow> txn_id \<Rightarrow> commit_ts \<Rightarrow> transaction" where
  "transaction_new now i start_ts =
     \<lparr>tx_id = i, tx_start_ts = start_ts, tx_read_set = [], tx_write_set = [], tx_state = TxnActive,
      tx_started_at = now, tx_waiting_on = None\<rparr>"

text \<open>Sets are ascending lists without duplicates.\<close>

definition set_insert :: "'a::linorder \<Rightarrow> 'a list \<Rightarrow> 'a list" where
  "set_insert x xs = map fst (bt_insert x () (map (\<lambda>y. (y, ())) xs))"

definition record_read :: "bytes \<Rightarrow> transaction \<Rightarrow> transaction" where
  "record_read key t = t\<lparr>tx_read_set := set_insert key (tx_read_set t)\<rparr>"

definition txn_stage_put :: "bytes \<Rightarrow> bytes \<Rightarrow> transaction \<Rightarrow> transaction" where
  "txn_stage_put key value t = t\<lparr>tx_write_set := bt_insert key (WPut value) (tx_write_set t)\<rparr>"

definition txn_stage_delete :: "bytes \<Rightarrow> transaction \<Rightarrow> transaction" where
  "txn_stage_delete key t = t\<lparr>tx_write_set := bt_insert key WDelete (tx_write_set t)\<rparr>"

definition read_own :: "bytes \<Rightarrow> transaction \<Rightarrow> bytes option option" where
  "read_own key t =
     (case bt_get (tx_write_set t) key of
        None \<Rightarrow> None
      | Some (WPut v) \<Rightarrow> Some (Some v)
      | Some WDelete \<Rightarrow> Some None)"

section \<open>Serializability checker\<close>

datatype ssi_decision = SsiAllow | SsiAbort string

record ssi_checker =
  ssi_rw_edges :: "(txn_id \<times> txn_id list) list"
  ssi_write_keys :: "(txn_id \<times> bytes list) list"

definition ssi_default :: ssi_checker where
  "ssi_default = \<lparr>ssi_rw_edges = [], ssi_write_keys = []\<rparr>"

definition register_commit :: "txn_id \<Rightarrow> bytes list \<Rightarrow> ssi_checker \<Rightarrow> ssi_checker" where
  "register_commit txn keys s = s\<lparr>ssi_write_keys := bt_insert txn keys (ssi_write_keys s)\<rparr>"

definition note_rw_dependency :: "txn_id \<Rightarrow> txn_id \<Rightarrow> ssi_checker \<Rightarrow> ssi_checker" where
  "note_rw_dependency reader writer s =
     (if reader = writer then s
      else
        let out = (case bt_get (ssi_rw_edges s) reader of None \<Rightarrow> [] | Some out \<Rightarrow> out)
        in s\<lparr>ssi_rw_edges := bt_insert reader (set_insert writer out) (ssi_rw_edges s)\<rparr>)"

definition check_commit :: "transaction \<Rightarrow> ssi_checker \<Rightarrow> ssi_decision" where
  "check_commit txn s =
     (let my_writes = map fst (tx_write_set txn) in
      if \<exists>(other, keys) \<in> set (ssi_write_keys s). other \<noteq> tx_id txn \<and>
           (\<exists>k \<in> set keys. k \<in> set (tx_read_set txn) \<and> k \<in> set my_writes)
      then SsiAbort ''write-read conflict on overlapping key''
      else
        case bt_get (ssi_rw_edges s) (tx_id txn) of
          None \<Rightarrow> SsiAllow
        | Some out \<Rightarrow>
            if \<exists>pred \<in> set out. case bt_get (ssi_rw_edges s) pred of None \<Rightarrow> False | Some s' \<Rightarrow> tx_id txn \<in> set s'
            then SsiAbort ''rw-cycle detected (SSI)'' else SsiAllow)"

definition ssi_purge :: "txn_id \<Rightarrow> ssi_checker \<Rightarrow> ssi_checker" where
  "ssi_purge txn s =
     (let edges = map (\<lambda>(r, writers). (r, filter (\<lambda>w. w \<noteq> txn) writers)) (bt_remove txn (ssi_rw_edges s))
      in \<lparr>ssi_rw_edges = filter (\<lambda>(_, writers). writers \<noteq> []) edges,
          ssi_write_keys = bt_remove txn (ssi_write_keys s)\<rparr>)"

section \<open>Deadlock detection\<close>

record deadlock_policy =
  dp_check_interval :: nat
  dp_wait_timeout :: nat

definition deadlock_policy_default :: deadlock_policy where
  "deadlock_policy_default = \<lparr>dp_check_interval = 100 * 10 ^ 6, dp_wait_timeout = 5 * 10 ^ 9\<rparr>"

record deadlock_guard =
  dg_waits :: "(txn_id \<times> txn_id) list"
  dg_policy :: deadlock_policy
  dg_last_check :: "nat option"

definition deadlock_new :: deadlock_guard where
  "deadlock_new = \<lparr>dg_waits = [], dg_policy = deadlock_policy_default, dg_last_check = None\<rparr>"

definition record_wait :: "txn_id \<Rightarrow> txn_id \<Rightarrow> deadlock_guard \<Rightarrow> deadlock_guard" where
  "record_wait waiter holder g = g\<lparr>dg_waits := bt_insert waiter holder (dg_waits g)\<rparr>"

definition deadlock_clear :: "txn_id \<Rightarrow> deadlock_guard \<Rightarrow> deadlock_guard" where
  "deadlock_clear txn g = g\<lparr>dg_waits := filter (\<lambda>(_, h). h \<noteq> txn) (bt_remove txn (dg_waits g))\<rparr>"

text \<open>The walk from one waiter; \<open>visited\<close> bounds it, so the loop ends on every graph.\<close>

function wait_walk :: "(txn_id \<times> txn_id) list \<Rightarrow> txn_id \<Rightarrow> txn_id list \<Rightarrow> txn_id list \<Rightarrow> bool" where
  "wait_walk waits start stack visited =
     (case stack of
        [] \<Rightarrow> False
      | cur # rest \<Rightarrow>
          if cur \<in> set visited then wait_walk waits start rest visited
          else
            case bt_get waits cur of
              None \<Rightarrow> wait_walk waits start rest (cur # visited)
            | Some nxt \<Rightarrow>
                if nxt = start then True
                else wait_walk waits start (nxt # rest) (cur # visited))"
  by pat_completeness auto

lemma unvisited_less:
  assumes "bt_get waits cur = Some nxt" "cur \<notin> set visited"
  shows "card (fst ` set waits - set (cur # visited)) < card (fst ` set waits - set visited)"
proof (rule psubset_card_mono)
  have "cur \<in> fst ` set waits" using assms(1) by (force simp: bt_get_def dest: map_of_SomeD)
  then show "fst ` set waits - set (cur # visited) \<subset> fst ` set waits - set visited" using assms(2) by auto
qed simp

lemma unvisited_same:
  assumes "bt_get waits cur = None"
  shows "fst ` set waits - set (cur # visited) = fst ` set waits - set visited"
  using assms by (auto simp: bt_get_def map_of_eq_None_iff)

termination wait_walk
  by (relation "measures [\<lambda>(waits, start, stack, visited). card (fst ` set waits - set visited),
        \<lambda>(waits, start, stack, visited). length stack]")
    (use unvisited_less in \<open>auto simp: unvisited_same simp del: list.set\<close>)

declare wait_walk.simps [simp del]

definition find_cycle_victim :: "deadlock_guard \<Rightarrow> txn_id option" where
  "find_cycle_victim g = find (\<lambda>start. wait_walk (dg_waits g) start [start] []) (map fst (dg_waits g))"

definition deadlock_poll ::
  "nat \<Rightarrow> (txn_id \<times> transaction) list \<Rightarrow> txn_id \<Rightarrow> deadlock_guard \<Rightarrow> (txn_error + unit) \<times> deadlock_guard" where
  "deadlock_poll now txns committing g =
     (if (case bt_get txns committing of
            None \<Rightarrow> False
          | Some txn \<Rightarrow> dp_wait_timeout (dg_policy g) < now - tx_started_at txn)
      then (Inl WaitTimeout, g)
      else
        let should_check = (case dg_last_check g of
              None \<Rightarrow> True | Some t \<Rightarrow> dp_check_interval (dg_policy g) \<le> now - t)
        in
          if should_check then
            let g = g\<lparr>dg_last_check := Some now\<rparr> in
            (case find_cycle_victim g of
               Some victim \<Rightarrow> (Inl DeadlockVictim, deadlock_clear victim g)
             | None \<Rightarrow> (Inr (), g))
          else (Inr (), g))"

section \<open>The walk finds exactly the cycles\<close>

definition wait_rel :: "(txn_id \<times> txn_id) list \<Rightarrow> (txn_id \<times> txn_id) set" where
  "wait_rel waits = {(a, b). bt_get waits a = Some b}"

lemma wait_walk_sound:
  "wait_walk waits start stack visited \<Longrightarrow> \<forall>x \<in> set stack. (start, x) \<in> (wait_rel waits)\<^sup>* \<Longrightarrow>
     (start, start) \<in> (wait_rel waits)\<^sup>+"
proof (induction waits start stack visited rule: wait_walk.induct)
  case (1 waits start stack visited)
  show ?case
  proof (cases stack)
    case Nil
    then show ?thesis using "1.prems"(1) by (simp add: wait_walk.simps)
  next
    case (Cons cur rest)
    have reach: "(start, cur) \<in> (wait_rel waits)\<^sup>*" "\<forall>x \<in> set rest. (start, x) \<in> (wait_rel waits)\<^sup>*"
      using "1.prems"(2) Cons by simp_all
    have w: "wait_walk waits start (cur # rest) visited" using "1.prems"(1) Cons by simp
    show ?thesis
    proof (cases "cur \<in> set visited")
      case True
      then show ?thesis using "1.IH"(1) [OF Cons] w reach by (subst (asm) wait_walk.simps) simp
    next
      case False
      show ?thesis
      proof (cases "bt_get waits cur")
        case None
        then show ?thesis using "1.IH"(2) [OF Cons False] w reach False by (subst (asm) wait_walk.simps) simp
      next
        case (Some nxt)
        then have step: "(cur, nxt) \<in> wait_rel waits" by (simp add: wait_rel_def)
        show ?thesis
        proof (cases "nxt = start")
          case True
          then show ?thesis using reach(1) step by (metis rtrancl_into_trancl1)
        next
          case nst: False
          have "(start, nxt) \<in> (wait_rel waits)\<^sup>*" using reach(1) step by (rule rtrancl_into_rtrancl)
          then show ?thesis
            using "1.IH"(3) [OF Cons False Some nst] w reach False Some nst by (subst (asm) wait_walk.simps) simp
        qed
      qed
    qed
  qed
qed

lemma wait_rel_functional: "(a, b) \<in> wait_rel waits ^^ n \<Longrightarrow> (a, c) \<in> wait_rel waits ^^ n \<Longrightarrow> b = c"
proof (induction n arbitrary: b c)
  case (Suc n)
  then show ?case by (metis (mono_tags, lifting) case_prodD mem_Collect_eq option.inject relpow_Suc_E wait_rel_def)
qed simp

lemma wait_walk_complete:
  assumes cyc: "(start, start) \<in> wait_rel waits ^^ p" and min: "\<And>q. 0 < q \<Longrightarrow> q < p \<Longrightarrow> (start, start) \<notin> wait_rel waits ^^ q"
    and "i < p" "(start, cur) \<in> wait_rel waits ^^ i"
    "\<forall>x \<in> set visited. \<exists>j < i. (start, x) \<in> wait_rel waits ^^ j"
  shows "wait_walk waits start [cur] visited"
  using assms(3-5)
proof (induction "p - i" arbitrary: i cur visited)
  case (Suc d)
  obtain rest where rest: "(cur, start) \<in> wait_rel waits ^^ (p - i)"
  proof -
    have "(start, start) \<in> wait_rel waits ^^ i O wait_rel waits ^^ (p - i)"
      using cyc Suc.prems(1) by (simp add: relpow_add [symmetric])
    then obtain y where "(start, y) \<in> wait_rel waits ^^ i" "(y, start) \<in> wait_rel waits ^^ (p - i)" by blast
    then show ?thesis using that wait_rel_functional [OF Suc.prems(2)] by metis
  qed
  have fresh: "cur \<notin> set visited"
  proof
    assume "cur \<in> set visited"
    then obtain j where j: "j < i" "(start, cur) \<in> wait_rel waits ^^ j" using Suc.prems(3) by blast
    then have loop: "(start, start) \<in> wait_rel waits ^^ (j + (p - i))" using rest by (auto simp: relpow_add)
    have "0 < j + (p - i)" "j + (p - i) < p" using j(1) Suc.prems(1) by simp_all
    from min [OF this] loop show False by (rule notE)
  qed
  obtain nxt where nxt: "(cur, nxt) \<in> wait_rel waits" "(nxt, start) \<in> wait_rel waits ^^ d"
    using rest Suc.hyps(2) by (metis relpow_Suc_D2)
  then have get: "bt_get waits cur = Some nxt" by (simp add: wait_rel_def)
  show ?case
  proof (cases "nxt = start")
    case True
    then show ?thesis using fresh get by (subst wait_walk.simps) simp
  next
    case False
    have "d \<noteq> 0" using nxt(2) False by (cases d) auto
    have "wait_walk waits start [nxt] (cur # visited)"
    proof (rule Suc.hyps(1) [of "Suc i"])
      show "d = p - Suc i" "Suc i < p" using Suc.hyps(2) \<open>d \<noteq> 0\<close> by simp_all
      show "(start, nxt) \<in> wait_rel waits ^^ Suc i" using Suc.prems(2) nxt(1) by auto
      show "\<forall>x \<in> set (cur # visited). \<exists>j < Suc i. (start, x) \<in> wait_rel waits ^^ j"
        using Suc.prems(2,3) by (auto intro: less_SucI exI [of _ i])
    qed
    then show ?thesis using fresh get False by (subst wait_walk.simps) simp
  qed
qed simp

lemma wait_walk_cycle: "wait_walk waits start [start] [] \<longleftrightarrow> (start, start) \<in> (wait_rel waits)\<^sup>+"
proof
  assume "(start, start) \<in> (wait_rel waits)\<^sup>+"
  then obtain n where n: "0 < n \<and> (start, start) \<in> wait_rel waits ^^ n" by (auto simp: trancl_power)
  define p where "p = (LEAST n. 0 < n \<and> (start, start) \<in> wait_rel waits ^^ n)"
  have p: "0 < p \<and> (start, start) \<in> wait_rel waits ^^ p" unfolding p_def by (rule LeastI) (rule n)
  show "wait_walk waits start [start] []"
  proof (rule wait_walk_complete [where p = p and i = 0])
    show "(start, start) \<notin> wait_rel waits ^^ q" if "0 < q" "q < p" for q
      using not_less_Least [of q "\<lambda>n. 0 < n \<and> (start, start) \<in> wait_rel waits ^^ n"] that by (simp add: p_def)
  qed (use p in simp_all)
next
  assume "wait_walk waits start [start] []"
  then show "(start, start) \<in> (wait_rel waits)\<^sup>+" by (rule wait_walk_sound) simp
qed

section \<open>Properties\<close>

text \<open>
  C23. Deadlock detection is exact: the search over the wait-for graph always ends, it names a
  victim exactly when some transactions wait for each other in a cycle, and the victim waits
  for itself; clearing the victim breaks every cycle through it.
\<close>

theorem find_cycle_victim_exact:
  "(find_cycle_victim g = None \<longleftrightarrow> acyclic (wait_rel (dg_waits g))) \<and>
   (\<forall>v. find_cycle_victim g = Some v \<longrightarrow> (v, v) \<in> (wait_rel (dg_waits g))\<^sup>+ \<and>
      v \<notin> Field (wait_rel (dg_waits (deadlock_clear v g))))"
proof -
  let ?R = "wait_rel (dg_waits g)"
  have keys: "v \<in> fst ` set (dg_waits g)" if v: "(v, v) \<in> ?R\<^sup>+" for v
  proof -
    obtain z where "bt_get (dg_waits g) v = Some z" using tranclD [OF v] by (auto simp: wait_rel_def)
    then show ?thesis by (force simp: bt_get_def dest: map_of_SomeD)
  qed
  have none: "find_cycle_victim g = None \<longleftrightarrow> acyclic ?R"
    using keys by (auto simp: find_cycle_victim_def find_None_iff wait_walk_cycle acyclic_def)
  have some: "(v, v) \<in> ?R\<^sup>+" if "find_cycle_victim g = Some v" for v
    using that by (auto simp: find_cycle_victim_def find_Some_iff wait_walk_cycle)
  have "v \<notin> Field (wait_rel (dg_waits (deadlock_clear v g)))" for v
  proof -
    have "a \<noteq> v \<and> b \<noteq> v" if "(a, b) \<in> wait_rel (dg_waits (deadlock_clear v g))" for a b
      using that by (auto simp: wait_rel_def deadlock_clear_def bt_get_def bt_remove_def dest!: map_of_SomeD)
    then show ?thesis by (auto simp: Field_def)
  qed
  then show ?thesis using none some by blast
qed

theorem find_cycle_victim_exact_witness:
  "find_cycle_victim \<lparr>dg_waits = [(1, 2), (2, 3), (3, 2)], dg_policy = deadlock_policy_default, dg_last_check = None\<rparr> = Some 2 \<and>
   (2, 2) \<in> (wait_rel [(1, 2), (2, 3), (3, 2)])\<^sup>+"
proof -
  let ?g = "\<lparr>dg_waits = [(1, 2), (2, 3), (3, 2)], dg_policy = deadlock_policy_default, dg_last_check = None\<rparr> :: deadlock_guard"
  have "find_cycle_victim ?g = Some 2"
    by (simp add: find_cycle_victim_def wait_walk.simps bt_get_def)
  then show ?thesis using find_cycle_victim_exact [of ?g] by simp
qed

end
