(* ===== verification/Txn_Manager.thy ===== *)
theory Txn_Manager
  imports Txn_Parts
begin

text \<open>
  The transaction manager (\<^verbatim>\<open>manager.rs\<close> of the crate \<^verbatim>\<open>noedb-txn\<close>). Its state is one record;
  every method is a function on it, and a commit is the sequence of its two halves around the
  durable hook, so that other calls can be placed between them.

  The session table is a concurrent map of another library. It is a parameter: a record of its
  operations, with the laws of a map as the hypothesis \<open>sessions_ok\<close>.
\<close>

section \<open>State\<close>

record 's session_map =
  sm_new :: 's
  sm_get :: "u64 \<Rightarrow> 's \<Rightarrow> txn_id option"
  sm_insert :: "u64 \<Rightarrow> txn_id \<Rightarrow> 's \<Rightarrow> 's"
  sm_remove :: "u64 \<Rightarrow> 's \<Rightarrow> 's"

definition sessions_ok :: "'s session_map \<Rightarrow> bool" where
  "sessions_ok sm \<longleftrightarrow>
     (\<forall>k. sm_get sm k (sm_new sm) = None) \<and>
     (\<forall>k k' v s. sm_get sm k (sm_insert sm k' v s) = (if k = k' then Some v else sm_get sm k s)) \<and>
     (\<forall>k k' s. sm_get sm k (sm_remove sm k' s) = (if k = k' then None else sm_get sm k s))"

record 's txn_manager =
  tm_oracle :: u64
  tm_mvcc :: mvcc_memtable
  tm_next_id :: u64
  tm_active :: "(txn_id \<times> transaction) list"
  tm_ssi :: ssi_checker
  tm_deadlock :: deadlock_guard
  tm_sessions :: 's

record commit_result =
  cr_commit_ts :: commit_ts
  cr_keys_written :: nat

text \<open>A method ends with an error value or with a panic of the memory table.\<close>

datatype txn_fault = TxnErr txn_error | TxnPanic

definition txn_manager_new :: "'s session_map \<Rightarrow> 's txn_manager" where
  "txn_manager_new sm =
     \<lparr>tm_oracle = 0, tm_mvcc = mvcc_new, tm_next_id = 1, tm_active = [], tm_ssi = ssi_default,
      tm_deadlock = deadlock_new, tm_sessions = sm_new sm\<rparr>"

definition in_txn :: "'s session_map \<Rightarrow> u64 \<Rightarrow> 's txn_manager \<Rightarrow> bool" where
  "in_txn sm session m \<longleftrightarrow> sm_get sm session (tm_sessions m) \<noteq> None"

section \<open>Begin and read\<close>

definition txn_begin :: "'s session_map \<Rightarrow> nat \<Rightarrow> u64 \<Rightarrow> 's txn_manager \<Rightarrow> (txn_error + txn_id) \<times> 's txn_manager" where
  "txn_begin sm now session m =
     (if in_txn sm session m then (Inl TxnAlreadyActive, m)
      else
        let (start_ts, oracle) = oracle_next (tm_oracle m);
            i = tm_next_id m;
            txn = transaction_new now i start_ts
        in (Inr i,
            m\<lparr>tm_oracle := oracle, tm_next_id := i + 1, tm_active := bt_insert i txn (tm_active m),
              tm_sessions := sm_insert sm session i (tm_sessions m)\<rparr>))"

definition txn_read_view :: "'s session_map \<Rightarrow> u64 \<Rightarrow> 's txn_manager \<Rightarrow> txn_error + read_view" where
  "txn_read_view sm session m =
     (case sm_get sm session (tm_sessions m) of
        None \<Rightarrow> Inl NoActiveTxn
      | Some i \<Rightarrow>
          (case bt_get (tm_active m) i of
             None \<Rightarrow> Inl NoActiveTxn
           | Some txn \<Rightarrow>
               Inr (read_view_new i (tx_start_ts txn)
                 (set (map tx_id (filter (\<lambda>t. tx_state t = TxnActive \<and> tx_id t \<noteq> i) (map snd (tm_active m))))))))"

definition with_txn ::
  "'s session_map \<Rightarrow> u64 \<Rightarrow> (transaction \<Rightarrow> 'r \<times> transaction) \<Rightarrow> 's txn_manager \<Rightarrow> (txn_error + 'r) \<times> 's txn_manager" where
  "with_txn sm session f m =
     (case sm_get sm session (tm_sessions m) of
        None \<Rightarrow> (Inl NoActiveTxn, m)
      | Some i \<Rightarrow>
          (case bt_get (tm_active m) i of
             None \<Rightarrow> (Inl NoActiveTxn, m)
           | Some txn \<Rightarrow>
               if tx_state txn \<noteq> TxnActive then (Inl NoActiveTxn, m)
               else let (r, txn') = f txn in (Inr r, m\<lparr>tm_active := bt_insert i txn' (tm_active m)\<rparr>)))"

definition track_rw_dependencies :: "txn_id \<Rightarrow> bytes \<Rightarrow> 's txn_manager \<Rightarrow> 's txn_manager" where
  "track_rw_dependencies reader key m =
     (let writers = map fst (filter (\<lambda>(i, t). i \<noteq> reader \<and> tx_state t = TxnActive \<and>
            bt_get (tx_write_set t) key \<noteq> None) (tm_active m))
      in m\<lparr>tm_ssi := fold (note_rw_dependency reader) writers (tm_ssi m)\<rparr>)"

definition txn_get ::
  "'s session_map \<Rightarrow> u64 \<Rightarrow> bytes \<Rightarrow> 's txn_manager \<Rightarrow> (txn_fault + bytes option) \<times> 's txn_manager" where
  "txn_get sm session key m =
     (case sm_get sm session (tm_sessions m) of
        None \<Rightarrow> (Inl (TxnErr NoActiveTxn), m)
      | Some i \<Rightarrow>
          (case with_txn sm session (\<lambda>t. ((), record_read key t)) m of
             (Inl e, m) \<Rightarrow> (Inl (TxnErr e), m)
           | (Inr _, m) \<Rightarrow>
               let m = track_rw_dependencies i key m in
               (case txn_read_view sm session m of
                  Inl e \<Rightarrow> (Inl (TxnErr e), m)
                | Inr view \<Rightarrow>
                    (case with_txn sm session (\<lambda>t. (read_own key t, t)) m of
                       (Inl e, m) \<Rightarrow> (Inl (TxnErr e), m)
                     | (Inr (Some own), m) \<Rightarrow> (Inr own, m)
                     | (Inr None, m) \<Rightarrow>
                         (case mvcc_get key view (tm_mvcc m) of
                            Inl _ \<Rightarrow> (Inl TxnPanic, m)
                          | Inr r \<Rightarrow> (Inr r, m))))))"

section \<open>Commit and rollback\<close>

text \<open>Up to and including the durable hook: checks, the copy of the write set, the timestamp.\<close>

definition commit_prepare ::
  "'s session_map \<Rightarrow> (commit_ts \<Rightarrow> (bytes \<times> write_op) list \<Rightarrow> txn_error + unit) \<Rightarrow> nat \<Rightarrow> u64 \<Rightarrow> 's txn_manager \<Rightarrow>
   (txn_error + (txn_id \<times> commit_ts \<times> (bytes \<times> write_op) list)) \<times> 's txn_manager" where
  "commit_prepare sm durable now session m =
     (case sm_get sm session (tm_sessions m) of
        None \<Rightarrow> (Inl NoActiveTxn, m)
      | Some i \<Rightarrow>
          (case deadlock_poll now (tm_active m) i (tm_deadlock m) of
             (Inl e, g) \<Rightarrow> (Inl e, m\<lparr>tm_deadlock := g\<rparr>)
           | (Inr _, g) \<Rightarrow>
               let m = m\<lparr>tm_deadlock := g\<rparr> in
               (case bt_get (tm_active m) i of
                  None \<Rightarrow> (Inl NoActiveTxn, m)
                | Some txn \<Rightarrow>
                    (case check_commit txn (tm_ssi m) of
                       SsiAbort msg \<Rightarrow> (Inl (SerializationFailure msg), m)
                     | SsiAllow \<Rightarrow>
                         let pending = tx_write_set txn;
                             (commit_ts, oracle) = oracle_next (tm_oracle m);
                             m = m\<lparr>tm_oracle := oracle\<rparr>
                         in
                           (case durable commit_ts pending of
                              Inl e \<Rightarrow> (Inl e, m)
                            | Inr _ \<Rightarrow> (Inr (i, commit_ts, pending), m))))))"

definition apply_write :: "commit_ts \<Rightarrow> bytes \<times> write_op \<Rightarrow> mvcc_memtable \<Rightarrow> mvcc_memtable" where
  "apply_write commit_ts w mvcc =
     (let (key, op) = w in
      case op of WPut v \<Rightarrow> mvcc_put key v commit_ts mvcc | WDelete \<Rightarrow> mvcc_delete key commit_ts mvcc)"

text \<open>After the hook: the writes become visible, the bookkeeping of the transaction is dropped.\<close>

definition commit_apply ::
  "'s session_map \<Rightarrow> u64 \<Rightarrow> txn_id \<times> commit_ts \<times> (bytes \<times> write_op) list \<Rightarrow> 's txn_manager \<Rightarrow>
   commit_result \<times> 's txn_manager" where
  "commit_apply sm session prepared m =
     (let (i, commit_ts, pending) = prepared;
          m = m\<lparr>tm_mvcc := fold (apply_write commit_ts) pending (tm_mvcc m)\<rparr>;
          m = m\<lparr>tm_ssi := register_commit i (map fst pending) (tm_ssi m)\<rparr>;
          m = m\<lparr>tm_deadlock := deadlock_clear i (tm_deadlock m)\<rparr>;
          m = m\<lparr>tm_ssi := ssi_purge i (tm_ssi m)\<rparr>;
          m = m\<lparr>tm_active := bt_remove i (tm_active m)\<rparr>;
          m = m\<lparr>tm_sessions := sm_remove sm session (tm_sessions m)\<rparr>
      in (\<lparr>cr_commit_ts = commit_ts, cr_keys_written = length pending\<rparr>, m))"

definition commit_with_durable where
  "commit_with_durable sm durable now session m =
     (case commit_prepare sm durable now session m of
        (Inl e, m) \<Rightarrow> (Inl e, m)
      | (Inr prepared, m) \<Rightarrow> let (r, m) = commit_apply sm session prepared m in (Inr r, m))"

definition txn_commit where
  "txn_commit sm now session m = commit_with_durable sm (\<lambda>_ _. Inr ()) now session m"

definition txn_rollback :: "'s session_map \<Rightarrow> u64 \<Rightarrow> 's txn_manager \<Rightarrow> (txn_error + unit) \<times> 's txn_manager" where
  "txn_rollback sm session m =
     (case sm_get sm session (tm_sessions m) of
        None \<Rightarrow> (Inl NoActiveTxn, m)
      | Some i \<Rightarrow>
          (Inr (),
           m\<lparr>tm_sessions := sm_remove sm session (tm_sessions m),
             tm_mvcc := abort_intents i (tm_mvcc m),
             tm_deadlock := deadlock_clear i (tm_deadlock m),
             tm_ssi := ssi_purge i (tm_ssi m),
             tm_active := bt_remove i (tm_active m)\<rparr>))"

definition txn_get_at_ts :: "bytes \<Rightarrow> commit_ts \<Rightarrow> 's txn_manager \<Rightarrow> fault + bytes option" where
  "txn_get_at_ts key read_ts m = mvcc_get_at_ts key read_ts (tm_mvcc m)"

definition txn_gc :: "commit_ts \<Rightarrow> 's txn_manager \<Rightarrow> gc_stats \<times> 's txn_manager" where
  "txn_gc min_retain_ts m =
     (let (stats, mvcc) = gc_versions min_retain_ts (tm_mvcc m) in (stats, m\<lparr>tm_mvcc := mvcc\<rparr>))"

definition active_count :: "'s txn_manager \<Rightarrow> nat" where
  "active_count m = length (tm_active m)"

end
