(* ===== verification/Txn_Isolation.thy ===== *)
theory Txn_Isolation
  imports Txn_Manager
begin

text \<open>
  What transactions read. A run of calls from many sessions is replayed on the manager together
  with the history of committed writes; the invariant says that the memory table is exactly that
  history. Snapshot isolation, the lost update the checker admits, and the window between the two
  halves of a commit are stated on such runs.
\<close>

section \<open>Runs of calls\<close>

datatype txn_call =
    CBegin u64
  | CGet u64 bytes
  | CPut u64 bytes bytes
  | CDelete u64 bytes
  | CCommit u64
  | CRollback u64

primrec call_session :: "txn_call \<Rightarrow> u64" where
  "call_session (CBegin s) = s"
| "call_session (CGet s k) = s"
| "call_session (CPut s k v) = s"
| "call_session (CDelete s k) = s"
| "call_session (CCommit s) = s"
| "call_session (CRollback s) = s"

text \<open>The open transaction of a session.\<close>

definition txn_of :: "'s session_map \<Rightarrow> u64 \<Rightarrow> 's txn_manager \<Rightarrow> transaction option" where
  "txn_of sm session m =
     (case sm_get sm session (tm_sessions m) of None \<Rightarrow> None | Some i \<Rightarrow> bt_get (tm_active m) i)"

definition op_value :: "write_op \<Rightarrow> bytes option" where
  "op_value op = (case op of WPut v \<Rightarrow> Some v | WDelete \<Rightarrow> None)"

definition commits_of :: "commit_ts \<Rightarrow> (bytes \<times> write_op) list \<Rightarrow> commit list" where
  "commits_of ts pending = map (\<lambda>(k, op). (k, ts, op_value op)) pending"

definition txn_step where
  "txn_step sm durable c hm =
     (let (now, call) = c; (h, m) = hm in
      case call of
        CBegin s \<Rightarrow> (h, snd (txn_begin sm now s m))
      | CGet s k \<Rightarrow> (h, snd (txn_get sm s k m))
      | CPut s k v \<Rightarrow> (h, snd (with_txn sm s (\<lambda>t. ((), txn_stage_put k v t)) m))
      | CDelete s k \<Rightarrow> (h, snd (with_txn sm s (\<lambda>t. ((), txn_stage_delete k t)) m))
      | CCommit s \<Rightarrow>
          (case commit_with_durable sm durable now s m of
             (Inl _, m') \<Rightarrow> (h, m')
           | (Inr r, m') \<Rightarrow>
               (h @ commits_of (cr_commit_ts r) (case txn_of sm s m of None \<Rightarrow> [] | Some t \<Rightarrow> tx_write_set t), m'))
      | CRollback s \<Rightarrow> (h, snd (txn_rollback sm s m)))"

definition txn_run where
  "txn_run sm durable calls hm = fold (txn_step sm durable) calls hm"

section \<open>The invariant\<close>

definition txn_wf :: "u64 \<Rightarrow> u64 \<Rightarrow> txn_id \<Rightarrow> transaction \<Rightarrow> bool" where
  "txn_wf oracle next_id i t \<longleftrightarrow>
     tx_id t = i \<and> tx_state t = TxnActive \<and> tx_start_ts t \<le> oracle \<and> bt_sorted (tx_write_set t) \<and> i < next_id"

definition history_ok :: "u64 \<Rightarrow> commit list \<Rightarrow> bool" where
  "history_ok oracle h \<longleftrightarrow> sorted (map (\<lambda>(_, ts, _). ts) h) \<and> (\<forall>(_, ts, _) \<in> set h. ts \<noteq> 0 \<and> ts \<le> oracle)"

definition txn_inv :: "'s session_map \<Rightarrow> commit list \<Rightarrow> 's txn_manager \<Rightarrow> bool" where
  "txn_inv sm h m \<longleftrightarrow>
     tm_mvcc m = mvcc_run h \<and> history_ok (tm_oracle m) h \<and>
     bt_sorted (tm_active m) \<and>
     (\<forall>i t. bt_get (tm_active m) i = Some t \<longrightarrow> txn_wf (tm_oracle m) (tm_next_id m) i t) \<and>
     (\<forall>s i. sm_get sm s (tm_sessions m) = Some i \<longrightarrow> bt_get (tm_active m) i \<noteq> None) \<and>
     (\<forall>s s' i. sm_get sm s (tm_sessions m) = Some i \<and> sm_get sm s' (tm_sessions m) = Some i \<longrightarrow> s = s') \<and>
     ssi_write_keys (tm_ssi m) = [] \<and> dg_waits (tm_deadlock m) = []"

lemma txn_inv_new:
  assumes "sessions_ok sm"
  shows "txn_inv sm [] (txn_manager_new sm)"
  using assms
  by (simp add: txn_inv_def txn_manager_new_def mvcc_run_def history_ok_def sessions_ok_def ssi_default_def
      deadlock_new_def bt_get_def)

text \<open>Counters have room: neither the oracle nor the identifiers wrap around.\<close>

definition room :: "nat \<Rightarrow> 's txn_manager \<Rightarrow> bool" where
  "room n m \<longleftrightarrow> unat (tm_oracle m) + n < 2 ^ 64 \<and> unat (tm_next_id m) + n < 2 ^ 64"

lemma u64_succ_less: "unat (x :: u64) + 1 < 2 ^ 64 \<Longrightarrow> x < x + 1 \<and> unat (x + 1) = unat x + 1 \<and> x + 1 \<noteq> 0 \<and> x \<noteq> - 1"
proof -
  assume "unat x + 1 < 2 ^ 64"
  then have u: "unat (x + 1) = unat x + 1" by (simp add: unat_word_ariths)
  then have "x + 1 \<noteq> 0" by auto
  then show ?thesis using u by (auto simp: word_less_nat_alt)
qed

lemma oracle_next_eq: "unat lst + 1 < 2 ^ 64 \<Longrightarrow> oracle_next lst = (lst + 1, lst + 1)"
proof -
  assume "unat lst + 1 < 2 ^ 64"
  note u = u64_succ_less [OF this]
  then have "1 \<le> lst + 1" by (simp only: word_le_nat_alt) simp
  then show ?thesis using u by (simp add: oracle_next_def max_absorb1)
qed

lemma room_oracle: "room (Suc n) m \<Longrightarrow> oracle_next (tm_oracle m) = (tm_oracle m + 1, tm_oracle m + 1) \<and>
    tm_oracle m < tm_oracle m + 1 \<and> tm_oracle m + 1 \<noteq> 0"
  using oracle_next_eq [of "tm_oracle m"] u64_succ_less [of "tm_oracle m"] by (simp add: room_def)

lemma txn_wf_mono: "txn_wf oracle next_id i t \<Longrightarrow> oracle \<le> oracle' \<Longrightarrow> next_id \<le> next_id' \<Longrightarrow> txn_wf oracle' next_id' i t"
  by (auto simp: txn_wf_def)

lemma history_ok_mono: "history_ok oracle h \<Longrightarrow> oracle \<le> oracle' \<Longrightarrow> history_ok oracle' h"
  by (fastforce simp: history_ok_def)

lemma txn_invD:
  assumes "txn_inv sm h m"
  shows "tm_mvcc m = mvcc_run h" "history_ok (tm_oracle m) h" "bt_sorted (tm_active m)"
    "bt_get (tm_active m) i = Some t \<Longrightarrow> txn_wf (tm_oracle m) (tm_next_id m) i t"
    "sm_get sm s (tm_sessions m) = Some i \<Longrightarrow> bt_get (tm_active m) i \<noteq> None"
    "sm_get sm s (tm_sessions m) = Some i \<Longrightarrow> sm_get sm s' (tm_sessions m) = Some i \<Longrightarrow> s = s'"
    "ssi_write_keys (tm_ssi m) = []" "dg_waits (tm_deadlock m) = []"
  using assms unfolding txn_inv_def by blast+

lemma txn_of_Some:
  assumes "txn_inv sm h m" "txn_of sm s m = Some t"
  shows "sm_get sm s (tm_sessions m) = Some (tx_id t)" "bt_get (tm_active m) (tx_id t) = Some t"
    "txn_wf (tm_oracle m) (tm_next_id m) (tx_id t) t"
proof -
  obtain i where i: "sm_get sm s (tm_sessions m) = Some i" "bt_get (tm_active m) i = Some t"
    using assms(2) by (auto simp: txn_of_def split: option.splits)
  have wf: "txn_wf (tm_oracle m) (tm_next_id m) i t" using txn_invD(4) [OF assms(1) i(2)] .
  then have "tx_id t = i" by (simp add: txn_wf_def)
  then show "sm_get sm s (tm_sessions m) = Some (tx_id t)" "bt_get (tm_active m) (tx_id t) = Some t"
    "txn_wf (tm_oracle m) (tm_next_id m) (tx_id t) t" using i wf by simp_all
qed

lemma txn_of_None: "txn_inv sm h m \<Longrightarrow> txn_of sm s m = None \<longleftrightarrow> sm_get sm s (tm_sessions m) = None"
  using txn_invD(5) by (auto simp: txn_of_def split: option.splits)

lemma txn_of_other:
  assumes "txn_inv sm h m" "txn_of sm s m = Some t" "txn_of sm s' m = Some t'" "s \<noteq> s'"
  shows "tx_id t \<noteq> tx_id t'"
  using txn_of_Some [OF assms(1,2)] txn_of_Some [OF assms(1,3)] txn_invD(6) [OF assms(1)] assms(4) by metis

section \<open>Each call keeps the invariant\<close>

text \<open>\<open>keeps s m m'\<close>: no other session's transaction changes, and the oracle does not run backwards.\<close>

definition keeps :: "'s session_map \<Rightarrow> u64 \<Rightarrow> 's txn_manager \<Rightarrow> 's txn_manager \<Rightarrow> bool" where
  "keeps sm s m m' \<longleftrightarrow> (\<forall>s'. s' \<noteq> s \<longrightarrow> txn_of sm s' m' = txn_of sm s' m) \<and> tm_oracle m \<le> tm_oracle m' \<and>
     (\<forall>n. room (Suc n) m \<longrightarrow> room n m')"

lemma room_Suc: "room (Suc n) m \<Longrightarrow> room n m"
  by (simp add: room_def)

lemma begin_step:
  assumes sm: "sessions_ok sm" and inv: "txn_inv sm h m" and room: "room 1 m" and out: "sm_get sm s (tm_sessions m) = None"
  shows "\<exists>m'. txn_begin sm now s m = (Inr (tm_next_id m), m') \<and> txn_inv sm h m' \<and> keeps sm s m m' \<and>
    txn_of sm s m' = Some (transaction_new now (tm_next_id m) (tm_oracle m + 1)) \<and> tm_oracle m' = tm_oracle m + 1 \<and>
    tm_mvcc m' = tm_mvcc m"
proof -
  let ?i = "tm_next_id m" and ?t = "transaction_new now (tm_next_id m) (tm_oracle m + 1)"
  have o: "oracle_next (tm_oracle m) = (tm_oracle m + 1, tm_oracle m + 1)" "tm_oracle m < tm_oracle m + 1"
    using room_oracle [of 0 m] room by simp_all
  have i: "?i < ?i + 1" "unat (?i + 1) = unat ?i + 1" "unat (tm_oracle m + 1) = unat (tm_oracle m) + 1"
    using u64_succ_less [of ?i] u64_succ_less [of "tm_oracle m"] room by (simp_all add: room_def)
  let ?m = "m\<lparr>tm_oracle := tm_oracle m + 1, tm_next_id := ?i + 1, tm_active := bt_insert ?i ?t (tm_active m),
      tm_sessions := sm_insert sm s ?i (tm_sessions m)\<rparr>"
  have step: "txn_begin sm now s m = (Inr ?i, ?m)" using out o by (simp add: txn_begin_def in_txn_def Let_def)
  have fresh: "bt_get (tm_active m) ?i = None"
  proof (cases "bt_get (tm_active m) ?i")
    case (Some t)
    then have False using txn_invD(4) [OF inv Some] by (simp add: txn_wf_def)
    then show ?thesis ..
  qed
  have noid: "sm_get sm s' (tm_sessions m) \<noteq> Some ?i" for s' using txn_invD(5) [OF inv] fresh by metis
  have get: "sm_get sm k (sm_insert sm s ?i (tm_sessions m)) = (if k = s then Some ?i else sm_get sm k (tm_sessions m))" for k
    using sm by (simp add: sessions_ok_def)
  have act: "bt_get (bt_insert ?i ?t (tm_active m)) k = (if k = ?i then Some ?t else bt_get (tm_active m) k)" for k
    using bt_get_insert [OF txn_invD(3) [OF inv]] by simp
  have wf: "txn_wf (tm_oracle m + 1) (?i + 1) k t" if "bt_get (tm_active m) k = Some t" for k t
    using txn_wf_mono [OF txn_invD(4) [OF inv that]] o(2) i(1) by simp
  have "txn_wf (tm_oracle m + 1) (?i + 1) ?i ?t" using i(1) by (simp add: txn_wf_def transaction_new_def)
  then have "txn_inv sm h ?m"
    using inv noid get act wf history_ok_mono [OF txn_invD(2) [OF inv]] o(2)
    by (auto simp: txn_inv_def bt_sorted_insert)
  moreover have "txn_of sm s' ?m = txn_of sm s' m" if "s' \<noteq> s" for s'
    using that noid by (simp add: txn_of_def get act split: option.splits)
  then have "keeps sm s m ?m" using o(2) i by (simp add: keeps_def room_def)
  moreover have "txn_of sm s ?m = Some ?t" by (simp add: txn_of_def get act)
  ultimately show ?thesis using step by (intro exI [of _ ?m]) simp
qed

lemma with_txn_eq:
  assumes "txn_inv sm h m"
  shows "with_txn sm s f m = (case txn_of sm s m of
     None \<Rightarrow> (Inl NoActiveTxn, m)
   | Some t \<Rightarrow> (Inr (fst (f t)), m\<lparr>tm_active := bt_insert (tx_id t) (snd (f t)) (tm_active m)\<rparr>))"
proof (cases "txn_of sm s m")
  case None
  then show ?thesis by (auto simp: with_txn_def txn_of_def split: option.splits)
next
  case (Some t)
  note t = txn_of_Some [OF assms Some]
  show ?thesis using t Some by (cases "f t") (simp add: with_txn_def txn_wf_def)
qed

definition stays_open :: "transaction \<Rightarrow> transaction \<Rightarrow> bool" where
  "stays_open t t' \<longleftrightarrow> tx_id t' = tx_id t \<and> tx_state t' = tx_state t \<and> tx_start_ts t' = tx_start_ts t \<and>
     (bt_sorted (tx_write_set t) \<longrightarrow> bt_sorted (tx_write_set t'))"

lemma update_txn_inv:
  assumes inv: "txn_inv sm h m" and t: "txn_of sm s m = Some t" "stays_open t t'"
  defines "m' \<equiv> m\<lparr>tm_active := bt_insert (tx_id t) t' (tm_active m)\<rparr>"
  shows "txn_inv sm h m' \<and> keeps sm s m m' \<and> txn_of sm s m' = Some t'"
proof -
  note tt = txn_of_Some [OF inv t(1)]
  have act: "bt_get (bt_insert (tx_id t) t' (tm_active m)) k = (if k = tx_id t then Some t' else bt_get (tm_active m) k)" for k
    using bt_get_insert [OF txn_invD(3) [OF inv]] by simp
  have "txn_wf (tm_oracle m) (tm_next_id m) (tx_id t) t'" using tt(3) t(2) by (simp add: txn_wf_def stays_open_def)
  then have "txn_inv sm h m'"
    using inv act unfolding txn_inv_def m'_def by (simp add: bt_sorted_insert)
  moreover have "txn_of sm s' m' = txn_of sm s' m" if "s' \<noteq> s" for s'
    using that txn_invD(6) [OF inv tt(1), of s'] by (auto simp: txn_of_def m'_def act split: option.splits)
  then have "keeps sm s m m'" by (simp add: keeps_def m'_def room_def)
  moreover have "txn_of sm s m' = Some t'" using tt by (simp add: txn_of_def m'_def act)
  ultimately show ?thesis by blast
qed

lemma fold_note_write_keys: "ssi_write_keys (fold (note_rw_dependency r) ws s) = ssi_write_keys s"
  by (induction ws arbitrary: s) (simp_all add: note_rw_dependency_def Let_def)

lemma track_inv:
  "txn_inv sm h m \<Longrightarrow> txn_inv sm h (track_rw_dependencies i k m)"
  "txn_of sm s (track_rw_dependencies i k m) = txn_of sm s m"
  "room n (track_rw_dependencies i k m) = room n m" "tm_oracle (track_rw_dependencies i k m) = tm_oracle m"
  by (simp_all add: txn_inv_def track_rw_dependencies_def Let_def fold_note_write_keys txn_of_def room_def
      cong: option.case_cong)

lemma keeps_track: "keeps sm s m m' \<Longrightarrow> keeps sm s m (track_rw_dependencies i k m')"
  by (simp add: keeps_def track_inv)

lemma keeps_trans:
  assumes "keeps sm s m m'" "keeps sm s m' m''" "\<And>n. room n m' \<Longrightarrow> room n m''"
  shows "keeps sm s m m''"
  using assms by (auto simp: keeps_def)

text \<open>Without intents a read depends on the timestamp of its view only.\<close>

lemma mvcc_get_view:
  assumes "mm_intents t = []"
  shows "mvcc_get k (read_view_new i ts act) t = mvcc_get_at_ts k ts t"
proof -
  have eq: "is_visible (read_view_new i ts act) v (bt_get (mm_intents t) ik) =
      is_visible (read_view_new 0 ts {}) v (bt_get (mm_intents t) ik)" for v ik
    using assms by (simp add: is_visible_def read_view_new_def bt_get_def)
  show ?thesis unfolding mvcc_get_at_ts_def mvcc_get_def mvcc_get_version_def eq ..
qed

lemma mvcc_run_no_intents: "history_ok lst h \<Longrightarrow> mm_intents (mvcc_run h) = []"
  using mvcc_run_spec [of h] by (force simp: history_ok_def)

lemma get_step:
  assumes inv: "txn_inv sm h m" and t: "txn_of sm s m = Some t"
  shows "\<exists>m'. txn_get sm s k m =
      (case read_own k t of
         Some own \<Rightarrow> Inr own
       | None \<Rightarrow> (case mvcc_get_at_ts k (tx_start_ts t) (mvcc_run h) of Inl _ \<Rightarrow> Inl TxnPanic | Inr r \<Rightarrow> Inr r), m') \<and>
    txn_inv sm h m' \<and> keeps sm s m m' \<and> txn_of sm s m' = Some (record_read k t)"
proof -
  let ?t = "record_read k t" and ?i = "tx_id t"
  note tt = txn_of_Some [OF inv t]
  have so: "stays_open t ?t" "stays_open ?t ?t" "tx_id ?t = ?i" "tx_start_ts ?t = tx_start_ts t" "read_own k ?t = read_own k t"
    by (simp_all add: stays_open_def record_read_def read_own_def)
  define m1 where "m1 = m\<lparr>tm_active := bt_insert ?i ?t (tm_active m)\<rparr>"
  have 1: "txn_inv sm h m1" "keeps sm s m m1" "txn_of sm s m1 = Some ?t"
    using update_txn_inv [OF inv t so(1)] by (simp_all add: m1_def)
  define m2 where "m2 = track_rw_dependencies ?i k m1"
  have 2: "txn_inv sm h m2" "keeps sm s m m2" "txn_of sm s m2 = Some ?t"
    using 1 by (simp_all add: m2_def track_inv keeps_track)
  define m3 where "m3 = m2\<lparr>tm_active := bt_insert ?i ?t (tm_active m2)\<rparr>"
  have 3: "txn_inv sm h m3" "keeps sm s m2 m3" "txn_of sm s m3 = Some ?t"
    using update_txn_inv [OF 2(1,3) so(2)] so(3) by (simp_all add: m3_def)
  have k3: "keeps sm s m m3" by (rule keeps_trans [OF 2(2) 3(2)]) (simp add: m3_def room_def)
  obtain act where view: "txn_read_view sm s m2 = Inr (read_view_new ?i (tx_start_ts t) act)"
    using txn_of_Some [OF 2(1,3)] so by (simp add: txn_read_view_def)
  have w1: "with_txn sm s (\<lambda>t. ((), record_read k t)) m = (Inr (), m1)"
    by (simp add: with_txn_eq [OF inv] t m1_def)
  have w3: "with_txn sm s (\<lambda>t. (read_own k t, t)) m2 = (Inr (read_own k t), m3)"
    using so by (simp add: with_txn_eq [OF 2(1)] 2(3) m3_def)
  have mv: "mvcc_get k (read_view_new ?i (tx_start_ts t) act) (tm_mvcc m3) = mvcc_get_at_ts k (tx_start_ts t) (mvcc_run h)"
    using txn_invD(1,2) [OF 3(1)] mvcc_get_view [of "mvcc_run h"] mvcc_run_no_intents by metis
  have "txn_get sm s k m =
      (case read_own k t of
         Some own \<Rightarrow> Inr own
       | None \<Rightarrow> (case mvcc_get_at_ts k (tx_start_ts t) (mvcc_run h) of Inl _ \<Rightarrow> Inl TxnPanic | Inr r \<Rightarrow> Inr r), m3)"
    using tt(1) mv by (simp add: txn_get_def w1 m2_def [symmetric] view w3 split: option.splits sum.splits)
  then show ?thesis using 3 k3 by blast
qed

lemma rollback_step:
  assumes sm: "sessions_ok sm" and inv: "txn_inv sm h m" and t: "txn_of sm s m = Some t"
  shows "\<exists>m'. txn_rollback sm s m = (Inr (), m') \<and> txn_inv sm h m' \<and> keeps sm s m m' \<and> txn_of sm s m' = None"
proof -
  note tt = txn_of_Some [OF inv t]
  have mv: "abort_intents (tx_id t) (tm_mvcc m) = mvcc_run h"
    using txn_invD(1) [OF inv] mvcc_run_no_intents [OF txn_invD(2) [OF inv]] by (simp add: abort_intents_def)
  let ?m = "m\<lparr>tm_sessions := sm_remove sm s (tm_sessions m), tm_mvcc := mvcc_run h,
      tm_deadlock := deadlock_clear (tx_id t) (tm_deadlock m), tm_ssi := ssi_purge (tx_id t) (tm_ssi m),
      tm_active := bt_remove (tx_id t) (tm_active m)\<rparr>"
  have get: "sm_get sm k (sm_remove sm s (tm_sessions m)) = (if k = s then None else sm_get sm k (tm_sessions m))" for k
    using sm by (simp add: sessions_ok_def)
  have act: "bt_get (bt_remove (tx_id t) (tm_active m)) k = (if k = tx_id t then None else bt_get (tm_active m) k)" for k
    using bt_get_remove [OF txn_invD(3) [OF inv]] by simp
  have other: "sm_get sm k (tm_sessions m) = Some i \<Longrightarrow> k \<noteq> s \<Longrightarrow> i \<noteq> tx_id t" for k i
    using txn_invD(6) [OF inv tt(1)] by metis
  have "txn_inv sm h ?m"
    using inv get act other unfolding txn_inv_def
    by (auto simp: bt_sorted_filter ssi_purge_def deadlock_clear_def bt_remove_def Let_def)
  moreover have "txn_of sm s' ?m = txn_of sm s' m" if "s' \<noteq> s" for s'
    using that other by (auto simp: txn_of_def get act split: option.splits)
  then have "keeps sm s m ?m" by (simp add: keeps_def room_def)
  moreover have "txn_of sm s ?m = None" by (simp add: txn_of_def get)
  ultimately show ?thesis using tt(1) mv by (intro exI [of _ ?m]) (simp add: txn_rollback_def)
qed

lemma poll_no_waits:
  assumes "dg_waits g = []" "deadlock_poll now act i g = (r, g')"
  shows "dg_waits g' = []" "r = Inl WaitTimeout \<or> r = Inr ()"
  using assms
  by (auto simp: deadlock_poll_def Let_def find_cycle_victim_def deadlock_clear_def bt_remove_def split: if_splits option.splits)

lemma inv_deadlock:
  "txn_inv sm h m \<Longrightarrow> dg_waits g = [] \<Longrightarrow> txn_inv sm h (m\<lparr>tm_deadlock := g\<rparr>)"
  "txn_of sm s (m\<lparr>tm_deadlock := g\<rparr>) = txn_of sm s m"
  "keeps sm s m (m\<lparr>tm_deadlock := g\<rparr>)"
  by (simp_all add: txn_inv_def txn_of_def keeps_def room_def cong: option.case_cong)

lemma inv_oracle:
  assumes "txn_inv sm h m" "tm_oracle m \<le> lst"
  shows "txn_inv sm h (m\<lparr>tm_oracle := lst\<rparr>)"
  using assms txn_wf_mono [of "tm_oracle m" "tm_next_id m" _ _ lst "tm_next_id m"] history_ok_mono [of "tm_oracle m" h lst]
  by (simp add: txn_inv_def)

lemma prepare_step:
  assumes inv: "txn_inv sm h m" and room: "room 1 m" and step: "commit_prepare sm durable now s m = (r, m1)"
  shows "txn_inv sm h m1 \<and> keeps sm s m m1 \<and> txn_of sm s m1 = txn_of sm s m \<and>
    (\<forall>i ts pend. r = Inr (i, ts, pend) \<longrightarrow> (\<exists>t. txn_of sm s m = Some t \<and> i = tx_id t \<and> ts = tm_oracle m + 1 \<and>
       pend = tx_write_set t \<and> tm_oracle m1 = tm_oracle m + 1))"
proof (cases "txn_of sm s m")
  case None
  then have "r = Inl NoActiveTxn" "m1 = m"
    using step txn_of_None [OF inv] by (auto simp: commit_prepare_def)
  then show ?thesis using inv by (simp add: keeps_def room_def)
next
  case (Some t)
  note tt = txn_of_Some [OF inv Some]
  obtain pr g where poll: "deadlock_poll now (tm_active m) (tx_id t) (tm_deadlock m) = (pr, g)" by force
  note p = poll_no_waits [OF txn_invD(8) [OF inv] poll]
  let ?m = "m\<lparr>tm_deadlock := g\<rparr>" and ?lst = "tm_oracle m + 1"
  let ?m' = "?m\<lparr>tm_oracle := ?lst\<rparr>"
  have o: "oracle_next (tm_oracle m) = (?lst, ?lst)" "tm_oracle m < ?lst" "unat ?lst = unat (tm_oracle m) + 1"
    using room_oracle [of 0 m] u64_succ_less [of "tm_oracle m"] room by (simp_all add: room_def)
  have 1: "txn_inv sm h ?m" "keeps sm s m ?m" "txn_of sm s ?m = Some t"
    using inv_deadlock(1) [OF inv p(1)] Some by (simp_all add: inv_deadlock(2,3))
  have 2: "txn_inv sm h ?m'" using inv_oracle [OF 1(1), of ?lst] o(2) by simp
  have 3: "keeps sm s m ?m'" "txn_of sm s ?m' = Some t"
    using 1(3) o(2,3) by (simp_all add: keeps_def room_def txn_of_def cong: option.case_cong)
  consider "r = Inl WaitTimeout" "m1 = ?m" | msg where "r = Inl (SerializationFailure msg)" "m1 = ?m"
    | e where "r = Inl e" "m1 = ?m'" | "r = Inr (tx_id t, ?lst, tx_write_set t)" "m1 = ?m'"
    using step tt(1,2) p(2) o(1) by (auto simp: commit_prepare_def poll Let_def split: ssi_decision.splits sum.splits)
  then show ?thesis using 1 2 3 Some by cases auto
qed

lemma fold_apply_write: "fold (apply_write ts) pend (mvcc_run h) = mvcc_run (h @ commits_of ts pend)"
proof -
  have "apply_write ts w = mvcc_apply (fst w, ts, op_value (snd w))" for w
    by (cases w; cases "snd w") (auto simp: apply_write_def mvcc_apply_def op_value_def)
  then have "apply_write ts = (\<lambda>w. mvcc_apply (fst w, ts, op_value (snd w)))" by (intro ext) simp
  then have "fold (apply_write ts) pend = fold mvcc_apply (commits_of ts pend)"
    by (simp add: commits_of_def fold_map comp_def split_beta)
  then show ?thesis by (simp add: mvcc_run_def)
qed

lemma history_ok_append:
  assumes "history_ok lst h" "\<forall>(_, ts', _) \<in> set h. ts' \<le> ts" "ts \<noteq> 0" "ts \<le> lst"
  shows "history_ok lst (h @ commits_of ts pend)"
proof -
  have "map (\<lambda>(_, ts, _). ts) (commits_of ts pend) = replicate (length pend) ts"
    by (induction pend) (auto simp: commits_of_def)
  then show ?thesis using assms
    by (auto simp: history_ok_def sorted_append commits_of_def)
qed

lemma apply_step:
  assumes sm: "sessions_ok sm" and inv: "txn_inv sm h m" and t: "txn_of sm s m = Some t"
    and ts: "\<forall>(_, ts', _) \<in> set h. ts' \<le> ts" "ts \<noteq> 0" "ts \<le> tm_oracle m"
  shows "\<exists>m'. commit_apply sm s (tx_id t, ts, pend) m = (\<lparr>cr_commit_ts = ts, cr_keys_written = length pend\<rparr>, m') \<and>
    txn_inv sm (h @ commits_of ts pend) m' \<and> keeps sm s m m' \<and> txn_of sm s m' = None \<and>
    tm_oracle m' = tm_oracle m \<and> tm_next_id m' = tm_next_id m"
proof -
  note tt = txn_of_Some [OF inv t]
  let ?m = "snd (commit_apply sm s (tx_id t, ts, pend) m)"
  have get: "sm_get sm k (sm_remove sm s (tm_sessions m)) = (if k = s then None else sm_get sm k (tm_sessions m))" for k
    using sm by (simp add: sessions_ok_def)
  have act: "bt_get (bt_remove (tx_id t) (tm_active m)) k = (if k = tx_id t then None else bt_get (tm_active m) k)" for k
    using bt_get_remove [OF txn_invD(3) [OF inv]] by simp
  have other: "sm_get sm k (tm_sessions m) = Some i \<Longrightarrow> k \<noteq> s \<Longrightarrow> i \<noteq> tx_id t" for k i
    using txn_invD(6) [OF inv tt(1)] by metis
  have f: "tm_mvcc ?m = mvcc_run (h @ commits_of ts pend)" "tm_oracle ?m = tm_oracle m" "tm_next_id ?m = tm_next_id m"
    "tm_active ?m = bt_remove (tx_id t) (tm_active m)" "tm_sessions ?m = sm_remove sm s (tm_sessions m)"
    "ssi_write_keys (tm_ssi ?m) = []" "dg_waits (tm_deadlock ?m) = []"
    using txn_invD(1,7,8) [OF inv] fold_apply_write [of ts pend h]
    by (simp_all add: commit_apply_def Let_def register_commit_def ssi_purge_def deadlock_clear_def bt_remove_def)
  have "txn_inv sm (h @ commits_of ts pend) ?m"
    using inv get act other history_ok_append [OF txn_invD(2) [OF inv] ts] unfolding txn_inv_def f
    by (auto simp: bt_sorted_remove)
  moreover have "txn_of sm s' ?m = txn_of sm s' m" if "s' \<noteq> s" for s'
    using that other by (auto simp: txn_of_def f get act split: option.splits)
  then have "keeps sm s m ?m" by (simp add: keeps_def room_def f)
  moreover have "txn_of sm s ?m = None" by (simp add: txn_of_def f get)
  moreover have "fst (commit_apply sm s (tx_id t, ts, pend) m) = \<lparr>cr_commit_ts = ts, cr_keys_written = length pend\<rparr>"
    by (simp add: commit_apply_def Let_def)
  ultimately show ?thesis using f(2,3) by (intro exI [of _ ?m]) (metis prod.collapse)
qed

lemma commit_step:
  assumes sm: "sessions_ok sm" and inv: "txn_inv sm h m" and room: "room 1 m"
    and step: "commit_with_durable sm durable now s m = (r, m')"
  shows "keeps sm s m m' \<and> (case r of
      Inl _ \<Rightarrow> txn_inv sm h m' \<and> txn_of sm s m' = txn_of sm s m
    | Inr c \<Rightarrow> (\<exists>t. txn_of sm s m = Some t \<and> cr_commit_ts c = tm_oracle m + 1 \<and> tm_oracle m' = tm_oracle m + 1 \<and>
        txn_inv sm (h @ commits_of (tm_oracle m + 1) (tx_write_set t)) m' \<and> txn_of sm s m' = None))"
proof -
  obtain pr m1 where p: "commit_prepare sm durable now s m = (pr, m1)" by force
  note ps = prepare_step [OF inv room p]
  show ?thesis
  proof (cases pr)
    case (Inl e)
    then have "r = Inl e" "m' = m1" using step p by (simp_all add: commit_with_durable_def)
    then show ?thesis using ps by simp
  next
    case (Inr x)
    then obtain t where t: "txn_of sm s m = Some t" "pr = Inr (tx_id t, tm_oracle m + 1, tx_write_set t)"
      "tm_oracle m1 = tm_oracle m + 1" using ps by (cases x) auto
    have o: "tm_oracle m < tm_oracle m + 1" "tm_oracle m + 1 \<noteq> 0" using room_oracle [of 0 m] room by simp_all
    have h: "\<forall>(_, ts', _) \<in> set h. ts' \<le> tm_oracle m + 1"
      using txn_invD(2) [OF inv] o(1) by (fastforce simp: history_ok_def)
    from apply_step [OF sm _ _ h o(2), of m1 s t "tx_write_set t"] ps t obtain m2 where
      m2: "commit_apply sm s (tx_id t, tm_oracle m + 1, tx_write_set t) m1 =
        (\<lparr>cr_commit_ts = tm_oracle m + 1, cr_keys_written = length (tx_write_set t)\<rparr>, m2)"
      "txn_inv sm (h @ commits_of (tm_oracle m + 1) (tx_write_set t)) m2" "keeps sm s m1 m2" "txn_of sm s m2 = None"
      "tm_oracle m2 = tm_oracle m1" "tm_next_id m2 = tm_next_id m1" by auto
    have "keeps sm s m m2" by (rule keeps_trans [OF _ m2(3)]) (use ps m2 in \<open>simp_all add: room_def\<close>)
    then show ?thesis using step p t m2 by (auto simp: commit_with_durable_def)
  qed
qed

definition own_write :: "txn_call \<Rightarrow> (bytes \<times> write_op) list \<Rightarrow> (bytes \<times> write_op) list" where
  "own_write c ws = (case c of CPut _ k v \<Rightarrow> bt_insert k (WPut v) ws | CDelete _ k \<Rightarrow> bt_insert k WDelete ws | _ \<Rightarrow> ws)"

text \<open>One call keeps everything; its own session's transaction changes by the staged write only.\<close>

lemma step_ok:
  assumes sm: "sessions_ok sm" and inv: "txn_inv sm h m" and room: "room 1 m"
    and step: "txn_step sm durable (now, c) (h, m) = (h', m')"
  shows "txn_inv sm h' m' \<and> keeps sm (call_session c) m m' \<and>
    (\<exists>new. h' = h @ new \<and> (\<forall>(_, ts, _) \<in> set new. tm_oracle m < ts)) \<and>
    (\<forall>t. txn_of sm (call_session c) m = Some t \<and> (\<forall>s. c \<noteq> CCommit s \<and> c \<noteq> CRollback s) \<longrightarrow>
      (\<exists>t'. txn_of sm (call_session c) m' = Some t' \<and> tx_start_ts t' = tx_start_ts t \<and>
         tx_write_set t' = own_write c (tx_write_set t)))"
proof -
  have same: "txn_inv sm h m \<and> keeps sm s m m" for s using inv by (simp add: keeps_def room_Suc)
  have staged: "txn_inv sm h m' \<and> keeps sm s m m' \<and> h' = h \<and> (\<forall>t. txn_of sm s m = Some t \<longrightarrow> txn_of sm s m' = Some (f t))"
    if "txn_step sm durable (now, c) (h, m) = (h, snd (with_txn sm s (\<lambda>t. ((), f t)) m))" "\<And>t. stays_open t (f t)" for s f
    using that step same update_txn_inv [OF inv, of s _ "f _"]
    by (cases "txn_of sm s m") (auto simp: with_txn_eq [OF inv])
  show ?thesis
  proof (cases c)
    case (CBegin s)
    then show ?thesis
      using step same begin_step [OF sm inv room, of s now] txn_of_None [OF inv, of s]
      by (cases "sm_get sm s (tm_sessions m)")
        (auto simp: txn_step_def txn_begin_def in_txn_def own_write_def)
  next
    case (CGet s k)
    show ?thesis
    proof (cases "txn_of sm s m")
      case None
      then have "sm_get sm s (tm_sessions m) = None" using txn_of_None [OF inv] by simp
      then show ?thesis using CGet None step same by (simp add: txn_step_def txn_get_def)
    next
      case (Some t)
      then show ?thesis
        using get_step [OF inv Some, of k] CGet step by (auto simp: txn_step_def record_read_def own_write_def)
    qed
  next
    case (CPut s k v)
    then show ?thesis using staged [of s "txn_stage_put k v"]
      by (auto simp: txn_step_def stays_open_def txn_stage_put_def bt_sorted_insert own_write_def)
  next
    case (CDelete s k)
    then show ?thesis using staged [of s "txn_stage_delete k"]
      by (auto simp: txn_step_def stays_open_def txn_stage_delete_def bt_sorted_insert own_write_def)
  next
    case (CCommit s)
    obtain r mr where cr: "commit_with_durable sm durable now s m = (r, mr)" by force
    have "tm_oracle m < tm_oracle m + 1" using room_oracle [of 0 m] room by simp
    then show ?thesis
      using commit_step [OF sm inv room cr] CCommit step cr
      by (auto simp: txn_step_def commits_of_def split: sum.splits)
  next
    case (CRollback s)
    show ?thesis
    proof (cases "txn_of sm s m")
      case None
      then have "sm_get sm s (tm_sessions m) = None" using txn_of_None [OF inv] by simp
      then show ?thesis using CRollback step same by (simp add: txn_step_def txn_rollback_def)
    next
      case (Some t)
      then show ?thesis using rollback_step [OF sm inv Some] CRollback step by (auto simp: txn_step_def)
    qed
  qed
qed

definition own_writes :: "u64 \<Rightarrow> (nat \<times> txn_call) list \<Rightarrow> (bytes \<times> write_op) list \<Rightarrow> (bytes \<times> write_op) list" where
  "own_writes s calls ws = fold (\<lambda>(_, c) ws. if call_session c = s then own_write c ws else ws) calls ws"

definition stays :: "u64 \<Rightarrow> (nat \<times> txn_call) list \<Rightarrow> bool" where
  "stays s calls \<longleftrightarrow> (\<forall>(_, c) \<in> set calls. c \<noteq> CCommit s \<and> c \<noteq> CRollback s)"

lemma step_own:
  assumes "sessions_ok sm" "txn_inv sm h m" "room 1 m" "txn_step sm durable nc (h, m) = (h1, m1)"
    and "txn_of sm s m = Some t" "stays s [nc]"
  shows "\<exists>t1. txn_of sm s m1 = Some t1 \<and> tx_start_ts t1 = tx_start_ts t \<and> tx_write_set t1 = own_writes s [nc] (tx_write_set t)"
proof -
  obtain now c where nc: "nc = (now, c)" by (cases nc)
  note so = step_ok [OF assms(1-3) assms(4) [unfolded nc]]
  show ?thesis
  proof (cases "call_session c = s")
    case True
    then have "\<forall>s'. c \<noteq> CCommit s' \<and> c \<noteq> CRollback s'" using assms(6) by (auto simp: stays_def nc)
    then show ?thesis using so assms(5) True by (simp add: own_writes_def nc)
  next
    case False
    then have "txn_of sm s m1 = txn_of sm s m" using so by (simp add: keeps_def)
    then show ?thesis using assms(5) False by (simp add: own_writes_def nc)
  qed
qed

lemma run_ok:
  assumes sm: "sessions_ok sm"
  shows "txn_inv sm h m \<Longrightarrow> room (length calls + n) m \<Longrightarrow> txn_run sm durable calls (h, m) = (h', m') \<Longrightarrow>
    txn_inv sm h' m' \<and> tm_oracle m \<le> tm_oracle m' \<and> room n m' \<and>
    (\<exists>new. h' = h @ new \<and> (\<forall>(_, ts, _) \<in> set new. tm_oracle m < ts)) \<and>
    (\<forall>s t. txn_of sm s m = Some t \<and> stays s calls \<longrightarrow>
      (\<exists>t'. txn_of sm s m' = Some t' \<and> tx_start_ts t' = tx_start_ts t \<and>
         tx_write_set t' = own_writes s calls (tx_write_set t)))"
proof (induction calls arbitrary: h m)
  case Nil
  then show ?case by (simp add: txn_run_def own_writes_def)
next
  case (Cons nc calls)
  obtain h1 m1 where s1: "txn_step sm durable nc (h, m) = (h1, m1)" by force
  obtain now c where nc: "nc = (now, c)" by (cases nc)
  have room: "room 1 m" using Cons.prems(2) by (simp add: room_def)
  note so = step_ok [OF sm Cons.prems(1) room s1 [unfolded nc]]
  have inv1: "txn_inv sm h1 m1" and k1: "tm_oracle m \<le> tm_oracle m1" "room (length calls + n) m1"
    using so Cons.prems(2) by (simp_all add: keeps_def)
  obtain new1 where new1: "h1 = h @ new1" "\<forall>(_, ts, _) \<in> set new1. tm_oracle m < ts" using so by blast
  have run: "txn_run sm durable calls (h1, m1) = (h', m')" using Cons.prems(3) s1 by (simp add: txn_run_def)
  note IH = Cons.IH [OF inv1 k1(2) run]
  obtain new2 where new2: "h' = h1 @ new2" "\<forall>(_, ts, _) \<in> set new2. tm_oracle m1 < ts" using IH by blast
  have "h' = h @ (new1 @ new2)" using new1 new2 by simp
  moreover have "\<forall>(_, ts, _) \<in> set (new1 @ new2). tm_oracle m < ts"
    using new1(2) new2(2) k1(1) by (auto intro: le_less_trans)
  moreover have "\<exists>t'. txn_of sm s m' = Some t' \<and> tx_start_ts t' = tx_start_ts t \<and>
      tx_write_set t' = own_writes s (nc # calls) (tx_write_set t)"
    if t: "txn_of sm s m = Some t" "stays s (nc # calls)" for s t
  proof -
    have st: "stays s [nc]" "stays s calls" using t(2) by (simp_all add: stays_def)
    from step_own [OF sm Cons.prems(1) room s1 t(1) st(1)] obtain t1 where
      t1: "txn_of sm s m1 = Some t1" "tx_start_ts t1 = tx_start_ts t" "tx_write_set t1 = own_writes s [nc] (tx_write_set t)" by blast
    with IH st(2) show ?thesis by (fastforce simp: own_writes_def)
  qed
  ultimately show ?case using IH k1(1) by (auto intro: order_trans)
qed

section \<open>Reading the history\<close>

text \<open>The committed value of a key: the last write on it.\<close>

definition db_value :: "commit list \<Rightarrow> bytes \<Rightarrow> bytes option" where
  "db_value h k = (case map_of (rev (map (\<lambda>(k, _, op). (k, op)) h)) k of Some op \<Rightarrow> op | None \<Rightarrow> None)"


lemma read_spec_db_value:
  assumes "history_ok lst h" "lst \<le> t"
  shows "(case read_spec h k t of Some (_, op) \<Rightarrow> op | None \<Rightarrow> None) = db_value h k"
  using assms
proof (induction h rule: rev_induct)
  case Nil
  then show ?case by (simp add: read_spec_def db_value_def)
next
  case (snoc w h)
  obtain k' ts op where w: "w = (k', ts, op)" by (cases w)
  have ok: "history_ok lst h" "ts \<le> t" using snoc.prems by (auto simp: history_ok_def sorted_append w)
  have below: "ts' \<le> ts" if "read_spec h k t = Some (ts', op')" for ts' op'
  proof -
    have "last_op h k ts' = Some op'" using read_spec_spec [where hist = h and k = k and t = t] that by simp
    then have "(k, ts', op') \<in> set h" by (auto simp: last_op_def dest!: map_of_SomeD)
    then show ?thesis using snoc.prems(1) by (auto simp: history_ok_def sorted_append w)
  qed
  have "read_spec (h @ [w]) k t = (if k' = k then Some (ts, op) else read_spec h k t)"
    using ok(2) below by (auto simp: read_spec_def read_step_def w split: option.splits)
  moreover have "db_value (h @ [w]) k = (if k' = k then op else db_value h k)" by (simp add: db_value_def w)
  ultimately show ?case using snoc.IH [OF ok(1) assms(2)] by simp
qed

text \<open>At or after the last commit a read by timestamp returns the committed value.\<close>

lemma committed_read:
  assumes "history_ok lst h" "lst \<le> t" "\<not> set k \<subseteq> {255}" "key_isolated k (mvcc_run h)"
  shows "mvcc_get_at_ts k t (mvcc_run h) = Inr (db_value h k)"
proof -
  have "\<forall>(k', ts, op) \<in> set h. ts \<noteq> 0" using assms(1) by (auto simp: history_ok_def)
  from mvcc_run_read [OF this assms(3,4)] read_spec_db_value [OF assms(1,2)] show ?thesis by simp
qed

section \<open>Properties\<close>


text \<open>An instance of the session table: an association list.\<close>

definition list_sessions :: "(u64 \<times> txn_id) list session_map" where
  "list_sessions = \<lparr>sm_new = [], sm_get = \<lambda>k s. map_of s k, sm_insert = \<lambda>k v s. (k, v) # s,
     sm_remove = \<lambda>k s. filter (\<lambda>(k', _). k' \<noteq> k) s\<rparr>"

lemma map_of_remove: "map_of (filter (\<lambda>(k', _). k' \<noteq> k') s) x = None" "map_of (filter (\<lambda>(k', _). k' \<noteq> k) s) x = (if x = k then None else map_of s x)"
  by (induction s) auto

lemma sessions_ok_list: "sessions_ok list_sessions"
  by (simp add: sessions_ok_def list_sessions_def map_of_remove)

lemmas txn_eval = txn_run_def txn_step_def txn_begin_def in_txn_def txn_manager_new_def list_sessions_def oracle_next_def
  with_txn_def transaction_new_def txn_stage_put_def txn_of_def commit_with_durable_def commit_prepare_def commit_apply_def
  deadlock_poll_def deadlock_new_def deadlock_policy_default_def find_cycle_victim_def check_commit_def ssi_default_def
  ssi_purge_def register_commit_def deadlock_clear_def apply_write_def mvcc_put_def mvcc_new_def bt_get_def bt_remove_def
  commits_of_def op_value_def


lemma db_value_commit:
  assumes "bt_sorted ws" "bt_get ws k = Some op"
  shows "db_value (h @ commits_of ts ws) k = op_value op"
proof -
  let ?ws = "rev (map (\<lambda>(k, op). (k, op_value op)) ws)"
  have "distinct (map fst ?ws)"
    using assms(1) by (simp add: bt_sorted_def strict_sorted_iff rev_map [symmetric] comp_def split_beta)
  moreover have "(k, op) \<in> set ws" using assms(2) by (simp add: bt_get_def map_of_SomeD)
  then have "(k, op_value op) \<in> set ?ws" by force
  ultimately have "map_of ?ws k = Some (op_value op)" by (rule map_of_is_SomeI)
  moreover have "map (\<lambda>(k, _, op). (k, op)) (commits_of ts ws) = map (\<lambda>(k, op). (k, op_value op)) ws"
    by (auto simp: commits_of_def)
  ultimately show ?thesis by (simp add: db_value_def map_add_def)
qed

section \<open>What the checks let through\<close>

text \<open>Within its time limit and without recorded read dependencies a transaction always commits.\<close>

definition in_time :: "nat \<Rightarrow> transaction \<Rightarrow> 's txn_manager \<Rightarrow> bool" where
  "in_time now t m \<longleftrightarrow> now - tx_started_at t \<le> dp_wait_timeout (dg_policy (tm_deadlock m))"

lemma commit_succeeds:
  assumes sm: "sessions_ok sm" and inv: "txn_inv sm h m" and room: "room 1 m" and t: "txn_of sm s m = Some t"
    and time: "in_time now t m" and edges: "ssi_rw_edges (tm_ssi m) = []"
  shows "\<exists>m'. txn_commit sm now s m =
      (Inr \<lparr>cr_commit_ts = tm_oracle m + 1, cr_keys_written = length (tx_write_set t)\<rparr>, m') \<and>
    txn_inv sm (h @ commits_of (tm_oracle m + 1) (tx_write_set t)) m' \<and> keeps sm s m m' \<and>
    ssi_rw_edges (tm_ssi m') = [] \<and> dg_policy (tm_deadlock m') = dg_policy (tm_deadlock m) \<and> tm_oracle m' = tm_oracle m + 1"
proof -
  note tt = txn_of_Some [OF inv t]
  have "\<exists>g. deadlock_poll now (tm_active m) (tx_id t) (tm_deadlock m) = (Inr (), g) \<and> dg_policy g = dg_policy (tm_deadlock m)"
  proof -
    have none: "find_cycle_victim (tm_deadlock m\<lparr>dg_last_check := Some now\<rparr>) = None"
      using txn_invD(8) [OF inv] by (simp add: find_cycle_victim_def)
    show ?thesis
      using tt(2) time
      by (cases "case dg_last_check (tm_deadlock m) of None \<Rightarrow> True
            | Some t \<Rightarrow> dp_check_interval (dg_policy (tm_deadlock m)) \<le> now - t")
        (simp_all add: deadlock_poll_def in_time_def none)
  qed
  then obtain g where poll: "deadlock_poll now (tm_active m) (tx_id t) (tm_deadlock m) = (Inr (), g)"
    "dg_policy g = dg_policy (tm_deadlock m)" by blast
  have "check_commit t (tm_ssi m) = SsiAllow"
    using txn_invD(7) [OF inv] edges by (simp add: check_commit_def bt_get_def)
  then have prep: "commit_prepare sm (\<lambda>_ _. Inr ()) now s m =
      (Inr (tx_id t, tm_oracle m + 1, tx_write_set t), m\<lparr>tm_deadlock := g, tm_oracle := tm_oracle m + 1\<rparr>)"
    using tt(1,2) poll(1) room_oracle [of 0 m] room by (simp add: commit_prepare_def)
  obtain r m' where c: "txn_commit sm now s m = (r, m')" by force
  have r: "r = Inr \<lparr>cr_commit_ts = tm_oracle m + 1, cr_keys_written = length (tx_write_set t)\<rparr>"
    using c prep by (auto simp: txn_commit_def commit_with_durable_def commit_apply_def Let_def)
  have st: "ssi_rw_edges (tm_ssi m') = []" "dg_policy (tm_deadlock m') = dg_policy (tm_deadlock m)"
    using c prep edges poll(2)
    by (auto simp: txn_commit_def commit_with_durable_def commit_apply_def Let_def ssi_purge_def register_commit_def
        deadlock_clear_def bt_remove_def)
  show ?thesis using commit_step [OF sm inv room, of "\<lambda>_ _. Inr ()" now s r m'] c r st t by (auto simp: txn_commit_def)
qed

text \<open>
  C26. Lost updates: the serializability checker keeps no record of committed write sets, so two
  concurrent transactions of different sessions that have both read and both overwritten the
  same key both commit, whichever keys they share, as long as neither read the key after the
  other had staged its write. The database ends with the second value; the first update is lost.
\<close>

theorem txn_lost_update:
  assumes "sessions_ok sm" and "txn_inv sm h m" and "room 2 m" and "s1 \<noteq> s2"
    and "txn_of sm s1 m = Some t1" and "txn_of sm s2 m = Some t2"
    and "k \<in> set (tx_read_set t1) \<and> k \<in> set (tx_read_set t2)"
    and "bt_get (tx_write_set t1) k = Some (WPut v1)" and "bt_get (tx_write_set t2) k = Some (WPut v2)"
    and "ssi_rw_edges (tm_ssi m) = []" and "in_time now t1 m" and "in_time now t2 m"
  shows "\<exists>r1 m1 r2 m2 h2. txn_commit sm now s1 m = (Inr r1, m1) \<and> txn_commit sm now s2 m1 = (Inr r2, m2) \<and>
    txn_inv sm h2 m2 \<and> db_value h2 k = Some v2"
proof -
  have "room 1 m" using assms(3) by (simp add: room_def)
  from commit_succeeds [OF assms(1,2) this assms(5,11,10)] obtain r1 m1 where
    1: "txn_commit sm now s1 m = (Inr r1, m1)" "txn_inv sm (h @ commits_of (tm_oracle m + 1) (tx_write_set t1)) m1"
    "keeps sm s1 m m1" "ssi_rw_edges (tm_ssi m1) = []" "dg_policy (tm_deadlock m1) = dg_policy (tm_deadlock m)" by blast
  have t2: "txn_of sm s2 m1 = Some t2" "room 1 m1" "in_time now t2 m1"
    using 1(3,5) assms(3,4,6,12) by (auto simp: keeps_def in_time_def numeral_2_eq_2)
  from commit_succeeds [OF assms(1) 1(2) t2(2,1,3) 1(4)] obtain r2 m2 where
    2: "txn_commit sm now s2 m1 = (Inr r2, m2)"
    "txn_inv sm ((h @ commits_of (tm_oracle m + 1) (tx_write_set t1)) @ commits_of (tm_oracle m1 + 1) (tx_write_set t2)) m2" by blast
  have srt: "bt_sorted (tx_write_set t2)" using txn_of_Some(3) [OF assms(2,6)] by (simp add: txn_wf_def)
  have "db_value (h' @ commits_of ts (tx_write_set t2)) k = Some v2" for h' ts
    using db_value_commit [OF srt assms(9)] by (simp add: op_value_def)
  then show ?thesis using 1(1) 2 by blast
qed

text \<open>Two sessions read key 7, then both stage a new value for it.\<close>

theorem txn_lost_update_witness:
  "\<exists>h m r1 m1 r2 m2 h2. txn_run list_sessions (\<lambda>_ _. Inr ())
      [(0, CBegin 1), (0, CBegin 2), (0, CGet 1 [7]), (0, CGet 2 [7]), (0, CPut 1 [7] [30]), (0, CPut 2 [7] [40])]
      ([], txn_manager_new list_sessions) = (h, m) \<and>
    txn_commit list_sessions 0 1 m = (Inr r1, m1) \<and> txn_commit list_sessions 0 2 m1 = (Inr r2, m2) \<and>
    txn_inv list_sessions h2 m2 \<and> db_value h2 [7] = Some [40]"
proof -
  let ?calls = "[(0, CBegin 1), (0, CBegin 2), (0, CGet 1 [7]), (0, CGet 2 [7]), (0, CPut 1 [7] [30]), (0, CPut 2 [7] [40])]"
  obtain h m where r: "txn_run list_sessions (\<lambda>_ _. Inr ()) ?calls ([], txn_manager_new list_sessions) = (h, m)" by force
  have "room (length ?calls + 2) (txn_manager_new list_sessions)" by (simp add: room_def txn_manager_new_def)
  from run_ok [OF sessions_ok_list txn_inv_new [OF sessions_ok_list] this r]
  have inv: "txn_inv list_sessions h m" "room 2 m" by simp_all
  have "\<exists>t1 t2. txn_of list_sessions 1 m = Some t1 \<and> txn_of list_sessions 2 m = Some t2 \<and>
      tx_read_set t1 = [[7]] \<and> tx_read_set t2 = [[7]] \<and> tx_write_set t1 = [([7], WPut [30])] \<and>
      tx_write_set t2 = [([7], WPut [40])] \<and> ssi_rw_edges (tm_ssi m) = [] \<and> in_time 0 t1 m \<and> in_time 0 t2 m"
    using r
    by (auto simp: txn_eval txn_get_def record_read_def set_insert_def track_rw_dependencies_def txn_read_view_def
        read_own_def mvcc_get_def mvcc_get_version_def bt_range_def user_key_prefix_end_def in_time_def)
  then show ?thesis
    using txn_lost_update [OF sessions_ok_list inv, of 1 2 _ _ "[7]" "[30]" "[40]" 0] r by (auto simp: bt_get_def)
qed

text \<open>
  The window inside a commit breaks repeatable reads: when a transaction begins between the
  first half of another session's commit, which takes the commit timestamp, and the second
  half, which applies the writes, it gets a larger start timestamp. It reads the old value
  before the second half and the new one after it.
\<close>

theorem commit_window_unrepeatable:
  assumes "sessions_ok sm" and "txn_inv sm h m" and "room 2 m" and "s1 \<noteq> s2"
    and "txn_of sm s1 m = Some t1" and "bt_get (tx_write_set t1) k = Some (WPut v)"
    and "sm_get sm s2 (tm_sessions m) = None"
    and "commit_prepare sm durable now s1 m = (Inr p, m1)" and "\<not> set k \<subseteq> {255}"
    and "key_isolated k (mvcc_run h)" and "key_isolated k (mvcc_run (h @ commits_of (tm_oracle m + 1) (tx_write_set t1)))"
  shows "\<exists>i m2 m3 r m4. txn_begin sm now s2 m1 = (Inr i, m2) \<and>
    txn_get sm s2 k m2 = (Inr (db_value h k), m3) \<and> commit_apply sm s1 p m3 = (r, m4) \<and>
    fst (txn_get sm s2 k m4) = Inr (Some v)"
proof -
  have "room 1 m" using assms(3) by (simp add: room_def)
  note ps = prepare_step [OF assms(2) this assms(8)]
  let ?ts = "tm_oracle m + 1" and ?ws = "tx_write_set t1"
  have p: "p = (tx_id t1, ?ts, ?ws)" and 1: "txn_inv sm h m1" "keeps sm s1 m m1" "txn_of sm s1 m1 = Some t1" "tm_oracle m1 = ?ts"
    using ps assms(5) by (cases p; auto)+
  have r1: "room 1 m1" using 1(2) assms(3) by (simp add: keeps_def numeral_2_eq_2)
  have out: "sm_get sm s2 (tm_sessions m1) = None"
    using txn_of_None [OF 1(1), of s2] txn_of_None [OF assms(2), of s2] 1(2) assms(4,7) by (simp add: keeps_def)
  obtain m2 where 2: "txn_begin sm now s2 m1 = (Inr (tm_next_id m1), m2)" "txn_inv sm h m2" "keeps sm s2 m1 m2"
    "txn_of sm s2 m2 = Some (transaction_new now (tm_next_id m1) (?ts + 1))" "tm_oracle m2 = ?ts + 1"
    using begin_step [OF assms(1) 1(1) r1 out, of now] 1(4) by auto
  let ?t2 = "transaction_new now (tm_next_id m1) (?ts + 1)"
  have start: "tx_start_ts ?t2 = ?ts + 1" "read_own k ?t2 = None" "tx_start_ts (record_read k ?t2) = ?ts + 1"
    "read_own k (record_read k ?t2) = None"
    by (simp_all add: transaction_new_def read_own_def record_read_def bt_get_def)
  have o: "?ts < ?ts + 1" "tm_oracle m < ?ts" "?ts \<noteq> 0"
    using room_oracle [of 0 m1] room_oracle [of 0 m] r1 \<open>room 1 m\<close> 1(4) by simp_all
  have "mvcc_get_at_ts k (?ts + 1) (mvcc_run h) = Inr (db_value h k)"
    using committed_read [OF txn_invD(2) [OF 2(2)] _ assms(9,10)] 2(5) by simp
  then obtain m3 where 3: "txn_get sm s2 k m2 = (Inr (db_value h k), m3)" "txn_inv sm h m3" "keeps sm s2 m2 m3"
    "txn_of sm s2 m3 = Some (record_read k ?t2)"
    using get_step [OF 2(2,4), of k] start(1,2) by auto
  have t1: "txn_of sm s1 m3 = Some t1" using 1(3) 2(3) 3(3) assms(4) by (simp add: keeps_def)
  have le: "?ts \<le> tm_oracle m3" using 2(5) 3(3) o(1) by (auto simp: keeps_def)
  have hist: "\<forall>(_, ts', _) \<in> set h. ts' \<le> ?ts"
    using txn_invD(2) [OF assms(2)] o(2) by (fastforce simp: history_ok_def)
  obtain m4 r where 4: "commit_apply sm s1 (tx_id t1, ?ts, ?ws) m3 = (r, m4)" "txn_inv sm (h @ commits_of ?ts ?ws) m4"
    "keeps sm s1 m3 m4"
    using apply_step [OF assms(1) 3(2) t1 hist o(3) le, of ?ws] by blast
  have t2: "txn_of sm s2 m4 = Some (record_read k ?t2)" using 3(4) 4(3) assms(4) by (simp add: keeps_def)
  have hist': "history_ok ?ts (h @ commits_of ?ts ?ws)"
    using history_ok_append [OF _ hist o(3), of ?ts ?ws] history_ok_mono [OF txn_invD(2) [OF assms(2)], of ?ts] o(2) by simp
  have "db_value (h @ commits_of ?ts ?ws) k = Some v"
    using db_value_commit [OF _ assms(6)] txn_of_Some(3) [OF assms(2,5)] by (simp add: txn_wf_def op_value_def)
  then have "mvcc_get_at_ts k (?ts + 1) (mvcc_run (h @ commits_of ?ts ?ws)) = Inr (Some v)"
    using committed_read [OF hist' _ assms(9,11)] o(1) by simp
  then have "fst (txn_get sm s2 k m4) = Inr (Some v)" using get_step [OF 4(2) t2, of k] start(3,4) by auto
  then show ?thesis using 2(1) 3(1) 4(1) p by blast
qed

text \<open>Session 1 has staged a value for key 7; session 2 begins inside its commit.\<close>

theorem commit_window_unrepeatable_witness:
  "\<exists>h m p m1 i m2 m3 r m4.
    txn_run list_sessions (\<lambda>_ _. Inr ()) [(0, CBegin 1), (0, CPut 1 [7] [30])] ([], txn_manager_new list_sessions) = (h, m) \<and>
    commit_prepare list_sessions (\<lambda>_ _. Inr ()) 0 1 m = (Inr p, m1) \<and>
    txn_begin list_sessions 0 2 m1 = (Inr i, m2) \<and> txn_get list_sessions 2 [7] m2 = (Inr None, m3) \<and>
    commit_apply list_sessions 1 p m3 = (r, m4) \<and> fst (txn_get list_sessions 2 [7] m4) = Inr (Some [30])"
proof -
  let ?sm = list_sessions and ?d = "\<lambda>_ _. Inr ()" and ?calls = "[(0, CBegin 1), (0, CPut 1 [7] [30])]"
  obtain h m where r: "txn_run ?sm ?d ?calls ([], txn_manager_new ?sm) = (h, m)" by force
  have "room (length ?calls + 2) (txn_manager_new ?sm)" by (simp add: room_def txn_manager_new_def)
  from run_ok [OF sessions_ok_list txn_inv_new [OF sessions_ok_list] this r]
  have inv: "txn_inv ?sm h m" "room 2 m" by simp_all
  have "\<exists>t1 p m1. txn_of ?sm 1 m = Some t1 \<and> tx_write_set t1 = [([7], WPut [30])] \<and> sm_get ?sm 2 (tm_sessions m) = None \<and>
      commit_prepare ?sm ?d 0 1 m = (Inr p, m1) \<and> h = [] \<and> tm_oracle m = 1"
    using r by (auto simp: txn_eval)
  then obtain t1 p m1 where e: "txn_of ?sm 1 m = Some t1" "tx_write_set t1 = [([7], WPut [30])]"
    "sm_get ?sm 2 (tm_sessions m) = None" "commit_prepare ?sm ?d 0 1 m = (Inr p, m1)" "h = []" "tm_oracle m = 1" by blast
  have "key_isolated [7] (mvcc_run [])" "key_isolated [7] (mvcc_run [([7], 2, Some [30])])"
    by (simp add: mvcc_run_def mvcc_new_def key_isolated_def) (simp add: mvcc_run_single key_isolated_def)
  then have "\<exists>i m2 m3 r m4. txn_begin ?sm 0 2 m1 = (Inr i, m2) \<and> txn_get ?sm 2 [7] m2 = (Inr None, m3) \<and>
      commit_apply ?sm 1 p m3 = (r, m4) \<and> fst (txn_get ?sm 2 [7] m4) = Inr (Some [30])"
    using commit_window_unrepeatable [OF sessions_ok_list inv _ e(1) _ e(3,4), of "[7]" "[30]"] e
    by (simp add: bt_get_def commits_of_def op_value_def db_value_def)
  then show ?thesis using r e(4) by blast
qed

end
