(* ===== verification/Raft_Types.thy ===== *)
theory Raft_Types
  imports Btree
begin

text \<open>
  The data of the consensus crate \<^verbatim>\<open>crates/noedb-raft\<close>: node ids, terms and log indices
  (\<^verbatim>\<open>types.rs\<close>), the durable, volatile and per-follower state (\<^verbatim>\<open>state.rs\<close>), the replicated
  log with its sentinel entry (\<^verbatim>\<open>log.rs\<close>), membership changes (\<^verbatim>\<open>membership.rs\<close>), the RPC
  messages (\<^verbatim>\<open>rpc.rs\<close>) and the node configuration (\<^verbatim>\<open>config.rs\<close>).

  Terms, node ids and log indices are 64-bit words; an index into the vector of entries is the
  number the word stands for (\<^verbatim>\<open>as usize\<close>). A duration is its number of milliseconds.
\<close>

section \<open>Errors\<close>

datatype raft_storage_error = RIo string | RCorrupt string | RSnapshot string

datatype security_error = FrameTooLarge nat | AuthFailed | RecordMismatch | BadMagic

datatype raft_error =
    RStorage raft_storage_error
  | RTransport string
  | RSecurity security_error
  | RInternal string

section \<open>Ids, terms and indices\<close>

type_synonym node_id = u64
type_synonym raft_term = u64
type_synonym log_index = u64

datatype role = Follower | Candidate | Leader

text \<open>\<^verbatim>\<open>saturating_sub\<close> and \<^verbatim>\<open>saturating_add(1)\<close> on \<^verbatim>\<open>u64\<close>.\<close>

definition sat_sub :: "u64 \<Rightarrow> u64 \<Rightarrow> u64" where
  "sat_sub a b = (if b \<le> a then a - b else 0)"

definition sat_suc :: "u64 \<Rightarrow> u64" where
  "sat_suc a = (if a = - 1 then - 1 else a + 1)"

definition index_prev :: "log_index \<Rightarrow> log_index" where
  "index_prev i = sat_sub i 1"

definition index_next :: "log_index \<Rightarrow> log_index" where
  "index_next i = sat_suc i"

definition term_next :: "raft_term \<Rightarrow> raft_term" where
  "term_next t = sat_suc t"

definition u64_max :: nat where
  "u64_max = 18446744073709551615"

lemma unat_u64_le: "unat (w :: u64) \<le> u64_max"
  using unat_u64_less [of w] by (simp add: u64_max_def)

lemma unat_sat_suc: "unat (sat_suc a) = min u64_max (Suc (unat a))"
proof (cases "a = - 1")
  case True
  then have "unat a = u64_max" by (simp add: u64_max_def unsigned_minus_1_eq_mask mask_eq_exp_minus_1)
  with True show ?thesis by (simp add: sat_suc_def)
next
  case False
  then have "a + 1 \<noteq> 0" by (simp add: eq_neg_iff_add_eq_0)
  then have "unat (a + 1) = Suc (unat a)" by (simp add: unatSuc add.commute)
  moreover from this have "Suc (unat a) \<le> u64_max" using unat_u64_le [of "a + 1"] by simp
  ultimately show ?thesis using False by (simp add: sat_suc_def)
qed

lemma unat_sat_sub: "unat (sat_sub a b) = unat a - unat b"
  by (simp add: sat_sub_def unat_sub word_le_nat_alt)

lemma unat_index_prev [simp]: "unat (index_prev i) = unat i - 1"
  by (simp add: index_prev_def unat_sat_sub)

lemma unat_index_next: "unat (index_next i) = min u64_max (Suc (unat i))"
  by (simp add: index_next_def unat_sat_suc)

lemma unat_index_next_less: "i < j \<Longrightarrow> unat (index_next i) = Suc (unat i)"
  using unat_u64_le [of j] by (simp add: unat_index_next word_less_nat_alt)

lemma term_max: "t \<le> (- 1 :: raft_term)"
  by simp

lemma term_next_greater:
  assumes "t \<noteq> - 1"
  shows "t < term_next t"
proof -
  have "t < - 1" using assms by (simp add: order_less_le)
  then have "unat (term_next t) = Suc (unat t)"
    using unat_index_next_less [of t "- 1"] by (simp add: index_next_def term_next_def)
  then show ?thesis by (simp add: word_less_nat_alt)
qed

lemma term_next_ge: "t \<le> term_next t"
  by (cases "t = - 1") (use term_next_greater [of t] in \<open>auto simp: term_next_def sat_suc_def\<close>)

section \<open>The replicated log\<close>

record raft_entry =
  e_term :: raft_term
  e_command :: bytes

type_synonym raft_log = "raft_entry list"

definition sentinel :: "raft_term \<Rightarrow> raft_entry" where
  "sentinel t = \<lparr>e_term = t, e_command = []\<rparr>"

definition raft_log_new :: raft_log where
  "raft_log_new = [sentinel 0]"

definition last_index :: "raft_log \<Rightarrow> log_index" where
  "last_index l = word_of_nat (length l - 1)"

definition term_at :: "raft_log \<Rightarrow> log_index \<Rightarrow> raft_term" where
  "term_at l i = (if unat i < length l then e_term (l ! unat i) else 0)"

definition log_get :: "raft_log \<Rightarrow> log_index \<Rightarrow> raft_entry option" where
  "log_get l i = (if unat i < length l then Some (l ! unat i) else None)"

text \<open>\<^verbatim>\<open>append\<close> also returns the index of the first new entry.\<close>

definition log_append :: "raft_log \<Rightarrow> raft_entry list \<Rightarrow> raft_log \<times> log_index" where
  "log_append l es = (l @ es, index_next (last_index l))"

definition truncate_from :: "raft_log \<Rightarrow> log_index \<Rightarrow> raft_log" where
  "truncate_from l i = (let keep = min u64_max (unat i + 1)
     in if keep < length l then take keep l else l)"

definition slice_from :: "raft_log \<Rightarrow> log_index \<Rightarrow> raft_entry list" where
  "slice_from l from = (if length l \<le> unat from then [] else drop (unat from) l)"

text \<open>
  \<^verbatim>\<open>restore\<close> rebuilds the vector: one sentinel, then \<^verbatim>\<open>resize\<close> to \<open>index + 1\<close> empty entries of
  the snapshot term when the index is positive, then the suffix.
\<close>

definition vec_resize :: "'a list \<Rightarrow> nat \<Rightarrow> 'a \<Rightarrow> 'a list" where
  "vec_resize xs n x = (if n \<le> length xs then take n xs else xs @ replicate (n - length xs) x)"

definition restore :: "log_index \<Rightarrow> raft_term \<Rightarrow> raft_entry list \<Rightarrow> raft_log" where
  "restore i t suffix = (let base = [sentinel t];
      resized = (if 0 < i then vec_resize base (unat i + 1) (sentinel t) else base)
    in resized @ suffix)"

lemma restore_eq: "restore i t suffix = replicate (Suc (unat i)) (sentinel t) @ suffix"
  by (auto simp add: restore_def vec_resize_def Let_def word_neq_0_conv [symmetric])

lemma restore_last [simp]: "last_index (restore i t []) = i"
  by (simp add: restore_eq last_index_def)

lemma restore_term [simp]: "j \<le> i \<Longrightarrow> term_at (restore i t es) j = t"
  using nth_replicate [of "unat j" "Suc (unat i)" "sentinel t"]
  by (simp add: restore_eq term_at_def nth_append sentinel_def word_le_nat_alt del: replicate_Suc)

lemma last_index_new [simp]: "last_index raft_log_new = 0"
  by (simp add: raft_log_new_def last_index_def)

lemma unat_last_index: "length l \<le> Suc u64_max \<Longrightarrow> unat (last_index l) = length l - 1"
  by (simp add: last_index_def u64_max_def unat_of_nat)

lemma truncate_from_nonempty: "l \<noteq> [] \<Longrightarrow> truncate_from l i \<noteq> []"
  by (auto simp: truncate_from_def Let_def u64_max_def)

lemma truncate_from_subset: "set (truncate_from l i) \<subseteq> set l"
  using set_take_subset [of _ l] by (auto simp: truncate_from_def Let_def)

lemma slice_from_eq [simp]: "slice_from l i = drop (unat i) l"
  by (simp add: slice_from_def)

section \<open>Membership\<close>

datatype conf_change = AddVoter node_id | RemoveVoter node_id

definition CONF_MAGIC :: bytes where
  "CONF_MAGIC = [0x4E, 0x4F, 0x45, 0x44, 0x42, 0x5F, 0x43, 0x4F, 0x4E, 0x46]"

record joint_config =
  outgoing :: "node_id list"
  incoming :: "node_id list"

definition majority :: "nat \<Rightarrow> nat" where
  "majority n = n div 2 + 1"

definition outgoing_quorum :: "joint_config \<Rightarrow> nat" where
  "outgoing_quorum j = majority (length (outgoing j))"

definition incoming_quorum :: "joint_config \<Rightarrow> nat" where
  "incoming_quorum j = majority (length (incoming j))"

text \<open>
  The serialiser of a membership change is third-party code: \<open>ser\<close> and \<open>de\<close> are parameters.
\<close>

definition encode_conf_change :: "(conf_change \<Rightarrow> bytes) \<Rightarrow> conf_change \<Rightarrow> bytes" where
  "encode_conf_change ser cc = CONF_MAGIC @ ser cc"

definition decode_conf_change :: "(bytes \<Rightarrow> conf_change option) \<Rightarrow> bytes \<Rightarrow> conf_change option" where
  "decode_conf_change de cmd =
     (if \<not> starts_with cmd CONF_MAGIC then None else de (drop (length CONF_MAGIC) cmd))"

definition joint_add_voter :: "joint_config option \<Rightarrow> node_id list \<Rightarrow> node_id \<Rightarrow> joint_config option" where
  "joint_add_voter joint voters i = (case joint of
     Some j \<Rightarrow> Some (if i \<in> set (incoming j) then j else j\<lparr>incoming := incoming j @ [i]\<rparr>)
   | None \<Rightarrow> Some \<lparr>outgoing = voters,
       incoming = (if i \<in> set voters then voters else voters @ [i])\<rparr>)"

definition joint_finalize ::
  "joint_config option \<Rightarrow> node_id list \<Rightarrow> joint_config option \<times> node_id list" where
  "joint_finalize joint voters = (case joint of Some j \<Rightarrow> (None, incoming j) | None \<Rightarrow> (None, voters))"

lemma decode_empty [simp]: "decode_conf_change de [] = None"
  by (simp add: decode_conf_change_def starts_with_def CONF_MAGIC_def)

lemma decode_encode_conf:
  "(\<And>c. de (ser c) = Some c) \<Longrightarrow> decode_conf_change de (encode_conf_change ser cc) = Some cc"
  by (simp add: decode_conf_change_def encode_conf_change_def)

section \<open>Durable, volatile and replication state\<close>

record hard_state =
  current_term :: raft_term
  voted_for :: "node_id option"
  commit_index :: log_index
  last_applied :: log_index

definition hard_default :: hard_state where
  "hard_default = \<lparr>current_term = 0, voted_for = None, commit_index = 0, last_applied = 0\<rparr>"

record soft_state =
  s_role :: role
  leader_id :: "node_id option"

definition soft_default :: soft_state where
  "soft_default = \<lparr>s_role = Follower, leader_id = None\<rparr>"

record progress =
  next_index :: log_index
  match_index :: log_index

record snapshot =
  snap_index :: log_index
  snap_term :: raft_term
  snap_data :: bytes

section \<open>Messages\<close>

record request_vote_req =
  rv_term :: raft_term
  rv_candidate_id :: node_id
  rv_last_log_index :: log_index
  rv_last_log_term :: raft_term

record request_vote_resp =
  rvr_term :: raft_term
  rvr_granted :: bool

record append_entries_req =
  ae_term :: raft_term
  ae_leader_id :: node_id
  ae_prev_log_index :: log_index
  ae_prev_log_term :: raft_term
  ae_entries :: "raft_entry list"
  ae_leader_commit :: log_index

record append_entries_resp =
  aer_term :: raft_term
  aer_success :: bool
  aer_last_log_index :: log_index

record install_snapshot_req =
  is_term :: raft_term
  is_leader_id :: node_id
  is_last_included_index :: log_index
  is_last_included_term :: raft_term
  is_data :: bytes
  is_offset :: u64
  is_done :: bool

record install_snapshot_resp =
  isr_term :: raft_term

record read_index_req =
  ri_term :: raft_term
  ri_leader_id :: node_id
  ri_read_id :: u64

record read_index_resp =
  rir_term :: raft_term
  rir_read_index :: log_index
  rir_read_id :: u64

datatype rpc_message =
    RequestVote request_vote_req
  | RequestVoteResp request_vote_resp
  | AppendEntries append_entries_req
  | AppendEntriesResp append_entries_resp
  | InstallSnapshot install_snapshot_req
  | InstallSnapshotResp install_snapshot_resp
  | ReadIndex read_index_req
  | ReadIndexResp read_index_resp

section \<open>Configuration\<close>

record raft_config =
  cfg_id :: node_id
  cfg_voters :: "node_id list"
  election_timeout_min :: u64
  election_timeout_max :: u64
  heartbeat_interval :: u64
  max_append_batch :: nat
  max_pipeline_bytes :: nat
  cfg_auth :: bytes

definition quorum :: "raft_config \<Rightarrow> nat" where
  "quorum c = length (cfg_voters c) div 2 + 1"

definition is_voter :: "raft_config \<Rightarrow> node_id \<Rightarrow> bool" where
  "is_voter c n = (n \<in> set (cfg_voters c))"

text \<open>
  The random draw of \<^verbatim>\<open>gen_range(min..=max)\<close> is an argument: the generator is third-party code,
  and only the last draw of an operation is observable.
\<close>

definition election_timeout :: "(u64 \<Rightarrow> u64 \<Rightarrow> u64) \<Rightarrow> raft_config \<Rightarrow> u64" where
  "election_timeout gen_range c =
     (let lo = election_timeout_min c; hi = election_timeout_max c
      in if lo = hi then lo else gen_range lo (max hi lo))"

lemma election_timeout_bounds:
  assumes "\<And>lo hi. lo \<le> hi \<Longrightarrow> lo \<le> g lo hi \<and> g lo hi \<le> hi"
  shows "election_timeout_min c \<le> election_timeout g c"
    and "election_timeout g c \<le> max (election_timeout_max c) (election_timeout_min c)"
  using assms by (auto simp: election_timeout_def Let_def)

text \<open>Any two majorities of the same voter list share a voter.\<close>

lemma quorums_intersect:
  assumes "A \<subseteq> set vs" "B \<subseteq> set vs"
    and "length vs div 2 + 1 \<le> card A" "length vs div 2 + 1 \<le> card B"
  shows "A \<inter> B \<noteq> {}"
proof
  assume "A \<inter> B = {}"
  then have "card A + card B = card (A \<union> B)"
    using assms(1,2) by (metis card_Un_disjoint finite_set finite_subset)
  also have "\<dots> \<le> card (set vs)" using assms(1,2) by (simp add: card_mono)
  also have "\<dots> \<le> length vs" by (rule card_length)
  finally show False using assms(3,4) by linarith
qed

end
