(* ===== verification/Raft_Wire.thy ===== *)
theory Raft_Wire
  imports Raft_Types
begin

unbundle bit_operations_syntax

text \<open>
  The wire envelope of \<^verbatim>\<open>security.rs\<close> and the frame codec of \<^verbatim>\<open>codec.rs\<close>: cluster tokens, their
  constant-time comparison, the size bound, encoding and checked decoding. The serialiser of
  messages and envelopes is third-party code and a parameter.
\<close>

definition MAX_FRAME_BYTES :: nat where
  "MAX_FRAME_BYTES = 1024 * 1024"

definition WIRE_MAGIC :: u32 where
  "WIRE_MAGIC = 0x4E524654"

section \<open>Cluster tokens\<close>

text \<open>A token is 32 bytes; \<^verbatim>\<open>from_passphrase\<close> mixes the bytes of a passphrase into it.\<close>

definition mix_byte :: "nat \<times> u8 \<Rightarrow> bytes \<Rightarrow> bytes" where
  "mix_byte = (\<lambda>(i, b) st.
     let st1 = st[i mod 32 := (st ! (i mod 32)) XOR (b * (word_of_nat i + 31))]
     in st1[(i + 7) mod 32 := st1 ! ((i + 7) mod 32) + b])"

definition from_passphrase :: "bytes \<Rightarrow> bytes" where
  "from_passphrase p = fold mix_byte (List.enumerate 0 p) (replicate 32 0)"

definition auth_verify :: "bytes \<Rightarrow> bytes \<Rightarrow> bool" where
  "auth_verify a b = (fold (\<lambda>(x, y) diff. diff OR (x XOR y)) (zip a b) 0 = 0)"

lemma length_from_passphrase: "length (from_passphrase p) = 32"
proof -
  have "length (fold mix_byte ps st) = length st" for ps st
    by (induction ps arbitrary: st) (auto simp: mix_byte_def Let_def split: prod.splits)
  then show ?thesis by (simp add: from_passphrase_def)
qed

lemma or_xor_fold:
  "fold (\<lambda>(x, y) diff. diff OR (x XOR y)) ps d = 0 \<longleftrightarrow> d = (0 :: u8) \<and> (\<forall>(x, y) \<in> set ps. x = y)"
proof (induction ps arbitrary: d)
  case Nil
  then show ?case by simp
next
  case (Cons p ps)
  obtain x y where p: "p = (x, y)" by (cases p)
  have "d OR (x XOR y) = 0 \<longleftrightarrow> d = 0 \<and> x = y"
    by (metis or_eq_0_iff xor_self_eq word_bw_lcs(3) xor.right_neutral bit.xor_left_self)
  with Cons show ?case by (auto simp: p)
qed

text \<open>The comparison that always looks at every byte is equality.\<close>

lemma auth_verify_eq: "length a = length b \<Longrightarrow> auth_verify a b \<longleftrightarrow> a = b"
  by (auto simp: auth_verify_def or_xor_fold set_zip list_eq_iff_nth_eq)

section \<open>Envelopes\<close>

record wire_envelope =
  env_magic :: u32
  env_auth :: bytes
  env_payload :: bytes

definition envelope_new :: "bytes \<Rightarrow> bytes \<Rightarrow> security_error + wire_envelope" where
  "envelope_new auth payload =
     (if MAX_FRAME_BYTES < length payload then Inl (FrameTooLarge (length payload))
      else Inr \<lparr>env_magic = WIRE_MAGIC, env_auth = auth, env_payload = payload\<rparr>)"

definition envelope_verify :: "bytes \<Rightarrow> wire_envelope \<Rightarrow> security_error + unit" where
  "envelope_verify expected env =
     (if env_magic env \<noteq> WIRE_MAGIC then Inl BadMagic
      else if MAX_FRAME_BYTES < length (env_payload env) then Inl (FrameTooLarge (length (env_payload env)))
      else if \<not> auth_verify expected (env_auth env) then Inl AuthFailed
      else Inr ())"

record wire_codec =
  ser_msg :: "rpc_message \<Rightarrow> string + bytes"
  de_msg :: "bytes \<Rightarrow> string + rpc_message"
  ser_env :: "wire_envelope \<Rightarrow> string + bytes"
  de_env :: "bytes \<Rightarrow> string + wire_envelope"

definition map_inl :: "('a \<Rightarrow> 'b) \<Rightarrow> 'a + 'c \<Rightarrow> 'b + 'c" where
  "map_inl f r = (case r of Inl e \<Rightarrow> Inl (f e) | Inr x \<Rightarrow> Inr x)"

definition encode_message :: "wire_codec \<Rightarrow> bytes \<Rightarrow> rpc_message \<Rightarrow> raft_error + bytes" where
  "encode_message c auth msg =
     try_bind (map_inl RTransport (ser_msg c msg)) (\<lambda>payload.
     try_bind (map_inl RSecurity (envelope_new auth payload)) (\<lambda>env.
     map_inl RTransport (ser_env c env)))"

definition decode_message :: "wire_codec \<Rightarrow> bytes \<Rightarrow> bytes \<Rightarrow> raft_error + rpc_message" where
  "decode_message c auth frame =
     try_bind (map_inl RTransport (de_env c frame)) (\<lambda>env.
     if env_magic env \<noteq> WIRE_MAGIC then Inl (RSecurity BadMagic)
     else try_bind (map_inl RSecurity (envelope_verify auth env)) (\<lambda>_.
     map_inl RTransport (de_msg c (env_payload env))))"

lemma map_inl_simps [simp]: "map_inl f (Inl e) = Inl (f e)" "map_inl f (Inr x) = Inr x"
  by (simp_all add: map_inl_def)

lemma map_inl_Inr: "map_inl f r = Inr x \<longleftrightarrow> r = Inr x"
  by (cases r) simp_all

text \<open>
  C27. Frames are authenticated: a message encoded with one cluster token decodes, at a node that
  holds the same token, to the message itself, and at a node with any other token to
  \<^verbatim>\<open>AuthFailed\<close>. The byte-by-byte comparison without early exit decides exactly equality.
\<close>

theorem wire_authenticated:
  assumes "encode_message c auth m = Inr frame" "length auth = 32" "length auth' = 32"
    and "\<And>m p. ser_msg c m = Inr p \<Longrightarrow> de_msg c p = Inr m"
    and "\<And>e p. length (env_auth e) = 32 \<Longrightarrow> ser_env c e = Inr p \<Longrightarrow> de_env c p = Inr e"
  shows "decode_message c auth' frame = (if auth' = auth then Inr m else Inl (RSecurity AuthFailed))"
proof -
  obtain p where p: "ser_msg c m = Inr p" "length p \<le> MAX_FRAME_BYTES"
      and f: "ser_env c \<lparr>env_magic = WIRE_MAGIC, env_auth = auth, env_payload = p\<rparr> = Inr frame"
    using assms(1) by (auto simp: encode_message_def try_bind_Inr map_inl_Inr envelope_new_def split: if_splits)
  show ?thesis
    using assms(5) [OF _ f] assms(4) [OF p(1)] p(2) auth_verify_eq [of auth' auth] assms(2,3)
    by (simp add: decode_message_def envelope_verify_def)
qed

text \<open>A serialiser that sends one message only.\<close>

definition ping :: rpc_message where
  "ping = ReadIndexResp \<lparr>rir_term = 3, rir_read_index = 4, rir_read_id = 5\<rparr>"

definition ping_codec :: wire_codec where
  "ping_codec = \<lparr>ser_msg = (\<lambda>m. if m = ping then Inr [9] else Inl ''unsupported''),
     de_msg = (\<lambda>bs. Inr ping),
     ser_env = (\<lambda>e. Inr (u32_to_le (env_magic e) @ [word_of_nat (length (env_auth e))] @ env_auth e @ env_payload e)),
     de_env = (\<lambda>bs. Inr \<lparr>env_magic = u32_of_le (take 4 bs), env_auth = take 32 (drop 5 bs),
        env_payload = drop 37 bs\<rparr>)\<rparr>"

theorem wire_authenticated_witness:
  "\<exists>frame. encode_message ping_codec (from_passphrase [97]) ping = Inr frame
     \<and> decode_message ping_codec (from_passphrase [97]) frame = Inr ping
     \<and> decode_message ping_codec (from_passphrase [98]) frame = Inl (RSecurity AuthFailed)"
proof -
  define frame where "frame = u32_to_le WIRE_MAGIC @ [32] @ from_passphrase [97] @ [9]"
  have e: "encode_message ping_codec (from_passphrase [97]) ping = Inr frame"
    by (simp add: encode_message_def ping_codec_def envelope_new_def MAX_FRAME_BYTES_def
        frame_def length_from_passphrase)
  have ne: "from_passphrase [98] \<noteq> from_passphrase [97]"
  proof -
    have "from_passphrase [b] ! 7 = b" for b
      by (simp add: from_passphrase_def mix_byte_def Let_def)
    from this [of 97] this [of 98] show ?thesis by auto
  qed
  have m: "\<And>m p. ser_msg ping_codec m = Inr p \<Longrightarrow> de_msg ping_codec p = Inr m"
    by (auto simp: ping_codec_def split: if_splits)
  have env: "\<And>e p. length (env_auth e) = 32 \<Longrightarrow> ser_env ping_codec e = Inr p \<Longrightarrow> de_env ping_codec p = Inr e"
    by (auto simp: ping_codec_def)
  have d: "decode_message ping_codec (from_passphrase q) frame =
      (if from_passphrase q = from_passphrase [97] then Inr ping else Inl (RSecurity AuthFailed))" for q
    by (rule wire_authenticated [OF e length_from_passphrase length_from_passphrase m env])
  show ?thesis
    using e ne by (intro exI [of _ frame] conjI) (simp_all add: d)
qed

end
