(* ===== verification/Raft_Core.thy ===== *)
theory Raft_Core
  imports Raft_Types
begin

text \<open>
  The consensus state machine \<^verbatim>\<open>Raft\<close> of \<^verbatim>\<open>crates/noedb-raft/src/raft_core.rs\<close>, one definition
  per method. A method that changes the node returns the new node and the actions for the
  runtime; \<^verbatim>\<open>append_to_peer\<close> and \<^verbatim>\<open>broadcast_append\<close> take \<^verbatim>\<open>&mut self\<close> in the source but
  change nothing, so they return the actions only.

  Parameters: \<open>g\<close> is \<^verbatim>\<open>gen_range\<close> of the random generator and \<open>de\<close> the deserialiser of a
  membership change. The votes (a \<^verbatim>\<open>HashSet\<close>) are a list without repetitions.
\<close>

section \<open>State and actions\<close>

datatype action =
    PersistHardState
  | PersistLog log_index "raft_entry list"
  | Send node_id rpc_message
  | Apply "bytes list"
  | TakeSnapshot snapshot

record raft =
  r_config :: raft_config
  r_hard :: hard_state
  r_soft :: soft_state
  r_log :: raft_log
  r_progress :: "(node_id \<times> progress) list"
  r_votes :: "node_id list"
  election_remaining_ms :: u64
  heartbeat_remaining_ms :: u64
  pending_reads :: "(u64 \<times> log_index) list"
  r_joint :: "joint_config option"
  compact_threshold :: u64

type_synonym gen_range = "u64 \<Rightarrow> u64 \<Rightarrow> u64"
type_synonym conf_decoder = "bytes \<Rightarrow> conf_change option"

definition raft_new :: "gen_range \<Rightarrow> raft_config \<Rightarrow> hard_state \<Rightarrow> raft_log \<Rightarrow> raft" where
  "raft_new g cfg h l = \<lparr>r_config = cfg, r_hard = h, r_soft = soft_default, r_log = l,
     r_progress = [], r_votes = [], election_remaining_ms = election_timeout g cfg,
     heartbeat_remaining_ms = 0, pending_reads = [], r_joint = None, compact_threshold = 64\<rparr>"

abbreviation "r_id r \<equiv> cfg_id (r_config r)"
abbreviation "r_role r \<equiv> s_role (r_soft r)"
abbreviation "r_term r \<equiv> current_term (r_hard r)"
abbreviation "r_voters r \<equiv> cfg_voters (r_config r)"

section \<open>Replication to one peer\<close>

definition append_to_peer :: "raft \<Rightarrow> node_id \<Rightarrow> action list" where
  "append_to_peer r peer =
     (if r_role r \<noteq> Leader then []
      else let next = (case bt_get (r_progress r) peer of None \<Rightarrow> 1 | Some p \<Rightarrow> next_index p);
               prev = index_prev next
        in if next = 1 \<and> compact_threshold r < last_index (r_log r)
           then [Send peer (InstallSnapshot
             \<lparr>is_term = r_term r, is_leader_id = r_id r,
              is_last_included_index = last_applied (r_hard r),
              is_last_included_term = term_at (r_log r) (last_applied (r_hard r)),
              is_data = [], is_offset = 0, is_done = True\<rparr>)]
           else [Send peer (AppendEntries
             \<lparr>ae_term = r_term r, ae_leader_id = r_id r, ae_prev_log_index = prev,
              ae_prev_log_term = term_at (r_log r) prev,
              ae_entries = take (max_append_batch (r_config r)) (slice_from (r_log r) next),
              ae_leader_commit = commit_index (r_hard r)\<rparr>)])"

definition broadcast_append :: "raft \<Rightarrow> action list" where
  "broadcast_append r =
     (if r_role r \<noteq> Leader then []
      else concat (map (append_to_peer r) (filter (\<lambda>p. p \<noteq> r_id r) (r_voters r))))"

definition log_is_up_to_date :: "raft \<Rightarrow> log_index \<Rightarrow> raft_term \<Rightarrow> bool" where
  "log_is_up_to_date r last_idx last_term =
     (let my_last = last_index (r_log r); my_term = term_at (r_log r) my_last
      in my_term < last_term \<or> (last_term = my_term \<and> my_last \<le> last_idx))"

section \<open>Quorums\<close>

definition has_match :: "raft \<Rightarrow> log_index \<Rightarrow> node_id \<Rightarrow> bool" where
  "has_match r i peer = (case bt_get (r_progress r) peer of None \<Rightarrow> False | Some p \<Rightarrow> i \<le> match_index p)"

definition count_matching :: "raft \<Rightarrow> log_index \<Rightarrow> node_id list \<Rightarrow> nat" where
  "count_matching r i peers =
     1 + length (filter (\<lambda>p. p \<noteq> r_id r \<and> has_match r i p) peers)"

definition has_quorum_for_index :: "raft \<Rightarrow> log_index \<Rightarrow> bool" where
  "has_quorum_for_index r i = (case r_joint r of
     Some j \<Rightarrow> outgoing_quorum j \<le> count_matching r i (outgoing j)
             \<and> incoming_quorum j \<le> count_matching r i (incoming j)
   | None \<Rightarrow> quorum (r_config r) \<le> count_matching r i (r_voters r))"

section \<open>Applying committed entries\<close>

definition fresh_progress :: "raft \<Rightarrow> (node_id \<times> progress) list" where
  "fresh_progress r = fold (\<lambda>peer m. if peer \<noteq> r_id r
       then bt_insert peer \<lparr>next_index = index_next (last_index (r_log r)), match_index = 0\<rparr> m
       else m) (r_voters r) []"

definition rebuild_progress :: "raft \<Rightarrow> raft" where
  "rebuild_progress r = (if r_role r \<noteq> Leader then r else r\<lparr>r_progress := fresh_progress r\<rparr>)"

definition set_voters :: "node_id list \<Rightarrow> raft \<Rightarrow> raft" where
  "set_voters vs r = r\<lparr>r_config := (r_config r)\<lparr>cfg_voters := vs\<rparr>\<rparr>"

definition apply_conf_change :: "conf_change \<Rightarrow> raft \<Rightarrow> raft \<times> action list" where
  "apply_conf_change cc r =
     ((case cc of
         AddVoter i \<Rightarrow>
           if i \<notin> set (r_voters r)
           then (case joint_finalize (joint_add_voter (r_joint r) (r_voters r) i) (r_voters r) of
                   (joint, voters) \<Rightarrow> rebuild_progress (set_voters voters (r\<lparr>r_joint := joint\<rparr>)))
           else r
       | RemoveVoter i \<Rightarrow>
           if 1 < length (r_voters r)
           then rebuild_progress ((set_voters (filter (\<lambda>v. v \<noteq> i) (r_voters r)) r)\<lparr>r_joint := None\<rparr>)
           else r),
      [PersistHardState])"

lemma apply_conf_change_keeps [simp]:
  "r_hard (fst (apply_conf_change cc r)) = r_hard r"
  "r_soft (fst (apply_conf_change cc r)) = r_soft r"
  "r_log (fst (apply_conf_change cc r)) = r_log r"
  "r_votes (fst (apply_conf_change cc r)) = r_votes r"
  "r_id (fst (apply_conf_change cc r)) = r_id r"
  "compact_threshold (fst (apply_conf_change cc r)) = compact_threshold r"
  by (simp_all add: apply_conf_change_def rebuild_progress_def set_voters_def
        split: conf_change.splits prod.splits)

lemma apply_conf_change_frame:
  "apply_conf_change cc r = (r', a) \<Longrightarrow> r_hard r' = r_hard r \<and> r_soft r' = r_soft r \<and> r_log r' = r_log r
     \<and> r_votes r' = r_votes r \<and> r_id r' = r_id r \<and> compact_threshold r' = compact_threshold r"
  using apply_conf_change_keeps [of cc r] by simp

definition set_applied :: "log_index \<Rightarrow> raft \<Rightarrow> raft" where
  "set_applied i r = r\<lparr>r_hard := (r_hard r)\<lparr>last_applied := i\<rparr>\<rparr>"

definition set_commit :: "log_index \<Rightarrow> raft \<Rightarrow> raft" where
  "set_commit i r = r\<lparr>r_hard := (r_hard r)\<lparr>commit_index := i\<rparr>\<rparr>"

lemma set_commit_simps [simp]:
  "r_hard (set_commit i r) = (r_hard r)\<lparr>commit_index := i\<rparr>" "r_log (set_commit i r) = r_log r"
  "r_soft (set_commit i r) = r_soft r" "r_votes (set_commit i r) = r_votes r"
  "r_config (set_commit i r) = r_config r" "r_joint (set_commit i r) = r_joint r"
  "r_progress (set_commit i r) = r_progress r" "compact_threshold (set_commit i r) = compact_threshold r"
  by (simp_all add: set_commit_def)

text \<open>The body of the loop of \<^verbatim>\<open>apply_committed\<close> at index \<open>next\<close>, and the loop.\<close>

definition apply_one ::
  "conf_decoder \<Rightarrow> log_index \<Rightarrow> raft \<times> bytes list \<times> action list \<Rightarrow> raft \<times> bytes list \<times> action list" where
  "apply_one de next = (\<lambda>(r, cmds, acts).
     case log_get (r_log r) next of
       None \<Rightarrow> (set_applied next r, cmds, acts)
     | Some e \<Rightarrow>
         (case decode_conf_change de (e_command e) of
            Some cc \<Rightarrow> (case apply_conf_change cc r of
                (r', a) \<Rightarrow> (set_applied next r', cmds, acts @ a))
          | None \<Rightarrow> (set_applied next r, if e_command e \<noteq> [] then cmds @ [e_command e] else cmds, acts)))"

lemma apply_one_hard:
  "r_hard (fst (apply_one de n (r, cmds, acts))) = (r_hard r)\<lparr>last_applied := n\<rparr>"
  by (auto simp: apply_one_def set_applied_def dest!: apply_conf_change_frame split: option.splits prod.splits)

function apply_loop ::
  "conf_decoder \<Rightarrow> raft \<times> bytes list \<times> action list \<Rightarrow> raft \<times> bytes list \<times> action list" where
  "apply_loop de (r, cmds, acts) =
     (if last_applied (r_hard r) < commit_index (r_hard r)
      then apply_loop de (apply_one de (index_next (last_applied (r_hard r))) (r, cmds, acts))
      else (r, cmds, acts))"
  by pat_completeness auto

termination
proof (relation "measure (\<lambda>(de, r, cmds, acts). unat (commit_index (r_hard r)) - unat (last_applied (r_hard r)))")
  show "wf (measure (\<lambda>(de, r, cmds, acts). unat (commit_index (r_hard r)) - unat (last_applied (r_hard r))))"
    by simp
next
  fix de :: conf_decoder and r :: raft and cmds :: "bytes list" and acts :: "action list"
  assume *: "last_applied (r_hard r) < commit_index (r_hard r)"
  obtain r' c a where e: "apply_one de (index_next (last_applied (r_hard r))) (r, cmds, acts) = (r', c, a)"
    by (cases "apply_one de (index_next (last_applied (r_hard r))) (r, cmds, acts)")
  then have "r_hard r' = (r_hard r)\<lparr>last_applied := index_next (last_applied (r_hard r))\<rparr>"
    using apply_one_hard [of de "index_next (last_applied (r_hard r))" r cmds acts] by simp
  with * show "((de, apply_one de (index_next (last_applied (r_hard r))) (r, cmds, acts)), de, r, cmds, acts)
      \<in> measure (\<lambda>(de, r, cmds, acts). unat (commit_index (r_hard r)) - unat (last_applied (r_hard r)))"
    by (simp add: e unat_index_next_less [OF *] word_less_nat_alt diff_less_mono2)
qed

declare apply_loop.simps [simp del]

definition apply_committed :: "conf_decoder \<Rightarrow> raft \<Rightarrow> raft \<times> action list" where
  "apply_committed de r =
     (case apply_loop de (r, [], []) of
        (r', cmds, acts) \<Rightarrow>
          let acts1 = (if cmds \<noteq> [] then acts @ [Apply cmds] else acts);
              acts2 = (if acts1 \<noteq> [] then acts1 @ [PersistHardState] else acts1)
          in (r', acts2))"

section \<open>Role changes\<close>

definition reset_election_timer :: "gen_range \<Rightarrow> raft \<Rightarrow> raft" where
  "reset_election_timer g r = r\<lparr>election_remaining_ms := election_timeout g (r_config r)\<rparr>"

definition become_follower ::
  "gen_range \<Rightarrow> raft_term \<Rightarrow> node_id option \<Rightarrow> raft \<Rightarrow> raft \<times> action list" where
  "become_follower g t leader r =
     (let r1 = r\<lparr>r_soft := \<lparr>s_role = Follower, leader_id = leader\<rparr>, r_votes := [],
                 r_progress := [], pending_reads := []\<rparr>;
          r2 = (if r_term r1 < t
                then r1\<lparr>r_hard := (r_hard r1)\<lparr>current_term := t, voted_for := None\<rparr>\<rparr> else r1)
      in (reset_election_timer g r2, [PersistHardState]))"

definition become_leader :: "raft \<Rightarrow> raft \<times> action list" where
  "become_leader r =
     (let r1 = r\<lparr>r_soft := \<lparr>s_role = Leader, leader_id = Some (r_id r)\<rparr>\<rparr>;
          r2 = r1\<lparr>r_progress := fresh_progress r1, heartbeat_remaining_ms := 0\<rparr>
      in (r2, broadcast_append r2))"

definition become_candidate :: "gen_range \<Rightarrow> raft \<Rightarrow> raft \<times> action list" where
  "become_candidate g r =
     (let t = term_next (r_term r);
          r1 = reset_election_timer g (r\<lparr>
            r_hard := (r_hard r)\<lparr>current_term := t, voted_for := Some (r_id r)\<rparr>,
            r_soft := \<lparr>s_role = Candidate, leader_id = None\<rparr>, r_votes := [r_id r]\<rparr>);
          last = last_index (r_log r1); last_term = term_at (r_log r1) last;
          acts = PersistHardState # map (\<lambda>peer. Send peer (RequestVote
            \<lparr>rv_term = t, rv_candidate_id = r_id r1, rv_last_log_index = last,
             rv_last_log_term = last_term\<rparr>)) (filter (\<lambda>p. p \<noteq> r_id r1) (r_voters r1))
      in if quorum (r_config r1) \<le> length (r_votes r1)
         then (case become_leader r1 of (r2, a) \<Rightarrow> (r2, acts @ a))
         else (r1, acts))"

definition start_election :: "gen_range \<Rightarrow> raft \<Rightarrow> raft \<times> action list" where
  "start_election g r = (if r_role r = Leader then (r, []) else become_candidate g r)"

section \<open>Timers and client requests\<close>

definition tick :: "gen_range \<Rightarrow> u64 \<Rightarrow> raft \<Rightarrow> raft \<times> action list" where
  "tick g elapsed r =
     (if r_role r = Leader
      then if heartbeat_remaining_ms r \<le> elapsed
           then let r1 = r\<lparr>heartbeat_remaining_ms := heartbeat_interval (r_config r)\<rparr>
                in (r1, broadcast_append r1)
           else (r\<lparr>heartbeat_remaining_ms := heartbeat_remaining_ms r - elapsed\<rparr>, [])
      else if election_remaining_ms r \<le> elapsed
           then start_election g r
           else (r\<lparr>election_remaining_ms := election_remaining_ms r - elapsed\<rparr>, []))"

definition propose :: "bytes \<Rightarrow> raft \<Rightarrow> raft_error + (raft \<times> action list)" where
  "propose cmd r =
     (if r_role r \<noteq> Leader then Inl (RInternal ''not leader'')
      else let entry = \<lparr>e_term = r_term r, e_command = cmd\<rparr>;
               from = last_index (r_log r);
               r1 = r\<lparr>r_log := fst (log_append (r_log r) [entry])\<rparr>
           in Inr (r1, PersistLog (index_next from) [entry] # broadcast_append r1))"

definition read_index :: "u64 \<Rightarrow> raft \<Rightarrow> raft_error + (raft \<times> action list)" where
  "read_index read_id r =
     (if r_role r \<noteq> Leader then Inl (RInternal ''not leader'')
      else let entry = \<lparr>e_term = r_term r, e_command = []\<rparr>;
               from = last_index (r_log r);
               r1 = r\<lparr>r_log := fst (log_append (r_log r) [entry])\<rparr>;
               r2 = r1\<lparr>pending_reads := pending_reads r1 @ [(read_id, last_index (r_log r1))]\<rparr>
           in Inr (r2, PersistLog (index_next from) [entry] # broadcast_append r2))"

definition propose_conf_change ::
  "(conf_change \<Rightarrow> bytes) \<Rightarrow> conf_change \<Rightarrow> raft \<Rightarrow> raft_error + (raft \<times> action list)" where
  "propose_conf_change ser cc r =
     (if r_role r \<noteq> Leader then Inl (RInternal ''not leader'')
      else propose (encode_conf_change ser cc) r)"

section \<open>Advancing the commit index\<close>

text \<open>The indices \<open>commit_index + 1 ..= last_index\<close>; the addition wraps at \<^verbatim>\<open>u64::MAX\<close>.\<close>

definition index_range :: "log_index \<Rightarrow> log_index \<Rightarrow> log_index list" where
  "index_range a b = map word_of_nat [unat a ..< Suc (unat b)]"

definition try_confirm_reads :: "raft \<Rightarrow> raft" where
  "try_confirm_reads r =
     r\<lparr>pending_reads := filter (\<lambda>(_, i). commit_index (r_hard r) < i) (pending_reads r)\<rparr>"

definition advance_one :: "raft_term \<Rightarrow> log_index \<Rightarrow> raft \<times> action list \<Rightarrow> raft \<times> action list" where
  "advance_one t i = (\<lambda>(r, acts).
     if term_at (r_log r) i \<noteq> t then (r, acts)
     else if has_quorum_for_index r i then (set_commit i r, acts @ [PersistHardState])
     else (r, acts))"

definition try_advance_commit :: "conf_decoder \<Rightarrow> raft \<Rightarrow> raft \<times> action list" where
  "try_advance_commit de r =
     (case fold (advance_one (r_term r)) (index_range (commit_index (r_hard r) + 1) (last_index (r_log r))) (r, []) of
        (r1, acts1) \<Rightarrow> (case apply_committed de r1 of
          (r2, acts2) \<Rightarrow>
            let r3 = try_confirm_reads r2;
                acts = acts1 @ acts2
            in (r3, if r_role r3 = Leader \<and>
                       compact_threshold r3 < sat_sub (last_index (r_log r3)) (last_applied (r_hard r3))
                    then acts @ [TakeSnapshot \<lparr>snap_index = last_applied (r_hard r3),
                           snap_term = term_at (r_log r3) (last_applied (r_hard r3)), snap_data = []\<rparr>]
                    else acts)))"

section \<open>Requests from other nodes\<close>

definition handle_request_vote ::
  "gen_range \<Rightarrow> request_vote_req \<Rightarrow> raft \<Rightarrow> raft \<times> rpc_message option \<times> action list" where
  "handle_request_vote g req r =
     (if rv_term req < r_term r
      then (r, Some (RequestVoteResp \<lparr>rvr_term = r_term r, rvr_granted = False\<rparr>), [])
      else case (if r_term r < rv_term req then become_follower g (rv_term req) None r else (r, [])) of
        (r1, acts) \<Rightarrow>
          if (voted_for (r_hard r1) = None \<or> voted_for (r_hard r1) = Some (rv_candidate_id req))
             \<and> log_is_up_to_date r1 (rv_last_log_index req) (rv_last_log_term req)
          then let r2 = reset_election_timer g
                     (r1\<lparr>r_hard := (r_hard r1)\<lparr>voted_for := Some (rv_candidate_id req)\<rparr>\<rparr>)
               in (r2, Some (RequestVoteResp \<lparr>rvr_term = r_term r2, rvr_granted = True\<rparr>),
                   acts @ [PersistHardState])
          else (r1, Some (RequestVoteResp \<lparr>rvr_term = r_term r1, rvr_granted = False\<rparr>), acts))"

definition append_resp :: "raft \<Rightarrow> bool \<Rightarrow> rpc_message" where
  "append_resp r ok = AppendEntriesResp
     \<lparr>aer_term = r_term r, aer_success = ok, aer_last_log_index = last_index (r_log r)\<rparr>"

definition ae_accept_leader :: "gen_range \<Rightarrow> append_entries_req \<Rightarrow> raft \<Rightarrow> raft \<times> action list" where
  "ae_accept_leader g req r =
     (if r_term r < ae_term req
         \<or> (ae_term req = r_term r \<and> r_role r = Leader \<and> ae_leader_id req \<noteq> r_id r)
      then become_follower g (ae_term req) (Some (ae_leader_id req)) r
      else (reset_election_timer g (r\<lparr>r_soft := (r_soft r)\<lparr>leader_id := Some (ae_leader_id req)\<rparr>\<rparr>), []))"

definition ae_store :: "append_entries_req \<Rightarrow> raft \<Rightarrow> raft \<times> action list" where
  "ae_store req r =
     (if ae_entries req \<noteq> []
      then (r\<lparr>r_log := fst (log_append (truncate_from (r_log r) (ae_prev_log_index req)) (ae_entries req))\<rparr>,
            [PersistLog (index_next (ae_prev_log_index req)) (ae_entries req)])
      else (r, []))"

definition ae_commit :: "conf_decoder \<Rightarrow> append_entries_req \<Rightarrow> raft \<Rightarrow> raft \<times> action list" where
  "ae_commit de req r =
     (if commit_index (r_hard r) < ae_leader_commit req
      then let commit = min (ae_leader_commit req) (last_index (r_log r))
           in if term_at (r_log r) commit = ae_term req
              then (case apply_committed de (set_commit commit r) of
                      (r', acts) \<Rightarrow> (r', PersistHardState # acts))
              else (r, [])
      else (r, []))"

definition handle_append_entries ::
  "gen_range \<Rightarrow> conf_decoder \<Rightarrow> append_entries_req \<Rightarrow> raft \<Rightarrow> raft \<times> rpc_message option \<times> action list" where
  "handle_append_entries g de req r =
     (if ae_term req < r_term r then (r, Some (append_resp r False), [])
      else case ae_accept_leader g req r of (r1, acts1) \<Rightarrow>
        if term_at (r_log r1) (ae_prev_log_index req) \<noteq> ae_prev_log_term req
        then (r1, Some (append_resp r1 False), acts1)
        else case ae_store req r1 of (r2, acts2) \<Rightarrow>
          (case ae_commit de req r2 of (r3, acts3) \<Rightarrow>
            (r3, Some (append_resp r3 True), acts1 @ acts2 @ acts3)))"

definition handle_install_snapshot ::
  "gen_range \<Rightarrow> install_snapshot_req \<Rightarrow> raft \<Rightarrow> raft \<times> rpc_message option \<times> action list" where
  "handle_install_snapshot g req r =
     (case (if r_term r \<le> is_term req
            then (case become_follower g (is_term req) (Some (is_leader_id req)) r of
              (r1, acts) \<Rightarrow>
                let r2 = r1\<lparr>r_log := restore (is_last_included_index req) (is_last_included_term req) []\<rparr>
                in if is_done req
                   then (r2\<lparr>r_hard := (r_hard r2)\<lparr>commit_index := is_last_included_index req,
                              last_applied := is_last_included_index req\<rparr>\<rparr>,
                         acts @ [TakeSnapshot \<lparr>snap_index = is_last_included_index req,
                                   snap_term = is_last_included_term req, snap_data = is_data req\<rparr>,
                                 PersistHardState])
                   else (r2, acts))
            else (r, [])) of
        (r', acts) \<Rightarrow> (r', Some (InstallSnapshotResp \<lparr>isr_term = r_term r'\<rparr>), acts))"

definition handle_read_index :: "read_index_req \<Rightarrow> raft \<Rightarrow> raft \<times> rpc_message option \<times> action list" where
  "handle_read_index req r =
     (if r_role r \<noteq> Leader \<or> ri_term req \<noteq> r_term r then (r, None, [])
      else let idx = last_index (r_log r);
               r1 = r\<lparr>pending_reads := pending_reads r @ [(ri_read_id req, idx)]\<rparr>;
               acts = broadcast_append r1;
               r2 = try_confirm_reads r1
           in (r2, Some (ReadIndexResp \<lparr>rir_term = r_term r2, rir_read_index = idx,
                          rir_read_id = ri_read_id req\<rparr>), acts))"

text \<open>\<^verbatim>\<open>Raft::step\<close>: every message that is not a request is sent back to where it came from.\<close>

definition raft_step ::
  "gen_range \<Rightarrow> conf_decoder \<Rightarrow> node_id \<Rightarrow> rpc_message \<Rightarrow> raft \<Rightarrow> raft \<times> rpc_message option \<times> action list" where
  "raft_step g de from msg r = (case msg of
     RequestVote req \<Rightarrow> handle_request_vote g req r
   | AppendEntries req \<Rightarrow> handle_append_entries g de req r
   | InstallSnapshot req \<Rightarrow> handle_install_snapshot g req r
   | ReadIndex req \<Rightarrow> handle_read_index req r
   | other \<Rightarrow> (r, None, [Send from other]))"

section \<open>Responses\<close>

definition step_vote_response ::
  "gen_range \<Rightarrow> node_id \<Rightarrow> request_vote_resp \<Rightarrow> raft \<Rightarrow> raft \<times> action list" where
  "step_vote_response g from resp r =
     (if r_term r < rvr_term resp then become_follower g (rvr_term resp) None r
      else if r_role r \<noteq> Candidate \<or> rvr_term resp \<noteq> r_term r then (r, [])
      else let r1 = (if rvr_granted resp then r\<lparr>r_votes := List.insert from (r_votes r)\<rparr> else r)
           in if quorum (r_config r1) \<le> length (r_votes r1) then become_leader r1 else (r1, []))"

definition step_append_response ::
  "gen_range \<Rightarrow> conf_decoder \<Rightarrow> node_id \<Rightarrow> append_entries_resp \<Rightarrow> raft \<Rightarrow> raft \<times> action list" where
  "step_append_response g de from resp r =
     (if r_term r < aer_term resp then become_follower g (aer_term resp) None r
      else if r_role r \<noteq> Leader then (r, [])
      else case bt_get (r_progress r) from of
        None \<Rightarrow> (r, [])
      | Some p \<Rightarrow>
          let p' = (if aer_success resp
                    then p\<lparr>match_index := aer_last_log_index resp,
                           next_index := index_next (aer_last_log_index resp)\<rparr>
                    else p\<lparr>next_index := max (sat_sub (next_index p) 1) 1\<rparr>);
              r1 = r\<lparr>r_progress := bt_insert from p' (r_progress r)\<rparr>
          in case try_advance_commit de r1 of (r2, acts) \<Rightarrow>
            let next = (case bt_get (r_progress r2) from of None \<Rightarrow> 0 | Some q \<Rightarrow> next_index q)
            in (r2, if next \<le> last_index (r_log r2) then acts @ append_to_peer r2 from else acts))"

end
