(* ===== verification/Raft_Node.thy ===== *)
theory Raft_Node
  imports Raft_Core
begin

text \<open>
  The node runtime \<^verbatim>\<open>RaftNode\<close> of \<^verbatim>\<open>node.rs\<close> over the trait \<^verbatim>\<open>RaftStorage\<close> of \<^verbatim>\<open>storage.rs\<close>.
  A storage backend is a record of its operations; an operation that takes \<^verbatim>\<open>&mut self\<close> returns
  the new backend and the error, if any. The locale \<open>raft_store\<close> states what the runtime relies
  on, and is interpreted below on the in-memory backend.
\<close>

section \<open>The storage trait\<close>

record 's storage_ops =
  load_hard_state :: "'s \<Rightarrow> raft_storage_error + hard_state"
  save_hard_state :: "hard_state \<Rightarrow> 's \<Rightarrow> 's \<times> raft_storage_error option"
  load_log :: "'s \<Rightarrow> raft_storage_error + raft_log"
  store_append :: "log_index \<Rightarrow> raft_entry list \<Rightarrow> 's \<Rightarrow> 's \<times> raft_storage_error option"
  load_snapshot :: "'s \<Rightarrow> raft_storage_error + snapshot option"
  save_snapshot :: "snapshot \<Rightarrow> 's \<Rightarrow> 's \<times> raft_storage_error option"
  store_sync :: "'s \<Rightarrow> 's \<times> raft_storage_error option"

record mem_storage =
  m_hard :: hard_state
  m_log :: raft_log
  m_snapshot :: "snapshot option"

definition mem_storage_new :: mem_storage where
  "mem_storage_new = \<lparr>m_hard = hard_default, m_log = raft_log_new, m_snapshot = None\<rparr>"

definition mem_append :: "log_index \<Rightarrow> raft_entry list \<Rightarrow> mem_storage \<Rightarrow> mem_storage" where
  "mem_append from es s = s\<lparr>m_log := fst (log_append (truncate_from (m_log s) (index_prev from)) es)\<rparr>"

definition mem_save_snapshot :: "snapshot \<Rightarrow> mem_storage \<Rightarrow> mem_storage" where
  "mem_save_snapshot sn s = s\<lparr>m_snapshot := Some sn, m_log := restore (snap_index sn) (snap_term sn) []\<rparr>"

definition mem_ops :: "mem_storage storage_ops" where
  "mem_ops = \<lparr>load_hard_state = (\<lambda>s. Inr (m_hard s)),
     save_hard_state = (\<lambda>hs s. (s\<lparr>m_hard := hs\<rparr>, None)),
     load_log = (\<lambda>s. Inr (m_log s)),
     store_append = (\<lambda>from es s. (mem_append from es s, None)),
     load_snapshot = (\<lambda>s. Inr (m_snapshot s)),
     save_snapshot = (\<lambda>sn s. (mem_save_snapshot sn s, None)),
     store_sync = (\<lambda>s. (s, None))\<rparr>"

section \<open>The node\<close>

record 's raft_node =
  n_raft :: raft
  n_storage :: 's
  n_applied :: "bytes list"

type_synonym outbound = "(node_id \<times> rpc_message) list"

definition node_open ::
  "'s storage_ops \<Rightarrow> gen_range \<Rightarrow> raft_config \<Rightarrow> 's \<Rightarrow> raft_error + 's raft_node" where
  "node_open ops g cfg s = (case load_hard_state ops s of
     Inl e \<Rightarrow> Inl (RStorage e)
   | Inr h \<Rightarrow> (case load_log ops s of
       Inl e \<Rightarrow> Inl (RStorage e)
     | Inr l \<Rightarrow> Inr \<lparr>n_raft = raft_new g cfg h l, n_storage = s, n_applied = []\<rparr>))"

text \<open>One action of \<^verbatim>\<open>exec\<close>, then the loop: an error ends it before the flush.\<close>

definition exec_action ::
  "'s storage_ops \<Rightarrow> action \<Rightarrow> 's raft_node \<times> outbound \<Rightarrow> ('s raft_node \<times> outbound) \<times> raft_storage_error option" where
  "exec_action ops a = (\<lambda>(n, out). case a of
     PersistHardState \<Rightarrow> (case save_hard_state ops (r_hard (n_raft n)) (n_storage n) of
         (s, e) \<Rightarrow> ((n\<lparr>n_storage := s\<rparr>, out), e))
   | PersistLog from es \<Rightarrow> (case store_append ops from es (n_storage n) of
         (s, e) \<Rightarrow> ((n\<lparr>n_storage := s\<rparr>, out), e))
   | Apply cmds \<Rightarrow> ((n\<lparr>n_applied := n_applied n @ cmds\<rparr>, out), None)
   | TakeSnapshot sn \<Rightarrow> (case save_snapshot ops sn (n_storage n) of
         (s, Some e) \<Rightarrow> ((n\<lparr>n_storage := s\<rparr>, out), Some e)
       | (s, None) \<Rightarrow> ((n\<lparr>n_storage := s,
             n_raft := (n_raft n)\<lparr>r_log := restore (snap_index sn) (snap_term sn) []\<rparr>\<rparr>, out), None))
   | Send to msg \<Rightarrow> ((n, out @ [(to, msg)]), None))"

fun exec_loop ::
  "'s storage_ops \<Rightarrow> action list \<Rightarrow> 's raft_node \<times> outbound \<Rightarrow> 's raft_node \<times> (raft_error + outbound)" where
  "exec_loop ops [] (n, out) = (case store_sync ops (n_storage n) of
     (s, None) \<Rightarrow> (n\<lparr>n_storage := s\<rparr>, Inr out)
   | (s, Some e) \<Rightarrow> (n\<lparr>n_storage := s\<rparr>, Inl (RStorage e)))"
| "exec_loop ops (a # as) (n, out) = (case exec_action ops a (n, out) of
     (no', None) \<Rightarrow> exec_loop ops as no'
   | ((n', _), Some e) \<Rightarrow> (n', Inl (RStorage e)))"

definition exec ::
  "'s storage_ops \<Rightarrow> raft \<times> action list \<Rightarrow> 's raft_node \<Rightarrow> 's raft_node \<times> (raft_error + outbound)" where
  "exec ops ra n = exec_loop ops (snd ra) (n\<lparr>n_raft := fst ra\<rparr>, [])"

definition node_tick ::
  "'s storage_ops \<Rightarrow> gen_range \<Rightarrow> u64 \<Rightarrow> 's raft_node \<Rightarrow> 's raft_node \<times> (raft_error + outbound)" where
  "node_tick ops g ms n = exec ops (tick g ms (n_raft n)) n"

definition node_dispatch ::
  "gen_range \<Rightarrow> conf_decoder \<Rightarrow> node_id \<Rightarrow> rpc_message \<Rightarrow> raft \<Rightarrow> raft \<times> rpc_message option \<times> action list" where
  "node_dispatch g de from msg r = (case msg of
     RequestVoteResp resp \<Rightarrow> (case step_vote_response g from resp r of (r', a) \<Rightarrow> (r', None, a))
   | AppendEntriesResp resp \<Rightarrow> (case step_append_response g de from resp r of (r', a) \<Rightarrow> (r', None, a))
   | other \<Rightarrow> raft_step g de from other r)"

definition node_step ::
  "'s storage_ops \<Rightarrow> gen_range \<Rightarrow> conf_decoder \<Rightarrow> node_id \<Rightarrow> rpc_message \<Rightarrow> 's raft_node
     \<Rightarrow> 's raft_node \<times> (raft_error + (rpc_message option \<times> outbound))" where
  "node_step ops g de from msg n = (case node_dispatch g de from msg (n_raft n) of
     (r, resp, acts) \<Rightarrow> (case exec ops (r, acts) n of
        (n', Inl e) \<Rightarrow> (n', Inl e)
      | (n', Inr out) \<Rightarrow> (n', Inr (resp, out))))"

definition node_client ::
  "'s storage_ops \<Rightarrow> (raft \<Rightarrow> raft_error + (raft \<times> action list)) \<Rightarrow> 's raft_node
     \<Rightarrow> 's raft_node \<times> (raft_error + outbound)" where
  "node_client ops req n = (case req (n_raft n) of Inl e \<Rightarrow> (n, Inl e) | Inr ra \<Rightarrow> exec ops ra n)"

definition node_propose ::
  "'s storage_ops \<Rightarrow> bytes \<Rightarrow> 's raft_node \<Rightarrow> 's raft_node \<times> (raft_error + outbound)" where
  "node_propose ops cmd n = node_client ops (propose cmd) n"

definition node_read_index ::
  "'s storage_ops \<Rightarrow> u64 \<Rightarrow> 's raft_node \<Rightarrow> 's raft_node \<times> (raft_error + outbound)" where
  "node_read_index ops i n = node_client ops (read_index i) n"

definition node_propose_conf_change ::
  "'s storage_ops \<Rightarrow> (conf_change \<Rightarrow> bytes) \<Rightarrow> conf_change \<Rightarrow> 's raft_node
     \<Rightarrow> 's raft_node \<times> (raft_error + outbound)" where
  "node_propose_conf_change ops ser cc n = node_client ops (propose_conf_change ser cc) n"

section \<open>The effect of a list of actions\<close>

text \<open>On the stored log, on the log in memory, on the messages sent and the commands applied.\<close>

fun stored_log :: "action \<Rightarrow> raft_log \<Rightarrow> raft_log" where
  "stored_log (PersistLog from es) l = truncate_from l (index_prev from) @ es"
| "stored_log (TakeSnapshot sn) l = restore (snap_index sn) (snap_term sn) []"
| "stored_log _ l = l"

fun memory_log :: "action \<Rightarrow> raft_log \<Rightarrow> raft_log" where
  "memory_log (TakeSnapshot sn) l = restore (snap_index sn) (snap_term sn) []"
| "memory_log _ l = l"

fun action_sends :: "action list \<Rightarrow> outbound" where
  "action_sends [] = []"
| "action_sends (Send to msg # as) = (to, msg) # action_sends as"
| "action_sends (_ # as) = action_sends as"

fun action_applies :: "action list \<Rightarrow> bytes list" where
  "action_applies [] = []"
| "action_applies (Apply cmds # as) = cmds @ action_applies as"
| "action_applies (_ # as) = action_applies as"

definition executed :: "action list \<Rightarrow> raft \<Rightarrow> raft" where
  "executed acts r = r\<lparr>r_log := fold memory_log acts (r_log r)\<rparr>"

definition quiet :: "action \<Rightarrow> bool" where
  "quiet a = (case a of PersistLog _ _ \<Rightarrow> False | TakeSnapshot _ \<Rightarrow> False | _ \<Rightarrow> True)"

lemma quiet_simps [simp]:
  "quiet PersistHardState" "quiet (Send to m)" "quiet (Apply cs)"
  "\<not> quiet (PersistLog f es)" "\<not> quiet (TakeSnapshot sn)"
  by (simp_all add: quiet_def)

lemma quiet_logs: "quiet a \<Longrightarrow> stored_log a l = l" "quiet a \<Longrightarrow> memory_log a l = l"
  by (cases a; simp)+

lemma quiet_fold:
  assumes "list_all quiet acts"
  shows "fold stored_log acts l = l" "fold memory_log acts l = l"
  using assms by (induction acts) (simp_all add: quiet_logs)

lemma action_sends_append [simp]: "action_sends (as @ bs) = action_sends as @ action_sends bs"
  by (induction as rule: action_sends.induct) simp_all

lemma action_applies_append [simp]: "action_applies (as @ bs) = action_applies as @ action_applies bs"
  by (induction as rule: action_applies.induct) simp_all

lemma in_action_sends: "(to, m) \<in> set (action_sends acts) \<longleftrightarrow> Send to m \<in> set acts"
  by (induction acts rule: action_sends.induct) auto

lemma executed_keeps [simp]:
  "r_hard (executed acts r) = r_hard r" "r_soft (executed acts r) = r_soft r"
  "r_config (executed acts r) = r_config r" "r_votes (executed acts r) = r_votes r"
  "r_joint (executed acts r) = r_joint r"
  by (simp_all add: executed_def)

section \<open>What a backend promises\<close>

text \<open>
  \<open>reopened s\<close> is the backend a restart finds. Every operation succeeds on a well-formed
  backend, loads return what was stored last, and a flush makes it durable.
\<close>

locale raft_store =
  fixes ops :: "'s storage_ops"
    and reopened :: "'s \<Rightarrow> 's"
    and invar :: "'s \<Rightarrow> bool"
    and hard_of :: "'s \<Rightarrow> hard_state"
    and log_of :: "'s \<Rightarrow> raft_log"
  assumes load_hard: "invar s \<Longrightarrow> load_hard_state ops s = Inr (hard_of s)"
    and load_log: "invar s \<Longrightarrow> load_log ops s = Inr (log_of s)"
    and save_hard: "invar s \<Longrightarrow> \<exists>s'. save_hard_state ops hs s = (s', None) \<and> invar s'
          \<and> hard_of s' = hs \<and> log_of s' = log_of s"
    and append: "invar s \<Longrightarrow> \<exists>s'. store_append ops from es s = (s', None) \<and> invar s'
          \<and> hard_of s' = hard_of s \<and> log_of s' = truncate_from (log_of s) (index_prev from) @ es"
    and save_snap: "invar s \<Longrightarrow> \<exists>s'. save_snapshot ops sn s = (s', None) \<and> invar s'
          \<and> hard_of s' = hard_of s \<and> log_of s' = restore (snap_index sn) (snap_term sn) []"
    and sync: "invar s \<Longrightarrow> \<exists>s'. store_sync ops s = (s', None) \<and> invar s'
          \<and> hard_of s' = hard_of s \<and> log_of s' = log_of s
          \<and> invar (reopened s') \<and> hard_of (reopened s') = hard_of s \<and> log_of (reopened s') = log_of s"
    and reopen_again: "invar s \<Longrightarrow> reopened (reopened s) = reopened s"
begin

text \<open>The state a restart would find is the node's own.\<close>

definition persisted :: "'s raft_node \<Rightarrow> bool" where
  "persisted n = (invar (n_storage n) \<and> invar (reopened (n_storage n))
     \<and> hard_of (reopened (n_storage n)) = r_hard (n_raft n)
     \<and> log_of (reopened (n_storage n)) = r_log (n_raft n)
     \<and> hard_of (n_storage n) = r_hard (n_raft n)
     \<and> log_of (n_storage n) = r_log (n_raft n))"

lemma exec_loop_effect:
  assumes "invar (n_storage n)"
  shows "\<exists>s. exec_loop ops acts (n, out) =
      (\<lparr>n_raft = executed acts (n_raft n), n_storage = s, n_applied = n_applied n @ action_applies acts\<rparr>,
       Inr (out @ action_sends acts))
    \<and> invar s \<and> invar (reopened s) \<and> hard_of (reopened s) = hard_of s \<and> log_of (reopened s) = log_of s
    \<and> hard_of s = (if PersistHardState \<in> set acts then r_hard (n_raft n) else hard_of (n_storage n))
    \<and> log_of s = fold stored_log acts (log_of (n_storage n))"
  using assms
proof (induction acts arbitrary: n out)
  case Nil
  then show ?case using sync [OF Nil] by (cases n) (auto simp: executed_def)
next
  case (Cons a acts)
  show ?case
  proof (cases a)
    case PersistHardState
    obtain s where s: "save_hard_state ops (r_hard (n_raft n)) (n_storage n) = (s, None)" "invar s"
        "hard_of s = r_hard (n_raft n)" "log_of s = log_of (n_storage n)"
      using save_hard [OF Cons.prems] by blast
    then show ?thesis
      using Cons.IH [of "n\<lparr>n_storage := s\<rparr>" out]
      by (simp add: PersistHardState exec_action_def executed_def cong: if_cong split del: if_split)
  next
    case (PersistLog start es)
    obtain s where s: "store_append ops start es (n_storage n) = (s, None)" "invar s"
        "hard_of s = hard_of (n_storage n)" "log_of s = truncate_from (log_of (n_storage n)) (index_prev start) @ es"
      using append [OF Cons.prems] by blast
    then show ?thesis
      using Cons.IH [of "n\<lparr>n_storage := s\<rparr>" out]
      by (simp add: PersistLog exec_action_def executed_def cong: if_cong split del: if_split)
  next
    case (Send to msg)
    then show ?thesis
      using Cons.IH [OF Cons.prems, of "out @ [(to, msg)]"] by (simp add: exec_action_def executed_def cong: if_cong split del: if_split)
  next
    case (Apply cmds)
    then show ?thesis
      using Cons.IH [of "n\<lparr>n_applied := n_applied n @ cmds\<rparr>" out] Cons.prems
      by (simp add: exec_action_def executed_def cong: if_cong split del: if_split)
  next
    case (TakeSnapshot sn)
    obtain s where s: "save_snapshot ops sn (n_storage n) = (s, None)" "invar s"
        "hard_of s = hard_of (n_storage n)" "log_of s = restore (snap_index sn) (snap_term sn) []"
      using save_snap [OF Cons.prems] by blast
    then show ?thesis
      using Cons.IH [of "n\<lparr>n_storage := s,
             n_raft := (n_raft n)\<lparr>r_log := restore (snap_index sn) (snap_term sn) []\<rparr>\<rparr>" out]
      by (simp add: TakeSnapshot exec_action_def executed_def cong: if_cong split del: if_split)
  qed
qed

end

end
