(* ===== verification/Raft_Frame.thy ===== *)
theory Raft_Frame
  imports Raft_Node
begin

text \<open>
  What each operation of the consensus core leaves unchanged, which actions it asks for, and
  that these actions write down every change it makes: the hard state changes only together
  with \<open>PersistHardState\<close>, and the log changes exactly as the storage actions say.
\<close>

named_theorems raft_simps \<open>unfolding one operation of the core\<close>

section \<open>The apply loop\<close>

lemma apply_one_frame:
  assumes "apply_one de i (r, cmds, acts) = (r', cmds', acts')"
  shows "r_hard r' = (r_hard r)\<lparr>last_applied := i\<rparr>" "r_log r' = r_log r" "r_soft r' = r_soft r"
    "r_votes r' = r_votes r" "r_id r' = r_id r" "compact_threshold r' = compact_threshold r"
    "\<exists>k. acts' = acts @ replicate k PersistHardState"
proof -
  have "r_hard r' = (r_hard r)\<lparr>last_applied := i\<rparr> \<and> r_log r' = r_log r \<and> r_soft r' = r_soft r
     \<and> r_votes r' = r_votes r \<and> r_id r' = r_id r \<and> compact_threshold r' = compact_threshold r
     \<and> (acts' = acts @ replicate 0 PersistHardState \<or> acts' = acts @ replicate 1 PersistHardState)"
  proof (cases "\<exists>e cc. log_get (r_log r) i = Some e \<and> decode_conf_change de (e_command e) = Some cc")
    case True
    then obtain e cc where e: "log_get (r_log r) i = Some e" "decode_conf_change de (e_command e) = Some cc"
      by blast
    obtain r1 a where c: "apply_conf_change cc r = (r1, a)" by (cases "apply_conf_change cc r")
    then have "a = [PersistHardState]" by (simp add: apply_conf_change_def)
    with assms e c apply_conf_change_frame [OF c] show ?thesis
      by (auto simp: apply_one_def set_applied_def)
  next
    case False
    with assms show ?thesis
      by (auto simp: apply_one_def set_applied_def split: option.splits)
  qed
  then show "r_hard r' = (r_hard r)\<lparr>last_applied := i\<rparr>" "r_log r' = r_log r" "r_soft r' = r_soft r"
    "r_votes r' = r_votes r" "r_id r' = r_id r" "compact_threshold r' = compact_threshold r"
    "\<exists>k. acts' = acts @ replicate k PersistHardState"
    by blast+
qed

definition caught_up :: "hard_state \<Rightarrow> hard_state" where
  "caught_up h = h\<lparr>last_applied := max (last_applied h) (commit_index h)\<rparr>"

lemma caught_up_simps [simp]:
  "current_term (caught_up h) = current_term h" "voted_for (caught_up h) = voted_for h"
  "commit_index (caught_up h) = commit_index h"
  by (simp_all add: caught_up_def)

lemma caught_up_next:
  assumes "last_applied h < commit_index h"
  shows "caught_up (h\<lparr>last_applied := index_next (last_applied h)\<rparr>) = caught_up h"
proof -
  have "index_next (last_applied h) \<le> commit_index h"
    using assms unat_index_next_less [OF assms] by (simp add: word_le_nat_alt word_less_nat_alt)
  with assms show ?thesis by (simp add: caught_up_def max_absorb2)
qed

lemma apply_loop_frame:
  "apply_loop de (r, cmds, acts) = (r', cmds', acts') \<Longrightarrow>
     r_hard r' = caught_up (r_hard r) \<and> r_log r' = r_log r \<and> r_soft r' = r_soft r
     \<and> r_votes r' = r_votes r \<and> r_id r' = r_id r \<and> compact_threshold r' = compact_threshold r
     \<and> (\<exists>k. acts' = acts @ replicate k PersistHardState)"
proof (induction "unat (commit_index (r_hard r)) - unat (last_applied (r_hard r))" arbitrary: r cmds acts rule: less_induct)
  case less
  let ?la = "last_applied (r_hard r)" and ?n = "index_next (last_applied (r_hard r))"
  show ?case
  proof (cases "?la < commit_index (r_hard r)")
    case True
    obtain r1 c1 a1 where one: "apply_one de ?n (r, cmds, acts) = (r1, c1, a1)"
      by (cases "apply_one de ?n (r, cmds, acts)")
    note f = apply_one_frame [OF one]
    have un: "unat ?n = Suc (unat ?la)" by (rule unat_index_next_less [OF True])
    have "apply_loop de (r1, c1, a1) = (r', cmds', acts')"
      using less.prems True by (simp add: apply_loop.simps [of de r] one)
    then have ih: "r_hard r' = caught_up (r_hard r1) \<and> r_log r' = r_log r1 \<and> r_soft r' = r_soft r1
       \<and> r_votes r' = r_votes r1 \<and> r_id r' = r_id r1 \<and> compact_threshold r' = compact_threshold r1
       \<and> (\<exists>k. acts' = a1 @ replicate k PersistHardState)"
      using True un by (intro less.hyps) (auto simp: f(1) word_less_nat_alt)
    moreover have "caught_up (r_hard r1) = caught_up (r_hard r)"
      using True un by (simp add: f(1) caught_up_next)
    moreover obtain k where "a1 = acts @ replicate k PersistHardState" using f(7) by blast
    moreover obtain k' where "acts' = a1 @ replicate k' PersistHardState" using ih by blast
    ultimately show ?thesis using f(2-6) by (auto simp flip: replicate_add)
  next
    case False
    with less.prems show ?thesis
      by (auto simp: apply_loop.simps [of de r] caught_up_def max_absorb1 intro: exI [of _ 0])
  qed
qed

text \<open>With no membership change in the log, the loop only collects commands.\<close>

definition plain_entry :: "conf_decoder \<Rightarrow> raft_entry \<Rightarrow> bool" where
  "plain_entry de e = (decode_conf_change de (e_command e) = None)"

definition plain_log :: "conf_decoder \<Rightarrow> raft_entry list \<Rightarrow> bool" where
  "plain_log de l = list_all (plain_entry de) l"

definition commands_between :: "raft_log \<Rightarrow> log_index \<Rightarrow> log_index \<Rightarrow> bytes list" where
  "commands_between l lo hi =
     filter (\<lambda>c. c \<noteq> []) (map e_command (take (unat hi - unat lo) (drop (Suc (unat lo)) l)))"

lemma plain_log_simps [simp]:
  "plain_log de []"
  "plain_log de (e # l) \<longleftrightarrow> plain_entry de e \<and> plain_log de l"
  "plain_log de (l @ l') \<longleftrightarrow> plain_log de l \<and> plain_log de l'"
  by (simp_all add: plain_log_def)

lemma plain_sentinel [simp]: "plain_entry de (sentinel t)"
  by (simp add: plain_entry_def sentinel_def)

lemma plain_log_subset: "plain_log de l \<Longrightarrow> set l' \<subseteq> set l \<Longrightarrow> plain_log de l'"
  by (auto simp: plain_log_def list_all_iff)

lemma plain_restore [simp]: "plain_log de (restore i t es) \<longleftrightarrow> plain_log de es"
  by (simp add: restore_eq) (auto simp: plain_log_def list_all_iff)

lemma apply_one_plain:
  assumes "plain_log de (r_log r)"
  shows "apply_one de i (r, cmds, acts) =
     (set_applied i r, cmds @ (case log_get (r_log r) i of
        None \<Rightarrow> [] | Some e \<Rightarrow> if e_command e \<noteq> [] then [e_command e] else []), acts)"
  using assms
  by (auto simp: apply_one_def log_get_def plain_log_def list_all_iff plain_entry_def split: option.splits)

lemma commands_between_step:
  assumes "lo < hi"
  shows "commands_between l lo hi = (case log_get l (index_next lo) of
      None \<Rightarrow> [] | Some e \<Rightarrow> if e_command e \<noteq> [] then [e_command e] else []) @ commands_between l (index_next lo) hi"
proof -
  have un: "unat (index_next lo) = Suc (unat lo)" by (rule unat_index_next_less [OF assms])
  obtain n where n: "unat hi - unat lo = Suc n" "unat hi - Suc (unat lo) = n"
    using assms by (metis Suc_diff_Suc word_less_nat_alt)
  show ?thesis
    by (cases "Suc (unat lo) < length l")
      (simp_all add: commands_between_def log_get_def un n Cons_nth_drop_Suc [symmetric])
qed

lemma apply_loop_plain:
  "plain_log de (r_log r) \<Longrightarrow>
     apply_loop de (r, cmds, acts) = (r\<lparr>r_hard := caught_up (r_hard r)\<rparr>,
       cmds @ commands_between (r_log r) (last_applied (r_hard r)) (commit_index (r_hard r)), acts)"
proof (induction "unat (commit_index (r_hard r)) - unat (last_applied (r_hard r))" arbitrary: r cmds acts rule: less_induct)
  case less
  let ?la = "last_applied (r_hard r)" and ?ci = "commit_index (r_hard r)"
    and ?n = "index_next (last_applied (r_hard r))"
  show ?case
  proof (cases "?la < ?ci")
    case True
    let ?c = "case log_get (r_log r) ?n of None \<Rightarrow> []
       | Some e \<Rightarrow> if e_command e \<noteq> [] then [e_command e] else []"
    have un: "unat ?n = Suc (unat ?la)" by (rule unat_index_next_less [OF True])
    have "apply_loop de (r, cmds, acts) = apply_loop de (set_applied ?n r, cmds @ ?c, acts)"
      using True less.prems by (simp add: apply_loop.simps [of de r] apply_one_plain)
    also have "\<dots> = ((set_applied ?n r)\<lparr>r_hard := caught_up (r_hard (set_applied ?n r))\<rparr>,
        (cmds @ ?c) @ commands_between (r_log r) ?n ?ci, acts)"
      using less.hyps [of "set_applied ?n r" "cmds @ ?c" acts] True less.prems
      by (simp add: set_applied_def un word_less_nat_alt diff_less_mono2)
    also have "caught_up (r_hard (set_applied ?n r)) = caught_up (r_hard r)"
      using caught_up_next [OF True] by (simp add: set_applied_def)
    finally show ?thesis
      using commands_between_step [OF True, of "r_log r"] by (simp add: set_applied_def)
  next
    case False
    then have "caught_up (r_hard r) = r_hard r" by (simp add: caught_up_def max_absorb1)
    with False show ?thesis
      by (simp add: apply_loop.simps [of de r] commands_between_def word_less_nat_alt)
  qed
qed

section \<open>Quiet operations\<close>

lemma append_to_peer_quiet: "list_all quiet (append_to_peer r p)"
  by (simp add: append_to_peer_def Let_def)

lemma broadcast_quiet: "list_all quiet (broadcast_append r)"
  using append_to_peer_quiet by (auto simp: broadcast_append_def list_all_iff)

lemma apply_committed_frame:
  assumes "apply_committed de r = (r', acts)"
  shows "r_hard r' = caught_up (r_hard r)" "r_log r' = r_log r" "r_soft r' = r_soft r"
    "r_votes r' = r_votes r" "r_id r' = r_id r" "compact_threshold r' = compact_threshold r"
    "list_all quiet acts"
proof -
  obtain r1 cmds as where l: "apply_loop de (r, [], []) = (r1, cmds, as)"
    by (cases "apply_loop de (r, [], [])")
  note f = apply_loop_frame [OF l]
  then obtain k where "as = replicate k PersistHardState" by auto
  then have "list_all quiet as" by (simp add: list_all_iff)
  moreover have "r' = r1" "acts = (let acts1 = (if cmds \<noteq> [] then as @ [Apply cmds] else as)
      in if acts1 \<noteq> [] then acts1 @ [PersistHardState] else acts1)"
    using assms by (simp_all add: apply_committed_def l Let_def)
  ultimately show "r_hard r' = caught_up (r_hard r)" "r_log r' = r_log r" "r_soft r' = r_soft r"
    "r_votes r' = r_votes r" "r_id r' = r_id r" "compact_threshold r' = compact_threshold r"
    "list_all quiet acts"
    using f by (simp_all add: Let_def)
qed

lemma apply_committed_plain:
  assumes "plain_log de (r_log r)"
  shows "apply_committed de r = (r\<lparr>r_hard := caught_up (r_hard r)\<rparr>,
     let cmds = commands_between (r_log r) (last_applied (r_hard r)) (commit_index (r_hard r))
     in if cmds \<noteq> [] then [Apply cmds, PersistHardState] else [])"
  using assms by (simp add: apply_committed_def apply_loop_plain Let_def)

lemma advance_fold_frame:
  "fold (advance_one t) is (r, acts) = (r', acts') \<Longrightarrow>
     (\<exists>h. r' = r\<lparr>r_hard := h\<rparr> \<and> current_term h = r_term r \<and> voted_for h = voted_for (r_hard r)
        \<and> last_applied h = last_applied (r_hard r))
     \<and> (\<exists>k. acts' = acts @ replicate k PersistHardState \<and> (k = 0 \<longrightarrow> r' = r))"
proof (induction "is" arbitrary: r acts)
  case Nil
  then show ?case by (auto intro: exI [of _ 0] exI [of _ "r_hard r'"])
next
  case (Cons i "is")
  show ?case
  proof (cases "term_at (r_log r) i = t \<and> has_quorum_for_index r i")
    case True
    then have "advance_one t i (r, acts) = (set_commit i r, acts @ [PersistHardState])"
      by (simp add: advance_one_def)
    then have "fold (advance_one t) is (set_commit i r, acts @ [PersistHardState]) = (r', acts')"
      using Cons.prems by simp
    from Cons.IH [OF this] show ?thesis
      by (auto simp: set_commit_def replicate_app_Cons_same intro: exI [of _ "Suc k" for k])
  next
    case False
    then have "advance_one t i (r, acts) = (r, acts)" by (auto simp: advance_one_def)
    with Cons show ?thesis by simp
  qed
qed

end
