(* ===== verification/Raft_Persist.thy ===== *)
theory Raft_Persist
  imports Raft_Frame
begin

text \<open>
  Every change of the durable state is written down by the actions of the same step: after the
  runtime has executed them, the backend holds the node's hard state and log. First for each
  operation of the core, then, in the locale of storage backends, for a node.
\<close>

section \<open>The actions of an operation record its changes\<close>

definition saved :: "raft \<Rightarrow> raft \<times> action list \<Rightarrow> bool" where
  "saved r ra = ((PersistHardState \<in> set (snd ra) \<or> r_hard (fst ra) = r_hard r)
     \<and> fold stored_log (snd ra) (r_log r) = fold memory_log (snd ra) (r_log (fst ra)))"

text \<open>Nothing committed waits to be applied between two steps.\<close>

definition applied_all :: "hard_state \<Rightarrow> bool" where
  "applied_all h = (commit_index h \<le> last_applied h)"

lemma applied_all_caught_up [simp]: "applied_all (caught_up h)"
  by (simp add: applied_all_def caught_up_def)

lemma caught_up_id: "applied_all h \<Longrightarrow> caught_up h = h"
  by (simp add: applied_all_def caught_up_def max_absorb1)

lemma saved_quiet:
  "list_all quiet acts \<Longrightarrow> r_log r' = r_log r \<Longrightarrow>
     PersistHardState \<in> set acts \<or> r_hard r' = r_hard r \<Longrightarrow> saved r (r', acts)"
  by (simp add: saved_def quiet_fold)

lemma become_follower_frame:
  "become_follower g t l r = (r', acts) \<Longrightarrow> acts = [PersistHardState] \<and> r_log r' = r_log r
     \<and> r_config r' = r_config r \<and> r_joint r' = r_joint r \<and> r_role r' = Follower \<and> r_votes r' = []
     \<and> commit_index (r_hard r') = commit_index (r_hard r) \<and> last_applied (r_hard r') = last_applied (r_hard r)
     \<and> r_term r' = max (r_term r) t
     \<and> voted_for (r_hard r') = (if r_term r < t then None else voted_for (r_hard r))"
  by (auto simp: become_follower_def Let_def reset_election_timer_def max_def)

lemma become_leader_frame:
  "become_leader r = (r', acts) \<Longrightarrow> list_all quiet acts \<and> r_log r' = r_log r
     \<and> r_config r' = r_config r \<and> r_joint r' = r_joint r \<and> r_role r' = Leader \<and> r_votes r' = r_votes r
     \<and> r_hard r' = r_hard r \<and> acts = broadcast_append r'"
  by (auto simp: become_leader_def Let_def broadcast_quiet)

lemma become_candidate_frame:
  assumes "become_candidate g r = (r', acts)"
  shows "list_all quiet acts" "PersistHardState \<in> set acts" "r_log r' = r_log r"
    "r_config r' = r_config r" "r_joint r' = r_joint r" "r_votes r' = [r_id r]"
    "r_hard r' = (r_hard r)\<lparr>current_term := term_next (r_term r), voted_for := Some (r_id r)\<rparr>"
    "r_role r' \<noteq> Follower" "r_role r' = Leader \<Longrightarrow> quorum (r_config r) \<le> 1"
  using assms become_leader_frame
  by (auto simp: become_candidate_def Let_def reset_election_timer_def list_all_iff
      split: if_splits prod.splits dest: become_leader_frame)

lemma tick_saved: "saved r (tick g ms r)"
proof -
  obtain r' acts where c: "become_candidate g r = (r', acts)" by (cases "become_candidate g r")
  show ?thesis
    using become_candidate_frame [OF c] broadcast_quiet
    by (auto simp: tick_def start_election_def c Let_def intro!: saved_quiet)
qed

text \<open>The index the storage truncates to is the one the log was truncated to, saturation included.\<close>

lemma truncate_prev_next: "truncate_from l (index_prev (index_next i)) = truncate_from l i"
proof -
  have "min u64_max (unat (index_prev (index_next i)) + 1) = min u64_max (unat i + 1)"
    by (simp add: unat_index_next u64_max_def min_def)
  then show ?thesis by (simp only: truncate_from_def)
qed

lemma log_append_saved:
  assumes "l \<noteq> []" "length l \<le> u64_max"
  shows "truncate_from l (index_prev (index_next (last_index l))) = l"
proof -
  have "unat (last_index l) + 1 = length l" using assms by (simp add: unat_last_index)
  with assms(2) show ?thesis unfolding truncate_prev_next by (simp add: truncate_from_def Let_def min_def)
qed

lemma propose_saved:
  assumes "propose c r = Inr ra" "r_log r \<noteq> []" "length (r_log r) \<le> u64_max"
  shows "saved r ra"
  using assms quiet_fold [OF broadcast_quiet] log_append_saved [OF assms(2,3)]
  by (auto simp: propose_def saved_def log_append_def Let_def split: if_splits)

lemma read_index_saved:
  assumes "read_index c r = Inr ra" "r_log r \<noteq> []" "length (r_log r) \<le> u64_max"
  shows "saved r ra"
  using assms quiet_fold [OF broadcast_quiet] log_append_saved [OF assms(2,3)]
  by (auto simp: read_index_def saved_def log_append_def Let_def split: if_splits)

lemma handle_request_vote_saved:
  "handle_request_vote g req r = (r', resp, acts) \<Longrightarrow> saved r (r', acts)"
  by (rule saved_quiet)
    (auto simp: handle_request_vote_def reset_election_timer_def Let_def
      split: if_splits prod.splits dest!: become_follower_frame)

lemma ae_accept_leader_frame:
  assumes "ae_accept_leader g req r = (r', acts)"
  shows "list_all quiet acts" "r_log r' = r_log r" "r_config r' = r_config r" "r_joint r' = r_joint r"
    "PersistHardState \<in> set acts \<or> r_hard r' = r_hard r"
    "commit_index (r_hard r') = commit_index (r_hard r)" "last_applied (r_hard r') = last_applied (r_hard r)"
  using assms
  by (auto simp: ae_accept_leader_def reset_election_timer_def
      split: if_splits dest!: become_follower_frame)

lemma ae_commit_frame:
  assumes "ae_commit de req r = (r', acts)"
  shows "list_all quiet acts" "r_log r' = r_log r" "PersistHardState \<in> set acts \<or> r_hard r' = r_hard r"
    "applied_all (r_hard r) \<Longrightarrow> applied_all (r_hard r')"
    "r_soft r' = r_soft r" "r_votes r' = r_votes r" "r_id r' = r_id r"
    "r_term r' = r_term r" "voted_for (r_hard r') = voted_for (r_hard r)"
proof -
  obtain r1 a1 where c: "apply_committed de (set_commit (min (ae_leader_commit req) (last_index (r_log r))) r) = (r1, a1)"
    by (cases "apply_committed de (set_commit (min (ae_leader_commit req) (last_index (r_log r))) r)")
  note f = apply_committed_frame [OF c]
  show "list_all quiet acts" "r_log r' = r_log r" "PersistHardState \<in> set acts \<or> r_hard r' = r_hard r"
    "applied_all (r_hard r) \<Longrightarrow> applied_all (r_hard r')"
    "r_soft r' = r_soft r" "r_votes r' = r_votes r" "r_id r' = r_id r"
    "r_term r' = r_term r" "voted_for (r_hard r') = voted_for (r_hard r)"
    using assms f
    by (auto simp: ae_commit_def c Let_def caught_up_def applied_all_def split: if_splits)
qed

lemma handle_append_entries_saved:
  assumes "handle_append_entries g de req r = (r', resp, acts)"
  shows "saved r (r', acts)" "applied_all (r_hard r) \<Longrightarrow> applied_all (r_hard r')"
    "r_log r \<noteq> [] \<Longrightarrow> r_log r' \<noteq> []"
proof -
  obtain r1 a1 where l: "ae_accept_leader g req r = (r1, a1)" by (cases "ae_accept_leader g req r")
  obtain r2 a2 where st: "ae_store req r1 = (r2, a2)" by (cases "ae_store req r1")
  obtain r3 a3 where cm: "ae_commit de req r2 = (r3, a3)" by (cases "ae_commit de req r2")
  note fl = ae_accept_leader_frame [OF l] and fc = ae_commit_frame [OF cm]
  have fs: "r_hard r2 = r_hard r1" "fold stored_log a2 (r_log r1) = r_log r2"
      "fold memory_log a2 m = m" "r_log r1 \<noteq> [] \<Longrightarrow> r_log r2 \<noteq> []" for m
    using st by (auto simp: ae_store_def log_append_def truncate_prev_next split: if_splits)
  have ok: "saved r (r3, a1 @ a2 @ a3)"
    using fl(2,5) fc(2,3) fs(1,2,3) by (auto simp: saved_def quiet_fold [OF fl(1)] quiet_fold [OF fc(1)])
  have fail: "saved r (r1, a1)" using fl by (intro saved_quiet)
  have same: "saved r (r, [])" by (simp add: saved_def)
  note e = assms [unfolded handle_append_entries_def l st cm prod.case]
  show "saved r (r', acts)" using e ok fail same by (auto split: if_splits)
  show "applied_all (r_hard r) \<Longrightarrow> applied_all (r_hard r')"
    using e fl(6,7) fc(4) fs(1) by (auto simp: applied_all_def split: if_splits)
  show "r_log r \<noteq> [] \<Longrightarrow> r_log r' \<noteq> []"
    using e fl(2) fc(2) fs(4) by (auto split: if_splits)
qed

lemma handle_install_snapshot_saved:
  assumes "handle_install_snapshot g req r = (r', resp, acts)" "is_done req"
  shows "saved r (r', acts)" "applied_all (r_hard r) \<Longrightarrow> applied_all (r_hard r')"
    "r_log r \<noteq> [] \<Longrightarrow> r_log r' \<noteq> []"
proof -
  obtain r1 a1 where f: "become_follower g (is_term req) (Some (is_leader_id req)) r = (r1, a1)"
    by (cases "become_follower g (is_term req) (Some (is_leader_id req)) r")
  note e = assms(1) [unfolded handle_install_snapshot_def f prod.case Let_def]
  show "saved r (r', acts)" "applied_all (r_hard r) \<Longrightarrow> applied_all (r_hard r')"
    "r_log r \<noteq> [] \<Longrightarrow> r_log r' \<noteq> []"
    using e assms(2) become_follower_frame [OF f]
    by (auto simp: saved_def applied_all_def restore_eq split: if_splits)
qed

lemma try_advance_commit_frame:
  assumes "try_advance_commit de r = (r', acts)"
  shows "applied_all (r_hard r) \<Longrightarrow> PersistHardState \<in> set acts \<or> r_hard r' = r_hard r"
    "applied_all (r_hard r')" "r_log r' = r_log r"
    "fold stored_log acts (r_log r) = fold memory_log acts (r_log r)"
    "r_soft r' = r_soft r" "r_votes r' = r_votes r" "r_id r' = r_id r"
    "r_term r' = r_term r" "voted_for (r_hard r') = voted_for (r_hard r)"
    "Send to m \<notin> set acts"
proof -
  define idx where "idx = index_range (commit_index (r_hard r) + 1) (last_index (r_log r))"
  obtain r1 a1 where f1: "fold (advance_one (r_term r)) idx (r, []) = (r1, a1)"
    by (cases "fold (advance_one (r_term r)) idx (r, [])")
  obtain r2 a2 where f2: "apply_committed de r1 = (r2, a2)" by (cases "apply_committed de r1")
  obtain h k where h: "r1 = r\<lparr>r_hard := h\<rparr>" "current_term h = r_term r" "voted_for h = voted_for (r_hard r)"
      and k: "a1 = replicate k PersistHardState" "k = 0 \<longrightarrow> r1 = r"
    using advance_fold_frame [OF f1] by auto
  note f = apply_committed_frame [OF f2]
  obtain last where acts: "acts = a1 @ a2 @ last" "last = [] \<or> (\<exists>sn. last = [TakeSnapshot sn])"
      and r': "r' = try_confirm_reads r2"
    using assms [unfolded try_advance_commit_def idx_def [symmetric] f1 f2 prod.case Let_def]
    by (auto split: if_splits)
  have "list_all quiet a1" by (simp add: k(1) list_all_iff)
  with f(7) acts show "fold stored_log acts (r_log r) = fold memory_log acts (r_log r)"
    by (auto simp: quiet_fold)
  have "r_hard r' = caught_up h" using f(1) h(1) by (simp add: r' try_confirm_reads_def)
  then show "applied_all (r_hard r')" "r_term r' = r_term r" "voted_for (r_hard r') = voted_for (r_hard r)"
    using h(2,3) by simp_all
  show "r_log r' = r_log r" "r_soft r' = r_soft r" "r_votes r' = r_votes r" "r_id r' = r_id r"
    using f h(1) by (simp_all add: r' try_confirm_reads_def)
  show "PersistHardState \<in> set acts \<or> r_hard r' = r_hard r" if "applied_all (r_hard r)"
  proof (cases "k = 0")
    case True
    with k(2) f(1) that show ?thesis by (simp add: r' try_confirm_reads_def caught_up_id)
  next
    case False
    then show ?thesis by (simp add: acts k(1))
  qed
  have "Send to m \<notin> set a2"
    using f2 apply_loop_frame [of de r1 "[]" "[]"]
    by (auto simp: apply_committed_def Let_def split: prod.splits if_splits)
  then show "Send to m \<notin> set acts" using acts k(1) by auto
qed

lemma step_append_response_saved:
  assumes "step_append_response g de from resp r = (r', acts)" "applied_all (r_hard r)"
  shows "saved r (r', acts)" "applied_all (r_hard r')" "r_log r' = r_log r"
proof -
  have *: "saved r (r', acts) \<and> applied_all (r_hard r') \<and> r_log r' = r_log r"
  proof (cases "r_term r < aer_term resp \<or> r_role r \<noteq> Leader \<or> bt_get (r_progress r) from = None")
    case True
    with assms show ?thesis
      by (auto simp: step_append_response_def saved_def applied_all_def
          dest!: become_follower_frame split: if_splits)
  next
    case False
    then obtain p where p: "bt_get (r_progress r) from = Some p" by auto
    define p' where "p' = (if aer_success resp
        then p\<lparr>match_index := aer_last_log_index resp, next_index := index_next (aer_last_log_index resp)\<rparr>
        else p\<lparr>next_index := max (sat_sub (next_index p) 1) 1\<rparr>)"
    define r1 where "r1 = r\<lparr>r_progress := bt_insert from p' (r_progress r)\<rparr>"
    obtain r2 a2 where t: "try_advance_commit de r1 = (r2, a2)" by (cases "try_advance_commit de r1")
    have e: "r' = r2" "acts = a2 \<or> acts = a2 @ append_to_peer r2 from"
      using assms(1) False
      unfolding step_append_response_def p option.case Let_def p'_def [symmetric] r1_def [symmetric] t prod.case
      by (auto split: if_splits)
    show ?thesis
      using try_advance_commit_frame(1-4) [OF t] e assms(2)
      by (auto simp: saved_def r1_def quiet_fold [OF append_to_peer_quiet])
  qed
  then show "saved r (r', acts)" "applied_all (r_hard r')" "r_log r' = r_log r" by blast+
qed

lemma step_vote_response_saved:
  assumes "step_vote_response g from resp r = (r', acts)"
  shows "saved r (r', acts)" "applied_all (r_hard r) \<Longrightarrow> applied_all (r_hard r')" "r_log r' = r_log r"
proof -
  have "list_all quiet acts \<and> (PersistHardState \<in> set acts \<or> r_hard r' = r_hard r) \<and> r_log r' = r_log r
     \<and> (applied_all (r_hard r) \<longrightarrow> applied_all (r_hard r'))"
    using assms
    by (auto simp: step_vote_response_def Let_def applied_all_def
        dest!: become_follower_frame become_leader_frame split: if_splits)
  then show "saved r (r', acts)" "applied_all (r_hard r) \<Longrightarrow> applied_all (r_hard r')" "r_log r' = r_log r"
    by (blast intro: saved_quiet)+
qed

text \<open>A snapshot that arrives in one piece, the only kind the leader sends.\<close>

fun whole_message :: "rpc_message \<Rightarrow> bool" where
  "whole_message (InstallSnapshot req) = is_done req"
| "whole_message _ = True"

lemma node_dispatch_saved:
  assumes "node_dispatch g de from msg r = (r', resp, acts)" "applied_all (r_hard r)" "r_log r \<noteq> []"
    and "whole_message msg"
  shows "saved r (r', acts) \<and> applied_all (r_hard r') \<and> r_log r' \<noteq> []"
proof (cases msg)
  case (RequestVote req)
  then have h: "handle_request_vote g req r = (r', resp, acts)"
    using assms(1) by (simp add: node_dispatch_def raft_step_def)
  have "r_log r' = r_log r \<and> (applied_all (r_hard r) \<longrightarrow> applied_all (r_hard r'))"
    using h by (auto simp: handle_request_vote_def reset_election_timer_def Let_def applied_all_def
        split: if_splits prod.splits dest!: become_follower_frame)
  with handle_request_vote_saved [OF h] assms show ?thesis by simp
next
  case (RequestVoteResp resp')
  then obtain "step_vote_response g from resp' r = (r', acts)"
    using assms(1) by (auto simp: node_dispatch_def split: prod.splits)
  from step_vote_response_saved [OF this] assms show ?thesis by simp
next
  case (AppendEntries req)
  then have h: "handle_append_entries g de req r = (r', resp, acts)"
    using assms(1) by (simp add: node_dispatch_def raft_step_def)
  from handle_append_entries_saved [OF h] assms show ?thesis by blast
next
  case (AppendEntriesResp resp')
  then have "step_append_response g de from resp' r = (r', acts)"
    using assms(1) by (auto simp: node_dispatch_def split: prod.splits)
  from step_append_response_saved [OF this assms(2)] assms show ?thesis by simp
next
  case (InstallSnapshot req)
  then have h: "handle_install_snapshot g req r = (r', resp, acts)"
    using assms(1) by (simp add: node_dispatch_def raft_step_def)
  have "is_done req" using InstallSnapshot assms(4) by simp
  from handle_install_snapshot_saved [OF h this] assms show ?thesis by blast
next
  case (ReadIndex req)
  then have "handle_read_index req r = (r', resp, acts)"
    using assms(1) by (simp add: node_dispatch_def raft_step_def)
  with assms show ?thesis
    by (auto simp: handle_read_index_def try_confirm_reads_def Let_def saved_def
        quiet_fold [OF broadcast_quiet] split: if_splits)
qed (use assms in \<open>auto simp: node_dispatch_def raft_step_def saved_def\<close>)

section \<open>Nodes\<close>

text \<open>The operations of a node, with the random generator they use; \<open>node_do\<close> keeps the new node.\<close>

datatype node_op =
    OpTick gen_range u64
  | OpStep gen_range node_id rpc_message
  | OpPropose bytes
  | OpRead u64
  | OpConf conf_change

fun node_do ::
  "'s storage_ops \<Rightarrow> (conf_change \<Rightarrow> bytes) \<Rightarrow> conf_decoder \<Rightarrow> node_op \<Rightarrow> 's raft_node \<Rightarrow> 's raft_node" where
  "node_do ops ser de (OpTick g ms) n = fst (node_tick ops g ms n)"
| "node_do ops ser de (OpStep g from msg) n = fst (node_step ops g de from msg n)"
| "node_do ops ser de (OpPropose cmd) n = fst (node_propose ops cmd n)"
| "node_do ops ser de (OpRead i) n = fst (node_read_index ops i n)"
| "node_do ops ser de (OpConf cc) n = fst (node_propose_conf_change ops ser cc n)"

fun whole_op :: "node_op \<Rightarrow> bool" where
  "whole_op (OpStep g from msg) = whole_message msg"
| "whole_op _ = True"

text \<open>A vector never holds more than \<^verbatim>\<open>u64::MAX\<close> entries; every step starts from such a log.\<close>

inductive node_reach ::
  "'s storage_ops \<Rightarrow> (conf_change \<Rightarrow> bytes) \<Rightarrow> conf_decoder \<Rightarrow> 's raft_node \<Rightarrow> 's raft_node \<Rightarrow> bool"
  for ops ser de n0 where
  start: "node_reach ops ser de n0 n0"
| op: "node_reach ops ser de n0 n \<Longrightarrow> length (r_log (n_raft n)) \<le> u64_max \<Longrightarrow> whole_op opn
       \<Longrightarrow> node_reach ops ser de n0 (node_do ops ser de opn n)"

lemma fold_memory_nonempty: "l \<noteq> [] \<Longrightarrow> fold memory_log acts l \<noteq> []"
proof (induction acts arbitrary: l)
  case (Cons a acts)
  then show ?case by (cases a) (simp_all add: restore_eq)
qed simp

context raft_store
begin

definition node_ok :: "'s raft_node \<Rightarrow> bool" where
  "node_ok n = (persisted n \<and> applied_all (r_hard (n_raft n)) \<and> r_log (n_raft n) \<noteq> [])"

lemma exec_persisted:
  assumes "node_ok n" "saved (n_raft n) (r, acts)" "applied_all (r_hard r)" "r_log r \<noteq> []"
  shows "\<exists>n'. exec ops (r, acts) n = (n', Inr (action_sends acts)) \<and> node_ok n'
     \<and> n_raft n' = executed acts r \<and> n_applied n' = n_applied n @ action_applies acts"
proof -
  have inv: "invar (n_storage (n\<lparr>n_raft := r\<rparr>))" using assms(1) by (simp add: node_ok_def persisted_def)
  show ?thesis
    using exec_loop_effect [OF inv, of acts "[]"] assms
    by (auto simp: exec_def node_ok_def persisted_def saved_def executed_def fold_memory_nonempty)
qed

lemma node_step_ok:
  assumes "node_ok n" "whole_message msg"
  shows "\<exists>n' resp out. node_step ops g de from msg n = (n', Inr (resp, out)) \<and> node_ok n'"
proof -
  obtain r resp acts where d: "node_dispatch g de from msg (n_raft n) = (r, resp, acts)"
    by (cases "node_dispatch g de from msg (n_raft n)")
  have "saved (n_raft n) (r, acts) \<and> applied_all (r_hard r) \<and> r_log r \<noteq> []"
    using assms by (intro node_dispatch_saved [OF d]) (simp_all add: node_ok_def)
  then show ?thesis using exec_persisted [OF assms(1), of r acts] d by (auto simp: node_step_def)
qed

lemma node_tick_ok:
  assumes "node_ok n"
  shows "\<exists>n' out. node_tick ops g ms n = (n', Inr out) \<and> node_ok n'"
proof -
  obtain r acts where t: "tick g ms (n_raft n) = (r, acts)" by (cases "tick g ms (n_raft n)")
  obtain r1 a1 where c: "become_candidate g (n_raft n) = (r1, a1)" by (cases "become_candidate g (n_raft n)")
  have "applied_all (r_hard r) \<and> r_log r \<noteq> []"
    using t assms become_candidate_frame(3,7) [OF c]
    by (auto simp: tick_def start_election_def c Let_def node_ok_def applied_all_def split: if_splits)
  then show ?thesis
    using exec_persisted [OF assms, of r acts] tick_saved [of "n_raft n" g ms] t by (auto simp: node_tick_def)
qed

lemma node_client_ok:
  assumes "node_ok n"
    and "\<And>r acts. req (n_raft n) = Inr (r, acts) \<Longrightarrow>
           saved (n_raft n) (r, acts) \<and> r_hard r = r_hard (n_raft n) \<and> r_log r \<noteq> []"
  shows "node_ok (fst (node_client ops req n))"
proof (cases "req (n_raft n)")
  case (Inl e)
  then show ?thesis using assms(1) by (simp add: node_client_def)
next
  case (Inr ra)
  then obtain r acts where ra: "req (n_raft n) = Inr (r, acts)" by (cases ra) auto
  then obtain n' where "exec ops (r, acts) n = (n', Inr (action_sends acts))" "node_ok n'"
    using exec_persisted [OF assms(1), of r acts] assms(2) [OF ra] assms(1) by (auto simp: node_ok_def)
  then show ?thesis using ra by (simp add: node_client_def)
qed

lemma node_do_ok:
  assumes "node_ok n" "length (r_log (n_raft n)) \<le> u64_max" "whole_op opn"
  shows "node_ok (node_do ops ser de opn n)"
proof (cases opn)
  case (OpTick g ms)
  then show ?thesis using node_tick_ok [OF assms(1), of g ms] by auto
next
  case (OpStep g src msg)
  then show ?thesis using node_step_ok [OF assms(1), of msg g de src] assms(3) by auto
next
  case (OpPropose cmd)
  have "node_ok (fst (node_client ops (propose cmd) n))"
    using assms by (intro node_client_ok)
      (auto simp: node_ok_def propose_def log_append_def Let_def split: if_splits intro!: propose_saved [of cmd])
  then show ?thesis by (simp add: OpPropose node_propose_def)
next
  case (OpRead i)
  have "node_ok (fst (node_client ops (read_index i) n))"
    using assms by (intro node_client_ok)
      (auto simp: node_ok_def read_index_def log_append_def Let_def split: if_splits intro!: read_index_saved [of i])
  then show ?thesis by (simp add: OpRead node_read_index_def)
next
  case (OpConf cc)
  have "node_ok (fst (node_client ops (propose_conf_change ser cc) n))"
    using assms by (intro node_client_ok)
      (auto simp: node_ok_def propose_conf_change_def propose_def log_append_def Let_def
         split: if_splits intro!: propose_saved [of "encode_conf_change ser cc"])
  then show ?thesis by (simp add: OpConf node_propose_conf_change_def)
qed

lemma node_reach_ok: "node_reach ops ser de n0 n \<Longrightarrow> node_ok n0 \<Longrightarrow> node_ok n"
  by (induction rule: node_reach.induct) (auto intro: node_do_ok)

text \<open>A restart finds the hard state and the log the node had.\<close>

lemma node_ok_restart:
  assumes "node_ok n"
  shows "\<exists>n'. node_open ops g cfg (reopened (n_storage n)) = Inr n'
     \<and> r_hard (n_raft n') = r_hard (n_raft n) \<and> r_log (n_raft n') = r_log (n_raft n)"
  using assms load_hard [of "reopened (n_storage n)"] load_log [of "reopened (n_storage n)"]
  by (simp add: node_ok_def persisted_def node_open_def raft_new_def)

end

interpretation mem_store: raft_store mem_ops "\<lambda>s. s" "\<lambda>s. True" m_hard m_log
  by unfold_locales (auto simp: mem_ops_def mem_append_def mem_save_snapshot_def log_append_def)

end
