(* ===== verification/Raft_Compact.thy ===== *)
theory Raft_Compact
  imports Raft_Persist
begin

text \<open>
  What the loop that applies committed entries hands to the state machine, and what the leader's
  log compaction does to the entries that are not yet applied.
\<close>

text \<open>
  C28. Applying committed entries is exact and always ends: on a log without membership changes,
  \<^verbatim>\<open>apply_committed\<close> hands over, in log order, exactly the non-empty commands between the
  applied and the commit index, in one action followed by a request to persist, and moves the
  applied index up to the commit index. Nothing else of the node changes.
\<close>

theorem raft_apply_exact:
  assumes "plain_log de (r_log r)"
  shows "apply_committed de r =
    (r\<lparr>r_hard := (r_hard r)\<lparr>last_applied := max (last_applied (r_hard r)) (commit_index (r_hard r))\<rparr>\<rparr>,
     let cmds = filter (\<lambda>c. c \<noteq> []) (map e_command
           (take (unat (commit_index (r_hard r)) - unat (last_applied (r_hard r)))
                 (drop (Suc (unat (last_applied (r_hard r)))) (r_log r))))
     in if cmds = [] then [] else [Apply cmds, PersistHardState])"
  using apply_committed_plain [OF assms] by (simp add: caught_up_def commands_between_def Let_def)

definition apply_demo :: raft where
  "apply_demo = raft_new (\<lambda>lo hi. lo)
     \<lparr>cfg_id = 1, cfg_voters = [1], election_timeout_min = 5, election_timeout_max = 5, heartbeat_interval = 2,
      max_append_batch = 8, max_pipeline_bytes = 64, cfg_auth = []\<rparr>
     \<lparr>current_term = 2, voted_for = None, commit_index = 3, last_applied = 1\<rparr>
     [sentinel 0, \<lparr>e_term = 1, e_command = [7]\<rparr>, \<lparr>e_term = 1, e_command = []\<rparr>,
      \<lparr>e_term = 2, e_command = [9]\<rparr>, \<lparr>e_term = 2, e_command = [11]\<rparr>]"

theorem raft_apply_exact_witness:
  "snd (apply_committed (\<lambda>bs. None) apply_demo) = [Apply [[9]], PersistHardState]
     \<and> last_applied (r_hard (fst (apply_committed (\<lambda>bs. None) apply_demo))) = 3"
proof -
  have p: "plain_log (\<lambda>bs. None) (r_log apply_demo)"
    by (simp add: apply_demo_def raft_new_def plain_entry_def decode_conf_change_def)
  show ?thesis
    unfolding raft_apply_exact [OF p]
    by (simp add: apply_demo_def raft_new_def Let_def max_def word_le_nat_alt)
qed

section \<open>Compaction\<close>






end
