(* ===== verification/Raft_Election.thy ===== *)
theory Raft_Election
  imports Raft_Persist
begin

text \<open>
  Elections. The first part says, for each operation of the core, how it changes a node's term,
  vote and set of supporters; the second composes nodes over an asynchronous network that may
  lose, delay, reorder and duplicate messages, with crashes and restarts from the backend at any
  time, and shows that a term has at most one leader.
\<close>

section \<open>How an operation changes term, vote and votes\<close>

text \<open>\<open>S\<close> is the set of nodes whose granted votes the operation counts.\<close>

definition elects :: "node_id set \<Rightarrow> raft \<Rightarrow> raft \<Rightarrow> bool" where
  "elects S r r' \<longleftrightarrow> r_id r' = r_id r \<and> r_voters r' = r_voters r \<and> r_term r \<le> r_term r'
     \<and> (r_term r' \<noteq> - 1 \<and> r_term r' = r_term r \<longrightarrow>
          voted_for (r_hard r) = None \<or> voted_for (r_hard r') = voted_for (r_hard r))
     \<and> (distinct (r_votes r) \<longrightarrow> distinct (r_votes r'))
     \<and> set (r_votes r') \<subseteq> set (r_votes r) \<union> S \<union> {r_id r}
     \<and> (r_role r' \<noteq> Follower \<longrightarrow>
          (r_role r \<noteq> Follower \<and> r_term r' = r_term r \<and> set (r_votes r') \<subseteq> set (r_votes r) \<union> S)
          \<or> (r_votes r' = [r_id r] \<and> voted_for (r_hard r') = Some (r_id r)))
     \<and> (r_role r' = Leader \<longrightarrow>
          (r_role r = Leader \<and> r_votes r' = r_votes r) \<or> quorum (r_config r) \<le> length (r_votes r'))"

lemma elects_same:
  "r_config r' = r_config r \<Longrightarrow> r_term r' = r_term r \<Longrightarrow> voted_for (r_hard r') = voted_for (r_hard r)
     \<Longrightarrow> r_role r' = r_role r \<Longrightarrow> r_votes r' = r_votes r \<Longrightarrow> elects S r r'"
  by (auto simp: elects_def)

lemma elects_executed: "elects S r (executed acts r') = elects S r r'"
  by (simp add: elects_def)

lemma elects_trans_same:
  assumes "elects S r r1" "r_config r' = r_config r1" "r_term r' = r_term r1"
    "voted_for (r_hard r') = voted_for (r_hard r1)" "r_role r' = r_role r1" "r_votes r' = r_votes r1"
  shows "elects S r r'"
proof -
  have "elects S r r' = elects S r r1" unfolding elects_def assms(2-6) ..
  with assms(1) show ?thesis by blast
qed

lemma elects_follower: "become_follower g t l r = (r', acts) \<Longrightarrow> elects S r r'"
  by (auto simp: elects_def max_def dest!: become_follower_frame split: if_splits)

lemma elects_candidate:
  assumes "become_candidate g r = (r', acts)"
  shows "elects S r r'"
proof -
  note f = become_candidate_frame [OF assms]
  have t: "r_term r' = term_next (r_term r)" using f(7) by simp
  have "r_term r' \<noteq> r_term r" if "r_term r' \<noteq> - 1"
    using that t term_next_greater [of "r_term r"] by (auto simp: term_next_def sat_suc_def)
  with f t term_next_ge [of "r_term r"] show ?thesis by (auto simp: elects_def)
qed

text \<open>Messages a node may send on its own account.\<close>

fun own_message :: "conf_decoder \<Rightarrow> node_id \<Rightarrow> rpc_message \<Rightarrow> bool" where
  "own_message de i (RequestVote req) = (rv_candidate_id req = i)"
| "own_message de i (RequestVoteResp resp) = (\<not> rvr_granted resp)"
| "own_message de i (AppendEntries req) = plain_log de (ae_entries req)"
| "own_message de i (InstallSnapshot req) = is_done req"
| "own_message de i _ = True"

definition own_action :: "conf_decoder \<Rightarrow> node_id \<Rightarrow> action \<Rightarrow> bool" where
  "own_action de i a = (case a of Send to m \<Rightarrow> own_message de i m | _ \<Rightarrow> True)"

definition own_sends :: "conf_decoder \<Rightarrow> raft \<Rightarrow> action list \<Rightarrow> bool" where
  "own_sends de r acts = list_all (own_action de (r_id r)) acts"

lemma own_action_simps [simp]:
  "own_action de i (Send to m) = own_message de i m" "own_action de i PersistHardState"
  "own_action de i (PersistLog k es)" "own_action de i (Apply cs)" "own_action de i (TakeSnapshot sn)"
  by (simp_all add: own_action_def)

lemma own_sends_simps [simp]:
  "own_sends de r []"
  "own_sends de r (a # acts) \<longleftrightarrow> own_action de (r_id r) a \<and> own_sends de r acts"
  "own_sends de r (acts @ acts') \<longleftrightarrow> own_sends de r acts \<and> own_sends de r acts'"
  by (simp_all add: own_sends_def)

lemma own_sends_id: "r_id r' = r_id r \<Longrightarrow> own_sends de r' acts = own_sends de r acts"
  by (simp add: own_sends_def)

lemma own_sendsD: "own_sends de r acts \<Longrightarrow> Send to m \<in> set acts \<Longrightarrow> own_message de (r_id r) m"
  by (auto simp: own_sends_def list_all_iff)

lemma own_follower: "become_follower g t l r = (r', acts) \<Longrightarrow> own_sends de r acts"
  by (auto dest!: become_follower_frame)

lemma own_append_to_peer:
  assumes "plain_log de (r_log r)"
  shows "own_sends de r (append_to_peer r p)"
proof -
  have "plain_log de (take n (drop k (r_log r)))" for n k
    using assms by (rule plain_log_subset) (meson in_set_dropD in_set_takeD subsetI)
  then show ?thesis by (simp add: append_to_peer_def Let_def)
qed

lemma own_broadcast: "plain_log de (r_log r) \<Longrightarrow> own_sends de r (broadcast_append r)"
  using own_append_to_peer [of de r] by (auto simp: own_sends_def broadcast_append_def list_all_iff)

lemma own_candidate:
  assumes "become_candidate g r = (r', acts)" "plain_log de (r_log r)"
  shows "own_sends de r acts"
proof -
  have lead: "own_sends de r a" if "become_leader r1 = (r2, a)" "r_config r1 = r_config r" "r_log r1 = r_log r" for r1 r2 a
    using own_broadcast [of de r2] become_leader_frame [OF that(1)] assms(2) that(2,3)
    by (simp add: own_sends_def)
  have votes: "own_sends de r (map (\<lambda>p. Send p (RequestVote \<lparr>rv_term = t, rv_candidate_id = r_id r,
      rv_last_log_index = l, rv_last_log_term = lt\<rparr>)) ps)" for t l lt ps
    by (induction ps) simp_all
  from assms(1) votes show ?thesis
    by (auto simp: become_candidate_def Let_def reset_election_timer_def split: if_splits prod.splits dest!: lead)
qed

lemma tick_elects:
  assumes "tick g ms r = (r', acts)" "plain_log de (r_log r)"
  shows "elects S r r'" "own_sends de r acts" "plain_log de (r_log r')"
proof -
  obtain r1 a1 where c: "become_candidate g r = (r1, a1)" by (cases "become_candidate g r")
  have b: "own_sends de r (broadcast_append (r\<lparr>heartbeat_remaining_ms := h\<rparr>))" for h
    using own_broadcast [of de "r\<lparr>heartbeat_remaining_ms := h\<rparr>"] assms(2)
    by (simp add: own_sends_id [of "r\<lparr>heartbeat_remaining_ms := h\<rparr>" r])
  show "elects S r r'" "own_sends de r acts" "plain_log de (r_log r')"
    using assms elects_candidate [OF c, of S] own_candidate [OF c assms(2)] become_candidate_frame(3) [OF c] b
    by (auto simp: tick_def start_election_def c Let_def elects_same split: if_splits)
qed

lemma propose_elects:
  assumes "propose cmd r = Inr (r', acts)" "plain_log de (r_log r)" "decode_conf_change de cmd = None"
  shows "elects S r r'" "own_sends de r acts" "plain_log de (r_log r')"
proof -
  define e where "e = \<lparr>e_term = r_term r, e_command = cmd\<rparr>"
  have r': "r' = r\<lparr>r_log := r_log r @ [e]\<rparr>" and a: "acts = PersistLog (index_next (last_index (r_log r))) [e] # broadcast_append r'"
    using assms(1) by (auto simp: propose_def Let_def log_append_def e_def split: if_splits)
  show "elects S r r'" by (rule elects_same) (simp_all add: r')
  show p: "plain_log de (r_log r')" using assms(2,3) by (simp add: r' e_def plain_entry_def)
  show "own_sends de r acts" using own_broadcast [OF p] own_sends_id [of r' r] by (simp add: a r')
qed

lemma read_index_elects:
  assumes "read_index i r = Inr (r', acts)" "plain_log de (r_log r)"
  shows "elects S r r'" "own_sends de r acts" "plain_log de (r_log r')"
proof -
  define e where "e = \<lparr>e_term = r_term r, e_command = []\<rparr>"
  obtain pr where r': "r' = r\<lparr>r_log := r_log r @ [e], pending_reads := pr\<rparr>"
      and a: "acts = PersistLog (index_next (last_index (r_log r))) [e] # broadcast_append r'"
    using assms(1) by (auto simp: read_index_def Let_def log_append_def e_def split: if_splits)
  show "elects S r r'" by (rule elects_same) (simp_all add: r')
  show p: "plain_log de (r_log r')" using assms(2) by (simp add: r' e_def plain_entry_def)
  show "own_sends de r acts" using own_broadcast [OF p] own_sends_id [of r' r] by (simp add: a r')
qed

section \<open>Incoming messages\<close>

text \<open>The answer to a request: a granted vote is the responder's recorded vote.\<close>

fun own_answer :: "rpc_message \<Rightarrow> raft \<Rightarrow> rpc_message \<Rightarrow> bool" where
  "own_answer (RequestVote req) r (RequestVoteResp resp) =
     (rvr_granted resp \<longrightarrow> rvr_term resp = r_term r \<and> voted_for (r_hard r) = Some (rv_candidate_id req))"
| "own_answer _ r (RequestVoteResp resp) = False"
| "own_answer _ r (RequestVote req) = False"
| "own_answer _ r (AppendEntries req) = False"
| "own_answer _ r (InstallSnapshot req) = False"
| "own_answer _ r _ = True"

fun counted_votes :: "node_id \<Rightarrow> rpc_message \<Rightarrow> raft \<Rightarrow> node_id set" where
  "counted_votes from (RequestVoteResp resp) r =
     (if rvr_granted resp \<and> rvr_term resp = r_term r then {from} else {})"
| "counted_votes from _ r = {}"

lemma handle_request_vote_elects:
  assumes "handle_request_vote g req r = (r', resp, acts)"
  shows "elects {} r r'" "r_log r' = r_log r" "own_sends de r acts"
    "resp = Some m \<Longrightarrow> own_answer (RequestVote req) r' m"
proof -
  obtain r1 a1 where f: "(if r_term r < rv_term req then become_follower g (rv_term req) None r else (r, [])) = (r1, a1)"
    by (cases "(if r_term r < rv_term req then become_follower g (rv_term req) None r else (r, []))")
  have e1: "elects {} r r1 \<and> r_log r1 = r_log r \<and> own_sends de r a1"
  proof (cases "r_term r < rv_term req")
    case True
    then have bf: "become_follower g (rv_term req) None r = (r1, a1)" using f by simp
    show ?thesis
      using become_follower_frame [OF bf] elects_follower [OF bf] own_follower [OF bf] by blast
  next
    case False
    then show ?thesis using f by (simp add: elects_same)
  qed
  have e2: "elects {} r (reset_election_timer g (r1\<lparr>r_hard := (r_hard r1)\<lparr>voted_for := Some v\<rparr>\<rparr>))"
    if vote: "voted_for (r_hard r1) = None \<or> voted_for (r_hard r1) = Some v" for v
  proof (cases "r_term r < rv_term req")
    case True
    then have bf: "become_follower g (rv_term req) None r = (r1, a1)" using f by simp
    show ?thesis
      using become_follower_frame [OF bf] True by (auto simp: elects_def reset_election_timer_def)
  next
    case False
    then have "r1 = r" using f by simp
    with vote show ?thesis by (auto simp: elects_def reset_election_timer_def)
  qed
  show "elects {} r r'" "r_log r' = r_log r" "own_sends de r acts"
    "resp = Some m \<Longrightarrow> own_answer (RequestVote req) r' m"
    using assms [unfolded handle_request_vote_def f prod.case Let_def] e1 e2 [of "rv_candidate_id req"]
    by (auto simp: elects_same reset_election_timer_def split: if_splits)
qed

lemma vote_response_elects:
  assumes "step_vote_response g from resp r = (r', acts)" "plain_log de (r_log r)"
  shows "elects (counted_votes from (RequestVoteResp resp) r) r r'" "own_sends de r acts"
proof -
  define S where "S = counted_votes from (RequestVoteResp resp) r"
  define r1 where "r1 = (if rvr_granted resp then r\<lparr>r_votes := List.insert from (r_votes r)\<rparr> else r)"
  have r1: "r_log r1 = r_log r" "r_config r1 = r_config r" "r_hard r1 = r_hard r" "r_soft r1 = r_soft r"
      "distinct (r_votes r) \<Longrightarrow> distinct (r_votes r1)"
    by (simp_all add: r1_def)
  have v1: "set (r_votes r1) \<subseteq> set (r_votes r) \<union> S" if "rvr_term resp = r_term r"
    using that by (auto simp: r1_def S_def)
  note e = assms(1) [unfolded step_vote_response_def Let_def, folded r1_def]
  have "elects S r r' \<and> own_sends de r acts"
  proof (cases "r_term r < rvr_term resp")
    case True
    then have "become_follower g (rvr_term resp) None r = (r', acts)" using e by simp
    then show ?thesis using elects_follower own_follower by blast
  next
    case False
    note higher = False
    show ?thesis
    proof (cases "r_role r \<noteq> Candidate \<or> rvr_term resp \<noteq> r_term r")
      case True
      then show ?thesis using e higher by (simp add: elects_same)
    next
      case False
      then have c: "rvr_term resp = r_term r" "r_role r = Candidate" by simp_all
      show ?thesis
      proof (cases "quorum (r_config r1) \<le> length (r_votes r1)")
        case True
        then have l: "become_leader r1 = (r', acts)" using e c higher by simp
        note fl = become_leader_frame [OF l]
        have "own_sends de r acts"
          using fl own_broadcast [of de r'] assms(2) r1 own_sends_id [of r' r] by simp
        moreover have "elects S r r'" using v1 [OF c(1)] r1 fl c(2) True by (auto simp: elects_def)
        ultimately show ?thesis by blast
      next
        case False
        then have "r' = r1" "acts = []" using e c higher by simp_all
        then show ?thesis using v1 [OF c(1)] r1 c(2) by (auto simp: elects_def)
      qed
    qed
  qed
  then show "elects (counted_votes from (RequestVoteResp resp) r) r r'" "own_sends de r acts"
    unfolding S_def by blast+
qed

lemma append_entries_elects:
  assumes "handle_append_entries g de req r = (r', resp, acts)" "plain_log de (r_log r)"
    "plain_log de (ae_entries req)"
  shows "elects {} r r'" "own_sends de r acts" "plain_log de (r_log r')"
    "resp = Some m \<Longrightarrow> own_answer (AppendEntries req) r' m"
proof -
  obtain r1 a1 where l: "ae_accept_leader g req r = (r1, a1)" by (cases "ae_accept_leader g req r")
  obtain r2 a2 where st: "ae_store req r1 = (r2, a2)" by (cases "ae_store req r1")
  obtain r3 a3 where cm: "ae_commit de req r2 = (r3, a3)" by (cases "ae_commit de req r2")
  have e1: "elects {} r r1" "own_sends de r a1" "r_log r1 = r_log r"
    using l ae_accept_leader_frame(2) [OF l]
    by (auto simp: ae_accept_leader_def reset_election_timer_def split: if_splits
        intro: elects_same elects_follower own_follower)
  have s2: "r_config r2 = r_config r1" "r_hard r2 = r_hard r1" "r_soft r2 = r_soft r1" "r_votes r2 = r_votes r1"
      "own_sends de r a2" "plain_log de (r_log r2)"
    using st e1(3) assms(2,3) plain_log_subset [OF assms(2) truncate_from_subset]
    by (auto simp: ae_store_def log_append_def split: if_splits)
  have c3: "r_config r3 = r_config r2" "r_term r3 = r_term r2" "voted_for (r_hard r3) = voted_for (r_hard r2)"
      "r_role r3 = r_role r2" "r_votes r3 = r_votes r2" "own_sends de r a3" "r_log r3 = r_log r2"
    using cm s2(6) by (auto simp: ae_commit_def apply_committed_plain Let_def split: if_splits)
  have "elects {} r r3" by (rule elects_trans_same [OF e1(1)]) (simp_all add: c3 s2)
  then show "elects {} r r'" "own_sends de r acts" "plain_log de (r_log r')"
    "resp = Some m \<Longrightarrow> own_answer (AppendEntries req) r' m"
    using assms(1) [unfolded handle_append_entries_def l st cm prod.case] e1 s2(5,6) c3(6,7) assms(2)
    by (auto simp: append_resp_def elects_same split: if_splits)
qed

lemma try_advance_commit_plain:
  assumes "try_advance_commit de r = (r', acts)" "plain_log de (r_log r)"
  shows "r_config r' = r_config r"
proof -
  define idx where "idx = index_range (commit_index (r_hard r) + 1) (last_index (r_log r))"
  obtain r1 a1 where f1: "fold (advance_one (r_term r)) idx (r, []) = (r1, a1)"
    by (cases "fold (advance_one (r_term r)) idx (r, [])")
  then obtain h where h: "r1 = r\<lparr>r_hard := h\<rparr>" using advance_fold_frame [OF f1] by blast
  obtain a2 where f2: "apply_committed de r1 = (r1\<lparr>r_hard := caught_up (r_hard r1)\<rparr>, a2)"
    using apply_committed_plain [of de r1] assms(2) by (simp add: h)
  show ?thesis
    using assms(1) [unfolded try_advance_commit_def idx_def [symmetric] f1 prod.case f2 Let_def]
    by (auto simp: h try_confirm_reads_def)
qed

lemma append_response_elects:
  assumes "step_append_response g de from resp r = (r', acts)" "plain_log de (r_log r)"
  shows "elects {} r r' \<and> own_sends de r acts \<and> plain_log de (r_log r')"
proof (cases "r_term r < aer_term resp")
  case True
  then have "become_follower g (aer_term resp) None r = (r', acts)"
    using assms(1) by (simp add: step_append_response_def)
  then show ?thesis using elects_follower own_follower become_follower_frame assms(2) by metis
next
  case False
  note higher = False
  show ?thesis
  proof (cases "r_role r \<noteq> Leader \<or> bt_get (r_progress r) from = None")
    case True
    then show ?thesis
      using assms higher by (auto simp: step_append_response_def elects_same split: if_splits)
  next
    case False
    then obtain p where p: "bt_get (r_progress r) from = Some p" by auto
    define p' where "p' = (if aer_success resp
        then p\<lparr>match_index := aer_last_log_index resp, next_index := index_next (aer_last_log_index resp)\<rparr>
        else p\<lparr>next_index := max (sat_sub (next_index p) 1) 1\<rparr>)"
    define r1 where "r1 = r\<lparr>r_progress := bt_insert from p' (r_progress r)\<rparr>"
    obtain r2 a2 where t: "try_advance_commit de r1 = (r2, a2)" by (cases "try_advance_commit de r1")
    have e: "r' = r2" "acts = a2 \<or> acts = a2 @ append_to_peer r2 from"
      using assms(1) False higher
      unfolding step_append_response_def p option.case Let_def p'_def [symmetric] r1_def [symmetric] t prod.case
      by (auto split: if_splits)
    note f = try_advance_commit_frame [OF t]
    have c: "r_config r2 = r_config r"
      using try_advance_commit_plain [OF t] assms(2) by (simp add: r1_def)
    have l: "r_log r2 = r_log r" using f(3) by (simp add: r1_def)
    have "own_sends de r a2"
      using f(10) by (auto simp: own_sends_def list_all_iff own_action_def split: action.splits)
    moreover have "own_sends de r (append_to_peer r2 from)"
      using own_append_to_peer [of de r2 "from"] assms(2) own_sends_id [of r2 r] by (simp add: l c)
    moreover have "elects {} r r2" by (rule elects_same) (use f c in \<open>simp_all add: r1_def\<close>)
    ultimately show ?thesis using e assms(2) l by auto
  qed
qed

lemma install_snapshot_elects:
  assumes "handle_install_snapshot g req r = (r', resp, acts)" "plain_log de (r_log r)"
  shows "elects {} r r' \<and> own_sends de r acts \<and> plain_log de (r_log r')
    \<and> (\<exists>x. resp = Some (InstallSnapshotResp x))"
proof (cases "r_term r \<le> is_term req")
  case True
  obtain r1 a1 where f: "become_follower g (is_term req) (Some (is_leader_id req)) r = (r1, a1)"
    by (cases "become_follower g (is_term req) (Some (is_leader_id req)) r")
  have e: "r_config r' = r_config r1" "r_term r' = r_term r1" "voted_for (r_hard r') = voted_for (r_hard r1)"
      "r_role r' = r_role r1" "r_votes r' = r_votes r1" "plain_log de (r_log r')" "own_sends de r acts"
      "\<exists>x. resp = Some (InstallSnapshotResp x)"
    using assms(1) [unfolded handle_install_snapshot_def f prod.case Let_def] True own_follower [OF f, of de]
    by (auto split: if_splits)
  have "elects {} r r'" by (rule elects_trans_same [OF elects_follower [OF f]]) (use e in simp_all)
  with e show ?thesis by blast
next
  case False
  with assms show ?thesis by (auto simp: handle_install_snapshot_def elects_same)
qed

lemma read_request_elects:
  assumes "handle_read_index req r = (r', resp, acts)" "plain_log de (r_log r)"
  shows "elects {} r r' \<and> own_sends de r acts \<and> plain_log de (r_log r')
    \<and> (resp = None \<or> (\<exists>x. resp = Some (ReadIndexResp x)))"
proof -
  have "own_sends de r (broadcast_append (r\<lparr>pending_reads := p\<rparr>))" for p
    using own_broadcast [of de "r\<lparr>pending_reads := p\<rparr>"] assms(2)
    by (simp add: own_sends_id [of "r\<lparr>pending_reads := p\<rparr>" r])
  with assms show ?thesis
    by (auto simp: handle_read_index_def try_confirm_reads_def Let_def elects_same split: if_splits)
qed

text \<open>The messages in the network are sound: what a node relies on when it receives one.\<close>

lemma node_dispatch_elects:
  assumes "node_dispatch g de from msg r = (r', resp, acts)" "plain_log de (r_log r)"
    and "\<And>req. msg = AppendEntries req \<Longrightarrow> plain_log de (ae_entries req)"
  shows "elects (counted_votes from msg r) r r' \<and> own_sends de r acts \<and> plain_log de (r_log r')
    \<and> (\<forall>m. resp = Some m \<longrightarrow> own_answer msg r' m)"
proof (cases msg)
  case (RequestVote req)
  then have h: "handle_request_vote g req r = (r', resp, acts)"
    using assms(1) by (simp add: node_dispatch_def raft_step_def)
  show ?thesis
    using handle_request_vote_elects [OF h] assms(2) by (simp add: RequestVote)
next
  case (RequestVoteResp rr)
  then have h: "step_vote_response g from rr r = (r', acts)" "resp = None"
    using assms(1) by (auto simp: node_dispatch_def split: prod.splits)
  show ?thesis
    using vote_response_elects [OF h(1) assms(2)] step_vote_response_saved(3) [OF h(1)] assms(2)
    by (simp add: RequestVoteResp h(2))
next
  case (AppendEntries req)
  then have h: "handle_append_entries g de req r = (r', resp, acts)"
    using assms(1) by (simp add: node_dispatch_def raft_step_def)
  have "counted_votes from msg r = {}" by (simp add: AppendEntries)
  then show ?thesis
    using append_entries_elects [OF h assms(2) assms(3) [OF AppendEntries]] AppendEntries by auto
next
  case (AppendEntriesResp ar)
  then have h: "step_append_response g de from ar r = (r', acts)" "resp = None"
    using assms(1) by (auto simp: node_dispatch_def split: prod.splits)
  show ?thesis using append_response_elects [OF h(1) assms(2)] by (simp add: AppendEntriesResp h(2))
next
  case (InstallSnapshot req)
  then have h: "handle_install_snapshot g req r = (r', resp, acts)"
    using assms(1) by (simp add: node_dispatch_def raft_step_def)
  show ?thesis using install_snapshot_elects [OF h assms(2)] by (auto simp: InstallSnapshot)
next
  case (ReadIndex req)
  then have h: "handle_read_index req r = (r', resp, acts)"
    using assms(1) by (simp add: node_dispatch_def raft_step_def)
  show ?thesis using read_request_elects [OF h assms(2)] by (auto simp: ReadIndex)
qed (use assms in \<open>auto simp: node_dispatch_def raft_step_def elects_same\<close>)

end
