(* ===== verification/Raft_File.thy ===== *)
theory Raft_File
  imports Raft_Persist
begin

text \<open>
  The file backend \<^verbatim>\<open>FileStorage\<close> of \<^verbatim>\<open>storage.rs\<close>, and the wire envelope of \<^verbatim>\<open>security.rs\<close> and
  \<^verbatim>\<open>codec.rs\<close>. The serialiser and the CRC-32 are third-party code: a record of encoders and
  decoders and the function \<open>crc\<close> are parameters, and \<open>raft_codec_ok\<close> states that decoding
  inverts encoding. A directory is the contents of its three files; a record is written to a
  temporary file and renamed, so each file is replaced at once.
\<close>

section \<open>Checksummed records\<close>

definition verify_record :: "(bytes \<Rightarrow> u32) \<Rightarrow> bytes \<Rightarrow> u32 \<Rightarrow> security_error + unit" where
  "verify_record crc payload expected = (if crc payload \<noteq> expected then Inl RecordMismatch else Inr ())"

definition decode_record :: "bytes \<Rightarrow> raft_storage_error + (bytes \<times> u32)" where
  "decode_record bs = (if length bs < 4 then Inl (RCorrupt ''record too short'')
     else Inr (drop 4 bs, u32_of_le (take 4 bs)))"

definition write_record :: "(bytes \<Rightarrow> u32) \<Rightarrow> bytes \<Rightarrow> bytes" where
  "write_record crc value = u32_to_le (crc value) @ value"

lemma decode_write_record [simp]: "decode_record (write_record crc v) = Inr (v, crc v)"
  by (simp add: decode_record_def write_record_def)

section \<open>The file backend\<close>

record raft_codec =
  ser_hard :: "hard_state \<Rightarrow> bytes"
  de_hard :: "bytes \<Rightarrow> string + hard_state"
  ser_log :: "raft_log \<Rightarrow> bytes"
  de_log :: "bytes \<Rightarrow> string + raft_log"
  ser_snap :: "snapshot \<Rightarrow> bytes"
  de_snap :: "bytes \<Rightarrow> string + snapshot"

definition raft_codec_ok :: "raft_codec \<Rightarrow> bool" where
  "raft_codec_ok c \<longleftrightarrow> (\<forall>h. de_hard c (ser_hard c h) = Inr h) \<and> (\<forall>l. de_log c (ser_log c l) = Inr l)
     \<and> (\<forall>s. de_snap c (ser_snap c s) = Inr s)"

record raft_dir =
  hard_bin :: "bytes option"
  log_bin :: "bytes option"
  snap_bin :: "bytes option"

definition raft_dir_empty :: raft_dir where
  "raft_dir_empty = \<lparr>hard_bin = None, log_bin = None, snap_bin = None\<rparr>"

record file_storage =
  f_dir :: raft_dir
  f_hard :: hard_state
  f_log :: raft_log
  f_snapshot :: "snapshot option"
  f_dirty :: bool

definition read_record :: "(bytes \<Rightarrow> u32) \<Rightarrow> (bytes \<Rightarrow> string + 'a) \<Rightarrow> bytes \<Rightarrow> raft_storage_error + 'a" where
  "read_record crc de bs =
     try_bind (decode_record bs) (\<lambda>(payload, c).
       case verify_record crc payload c of
         Inl _ \<Rightarrow> Inl (RCorrupt ''checksum mismatch'')
       | Inr _ \<Rightarrow> (case de payload of Inl e \<Rightarrow> Inl (RCorrupt e) | Inr x \<Rightarrow> Inr x))"

definition file_reload ::
  "(bytes \<Rightarrow> u32) \<Rightarrow> raft_codec \<Rightarrow> file_storage \<Rightarrow> raft_storage_error + file_storage" where
  "file_reload crc c s =
     try_bind (case hard_bin (f_dir s) of None \<Rightarrow> Inr s
       | Some bs \<Rightarrow> try_bind (read_record crc (de_hard c) bs) (\<lambda>h. Inr (s\<lparr>f_hard := h\<rparr>))) (\<lambda>s1.
     try_bind (case log_bin (f_dir s1) of None \<Rightarrow> Inr s1
       | Some bs \<Rightarrow> try_bind (read_record crc (de_log c) bs) (\<lambda>l. Inr (s1\<lparr>f_log := l\<rparr>))) (\<lambda>s2.
     case snap_bin (f_dir s2) of None \<Rightarrow> Inr s2
       | Some bs \<Rightarrow> try_bind (read_record crc (de_snap c) bs) (\<lambda>sn. Inr (s2\<lparr>f_snapshot := Some sn\<rparr>))))"

definition file_open ::
  "(bytes \<Rightarrow> u32) \<Rightarrow> raft_codec \<Rightarrow> raft_dir \<Rightarrow> raft_storage_error + file_storage" where
  "file_open crc c d = file_reload crc c
     \<lparr>f_dir = d, f_hard = hard_default, f_log = raft_log_new, f_snapshot = None, f_dirty = False\<rparr>"

definition file_append :: "log_index \<Rightarrow> raft_entry list \<Rightarrow> file_storage \<Rightarrow> file_storage" where
  "file_append from es s =
     s\<lparr>f_log := fst (log_append (truncate_from (f_log s) (index_prev from)) es), f_dirty := True\<rparr>"

definition file_save_snapshot :: "snapshot \<Rightarrow> file_storage \<Rightarrow> file_storage" where
  "file_save_snapshot sn s =
     s\<lparr>f_snapshot := Some sn, f_log := restore (snap_index sn) (snap_term sn) [], f_dirty := True\<rparr>"

text \<open>The three file replacements of \<^verbatim>\<open>sync\<close>, in order.\<close>

definition file_sync_writes :: "(bytes \<Rightarrow> u32) \<Rightarrow> raft_codec \<Rightarrow> file_storage \<Rightarrow> (raft_dir \<Rightarrow> raft_dir) list" where
  "file_sync_writes crc c s =
     [\<lambda>d. d\<lparr>hard_bin := Some (write_record crc (ser_hard c (f_hard s)))\<rparr>,
      \<lambda>d. d\<lparr>log_bin := Some (write_record crc (ser_log c (f_log s)))\<rparr>] @
     (case f_snapshot s of None \<Rightarrow> []
      | Some sn \<Rightarrow> [\<lambda>d. d\<lparr>snap_bin := Some (write_record crc (ser_snap c sn))\<rparr>])"

definition file_sync :: "(bytes \<Rightarrow> u32) \<Rightarrow> raft_codec \<Rightarrow> file_storage \<Rightarrow> file_storage" where
  "file_sync crc c s = (if \<not> f_dirty s then s
     else s\<lparr>f_dir := fold (\<lambda>w. w) (file_sync_writes crc c s) (f_dir s), f_dirty := False\<rparr>)"

definition file_ops :: "(bytes \<Rightarrow> u32) \<Rightarrow> raft_codec \<Rightarrow> file_storage storage_ops" where
  "file_ops crc c = \<lparr>load_hard_state = (\<lambda>s. Inr (f_hard s)),
     save_hard_state = (\<lambda>hs s. (s\<lparr>f_hard := hs, f_dirty := True\<rparr>, None)),
     load_log = (\<lambda>s. Inr (f_log s)),
     store_append = (\<lambda>from es s. (file_append from es s, None)),
     load_snapshot = (\<lambda>s. Inr (f_snapshot s)),
     save_snapshot = (\<lambda>sn s. (file_save_snapshot sn s, None)),
     store_sync = (\<lambda>s. (file_sync crc c s, None))\<rparr>"

section \<open>A flushed backend reopens to the same state\<close>

lemma read_write_record [simp]: "de v = Inr x \<Longrightarrow> read_record crc de (write_record crc v) = Inr x"
  by (simp add: read_record_def verify_record_def)

definition file_reopened :: "(bytes \<Rightarrow> u32) \<Rightarrow> raft_codec \<Rightarrow> file_storage \<Rightarrow> file_storage" where
  "file_reopened crc c s = (case file_open crc c (f_dir s) of Inl _ \<Rightarrow> s | Inr s' \<Rightarrow> s')"

text \<open>
  The invariant of the backend: its directory opens; when nothing is pending, it opens to the
  values in memory; a snapshot once taken is never forgotten.
\<close>

definition file_inv :: "(bytes \<Rightarrow> u32) \<Rightarrow> raft_codec \<Rightarrow> file_storage \<Rightarrow> bool" where
  "file_inv crc c s \<longleftrightarrow> (\<exists>s'. file_open crc c (f_dir s) = Inr s'
     \<and> (\<not> f_dirty s \<longrightarrow> f_hard s' = f_hard s \<and> f_log s' = f_log s \<and> f_snapshot s' = f_snapshot s)
     \<and> (f_snapshot s = None \<longrightarrow> snap_bin (f_dir s) = None))"

lemma file_open_written:
  assumes "raft_codec_ok c" "hard_bin d = Some (write_record crc (ser_hard c h))"
    "log_bin d = Some (write_record crc (ser_log c l))"
    "snap_bin d = map_option (\<lambda>sn. write_record crc (ser_snap c sn)) so"
  shows "file_open crc c d = Inr \<lparr>f_dir = d, f_hard = h, f_log = l, f_snapshot = so, f_dirty = False\<rparr>"
  using assms by (cases so) (simp_all add: file_open_def file_reload_def raft_codec_ok_def)

lemma file_open_frame: "file_open crc c d = Inr s \<Longrightarrow> f_dir s = d \<and> \<not> f_dirty s"
  by (auto simp: file_open_def file_reload_def try_bind_Inr split: option.splits)

lemma file_open_snapshot: "file_open crc c d = Inr s \<Longrightarrow> snap_bin d = None \<longleftrightarrow> f_snapshot s = None"
  by (auto simp: file_open_def file_reload_def try_bind_Inr split: option.splits)

lemma file_open_inv: "file_open crc c d = Inr s \<Longrightarrow> file_inv crc c s"
  using file_open_frame [of crc c d s] file_open_snapshot [of crc c d s] by (simp add: file_inv_def)

lemma file_sync_open:
  assumes "raft_codec_ok c" "file_inv crc c s"
  shows "\<exists>s'. file_open crc c (f_dir (file_sync crc c s)) = Inr s'
     \<and> f_hard s' = f_hard s \<and> f_log s' = f_log s \<and> f_snapshot s' = f_snapshot s"
proof (cases "f_dirty s")
  case True
  define d where "d = fold (\<lambda>w. w) (file_sync_writes crc c s) (f_dir s)"
  have "file_open crc c d = Inr \<lparr>f_dir = d, f_hard = f_hard s, f_log = f_log s,
      f_snapshot = f_snapshot s, f_dirty = False\<rparr>"
    using assms(2)
    by (intro file_open_written [OF assms(1)])
      (auto simp: d_def file_sync_writes_def file_inv_def split: option.splits)
  then show ?thesis using True by (simp add: file_sync_def d_def)
next
  case False
  then show ?thesis using assms(2) by (auto simp: file_sync_def file_inv_def)
qed

lemma file_sync_keeps [simp]:
  "f_hard (file_sync crc c s) = f_hard s" "f_log (file_sync crc c s) = f_log s"
  "f_snapshot (file_sync crc c s) = f_snapshot s" "\<not> f_dirty (file_sync crc c s)"
  by (simp_all add: file_sync_def)

lemma file_sync_inv:
  assumes "raft_codec_ok c" "file_inv crc c s"
  shows "file_inv crc c (file_sync crc c s)"
  using file_sync_open [OF assms] file_open_snapshot by (fastforce simp: file_inv_def)

lemma file_dirty_inv:
  "file_inv crc c s \<Longrightarrow> f_dir s' = f_dir s \<Longrightarrow> f_dirty s' \<Longrightarrow>
     f_snapshot s' = None \<longrightarrow> f_snapshot s = None \<Longrightarrow> file_inv crc c s'"
  by (auto simp: file_inv_def)

lemma file_store:
  assumes "raft_codec_ok c"
  shows "raft_store (file_ops crc c) (file_reopened crc c) (file_inv crc c) f_hard f_log"
proof
  fix s assume inv: "file_inv crc c s"
  show "load_hard_state (file_ops crc c) s = Inr (f_hard s)" "load_log (file_ops crc c) s = Inr (f_log s)"
    by (simp_all add: file_ops_def)
  show "\<exists>s'. save_hard_state (file_ops crc c) hs s = (s', None) \<and> file_inv crc c s'
      \<and> f_hard s' = hs \<and> f_log s' = f_log s" for hs
    using inv by (auto simp: file_ops_def elim: file_dirty_inv)
  show "\<exists>s'. store_append (file_ops crc c) from es s = (s', None) \<and> file_inv crc c s'
      \<and> f_hard s' = f_hard s \<and> f_log s' = truncate_from (f_log s) (index_prev from) @ es" for "from" es
    using inv by (auto simp: file_ops_def file_append_def log_append_def elim: file_dirty_inv)
  show "\<exists>s'. save_snapshot (file_ops crc c) sn s = (s', None) \<and> file_inv crc c s'
      \<and> f_hard s' = f_hard s \<and> f_log s' = restore (snap_index sn) (snap_term sn) []" for sn
    using inv by (auto simp: file_ops_def file_save_snapshot_def elim: file_dirty_inv)
  obtain s' where s': "file_open crc c (f_dir (file_sync crc c s)) = Inr s'"
      "f_hard s' = f_hard s" "f_log s' = f_log s"
    using file_sync_open [OF assms inv] by blast
  then show "\<exists>s'. store_sync (file_ops crc c) s = (s', None) \<and> file_inv crc c s'
      \<and> f_hard s' = f_hard s \<and> f_log s' = f_log s \<and> file_inv crc c (file_reopened crc c s')
      \<and> f_hard (file_reopened crc c s') = f_hard s \<and> f_log (file_reopened crc c s') = f_log s"
    using file_sync_inv [OF assms inv] file_open_inv [OF s'(1)]
    by (simp add: file_ops_def file_reopened_def)
  show "file_reopened crc c (file_reopened crc c s) = file_reopened crc c s"
  proof (cases "file_open crc c (f_dir s)")
    case (Inr s1)
    then have "f_dir s1 = f_dir s" using file_open_frame [OF Inr] by simp
    with Inr show ?thesis by (simp add: file_reopened_def)
  qed (simp add: file_reopened_def)
qed

section \<open>Durability of a node\<close>

text \<open>A backend with a log and nothing left to apply: what every shutdown leaves behind.\<close>

definition settled :: "file_storage \<Rightarrow> bool" where
  "settled s \<longleftrightarrow> commit_index (f_hard s) \<le> last_applied (f_hard s) \<and> f_log s \<noteq> []"

lemma file_node_ok_start:
  assumes "raft_codec_ok c" "file_open crc c d = Inr s" "settled s"
    and "node_open (file_ops crc c) g cfg s = Inr n"
  shows "raft_store.node_ok (file_reopened crc c) (file_inv crc c) f_hard f_log n"
proof -
  have "n_storage n = s" "r_hard (n_raft n) = f_hard s" "r_log (n_raft n) = f_log s"
    using assms(4) by (auto simp: node_open_def file_ops_def raft_new_def)
  moreover have "file_reopened crc c s = s"
    using assms(2) file_open_frame [OF assms(2)] by (simp add: file_reopened_def)
  ultimately show ?thesis
    using assms(3) file_open_inv [OF assms(2)]
    by (simp add: raft_store.node_ok_def [OF file_store [OF assms(1)]]
        raft_store.persisted_def [OF file_store [OF assms(1)]] applied_all_def settled_def)
qed

lemma file_node_ok_reopen:
  assumes "raft_codec_ok c"
    and "raft_store.node_ok (file_reopened crc c) (file_inv crc c) f_hard f_log n"
  shows "\<exists>s n'. file_open crc c (f_dir (n_storage n)) = Inr s \<and> settled s
     \<and> node_open (file_ops crc c) g cfg s = Inr n'
     \<and> r_hard (n_raft n') = r_hard (n_raft n) \<and> r_log (n_raft n') = r_log (n_raft n)"
proof -
  note store = file_store [OF assms(1), of crc]
  have ok: "file_inv crc c (n_storage n)" "f_hard (file_reopened crc c (n_storage n)) = r_hard (n_raft n)"
      "f_log (file_reopened crc c (n_storage n)) = r_log (n_raft n)" "applied_all (r_hard (n_raft n))"
      "r_log (n_raft n) \<noteq> []"
    using assms(2) by (simp_all add: raft_store.node_ok_def [OF store] raft_store.persisted_def [OF store])
  obtain s where s: "file_open crc c (f_dir (n_storage n)) = Inr s"
    using ok(1) by (auto simp: file_inv_def)
  then have "file_reopened crc c (n_storage n) = s" by (simp add: file_reopened_def)
  with s ok raft_store.node_ok_restart [OF store assms(2), of g cfg] show ?thesis
    by (auto simp: settled_def applied_all_def)
qed

section \<open>A serialiser\<close>

text \<open>
  A concrete instance of the serialiser parameters, with the shape of the third-party format:
  little-endian words and tagged options; a sequence marks each element and its end.
\<close>

fun put_bytes :: "bytes \<Rightarrow> bytes" where
  "put_bytes [] = [0]"
| "put_bytes (b # bs) = 1 # b # put_bytes bs"

fun get_bytes :: "bytes \<Rightarrow> bytes \<times> bytes" where
  "get_bytes (t # b # bs) = (if t = 0 then ([], b # bs) else case get_bytes bs of (xs, rest) \<Rightarrow> (b # xs, rest))"
| "get_bytes [t] = ([], [])"
| "get_bytes [] = ([], [])"

fun put_entries :: "raft_log \<Rightarrow> bytes" where
  "put_entries [] = [0]"
| "put_entries (e # es) = 1 # u64_to_le (e_term e) @ put_bytes (e_command e) @ put_entries es"

function get_entries :: "bytes \<Rightarrow> raft_log" where
  "get_entries bs = (if bs = [] \<or> hd bs = 0 \<or> length bs < 9 then []
     else case get_bytes (drop 9 bs) of (cmd, rest) \<Rightarrow>
       (if length rest < length bs
        then \<lparr>e_term = u64_of_le (take 8 (tl bs)), e_command = cmd\<rparr> # get_entries rest else []))"
  by pat_completeness auto

termination
  by (relation "measure length") auto

declare get_entries.simps [simp del]

definition sample_codec :: raft_codec where
  "sample_codec = \<lparr>
     ser_hard = (\<lambda>h. u64_to_le (current_term h) @ u64_to_le (commit_index h) @ u64_to_le (last_applied h) @
        (case voted_for h of None \<Rightarrow> [] | Some v \<Rightarrow> u64_to_le v)),
     de_hard = (\<lambda>bs. Inr \<lparr>current_term = u64_of_le (take 8 bs),
        voted_for = (if drop 24 bs = [] then None else Some (u64_of_le (drop 24 bs))),
        commit_index = u64_of_le (take 8 (drop 8 bs)), last_applied = u64_of_le (take 8 (drop 16 bs))\<rparr>),
     ser_log = put_entries, de_log = (\<lambda>bs. Inr (get_entries bs)),
     ser_snap = (\<lambda>s. u64_to_le (snap_index s) @ u64_to_le (snap_term s) @ snap_data s),
     de_snap = (\<lambda>bs. Inr \<lparr>snap_index = u64_of_le (take 8 bs), snap_term = u64_of_le (take 8 (drop 8 bs)),
        snap_data = drop 16 bs\<rparr>)\<rparr>"

lemma get_put_bytes: "rest \<noteq> [] \<Longrightarrow> get_bytes (put_bytes bs @ rest) = (bs, rest)"
proof (induction bs)
  case Nil
  then show ?case by (cases rest) simp_all
next
  case (Cons b bs)
  then show ?case by simp
qed

lemma put_entries_nonempty: "put_entries es \<noteq> []"
  by (cases es) simp_all

lemma get_put_entries: "get_entries (put_entries es) = es"
proof (induction es)
  case Nil
  then show ?case by (simp add: get_entries.simps [of "[0]"])
next
  case (Cons e es)
  have "take 8 (u64_to_le (e_term e) @ xs) = u64_to_le (e_term e)"
       "drop 8 (u64_to_le (e_term e) @ xs) = xs" for xs
    by simp_all
  then show ?case
    using Cons get_put_bytes [OF put_entries_nonempty, of "e_command e" es]
    by (subst get_entries.simps) simp
qed

lemma sample_codec_ok: "raft_codec_ok sample_codec"
proof -
  have "u64_to_le w \<noteq> []" for w using length_u64_to_le [of w] by (metis list.size(3) zero_neq_numeral)
  then show ?thesis
    by (auto simp: raft_codec_ok_def sample_codec_def get_put_entries split: option.splits)
qed

text \<open>
  C9. What a Raft node promises its peers survives a crash: take a node opened on a directory,
  and let it run through any sequence of timer ticks, incoming messages (snapshots arriving
  whole), proposals, read barriers and membership changes. After every one of these operations
  the files of its directory open to a node with the same current term, the same vote, the same
  commit and applied index and the same log, whatever its configuration; so no vote and no
  acknowledged entry is forgotten by a restart.
\<close>

theorem raft_node_durable:
  assumes "raft_codec_ok c" "file_open crc c d = Inr s" "settled s"
    and "node_open (file_ops crc c) g cfg s = Inr n0"
    and "node_reach (file_ops crc c) ser de n0 n"
  shows "\<exists>s' n'. file_open crc c (f_dir (n_storage n)) = Inr s' \<and> settled s'
     \<and> node_open (file_ops crc c) g' cfg' s' = Inr n'
     \<and> r_hard (n_raft n') = r_hard (n_raft n) \<and> r_log (n_raft n') = r_log (n_raft n)"
  by (rule file_node_ok_reopen [OF assms(1) raft_store.node_reach_ok
        [OF file_store [OF assms(1)] assms(5) file_node_ok_start [OF assms(1-4)]]])

text \<open>A single voter elects itself on the first tick and accepts a command.\<close>

definition solo_config :: raft_config where
  "solo_config = \<lparr>cfg_id = 1, cfg_voters = [1], election_timeout_min = 10, election_timeout_max = 10,
     heartbeat_interval = 5, max_append_batch = 8, max_pipeline_bytes = 64, cfg_auth = []\<rparr>"

definition solo_start :: "file_storage raft_node" where
  "solo_start = \<lparr>n_raft = raft_new (\<lambda>lo hi. lo) solo_config hard_default raft_log_new,
     n_storage = \<lparr>f_dir = raft_dir_empty, f_hard = hard_default, f_log = raft_log_new,
       f_snapshot = None, f_dirty = False\<rparr>, n_applied = []\<rparr>"

abbreviation "solo_ops \<equiv> file_ops (\<lambda>bs. 0) sample_codec"

definition solo_node :: "file_storage raft_node" where
  "solo_node = node_do solo_ops (\<lambda>cc. []) (\<lambda>bs. None) (OpPropose [7])
     (node_do solo_ops (\<lambda>cc. []) (\<lambda>bs. None) (OpTick (\<lambda>lo hi. lo) 10) solo_start)"

lemmas solo_eval = solo_start_def solo_config_def node_tick_def node_propose_def node_client_def
  exec_def exec_action_def file_ops_def tick_def start_election_def become_candidate_def
  become_leader_def reset_election_timer_def raft_new_def soft_default_def hard_default_def
  election_timeout_def quorum_def broadcast_append_def propose_def log_append_def term_next_def
  sat_suc_def raft_log_new_def sentinel_def

lemma solo_tick_state:
  "r_log (n_raft (node_do solo_ops ser de (OpTick (\<lambda>lo hi. lo) 10) solo_start)) = [sentinel 0]"
  by (simp add: solo_eval Let_def)

lemma solo_node_state:
  "r_term (n_raft solo_node) = 1" "map e_command (r_log (n_raft solo_node)) = [[], [7]]"
  by (simp_all add: solo_node_def solo_eval Let_def)

lemma solo_reach: "node_reach solo_ops (\<lambda>cc. []) (\<lambda>bs. None) solo_start solo_node"
  unfolding solo_node_def
  by (intro node_reach.op node_reach.start)
    (simp_all only: solo_tick_state whole_op.simps,
     simp_all add: solo_start_def raft_new_def raft_log_new_def u64_max_def)

theorem raft_node_durable_witness:
  "\<exists>s' n'. file_open (\<lambda>bs. 0) sample_codec (f_dir (n_storage solo_node)) = Inr s'
     \<and> node_open solo_ops (\<lambda>lo hi. hi) solo_config s' = Inr n'
     \<and> r_term (n_raft n') = 1 \<and> map e_command (r_log (n_raft n')) = [[], [7]]"
proof -
  define s where "s = \<lparr>f_dir = raft_dir_empty, f_hard = hard_default, f_log = raft_log_new,
       f_snapshot = None, f_dirty = False\<rparr>"
  have o: "file_open (\<lambda>bs. 0) sample_codec raft_dir_empty = Inr s"
    by (simp add: s_def file_open_def file_reload_def raft_dir_empty_def)
  have st: "settled s" by (simp add: s_def settled_def hard_default_def raft_log_new_def)
  have n: "node_open solo_ops (\<lambda>lo hi. lo) solo_config s = Inr solo_start"
    by (simp add: s_def node_open_def file_ops_def solo_start_def)
  from raft_node_durable [OF sample_codec_ok o st n solo_reach, of "\<lambda>lo hi. hi" solo_config]
  show ?thesis using solo_node_state by auto
qed

end
