(* ===== verification/Raft_Network.thy ===== *)
theory Raft_Network
  imports Raft_Election Raft_File
begin

text \<open>
  Nodes over an asynchronous network. A message, once sent, can be delivered at any time, any
  number of times or never; a node can crash between any two of its operations and restart from
  its backend. The invariant relates every counted vote to the voter's own durable state; it
  gives election safety for every backend of the locale \<open>raft_store\<close>.
\<close>

section \<open>The network\<close>

record 's net =
  net_nodes :: "node_id \<Rightarrow> 's raft_node option"
  net_msgs :: "(node_id \<times> node_id \<times> rpc_message) set"

definition sent_by :: "node_id \<Rightarrow> outbound \<Rightarrow> (node_id \<times> node_id \<times> rpc_message) set" where
  "sent_by i out = (\<lambda>(to, m). (i, to, m)) ` set out"

definition answer_by :: "node_id \<Rightarrow> node_id \<Rightarrow> rpc_message option \<Rightarrow> (node_id \<times> node_id \<times> rpc_message) set" where
  "answer_by i src resp = (case resp of None \<Rightarrow> {} | Some m \<Rightarrow> {(i, src, m)})"

definition net_update ::
  "node_id \<Rightarrow> 's raft_node \<Rightarrow> (node_id \<times> node_id \<times> rpc_message) set \<Rightarrow> 's net \<Rightarrow> 's net" where
  "net_update i n ms c = c\<lparr>net_nodes := (net_nodes c)(i \<mapsto> n), net_msgs := net_msgs c \<union> ms\<rparr>"

text \<open>
  One step of the network. \<open>de\<close> decodes membership changes; client commands are ordinary ones.
  A restart uses the node's configuration \<open>cfg i\<close>.
\<close>

inductive net_step ::
  "'s storage_ops \<Rightarrow> ('s \<Rightarrow> 's) \<Rightarrow> (node_id \<Rightarrow> raft_config) \<Rightarrow> conf_decoder \<Rightarrow> 's net \<Rightarrow> 's net \<Rightarrow> bool"
  for ops reopen cfg de where
  net_tick: "net_nodes c i = Some n \<Longrightarrow> node_tick ops g ms n = (n', Inr out)
     \<Longrightarrow> net_step ops reopen cfg de c (net_update i n' (sent_by i out) c)"
| net_deliver: "(src, i, m) \<in> net_msgs c \<Longrightarrow> net_nodes c i = Some n
     \<Longrightarrow> node_step ops g de src m n = (n', Inr (resp, out))
     \<Longrightarrow> net_step ops reopen cfg de c (net_update i n' (sent_by i out \<union> answer_by i src resp) c)"
| net_propose: "net_nodes c i = Some n \<Longrightarrow> decode_conf_change de cmd = None
     \<Longrightarrow> length (r_log (n_raft n)) \<le> u64_max \<Longrightarrow> node_propose ops cmd n = (n', Inr out)
     \<Longrightarrow> net_step ops reopen cfg de c (net_update i n' (sent_by i out) c)"
| net_read: "net_nodes c i = Some n \<Longrightarrow> length (r_log (n_raft n)) \<le> u64_max
     \<Longrightarrow> node_read_index ops rid n = (n', Inr out)
     \<Longrightarrow> net_step ops reopen cfg de c (net_update i n' (sent_by i out) c)"
| net_restart: "net_nodes c i = Some n \<Longrightarrow> node_open ops g (cfg i) (reopen (n_storage n)) = Inr n'
     \<Longrightarrow> net_step ops reopen cfg de c (net_update i n' {} c)"

text \<open>Every node starts from its backend; no message is under way.\<close>

definition net_start ::
  "'s storage_ops \<Rightarrow> (node_id \<Rightarrow> raft_config) \<Rightarrow> node_id list \<Rightarrow> 's \<Rightarrow> 's net \<Rightarrow> bool" where
  "net_start ops cfg voters s0 c \<longleftrightarrow> net_msgs c = {}
     \<and> (\<forall>i. (if i \<in> set voters then \<exists>g n. net_nodes c i = Some n \<and> node_open ops g (cfg i) s0 = Inr n
             else net_nodes c i = None))"

inductive net_reach ::
  "'s storage_ops \<Rightarrow> ('s \<Rightarrow> 's) \<Rightarrow> (node_id \<Rightarrow> raft_config) \<Rightarrow> conf_decoder \<Rightarrow> node_id list \<Rightarrow> 's \<Rightarrow> 's net \<Rightarrow> bool"
  for ops reopen cfg de voters s0 where
  reach_start: "net_start ops cfg voters s0 c \<Longrightarrow> net_reach ops reopen cfg de voters s0 c"
| reach_step: "net_reach ops reopen cfg de voters s0 c \<Longrightarrow> net_step ops reopen cfg de c c'
     \<Longrightarrow> net_reach ops reopen cfg de voters s0 c'"

definition config_for :: "node_id list \<Rightarrow> (node_id \<Rightarrow> raft_config) \<Rightarrow> bool" where
  "config_for voters cfg \<longleftrightarrow> (\<forall>i \<in> set voters. cfg_id (cfg i) = i \<and> cfg_voters (cfg i) = voters)"

section \<open>Supporters\<close>

text \<open>
  \<open>v\<close> has voted for \<open>i\<close> in term \<open>t\<close>, or has left that term. Terms saturate at \<^verbatim>\<open>u64::MAX\<close>, where
  a new election does not start a new term: nothing is said of the last term.
\<close>

definition supports :: "'s net \<Rightarrow> node_id \<Rightarrow> node_id \<Rightarrow> raft_term \<Rightarrow> bool" where
  "supports c v i t \<longleftrightarrow> t \<noteq> - 1 \<longrightarrow> (\<exists>n. net_nodes c v = Some n \<and>
     (t < r_term (n_raft n) \<or> t = r_term (n_raft n) \<and> voted_for (r_hard (n_raft n)) = Some i))"

definition sound_message :: "conf_decoder \<Rightarrow> 's net \<Rightarrow> node_id \<Rightarrow> node_id \<Rightarrow> rpc_message \<Rightarrow> bool" where
  "sound_message de c src dst m \<longleftrightarrow> (case m of
     RequestVoteResp resp \<Rightarrow> rvr_granted resp \<longrightarrow> supports c src dst (rvr_term resp)
   | _ \<Rightarrow> own_message de src m)"

definition granted :: "'s net \<Rightarrow> node_id \<Rightarrow> node_id \<Rightarrow> raft_term \<Rightarrow> bool" where
  "granted c v i t \<longleftrightarrow> (\<exists>resp. (v, i, RequestVoteResp resp) \<in> net_msgs c \<and> rvr_granted resp \<and> rvr_term resp = t)"

text \<open>A vote a candidate counts is its own, or one that was granted in a message.\<close>

definition backed :: "'s net \<Rightarrow> node_id \<Rightarrow> node_id \<Rightarrow> raft \<Rightarrow> bool" where
  "backed c v i r \<longleftrightarrow> r_term r \<noteq> - 1 \<longrightarrow>
     (if v = i then voted_for (r_hard r) = Some i else granted c v i (r_term r))"

definition sound_node :: "conf_decoder \<Rightarrow> node_id list \<Rightarrow> 's net \<Rightarrow> node_id \<Rightarrow> raft \<Rightarrow> bool" where
  "sound_node de voters c i r \<longleftrightarrow> i \<in> set voters \<and> r_id r = i \<and> r_voters r = voters \<and> plain_log de (r_log r)
     \<and> distinct (r_votes r) \<and> set (r_votes r) \<subseteq> set voters
     \<and> (r_role r = Leader \<longrightarrow> quorum (r_config r) \<le> length (r_votes r))
     \<and> (r_role r \<noteq> Follower \<longrightarrow> (\<forall>v \<in> set (r_votes r). backed c v i r))"

text \<open>The message a node sends in the state it ends in.\<close>

definition fresh_message :: "conf_decoder \<Rightarrow> raft \<Rightarrow> node_id \<Rightarrow> node_id \<Rightarrow> rpc_message \<Rightarrow> bool" where
  "fresh_message de r i dst m \<longleftrightarrow> (case m of
     RequestVoteResp resp \<Rightarrow> rvr_granted resp \<longrightarrow>
       rvr_term resp = r_term r \<and> voted_for (r_hard r) = Some dst
   | _ \<Rightarrow> own_message de i m)"

text \<open>A step of one node loses no support: terms grow, and a vote of a term stays.\<close>

lemma supports_update:
  assumes "supports c v j t" "net_nodes c i = Some n" "elects S (n_raft n) (n_raft n')"
  shows "supports (net_update i n' ms c) v j t"
proof (cases "v = i \<and> t \<noteq> - 1")
  case False
  with assms(1) show ?thesis by (auto simp: supports_def net_update_def)
next
  case True
  let ?r = "n_raft n" and ?r' = "n_raft n'"
  have le: "r_term ?r \<le> r_term ?r'"
    and keep: "r_term ?r' \<noteq> - 1 \<Longrightarrow> r_term ?r' = r_term ?r \<Longrightarrow>
      voted_for (r_hard ?r) = None \<or> voted_for (r_hard ?r') = voted_for (r_hard ?r)"
    using assms(3) by (simp_all add: elects_def)
  have "t < r_term ?r \<or> t = r_term ?r \<and> voted_for (r_hard ?r) = Some j"
    using assms(1,2) True by (auto simp: supports_def)
  then have "t < r_term ?r' \<or> t = r_term ?r' \<and> voted_for (r_hard ?r') = Some j"
  proof
    assume "t < r_term ?r"
    then have "t < r_term ?r'" using le by (rule order_less_le_trans)
    then show ?thesis ..
  next
    assume v: "t = r_term ?r \<and> voted_for (r_hard ?r) = Some j"
    show ?thesis
    proof (cases "r_term ?r' = r_term ?r")
      case True
      with keep v \<open>v = i \<and> t \<noteq> - 1\<close> show ?thesis by auto
    next
      case False
      with le v show ?thesis by (simp add: order_less_le)
    qed
  qed
  with True show ?thesis by (auto simp: supports_def net_update_def)
qed

lemma sound_message_update:
  "sound_message de c src dst m \<Longrightarrow> net_nodes c i = Some n \<Longrightarrow> elects S (n_raft n) (n_raft n')
     \<Longrightarrow> sound_message de (net_update i n' ms c) src dst m"
  using supports_update [of c src dst _ i n S n' ms]
  by (auto simp: sound_message_def split: rpc_message.splits)

lemma granted_update: "granted c v i t \<Longrightarrow> granted (net_update k n ms c) v i t"
  by (auto simp: granted_def net_update_def)

lemma backed_update: "backed c v i r \<Longrightarrow> backed (net_update k n ms c) v i r"
  using granted_update [of c v i "r_term r" k n ms] by (simp add: backed_def split: if_splits)

lemma sound_node_update: "sound_node de voters c j r \<Longrightarrow> sound_node de voters (net_update i n ms c) j r"
  using backed_update [of c _ j r i n ms] by (simp add: sound_node_def)

text \<open>The stepping node itself: the votes it counts are backed.\<close>

lemma sound_node_self:
  assumes "sound_node de voters c i (n_raft n)"
    and "elects S (n_raft n) (n_raft n')" "plain_log de (r_log (n_raft n'))"
    and "\<And>v. v \<in> S \<Longrightarrow> v \<in> set voters \<and> backed c v i (n_raft n)"
  shows "sound_node de voters (net_update i n' ms c) i (n_raft n')"
proof -
  let ?r = "n_raft n" and ?r' = "n_raft n'"
  have r: "i \<in> set voters" "r_id ?r = i" "r_voters ?r = voters" "distinct (r_votes ?r)"
      "set (r_votes ?r) \<subseteq> set voters"
      "r_role ?r = Leader \<Longrightarrow> quorum (r_config ?r) \<le> length (r_votes ?r)"
      "\<And>v. r_role ?r \<noteq> Follower \<Longrightarrow> v \<in> set (r_votes ?r) \<Longrightarrow> backed c v i ?r"
    using assms(1) by (simp_all add: sound_node_def)
  have e: "r_id ?r' = i \<and> r_voters ?r' = voters" "distinct (r_votes ?r')"
      "set (r_votes ?r') \<subseteq> set (r_votes ?r) \<union> S \<union> {i}"
      "r_role ?r' = Leader \<Longrightarrow> (r_role ?r = Leader \<and> r_votes ?r' = r_votes ?r)
         \<or> quorum (r_config ?r) \<le> length (r_votes ?r')"
      "r_term ?r' \<noteq> - 1 \<Longrightarrow> r_term ?r' = r_term ?r \<Longrightarrow>
         voted_for (r_hard ?r) = None \<or> voted_for (r_hard ?r') = voted_for (r_hard ?r)"
    using assms(2) r(2,3,4) by (simp_all add: elects_def)
  have "backed (net_update i n' ms c) v i ?r'"
    if role: "r_role ?r' \<noteq> Follower" and v: "v \<in> set (r_votes ?r')" for v
  proof -
    from role assms(2) r(2) have "(r_role ?r \<noteq> Follower \<and> r_term ?r' = r_term ?r \<and> set (r_votes ?r') \<subseteq> set (r_votes ?r) \<union> S)
        \<or> (r_votes ?r' = [i] \<and> voted_for (r_hard ?r') = Some i)"
      by (simp add: elects_def)
    then show ?thesis
    proof
      assume *: "r_role ?r \<noteq> Follower \<and> r_term ?r' = r_term ?r \<and> set (r_votes ?r') \<subseteq> set (r_votes ?r) \<union> S"
      with v r(7) assms(4) have "backed c v i ?r" by blast
      with * e(5) granted_update [of c v i "r_term ?r" i n' ms] show ?thesis
        by (auto simp: backed_def)
    next
      assume "r_votes ?r' = [i] \<and> voted_for (r_hard ?r') = Some i"
      with v show ?thesis by (auto simp: backed_def)
    qed
  qed
  moreover have "set (r_votes ?r') \<subseteq> set voters" using e(3) r(1,5) assms(4) by blast
  moreover have "r_role ?r' = Leader \<longrightarrow> quorum (r_config ?r') \<le> length (r_votes ?r')"
    using e(1,4) r(3,6) by (auto simp: quorum_def)
  ultimately show ?thesis using r(1-3) e(1,2) assms(3) by (simp add: sound_node_def)
qed

lemma sound_leader:
  "sound_node de voters c i r \<Longrightarrow> r_role r = Leader \<Longrightarrow>
     set (r_votes r) \<subseteq> set voters \<and> length voters div 2 + 1 \<le> card (set (r_votes r))"
  by (auto simp: sound_node_def quorum_def distinct_card)

lemma own_message_fresh: "own_message de i m \<Longrightarrow> fresh_message de r i dst m"
  by (cases m) (simp_all add: fresh_message_def)

lemma fresh_message_sound:
  "fresh_message de (n_raft n) i dst m \<Longrightarrow> sound_message de (net_update i n ms c) i dst m"
  by (cases m) (auto simp: fresh_message_def sound_message_def supports_def net_update_def)

lemma sent_by_fresh:
  assumes "own_sends de r acts" "r_id r = i" "(src, dst, m) \<in> sent_by i (action_sends acts)"
  shows "src = i \<and> fresh_message de r' src dst m"
  using assms own_sendsD [OF assms(1), of dst m]
  by (auto simp: sent_by_def in_action_sends intro: own_message_fresh)

lemma executed_plain: "plain_log de (r_log r) \<Longrightarrow> plain_log de (r_log (executed acts r))"
proof -
  have "plain_log de l \<Longrightarrow> plain_log de (fold memory_log acts l)" for l
  proof (induction acts arbitrary: l)
    case (Cons a acts)
    then show ?case by (cases a) simp_all
  qed simp
  then show "plain_log de (r_log r) \<Longrightarrow> plain_log de (r_log (executed acts r))" by (simp add: executed_def)
qed

section \<open>The invariant\<close>

context raft_store
begin

definition net_inv :: "conf_decoder \<Rightarrow> node_id list \<Rightarrow> 's net \<Rightarrow> bool" where
  "net_inv de voters c \<longleftrightarrow>
     (\<forall>i n. net_nodes c i = Some n \<longrightarrow> node_ok n \<and> sound_node de voters c i (n_raft n))
     \<and> (\<forall>src dst m. (src, dst, m) \<in> net_msgs c \<longrightarrow> src \<in> set voters \<and> sound_message de c src dst m)
     \<and> (\<forall>v i j t. t \<noteq> - 1 \<longrightarrow> granted c v i t \<longrightarrow> granted c v j t \<longrightarrow> i = j)"

lemma net_inv_node:
  "net_inv de voters c \<Longrightarrow> net_nodes c i = Some n \<Longrightarrow> node_ok n \<and> sound_node de voters c i (n_raft n)"
  by (simp add: net_inv_def)

lemma net_inv_granted:
  assumes "net_inv de voters c" "granted c v i t"
  shows "supports c v i t"
  using assms unfolding net_inv_def granted_def
  by (metis (no_types, lifting) rpc_message.simps(66) sound_message_def)

lemma net_inv_unique:
  "net_inv de voters c \<Longrightarrow> granted c v i t \<Longrightarrow> granted c v j t \<Longrightarrow> t \<noteq> - 1 \<Longrightarrow> i = j"
  unfolding net_inv_def by blast

lemma net_inv_update:
  assumes inv: "net_inv de voters c" and n: "net_nodes c i = Some n" and ok: "node_ok n'"
    and e: "elects S (n_raft n) (n_raft n')" and p: "plain_log de (r_log (n_raft n'))"
    and S: "\<And>v. v \<in> S \<Longrightarrow> v \<in> set voters \<and> backed c v i (n_raft n)"
    and ms: "\<And>src dst m. (src, dst, m) \<in> ms \<Longrightarrow> src = i \<and> fresh_message de (n_raft n') src dst m"
  shows "net_inv de voters (net_update i n' ms c)"
proof -
  let ?c = "net_update i n' ms c"
  note sound = net_inv_node [OF inv n]
  have nodes: "node_ok k \<and> sound_node de voters ?c j (n_raft k)" if k: "net_nodes ?c j = Some k" for j k
  proof (cases "j = i")
    case True
    with k have "k = n'" by (simp add: net_update_def)
    with True ok sound_node_self [OF conjunct2 [OF sound] e p S] show ?thesis by simp
  next
    case False
    with k have "net_nodes c j = Some k" by (simp add: net_update_def)
    from net_inv_node [OF inv this] sound_node_update show ?thesis by blast
  qed
  have msgs: "src \<in> set voters \<and> sound_message de ?c src dst m" if m: "(src, dst, m) \<in> net_msgs ?c" for src dst m
  proof (cases "(src, dst, m) \<in> ms")
    case True
    with ms [OF True] sound fresh_message_sound [of de n' i dst m ms c] show ?thesis
      by (auto simp: sound_node_def)
  next
    case False
    with m have "(src, dst, m) \<in> net_msgs c" by (simp add: net_update_def)
    with inv have "src \<in> set voters \<and> sound_message de c src dst m" by (simp add: net_inv_def)
    with sound_message_update [OF _ n e] show ?thesis by blast
  qed
  have new: "v = i \<and> t = r_term (n_raft n') \<and> voted_for (r_hard (n_raft n')) = Some j"
    if g: "granted ?c v j t" and o: "\<not> granted c v j t" for v j t
  proof -
    obtain resp where r: "(v, j, RequestVoteResp resp) \<in> ms" "rvr_granted resp" "rvr_term resp = t"
      using g o by (auto simp: granted_def net_update_def)
    from ms [OF r(1)] r(2,3) show ?thesis by (simp add: fresh_message_def)
  qed
  have sup: "supports ?c v j t" if g: "granted ?c v j t" for v j t
  proof -
    obtain resp where r: "(v, j, RequestVoteResp resp) \<in> net_msgs ?c" "rvr_granted resp" "rvr_term resp = t"
      using g by (auto simp: granted_def)
    from msgs [OF r(1)] r(2,3) show ?thesis by (simp add: sound_message_def)
  qed
  have known: "voted_for (r_hard (n_raft n')) = Some j"
    if "granted ?c i j t" "t = r_term (n_raft n')" "t \<noteq> - 1" for j t
    using sup [OF that(1)] that(2,3) by (simp add: supports_def net_update_def)
  have "j = k" if g: "granted ?c v j t" "granted ?c v k t" and t: "t \<noteq> - 1" for v j k t
  proof (cases "granted c v j t \<and> granted c v k t")
    case True
    with net_inv_unique [OF inv] t show ?thesis by blast
  next
    case False
    then have "v = i \<and> t = r_term (n_raft n')" using new [OF g(1)] new [OF g(2)] by blast
    with known [of j t] known [of k t] g t show ?thesis by simp
  qed
  with nodes msgs show ?thesis unfolding net_inv_def by blast
qed

lemma net_inv_local:
  assumes inv: "net_inv de voters c" and n: "net_nodes c i = Some n"
    and x: "exec ops (r, acts) n = (n', Inr out)" and sv: "saved (n_raft n) (r, acts)"
    and a: "applied_all (r_hard r)" "r_log r \<noteq> []"
    and e: "elects {} (n_raft n) r" "own_sends de (n_raft n) acts" "plain_log de (r_log r)"
  shows "net_inv de voters (net_update i n' (sent_by i out) c)"
proof -
  note sound = net_inv_node [OF inv n]
  obtain n1 where n1: "exec ops (r, acts) n = (n1, Inr (action_sends acts))" "node_ok n1"
      "n_raft n1 = executed acts r"
    using exec_persisted [OF conjunct1 [OF sound] sv a] by blast
  with x have eq: "n' = n1" "out = action_sends acts" by simp_all
  have "r_id (n_raft n) = i" using sound by (simp add: sound_node_def)
  then have "src = i \<and> fresh_message de (n_raft n') src dst m"
    if "(src, dst, m) \<in> sent_by i out" for src dst m
    using sent_by_fresh [OF e(2) _ that [unfolded eq]] by blast
  moreover have "plain_log de (r_log (n_raft n'))"
    using e(3) n1(3) by (simp add: eq executed_plain)
  ultimately show ?thesis
    using n1(2,3) e(1) by (intro net_inv_update [OF inv n, of n' "{}"]) (auto simp: eq elects_executed)
qed

lemma net_inv_tick:
  assumes inv: "net_inv de voters c" and n: "net_nodes c i = Some n"
    and x: "node_tick ops g ms n = (n', Inr out)"
  shows "net_inv de voters (net_update i n' (sent_by i out) c)"
proof -
  have sound: "node_ok n" "plain_log de (r_log (n_raft n))"
    using net_inv_node [OF inv n] by (simp_all add: sound_node_def)
  obtain r acts where t: "tick g ms (n_raft n) = (r, acts)" by (cases "tick g ms (n_raft n)")
  obtain r1 a1 where c: "become_candidate g (n_raft n) = (r1, a1)" by (cases "become_candidate g (n_raft n)")
  have "applied_all (r_hard r) \<and> r_log r \<noteq> []"
    using t sound(1) become_candidate_frame(3,7) [OF c]
    by (auto simp: tick_def start_election_def c Let_def node_ok_def applied_all_def split: if_splits)
  with tick_elects [OF t sound(2)] tick_saved [of "n_raft n" g ms] x t show ?thesis
    by (intro net_inv_local [OF inv n, of r acts]) (simp_all add: node_tick_def)
qed

lemma net_inv_client:
  assumes inv: "net_inv de voters c" and n: "net_nodes c i = Some n"
    and x: "node_client ops req n = (n', Inr out)"
    and req: "\<And>r acts. req (n_raft n) = Inr (r, acts) \<Longrightarrow> saved (n_raft n) (r, acts)
        \<and> r_hard r = r_hard (n_raft n) \<and> r_log r \<noteq> []
        \<and> elects {} (n_raft n) r \<and> own_sends de (n_raft n) acts \<and> plain_log de (r_log r)"
  shows "net_inv de voters (net_update i n' (sent_by i out) c)"
proof (cases "req (n_raft n)")
  case (Inl e)
  with x show ?thesis by (simp add: node_client_def)
next
  case (Inr ra)
  then obtain r acts where ra: "req (n_raft n) = Inr (r, acts)" by (cases ra) auto
  have "applied_all (r_hard (n_raft n))" using net_inv_node [OF inv n] by (simp add: node_ok_def)
  with x ra req [OF ra] show ?thesis
    by (intro net_inv_local [OF inv n, of r acts]) (simp_all add: node_client_def)
qed

lemma net_inv_propose:
  assumes inv: "net_inv de voters c" and n: "net_nodes c i = Some n" and cmd: "decode_conf_change de cmd = None"
    and len: "length (r_log (n_raft n)) \<le> u64_max" and x: "node_propose ops cmd n = (n', Inr out)"
  shows "net_inv de voters (net_update i n' (sent_by i out) c)"
proof (rule net_inv_client [OF inv n x [unfolded node_propose_def]])
  fix r acts assume r: "propose cmd (n_raft n) = Inr (r, acts)"
  have sound: "r_log (n_raft n) \<noteq> []" "plain_log de (r_log (n_raft n))"
    using net_inv_node [OF inv n] by (simp_all add: sound_node_def node_ok_def)
  have "r_hard r = r_hard (n_raft n) \<and> r_log r \<noteq> []"
    using r by (auto simp: propose_def log_append_def Let_def split: if_splits)
  with propose_saved [OF r sound(1) len] propose_elects [OF r sound(2) cmd]
  show "saved (n_raft n) (r, acts) \<and> r_hard r = r_hard (n_raft n) \<and> r_log r \<noteq> []
      \<and> elects {} (n_raft n) r \<and> own_sends de (n_raft n) acts \<and> plain_log de (r_log r)"
    by blast
qed

lemma net_inv_read:
  assumes inv: "net_inv de voters c" and n: "net_nodes c i = Some n"
    and len: "length (r_log (n_raft n)) \<le> u64_max" and x: "node_read_index ops rid n = (n', Inr out)"
  shows "net_inv de voters (net_update i n' (sent_by i out) c)"
proof (rule net_inv_client [OF inv n x [unfolded node_read_index_def]])
  fix r acts assume r: "read_index rid (n_raft n) = Inr (r, acts)"
  have sound: "r_log (n_raft n) \<noteq> []" "plain_log de (r_log (n_raft n))"
    using net_inv_node [OF inv n] by (simp_all add: sound_node_def node_ok_def)
  have "r_hard r = r_hard (n_raft n) \<and> r_log r \<noteq> []"
    using r by (auto simp: read_index_def log_append_def Let_def split: if_splits)
  with read_index_saved [OF r sound(1) len] read_index_elects [OF r sound(2)]
  show "saved (n_raft n) (r, acts) \<and> r_hard r = r_hard (n_raft n) \<and> r_log r \<noteq> []
      \<and> elects {} (n_raft n) r \<and> own_sends de (n_raft n) acts \<and> plain_log de (r_log r)"
    by blast
qed

lemma net_inv_deliver:
  assumes inv: "net_inv de voters c" and m': "(src, i, m) \<in> net_msgs c" and n: "net_nodes c i = Some n"
    and x: "node_step ops g de src m n = (n', Inr (resp, out))"
  shows "net_inv de voters (net_update i n' (sent_by i out \<union> answer_by i src resp) c)"
proof -
  have sound: "node_ok n" "plain_log de (r_log (n_raft n))" "applied_all (r_hard (n_raft n))"
      "r_log (n_raft n) \<noteq> []" "r_id (n_raft n) = i"
    using net_inv_node [OF inv n] by (simp_all add: sound_node_def node_ok_def)
  have src: "src \<in> set voters" "sound_message de c src i m" using inv m' by (auto simp: net_inv_def)
  have msg: "whole_message m" "\<And>req. m = AppendEntries req \<Longrightarrow> plain_log de (ae_entries req)"
    using src(2) by (cases m; simp add: sound_message_def)+
  obtain r rp acts where d: "node_dispatch g de src m (n_raft n) = (r, rp, acts)"
    by (cases "node_dispatch g de src m (n_raft n)")
  note sv = node_dispatch_saved [OF d sound(3,4) msg(1)]
  note el = node_dispatch_elects [OF d sound(2) msg(2)]
  obtain n1 where n1: "exec ops (r, acts) n = (n1, Inr (action_sends acts))" "node_ok n1" "n_raft n1 = executed acts r"
    using exec_persisted [OF sound(1)] sv by blast
  have eq: "n' = n1" "out = action_sends acts" "resp = rp"
    using x by (simp_all add: node_step_def d n1(1))
  show ?thesis
  proof (rule net_inv_update [OF inv n, of n' "counted_votes src m (n_raft n)"])
    show "node_ok n'" "elects (counted_votes src m (n_raft n)) (n_raft n) (n_raft n')"
      "plain_log de (r_log (n_raft n'))"
      using n1 el by (simp_all add: eq elects_executed executed_plain)
    show "v \<in> set voters \<and> backed c v i (n_raft n)" if v: "v \<in> counted_votes src m (n_raft n)" for v
    proof -
      obtain rr where rr: "m = RequestVoteResp rr" "rvr_granted rr" "rvr_term rr = r_term (n_raft n)" "v = src"
        using v by (cases m) (auto split: if_splits)
      then have g: "granted c v i (r_term (n_raft n))" using m' by (auto simp: granted_def)
      have "voted_for (r_hard (n_raft n)) = Some i" if "v = i" "r_term (n_raft n) \<noteq> - 1"
        using net_inv_granted [OF inv g] that n by (simp add: supports_def)
      with g rr(4) src(1) show ?thesis by (simp add: backed_def)
    qed
    show "s = i \<and> fresh_message de (n_raft n') s dst k"
      if k: "(s, dst, k) \<in> sent_by i out \<union> answer_by i src resp" for s dst k
    proof (cases "(s, dst, k) \<in> sent_by i out")
      case True
      then show ?thesis using sent_by_fresh [OF _ sound(5) True [unfolded eq]] el by blast
    next
      case False
      then have ans: "s = i" "dst = src" "resp = Some k"
        using k by (auto simp: answer_by_def split: option.splits)
      then have "own_answer m r k" using el eq(3) by auto
      moreover have "r_hard (n_raft n') = r_hard r" by (simp add: eq(1) n1(3))
      ultimately show ?thesis
        using src(2) ans
        by (cases m; cases k) (auto simp: sound_message_def fresh_message_def)
    qed
  qed
qed

lemma net_inv_restart:
  assumes inv: "net_inv de voters c" and n: "net_nodes c i = Some n" and cfg: "config_for voters cfg"
    and x: "node_open ops g (cfg i) (reopened (n_storage n)) = Inr n'"
  shows "net_inv de voters (net_update i n' {} c)"
proof -
  have sound: "node_ok n" "plain_log de (r_log (n_raft n))" "i \<in> set voters"
      "r_id (n_raft n) = i" "r_voters (n_raft n) = voters"
    using net_inv_node [OF inv n] by (simp_all add: sound_node_def)
  have p: "invar (n_storage n)" "invar (reopened (n_storage n))" "hard_of (reopened (n_storage n)) = r_hard (n_raft n)"
      "log_of (reopened (n_storage n)) = r_log (n_raft n)"
    using sound(1) by (simp_all add: node_ok_def persisted_def)
  have n': "n_raft n' = raft_new g (cfg i) (r_hard (n_raft n)) (r_log (n_raft n))"
      "n_storage n' = reopened (n_storage n)"
    using x load_hard [OF p(2)] load_log [OF p(2)] p by (auto simp: node_open_def)
  have e: "elects {} (n_raft n) (n_raft n')"
    using cfg sound(3-5) by (simp add: n' raft_new_def elects_def soft_default_def config_for_def)
  moreover have "node_ok n'"
    using sound(1) p reopen_again [OF p(1)]
    by (simp add: node_ok_def persisted_def n' raft_new_def)
  ultimately show ?thesis
    using sound(2) by (intro net_inv_update [OF inv n, of n' "{}"]) (simp_all add: n' raft_new_def)
qed

lemma net_inv_step:
  "net_step ops reopened cfg de c c' \<Longrightarrow> config_for voters cfg \<Longrightarrow> net_inv de voters c \<Longrightarrow> net_inv de voters c'"
  by (induction rule: net_step.induct)
    (blast intro: net_inv_tick net_inv_deliver net_inv_propose net_inv_read net_inv_restart)+

text \<open>A backend to start from: it reopens to itself, holds ordinary entries and nothing to apply.\<close>

definition fresh_store :: "conf_decoder \<Rightarrow> 's \<Rightarrow> bool" where
  "fresh_store de s \<longleftrightarrow> invar s \<and> invar (reopened s) \<and> hard_of (reopened s) = hard_of s
     \<and> log_of (reopened s) = log_of s \<and> applied_all (hard_of s) \<and> log_of s \<noteq> [] \<and> plain_log de (log_of s)"

lemma net_inv_start:
  assumes "net_start ops cfg voters s0 c" "config_for voters cfg" "fresh_store de s0"
  shows "net_inv de voters c"
proof -
  have "node_ok n \<and> sound_node de voters c i (n_raft n)" if n: "net_nodes c i = Some n" for i n
  proof -
    have i: "i \<in> set voters" using assms(1) n by (auto simp: net_start_def split: if_splits)
    obtain g where "node_open ops g (cfg i) s0 = Inr n"
      using assms(1) n i unfolding net_start_def by (metis option.inject)
    then have "n = \<lparr>n_raft = raft_new g (cfg i) (hard_of s0) (log_of s0), n_storage = s0, n_applied = []\<rparr>"
      using assms(3) load_hard [of s0] load_log [of s0] by (simp add: node_open_def fresh_store_def)
    with i assms(2,3) show ?thesis
      by (simp add: node_ok_def persisted_def sound_node_def raft_new_def soft_default_def
          config_for_def fresh_store_def)
  qed
  moreover have "net_msgs c = {}" using assms(1) by (simp add: net_start_def)
  ultimately show ?thesis by (simp add: net_inv_def granted_def)
qed

lemma net_inv_reach:
  "net_reach ops reopened cfg de voters s0 c \<Longrightarrow> config_for voters cfg \<Longrightarrow> fresh_store de s0
     \<Longrightarrow> net_inv de voters c"
  by (induction rule: net_reach.induct) (blast intro: net_inv_start net_inv_step)+

lemma one_leader:
  assumes inv: "net_inv de voters c" and i: "net_nodes c i = Some n" and j: "net_nodes c j = Some k"
    and lead: "r_role (n_raft n) = Leader" "r_role (n_raft k) = Leader"
    and t: "r_term (n_raft n) = r_term (n_raft k)" "r_term (n_raft k) \<noteq> - 1"
  shows "i = j"
proof -
  have si: "sound_node de voters c i (n_raft n)" using net_inv_node [OF inv i] by blast
  have sj: "sound_node de voters c j (n_raft k)" using net_inv_node [OF inv j] by blast
  have "set (r_votes (n_raft n)) \<inter> set (r_votes (n_raft k)) \<noteq> {}"
    using sound_leader [OF si lead(1)] sound_leader [OF sj lead(2)]
    by (intro quorums_intersect [of _ voters]) blast+
  then obtain v where v: "v \<in> set (r_votes (n_raft n))" "v \<in> set (r_votes (n_raft k))" by blast
  have b: "backed c v i (n_raft n)" "backed c v j (n_raft k)"
    using si sj lead v by (simp_all add: sound_node_def)
  have self: "x = y" if g: "granted c x y (r_term (n_raft w))" and x: "net_nodes c x = Some w"
    and vote: "voted_for (r_hard (n_raft w)) = Some x" and tw: "r_term (n_raft w) \<noteq> - 1" for x y w
    using net_inv_granted [OF inv g] x vote tw by (simp add: supports_def)
  have ti: "r_term (n_raft n) \<noteq> - 1" using t by simp
  show ?thesis
  proof (rule ccontr)
    assume ne: "i \<noteq> j"
    have "v \<noteq> i"
    proof
      assume vi: "v = i"
      then have "granted c i j (r_term (n_raft n))" "voted_for (r_hard (n_raft n)) = Some i"
        using b t ti ne by (simp_all add: backed_def)
      from self [OF this(1) i this(2) ti] ne show False by simp
    qed
    moreover have "v \<noteq> j"
    proof
      assume vj: "v = j"
      then have "granted c j i (r_term (n_raft k))" "voted_for (r_hard (n_raft k)) = Some j"
        using b t ti ne by (simp_all add: backed_def)
      from self [OF this(1) j this(2) t(2)] ne show False by simp
    qed
    ultimately have "granted c v i (r_term (n_raft k))" "granted c v j (r_term (n_raft k))"
      using b t ti by (simp_all add: backed_def)
    from net_inv_unique [OF inv this t(2)] ne show False by simp
  qed
qed

end

section \<open>Election safety\<close>

lemma file_fresh_store:
  assumes "raft_codec_ok codec" "file_open crc codec raft_dir_empty = Inr s0"
  shows "raft_store.fresh_store (file_reopened crc codec) (file_inv crc codec) f_hard f_log de s0"
proof -
  have s0: "s0 = \<lparr>f_dir = raft_dir_empty, f_hard = hard_default, f_log = raft_log_new,
       f_snapshot = None, f_dirty = False\<rparr>"
    using assms(2) by (simp add: file_open_def file_reload_def raft_dir_empty_def)
  then have "file_reopened crc codec s0 = s0" using assms(2) by (simp add: file_reopened_def)
  with file_open_inv [OF assms(2)] s0 show ?thesis
    by (simp add: raft_store.fresh_store_def [OF file_store [OF assms(1)]] applied_all_def
        hard_default_def raft_log_new_def)
qed

text \<open>
  C1. Election safety. Nodes with the file backend run over a network that loses, delays, reorders
  and duplicates messages; they tick, receive messages, take proposals and reads, crash and
  restart from their files, in any order. Then a term has at most one leader: two nodes that lead
  in the same term are the same node. The last term \<^verbatim>\<open>u64::MAX\<close> is the exception the code has:
  there a new election cannot start a new term.
\<close>

theorem raft_election_safety:
  assumes "raft_codec_ok codec" "file_open crc codec raft_dir_empty = Inr s0" "config_for voters cfg"
    and "net_reach (file_ops crc codec) (file_reopened crc codec) cfg de voters s0 c"
    and "net_nodes c i = Some n" "r_role (n_raft n) = Leader"
    and "net_nodes c j = Some k" "r_role (n_raft k) = Leader"
    and "r_term (n_raft n) = r_term (n_raft k)" "r_term (n_raft k) \<noteq> - 1"
  shows "i = j"
proof -
  note store = file_store [OF assms(1), of crc]
  have "raft_store.net_inv (file_reopened crc codec) (file_inv crc codec) f_hard f_log de voters c"
    by (rule raft_store.net_inv_reach [OF store assms(4,3) file_fresh_store [OF assms(1,2)]])
  from raft_store.one_leader [OF store this assms(5,7,6,8,9,10)] show ?thesis .
qed

text \<open>Three voters; node 1 times out, node 2 grants its vote, node 1 leads term 1.\<close>

definition tri_config :: "node_id \<Rightarrow> raft_config" where
  "tri_config i = \<lparr>cfg_id = i, cfg_voters = [1, 2, 3], election_timeout_min = 10, election_timeout_max = 10,
     heartbeat_interval = 5, max_append_batch = 8, max_pipeline_bytes = 64, cfg_auth = []\<rparr>"

definition tri_store :: file_storage where
  "tri_store = \<lparr>f_dir = raft_dir_empty, f_hard = hard_default, f_log = raft_log_new,
     f_snapshot = None, f_dirty = False\<rparr>"

definition tri_node :: "node_id \<Rightarrow> file_storage raft_node" where
  "tri_node i = \<lparr>n_raft = raft_new (\<lambda>lo hi. lo) (tri_config i) hard_default raft_log_new,
     n_storage = tri_store, n_applied = []\<rparr>"

definition tri_request :: rpc_message where
  "tri_request = RequestVote \<lparr>rv_term = 1, rv_candidate_id = 1, rv_last_log_index = 0, rv_last_log_term = 0\<rparr>"

definition tri_grant :: rpc_message where
  "tri_grant = RequestVoteResp \<lparr>rvr_term = 1, rvr_granted = True\<rparr>"

definition "tri_candidate = fst (node_tick solo_ops (\<lambda>lo hi. lo) 10 (tri_node 1))"

definition "tri_voter = fst (node_step solo_ops (\<lambda>lo hi. lo) (\<lambda>bs. None) 1 tri_request (tri_node 2))"

definition "tri_leader = fst (node_step solo_ops (\<lambda>lo hi. lo) (\<lambda>bs. None) 2 tri_grant tri_candidate)"

lemmas tri_eval = solo_eval tri_config_def tri_node_def tri_store_def tri_request_def tri_grant_def
  node_step_def node_dispatch_def raft_step_def handle_request_vote_def become_follower_def
  log_is_up_to_date_def step_vote_response_def append_to_peer_def fresh_progress_def

lemma tri_candidate_eq:
  "node_tick solo_ops (\<lambda>lo hi. lo) 10 (tri_node 1) = (tri_candidate, Inr [(2, tri_request), (3, tri_request)])"
  "r_role (n_raft tri_candidate) = Candidate" "r_term (n_raft tri_candidate) = 1"
  "r_votes (n_raft tri_candidate) = [1]" "r_config (n_raft tri_candidate) = tri_config 1"
  "r_log (n_raft tri_candidate) = raft_log_new"
  by (simp_all add: tri_candidate_def tri_eval Let_def last_index_def term_at_def)

lemma tri_voter_eq:
  "node_step solo_ops (\<lambda>lo hi. lo) (\<lambda>bs. None) 1 tri_request (tri_node 2) = (tri_voter, Inr (Some tri_grant, []))"
  "r_role (n_raft tri_voter) = Follower"
  by (simp_all add: tri_voter_def tri_eval Let_def last_index_def term_at_def)

lemma tri_leader_eq:
  "\<exists>out. node_step solo_ops (\<lambda>lo hi. lo) (\<lambda>bs. None) 2 tri_grant tri_candidate = (tri_leader, Inr (None, out))"
  "r_role (n_raft tri_leader) = Leader" "r_term (n_raft tri_leader) = 1"
  by (simp_all add: tri_leader_def tri_candidate_def tri_eval Let_def last_index_def term_at_def)

definition tri_start :: "file_storage net" where
  "tri_start = \<lparr>net_nodes = [1 \<mapsto> tri_node 1, 2 \<mapsto> tri_node 2, 3 \<mapsto> tri_node 3], net_msgs = {}\<rparr>"

lemma tri_reach:
  "\<exists>c. net_reach solo_ops (file_reopened (\<lambda>bs. 0) sample_codec) tri_config (\<lambda>bs. None) [1, 2, 3] tri_store c
     \<and> net_nodes c = [1 \<mapsto> tri_leader, 2 \<mapsto> tri_voter, 3 \<mapsto> tri_node 3]"
proof -
  let ?reach = "net_reach solo_ops (file_reopened (\<lambda>bs. 0) sample_codec) tri_config (\<lambda>bs. None) [1, 2, 3] tri_store"
  have "node_open solo_ops (\<lambda>lo hi. lo) (tri_config i) tri_store = Inr (tri_node i)" for i
    by (simp add: node_open_def file_ops_def tri_node_def tri_store_def)
  then have "net_start solo_ops tri_config [1, 2, 3] tri_store tri_start"
    by (auto simp: net_start_def tri_start_def)
  then have r0: "?reach tri_start" by (rule reach_start)
  define c1 where "c1 = net_update 1 tri_candidate (sent_by 1 [(2, tri_request), (3, tri_request)]) tri_start"
  have r1: "?reach c1"
    unfolding c1_def
    by (rule reach_step [OF r0 net_tick [OF _ tri_candidate_eq(1)]]) (simp add: tri_start_def)
  define c2 where "c2 = net_update 2 tri_voter (sent_by 2 [] \<union> answer_by 2 1 (Some tri_grant)) c1"
  have r2: "?reach c2"
    unfolding c2_def
    by (rule reach_step [OF r1 net_deliver [OF _ _ tri_voter_eq(1)]])
      (simp_all add: c1_def net_update_def tri_start_def sent_by_def)
  obtain out where l: "node_step solo_ops (\<lambda>lo hi. lo) (\<lambda>bs. None) 2 tri_grant tri_candidate
      = (tri_leader, Inr (None, out))"
    using tri_leader_eq(1) by blast
  define c3 where "c3 = net_update 1 tri_leader (sent_by 1 out \<union> answer_by 1 2 None) c2"
  have "?reach c3"
    unfolding c3_def
    by (rule reach_step [OF r2 net_deliver [OF _ _ l]])
      (simp_all add: c2_def c1_def net_update_def tri_start_def answer_by_def)
  moreover have "net_nodes c3 = [1 \<mapsto> tri_leader, 2 \<mapsto> tri_voter, 3 \<mapsto> tri_node 3]"
    by (rule ext) (simp add: c3_def c2_def c1_def net_update_def tri_start_def)
  ultimately show ?thesis by blast
qed

theorem raft_election_safety_witness:
  "\<exists>c. net_reach solo_ops (file_reopened (\<lambda>bs. 0) sample_codec) tri_config (\<lambda>bs. None) [1, 2, 3] tri_store c
     \<and> {j. \<exists>k. net_nodes c j = Some k \<and> r_role (n_raft k) = Leader \<and> r_term (n_raft k) = 1} = {1}"
proof -
  obtain c where c: "net_reach solo_ops (file_reopened (\<lambda>bs. 0) sample_codec) tri_config (\<lambda>bs. None)
      [1, 2, 3] tri_store c" "net_nodes c = [1 \<mapsto> tri_leader, 2 \<mapsto> tri_voter, 3 \<mapsto> tri_node 3]"
    using tri_reach by blast
  have o: "file_open (\<lambda>bs. 0) sample_codec raft_dir_empty = Inr tri_store"
    by (simp add: tri_store_def file_open_def file_reload_def raft_dir_empty_def)
  have cfg: "config_for [1, 2, 3] tri_config" by (simp add: config_for_def tri_config_def)
  have n1: "net_nodes c 1 = Some tri_leader" by (simp add: c(2))
  have "1 = j" if "net_nodes c j = Some k" "r_role (n_raft k) = Leader" "r_term (n_raft k) = 1" for j k
    using raft_election_safety [OF sample_codec_ok o cfg c(1) n1 tri_leader_eq(2) that(1,2)] that(3)
    by (simp add: tri_leader_eq(3))
  with c(1) n1 tri_leader_eq(2,3) show ?thesis by blast
qed

end
