(* ===== verification/Raft_Overcount.thy ===== *)
theory Raft_Overcount
  imports Raft_Network
begin

text \<open>
  A run of three nodes in which two of them apply different commands first. The leader takes a
  follower's last log index as the index up to which their logs agree
  (\<^verbatim>\<open>step_append_response\<close>), although a heartbeat compares only the entry before the new ones; a
  follower with a longer log of its own is counted for entries it does not have.
\<close>

section \<open>Runs of the cores\<close>

abbreviation "min_draw \<equiv> (\<lambda>lo hi. lo) :: gen_range"
abbreviation "no_conf \<equiv> (\<lambda>bs. None) :: conf_decoder"

text \<open>The consensus states and applied commands of the three nodes, and the messages sent so far.\<close>

inductive core_run ::
  "(node_id \<Rightarrow> raft \<times> bytes list) \<Rightarrow> (node_id \<times> node_id \<times> rpc_message) set \<Rightarrow> bool" where
  run_start: "core_run (\<lambda>i. (raft_new min_draw (tri_config i) hard_default raft_log_new, [])) {}"
| run_tick: "core_run v ms \<Longrightarrow> i \<in> {1, 2, 3} \<Longrightarrow> tick min_draw t (fst (v i)) = (r, acts)
     \<Longrightarrow> core_run (v(i := (executed acts r, snd (v i) @ action_applies acts))) (ms \<union> sent_by i (action_sends acts))"
| run_deliver: "core_run v ms \<Longrightarrow> i \<in> {1, 2, 3} \<Longrightarrow> (src, i, m) \<in> ms
     \<Longrightarrow> node_dispatch min_draw no_conf src m (fst (v i)) = (r, resp, acts)
     \<Longrightarrow> core_run (v(i := (executed acts r, snd (v i) @ action_applies acts)))
           (ms \<union> (sent_by i (action_sends acts) \<union> answer_by i src resp))"
| run_propose: "core_run v ms \<Longrightarrow> i \<in> {1, 2, 3} \<Longrightarrow> length (r_log (fst (v i))) \<le> u64_max
     \<Longrightarrow> propose cmd (fst (v i)) = Inr (r, acts)
     \<Longrightarrow> core_run (v(i := (executed acts r, snd (v i) @ action_applies acts))) (ms \<union> sent_by i (action_sends acts))"

abbreviation "mem_reach \<equiv> net_reach mem_ops (\<lambda>s. s) tri_config no_conf [1, 2, 3] mem_storage_new"

definition shows_run ::
  "mem_storage net \<Rightarrow> (node_id \<Rightarrow> raft \<times> bytes list) \<Rightarrow> (node_id \<times> node_id \<times> rpc_message) set \<Rightarrow> bool" where
  "shows_run c v ms \<longleftrightarrow> net_msgs c = ms
     \<and> (\<forall>i \<in> {1, 2, 3}. \<exists>n. net_nodes c i = Some n \<and> n_raft n = fst (v i) \<and> n_applied n = snd (v i))"

lemma mem_exec:
  obtains n' where "exec mem_ops (r, acts) n = (n', Inr (action_sends acts))"
    "n_raft n' = executed acts r" "n_applied n' = n_applied n @ action_applies acts"
  using mem_store.exec_loop_effect [where n = "n\<lparr>n_raft := r\<rparr>" and acts = acts and out = "[]"] by (auto simp: exec_def)

lemma shows_run_update:
  "shows_run c v ms \<Longrightarrow> n_raft n = r \<Longrightarrow> n_applied n = a
     \<Longrightarrow> shows_run (net_update i n ms' c) (v(i := (r, a))) (ms \<union> ms')"
  by (auto simp: shows_run_def net_update_def)

lemma core_run_net: "core_run v ms \<Longrightarrow> \<exists>c. mem_reach c \<and> shows_run c v ms"
proof (induction rule: core_run.induct)
  case run_start
  define n where "n i = \<lparr>n_raft = raft_new min_draw (tri_config i) hard_default raft_log_new,
     n_storage = mem_storage_new, n_applied = []\<rparr>" for i
  define c where "c = \<lparr>net_nodes = [1 \<mapsto> n 1, 2 \<mapsto> n 2, 3 \<mapsto> n 3], net_msgs = {}\<rparr>"
  have "node_open mem_ops min_draw (tri_config i) mem_storage_new = Inr (n i)" for i
    by (simp add: node_open_def mem_ops_def n_def mem_storage_new_def)
  then have "net_start mem_ops tri_config [1, 2, 3] mem_storage_new c"
    by (auto simp: net_start_def c_def)
  then have "mem_reach c" by (rule reach_start)
  moreover have "shows_run c (\<lambda>i. (raft_new min_draw (tri_config i) hard_default raft_log_new, [])) {}"
    by (simp add: shows_run_def c_def n_def)
  ultimately show ?case by blast
next
  case (run_tick v ms i t r acts)
  then obtain c n where c: "mem_reach c" "shows_run c v ms" "net_nodes c i = Some n"
      "n_raft n = fst (v i)" "n_applied n = snd (v i)"
    unfolding shows_run_def by blast
  obtain n' where n': "exec mem_ops (r, acts) n = (n', Inr (action_sends acts))"
    "n_raft n' = executed acts r" "n_applied n' = n_applied n @ action_applies acts" by (rule mem_exec)
  then have a: "n_applied n' = snd (v i) @ action_applies acts" using c(5) by simp
  have "node_tick mem_ops min_draw t n = (n', Inr (action_sends acts))"
    using run_tick.hyps(3) c(4) n'(1) by (simp add: node_tick_def)
  from reach_step [OF c(1) net_tick [OF c(3) this]] shows_run_update [OF c(2) n'(2) a]
  show ?case by blast
next
  case (run_deliver v ms i src m r resp acts)
  then obtain c n where c: "mem_reach c" "shows_run c v ms" "net_nodes c i = Some n"
      "n_raft n = fst (v i)" "n_applied n = snd (v i)" "(src, i, m) \<in> net_msgs c"
    unfolding shows_run_def by blast
  obtain n' where n': "exec mem_ops (r, acts) n = (n', Inr (action_sends acts))"
    "n_raft n' = executed acts r" "n_applied n' = n_applied n @ action_applies acts" by (rule mem_exec)
  then have a: "n_applied n' = snd (v i) @ action_applies acts" using c(5) by simp
  have "node_step mem_ops min_draw no_conf src m n = (n', Inr (resp, action_sends acts))"
    using run_deliver.hyps(4) c(4) n'(1) by (simp add: node_step_def)
  from reach_step [OF c(1) net_deliver [OF c(6,3) this]] shows_run_update [OF c(2) n'(2) a]
  show ?case by blast
next
  case (run_propose v ms i cmd r acts)
  then obtain c n where c: "mem_reach c" "shows_run c v ms" "net_nodes c i = Some n"
      "n_raft n = fst (v i)" "n_applied n = snd (v i)"
    unfolding shows_run_def by blast
  obtain n' where n': "exec mem_ops (r, acts) n = (n', Inr (action_sends acts))"
    "n_raft n' = executed acts r" "n_applied n' = n_applied n @ action_applies acts" by (rule mem_exec)
  then have a: "n_applied n' = snd (v i) @ action_applies acts" using c(5) by simp
  have x: "node_propose mem_ops cmd n = (n', Inr (action_sends acts))"
    using run_propose.hyps(4) c(4) n'(1) by (simp add: node_propose_def node_client_def)
  have "decode_conf_change no_conf cmd = None" by (simp add: decode_conf_change_def)
  moreover have "length (r_log (n_raft n)) \<le> u64_max" using run_propose.hyps(3) c(4) by simp
  ultimately have "mem_reach (net_update i n' (sent_by i (action_sends acts)) c)"
    by (rule reach_step [OF c(1) net_propose [OF c(3) _ _ x]])
  with shows_run_update [OF c(2) n'(2) a] show ?case by blast
qed

section \<open>The run\<close>

lemma index_range_eval:
  "index_range 1 0 = []" "index_range 1 1 = [1]" "index_range 1 2 = [1, 2]" "index_range 2 1 = []"
  by (simp_all add: index_range_def upt_rec)

lemma u64_two_one: "\<not> (2 :: u64) \<le> 1"
  by (simp add: word_le_nat_alt)

lemmas core_eval = u64_two_one tri_config_def raft_new_def soft_default_def hard_default_def
  election_timeout_def quorum_def raft_log_new_def sentinel_def
  tick_def start_election_def become_candidate_def become_leader_def become_follower_def
  reset_election_timer_def broadcast_append_def append_to_peer_def fresh_progress_def
  propose_def log_append_def term_next_def index_next_def index_prev_def sat_suc_def sat_sub_def
  last_index_def term_at_def log_get_def truncate_from_def u64_max_def restore_def vec_resize_def
  node_dispatch_def raft_step_def handle_request_vote_def log_is_up_to_date_def step_vote_response_def
  handle_append_entries_def ae_accept_leader_def ae_store_def ae_commit_def append_resp_def
  step_append_response_def try_advance_commit_def index_range_eval advance_one_def
  has_quorum_for_index_def count_matching_def has_match_def set_commit_def set_applied_def
  apply_committed_def apply_loop.simps apply_one_def decode_conf_change_def starts_with_def
  CONF_MAGIC_def try_confirm_reads_def bt_get_def Let_def executed_def

definition "ov1 = tick min_draw 10 (raft_new min_draw (tri_config 1) hard_default raft_log_new)"
definition "ov2 = node_dispatch min_draw no_conf 1 (RequestVote \<lparr>rv_term = 1, rv_candidate_id = 1, rv_last_log_index = 0, rv_last_log_term = 0\<rparr>) (raft_new min_draw (tri_config 2) hard_default raft_log_new)"
definition "ov3 = node_dispatch min_draw no_conf 2 (RequestVoteResp \<lparr>rvr_term = 1, rvr_granted = True\<rparr>) (fst ov1)"
definition "ov4 = projr (propose [65] (fst ov3))"
definition "ov5 = tick min_draw 10 (fst ov2)"
definition "ov6 = node_dispatch min_draw no_conf 2 (RequestVote \<lparr>rv_term = 2, rv_candidate_id = 2, rv_last_log_index = 0, rv_last_log_term = 0\<rparr>) (raft_new min_draw (tri_config 3) hard_default raft_log_new)"
definition "ov7 = node_dispatch min_draw no_conf 3 (RequestVoteResp \<lparr>rvr_term = 2, rvr_granted = True\<rparr>) (fst ov5)"
definition "ov8 = node_dispatch min_draw no_conf 2 (AppendEntries \<lparr>ae_term = 2, ae_leader_id = 2, ae_prev_log_index = 0, ae_prev_log_term = 0,
     ae_entries = [], ae_leader_commit = 0\<rparr>) (fst ov4)"
definition "ov9 = projr (propose [88] (fst ov7))"
definition "ov10 = node_dispatch min_draw no_conf 1 (AppendEntriesResp \<lparr>aer_term = 2, aer_success = True, aer_last_log_index = 1\<rparr>) (fst ov9)"
definition "ov11 = tick min_draw 10 (fst ov8)"
definition "ov12 = node_dispatch min_draw no_conf 1 (RequestVote \<lparr>rv_term = 3, rv_candidate_id = 1, rv_last_log_index = 1, rv_last_log_term = 1\<rparr>) (fst ov6)"
definition "ov13 = node_dispatch min_draw no_conf 3 (RequestVoteResp \<lparr>rvr_term = 3, rvr_granted = True\<rparr>) (fst ov11)"
definition "ov14 = projr (propose [89] (fst ov13))"
definition "ov15 = node_dispatch min_draw no_conf 1 (AppendEntries \<lparr>ae_term = 3, ae_leader_id = 1, ae_prev_log_index = 1, ae_prev_log_term = 1,
     ae_entries = [\<lparr>e_term = 3, e_command = [89]\<rparr>], ae_leader_commit = 0\<rparr>) (fst ov12)"
definition "ov16 = node_dispatch min_draw no_conf 3 (AppendEntriesResp \<lparr>aer_term = 3, aer_success = False, aer_last_log_index = 0\<rparr>) (fst ov14)"
definition "ov17 = node_dispatch min_draw no_conf 1 (AppendEntries \<lparr>ae_term = 3, ae_leader_id = 1, ae_prev_log_index = 0, ae_prev_log_term = 0,
     ae_entries = [\<lparr>e_term = 1, e_command = [65]\<rparr>, \<lparr>e_term = 3, e_command = [89]\<rparr>], ae_leader_commit = 0\<rparr>) (fst ov15)"
definition "ov18 = node_dispatch min_draw no_conf 3 (AppendEntriesResp \<lparr>aer_term = 3, aer_success = True, aer_last_log_index = 2\<rparr>) (fst ov16)"

declare core_eval [simp]

lemmas ov1_eq [simp] = ov1_def [simplified]
lemmas ov2_eq [simp] = ov2_def [simplified]
lemmas ov3_eq [simp] = ov3_def [simplified]
lemmas ov4_eq [simp] = ov4_def [simplified]
lemmas ov5_eq [simp] = ov5_def [simplified]
lemmas ov6_eq [simp] = ov6_def [simplified]
lemmas ov7_eq [simp] = ov7_def [simplified]
lemmas ov8_eq [simp] = ov8_def [simplified]
lemmas ov9_eq [simp] = ov9_def [simplified]
lemmas ov10_eq [simp] = ov10_def [simplified]
lemmas ov11_eq [simp] = ov11_def [simplified]
lemmas ov12_eq [simp] = ov12_def [simplified]
lemmas ov13_eq [simp] = ov13_def [simplified]
lemmas ov14_eq [simp] = ov14_def [simplified]
lemmas ov15_eq [simp] = ov15_def [simplified]
lemmas ov16_eq [simp] = ov16_def [simplified]
lemmas ov17_eq [simp] = ov17_def [simplified]
lemmas ov18_eq [simp] = ov18_def [simplified]

declare core_eval [simp del]

lemmas ov_eqs = ov1_eq ov2_eq ov3_eq ov4_eq ov5_eq ov6_eq ov7_eq ov8_eq ov9_eq ov10_eq ov11_eq ov12_eq ov13_eq ov14_eq ov15_eq ov16_eq ov17_eq ov18_eq

declare ov_eqs [simp del]

text \<open>\<open>at v need\<close>: some run ends in \<open>v\<close> and has sent the messages \<open>need\<close>.\<close>

definition at :: "(node_id \<Rightarrow> raft \<times> bytes list) \<Rightarrow> (node_id \<times> node_id \<times> rpc_message) set \<Rightarrow> bool" where
  "at v need \<longleftrightarrow> (\<exists>ms. core_run v ms \<and> need \<subseteq> ms)"

lemma at_tick:
  assumes "at v need" "ov = tick min_draw 10 (fst (v i))" "i \<in> {1, 2, 3}"
    and "executed (snd ov) (fst ov) = fst ov" "action_applies (snd ov) = []"
    and "need' \<subseteq> need \<union> sent_by i (action_sends (snd ov))"
    and "snd (v i) = a"
  shows "at (v(i := (fst ov, a))) need'"
proof -
  obtain ms where ms: "core_run v ms" "need \<subseteq> ms" using assms(1) by (auto simp: at_def)
  have "tick min_draw 10 (fst (v i)) = (fst ov, snd ov)" using assms(2) by simp
  from run_tick [OF ms(1) assms(3) this] ms(2) assms(4-7) show ?thesis by (auto simp: at_def)
qed

lemma at_propose:
  assumes "at v need" "ov = projr (propose cmd (fst (v i)))" "r_role (fst (v i)) = Leader" "i \<in> {1, 2, 3}"
    and "length (r_log (fst (v i))) \<le> u64_max"
    and "executed (snd ov) (fst ov) = fst ov" "action_applies (snd ov) = []"
    and "need' \<subseteq> need \<union> sent_by i (action_sends (snd ov))"
    and "snd (v i) = a"
  shows "at (v(i := (fst ov, a))) need'"
proof -
  obtain ms where ms: "core_run v ms" "need \<subseteq> ms" using assms(1) by (auto simp: at_def)
  have "propose cmd (fst (v i)) = Inr (fst ov, snd ov)"
    using assms(2,3) by (simp add: propose_def Let_def)
  from run_propose [OF ms(1) assms(4,5) this] ms(2) assms(6-9) show ?thesis by (auto simp: at_def)
qed

lemma at_deliver:
  assumes "at v need" "ov = node_dispatch min_draw no_conf src m (fst (v i))" "(src, i, m) \<in> need" "i \<in> {1, 2, 3}"
    and "executed (snd (snd ov)) (fst ov) = fst ov" "action_applies (snd (snd ov)) = ap"
    and "need' \<subseteq> need \<union> sent_by i (action_sends (snd (snd ov))) \<union> answer_by i src (fst (snd ov))"
    and "snd (v i) @ ap = a"
  shows "at (v(i := (fst ov, a))) need'"
proof -
  obtain ms where ms: "core_run v ms" "need \<subseteq> ms" using assms(1) by (auto simp: at_def)
  have "node_dispatch min_draw no_conf src m (fst (v i)) = (fst ov, fst (snd ov), snd (snd ov))"
    using assms(2) by simp
  moreover have "(src, i, m) \<in> ms" using ms(2) assms(3) by blast
  ultimately have "core_run (v(i := (fst ov, a)))
      (ms \<union> (sent_by i (action_sends (snd (snd ov))) \<union> answer_by i src (fst (snd ov))))"
    using run_deliver [OF ms(1) assms(4), of src m "fst ov" "fst (snd ov)" "snd (snd ov)"] assms(5,6,8) by simp
  then show ?thesis using ms(2) assms(7) unfolding at_def by blast
qed

definition "vw0 = (\<lambda>i. (raft_new min_draw (tri_config i) hard_default raft_log_new, []) :: raft \<times> bytes list)"

definition "vw1 = vw0(1 := (fst ov1, []))"
definition "vw2 = vw1(2 := (fst ov2, []))"
definition "vw3 = vw2(1 := (fst ov3, []))"
definition "vw4 = vw3(1 := (fst ov4, []))"
definition "vw5 = vw4(2 := (fst ov5, []))"
definition "vw6 = vw5(3 := (fst ov6, []))"
definition "vw7 = vw6(2 := (fst ov7, []))"
definition "vw8 = vw7(1 := (fst ov8, []))"
definition "vw9 = vw8(2 := (fst ov9, []))"
definition "vw10 = vw9(2 := (fst ov10, [[88]]))"
definition "vw11 = vw10(1 := (fst ov11, []))"
definition "vw12 = vw11(3 := (fst ov12, []))"
definition "vw13 = vw12(1 := (fst ov13, []))"
definition "vw14 = vw13(1 := (fst ov14, []))"
definition "vw15 = vw14(3 := (fst ov15, []))"
definition "vw16 = vw15(1 := (fst ov16, []))"
definition "vw17 = vw16(3 := (fst ov17, []))"
definition "vw18 = vw17(1 := (fst ov18, [[65], [89]]))"

lemmas vw_defs = vw0_def vw1_def vw2_def vw3_def vw4_def vw5_def vw6_def vw7_def vw8_def vw9_def vw10_def vw11_def vw12_def vw13_def vw14_def vw15_def vw16_def vw17_def vw18_def

lemma at0: "at vw0 {}"
  unfolding at_def vw0_def using run_start by blast

lemma at1: "at vw1 {(1, 2, RequestVote \<lparr>rv_term = 1, rv_candidate_id = 1, rv_last_log_index = 0, rv_last_log_term = 0\<rparr>)}"
  unfolding vw1_def
  by (rule at_tick [OF at0], simp add: ov1_def vw_defs,
    simp_all add: vw_defs ov_eqs executed_def sent_by_def answer_by_def u64_max_def)

lemma at2: "at vw2 {(2, 1, RequestVoteResp \<lparr>rvr_term = 1, rvr_granted = True\<rparr>)}"
  unfolding vw2_def
  by (rule at_deliver [OF at1], simp add: ov2_def vw_defs,
    simp_all add: vw_defs ov_eqs executed_def sent_by_def answer_by_def u64_max_def)

lemma at3: "at vw3 {}"
  unfolding vw3_def
  by (rule at_deliver [OF at2], simp add: ov3_def vw_defs,
    simp_all add: vw_defs ov_eqs executed_def sent_by_def answer_by_def u64_max_def)

lemma at4: "at vw4 {}"
  unfolding vw4_def
  by (rule at_propose [OF at3], simp add: ov4_def vw_defs,
    simp_all add: vw_defs ov_eqs executed_def sent_by_def answer_by_def u64_max_def)

lemma at5: "at vw5 {(2, 3, RequestVote \<lparr>rv_term = 2, rv_candidate_id = 2, rv_last_log_index = 0, rv_last_log_term = 0\<rparr>)}"
  unfolding vw5_def
  by (rule at_tick [OF at4], simp add: ov5_def vw_defs,
    simp_all add: vw_defs ov_eqs executed_def sent_by_def answer_by_def u64_max_def)

lemma at6: "at vw6 {(3, 2, RequestVoteResp \<lparr>rvr_term = 2, rvr_granted = True\<rparr>)}"
  unfolding vw6_def
  by (rule at_deliver [OF at5], simp add: ov6_def vw_defs,
    simp_all add: vw_defs ov_eqs executed_def sent_by_def answer_by_def u64_max_def)

lemma at7: "at vw7 {(2, 1, AppendEntries \<lparr>ae_term = 2, ae_leader_id = 2, ae_prev_log_index = 0, ae_prev_log_term = 0,
       ae_entries = [], ae_leader_commit = 0\<rparr>)}"
  unfolding vw7_def
  by (rule at_deliver [OF at6], simp add: ov7_def vw_defs,
    simp_all add: vw_defs ov_eqs executed_def sent_by_def answer_by_def u64_max_def)

lemma at8: "at vw8 {(1, 2, AppendEntriesResp \<lparr>aer_term = 2, aer_success = True, aer_last_log_index = 1\<rparr>)}"
  unfolding vw8_def
  by (rule at_deliver [OF at7], simp add: ov8_def vw_defs,
    simp_all add: vw_defs ov_eqs executed_def sent_by_def answer_by_def u64_max_def)

lemma at9: "at vw9 {(1, 2, AppendEntriesResp \<lparr>aer_term = 2, aer_success = True, aer_last_log_index = 1\<rparr>)}"
  unfolding vw9_def
  by (rule at_propose [OF at8], simp add: ov9_def vw_defs,
    simp_all add: vw_defs ov_eqs executed_def sent_by_def answer_by_def u64_max_def)

lemma at10: "at vw10 {}"
  unfolding vw10_def
  by (rule at_deliver [OF at9], simp add: ov10_def vw_defs,
    simp_all add: vw_defs ov_eqs executed_def sent_by_def answer_by_def u64_max_def)

lemma at11: "at vw11 {(1, 3, RequestVote \<lparr>rv_term = 3, rv_candidate_id = 1, rv_last_log_index = 1, rv_last_log_term = 1\<rparr>)}"
  unfolding vw11_def
  by (rule at_tick [OF at10], simp add: ov11_def vw_defs,
    simp_all add: vw_defs ov_eqs executed_def sent_by_def answer_by_def u64_max_def)

lemma at12: "at vw12 {(3, 1, RequestVoteResp \<lparr>rvr_term = 3, rvr_granted = True\<rparr>)}"
  unfolding vw12_def
  by (rule at_deliver [OF at11], simp add: ov12_def vw_defs,
    simp_all add: vw_defs ov_eqs executed_def sent_by_def answer_by_def u64_max_def)

lemma at13: "at vw13 {}"
  unfolding vw13_def
  by (rule at_deliver [OF at12], simp add: ov13_def vw_defs,
    simp_all add: vw_defs ov_eqs executed_def sent_by_def answer_by_def u64_max_def)

lemma at14: "at vw14 {(1, 3, AppendEntries \<lparr>ae_term = 3, ae_leader_id = 1, ae_prev_log_index = 1, ae_prev_log_term = 1,
       ae_entries = [\<lparr>e_term = 3, e_command = [89]\<rparr>], ae_leader_commit = 0\<rparr>)}"
  unfolding vw14_def
  by (rule at_propose [OF at13], simp add: ov14_def vw_defs,
    simp_all add: vw_defs ov_eqs executed_def sent_by_def answer_by_def u64_max_def)

lemma at15: "at vw15 {(3, 1, AppendEntriesResp \<lparr>aer_term = 3, aer_success = False, aer_last_log_index = 0\<rparr>)}"
  unfolding vw15_def
  by (rule at_deliver [OF at14], simp add: ov15_def vw_defs,
    simp_all add: vw_defs ov_eqs executed_def sent_by_def answer_by_def u64_max_def)

lemma at16: "at vw16 {(1, 3, AppendEntries \<lparr>ae_term = 3, ae_leader_id = 1, ae_prev_log_index = 0, ae_prev_log_term = 0,
       ae_entries = [\<lparr>e_term = 1, e_command = [65]\<rparr>, \<lparr>e_term = 3, e_command = [89]\<rparr>], ae_leader_commit = 0\<rparr>)}"
  unfolding vw16_def
  by (rule at_deliver [OF at15], simp add: ov16_def vw_defs,
    simp_all add: vw_defs ov_eqs executed_def sent_by_def answer_by_def u64_max_def)

lemma at17: "at vw17 {(3, 1, AppendEntriesResp \<lparr>aer_term = 3, aer_success = True, aer_last_log_index = 2\<rparr>)}"
  unfolding vw17_def
  by (rule at_deliver [OF at16], simp add: ov17_def vw_defs,
    simp_all add: vw_defs ov_eqs executed_def sent_by_def answer_by_def u64_max_def)

lemma at18: "at vw18 {}"
  unfolding vw18_def
  by (rule at_deliver [OF at17], simp add: ov18_def vw_defs,
    simp_all add: vw_defs ov_eqs executed_def sent_by_def answer_by_def u64_max_def)

text \<open>
  C29. Committed entries are not safe. Three nodes with in-memory backends, no crash, only delayed
  messages: node 1 leads term 1 and appends a command nobody receives; node 2 leads term 2,
  learns from a heartbeat that node 1's log is as long as its own, and commits and applies its
  command although no other node has it; node 1 leads term 3 and applies its own command first.
  Two state machines have applied different first commands. (The leader must count a follower
  only up to the last entry the request itself carried.)
\<close>

theorem raft_commit_overcount:
  "\<exists>c n m. net_reach mem_ops (\<lambda>s. s) tri_config (\<lambda>bs. None) [1, 2, 3] mem_storage_new c
     \<and> net_nodes c 1 = Some n \<and> n_applied n = [[65], [89]]
     \<and> net_nodes c 2 = Some m \<and> n_applied m = [[88]]"
proof -
  obtain ms where "core_run vw18 ms" using at18 by (auto simp: at_def)
  then obtain c where c: "mem_reach c" "shows_run c vw18 ms" using core_run_net by blast
  obtain n m where "net_nodes c 1 = Some n" "n_applied n = snd (vw18 1)"
      "net_nodes c 2 = Some m" "n_applied m = snd (vw18 2)"
    using c(2) by (auto simp: shows_run_def)
  moreover have "snd (vw18 1) = [[65], [89]]" "snd (vw18 2) = [[88]]" by (simp_all add: vw_defs)
  ultimately show ?thesis using c(1) by auto
qed

end
