(* ===== verification/Raft_Sim.thy ===== *)
theory Raft_Sim
  imports Raft_Overcount
begin

text \<open>
  The in-process simulator \<^verbatim>\<open>Cluster\<close> of \<^verbatim>\<open>sim.rs\<close>: in-memory nodes and one queue of messages.
  The hash map of nodes is the list of its entries in iteration order. The delivery loop
  \<^verbatim>\<open>deliver_all\<close> runs until the queue is empty, which need not happen: it is a partial function,
  and not returning is the value \<open>None\<close>. What calls it is partial in the same way.
\<close>

section \<open>The cluster\<close>

record sim_cluster =
  sim_nodes :: "(node_id \<times> mem_storage raft_node) list"
  sim_inbox :: "(node_id \<times> node_id \<times> rpc_message) list"

definition simulation_config :: "node_id \<Rightarrow> node_id list \<Rightarrow> bytes \<Rightarrow> raft_config" where
  "simulation_config i voters auth = (let stagger = 80 + i * 40 in
     \<lparr>cfg_id = i, cfg_voters = voters, election_timeout_min = stagger, election_timeout_max = stagger,
      heartbeat_interval = 25, max_append_batch = 64, max_pipeline_bytes = 256 * 1024, cfg_auth = auth\<rparr>)"

fun assoc_update :: "'k \<Rightarrow> 'v \<Rightarrow> ('k \<times> 'v) list \<Rightarrow> ('k \<times> 'v) list" where
  "assoc_update k v [] = [(k, v)]"
| "assoc_update k v ((k', v') # m) = (if k' = k then (k, v) # m else (k', v') # assoc_update k v m)"

lemma map_of_assoc_update [simp]: "map_of (assoc_update k v m) = (map_of m)(k \<mapsto> v)"
  by (induction k v m rule: assoc_update.induct) auto

definition sim_put :: "node_id \<Rightarrow> mem_storage raft_node \<Rightarrow> (node_id \<times> node_id \<times> rpc_message) list \<Rightarrow> sim_cluster \<Rightarrow> sim_cluster" where
  "sim_put i n ms c = c\<lparr>sim_nodes := assoc_update i n (sim_nodes c), sim_inbox := sim_inbox c @ ms\<rparr>"

definition from_node :: "node_id \<Rightarrow> outbound \<Rightarrow> (node_id \<times> node_id \<times> rpc_message) list" where
  "from_node i out = map (\<lambda>(to, m). (i, to, m)) out"

text \<open>\<^verbatim>\<open>new_voters\<close>: the ids \<open>1..=n\<close>.\<close>

definition new_voters :: "gen_range \<Rightarrow> bytes \<Rightarrow> nat \<Rightarrow> raft_error + sim_cluster" where
  "new_voters g auth n =
     (let voters = map word_of_nat [1 ..< Suc n]
      in fold (\<lambda>i acc. try_bind acc (\<lambda>c.
           try_bind (node_open mem_ops g (simulation_config i voters auth) mem_storage_new) (\<lambda>nd.
             Inr (sim_put i nd [] c)))) voters (Inr \<lparr>sim_nodes = [], sim_inbox = []\<rparr>))"

definition tick_node :: "gen_range \<Rightarrow> u64 \<Rightarrow> node_id \<Rightarrow> sim_cluster \<Rightarrow> raft_error + sim_cluster" where
  "tick_node g ms i c = (case map_of (sim_nodes c) i of
     None \<Rightarrow> Inr c
   | Some n \<Rightarrow> (case node_tick mem_ops g ms n of
       (n', Inl e) \<Rightarrow> Inl e
     | (n', Inr out) \<Rightarrow> Inr (sim_put i n' (from_node i out) c)))"

definition tick_all :: "gen_range \<Rightarrow> u64 \<Rightarrow> sim_cluster \<Rightarrow> raft_error + sim_cluster" where
  "tick_all g ms c = fold (\<lambda>i acc. try_bind acc (tick_node g ms i)) (map fst (sim_nodes c)) (Inr c)"

text \<open>The body of the loop of \<^verbatim>\<open>deliver_all\<close>, for the message at the head of the queue.\<close>

definition deliver_one ::
  "gen_range \<Rightarrow> conf_decoder \<Rightarrow> node_id \<times> node_id \<times> rpc_message \<Rightarrow> sim_cluster \<Rightarrow> raft_error + sim_cluster" where
  "deliver_one g de = (\<lambda>(from, to, msg) c. case map_of (sim_nodes c) to of
     None \<Rightarrow> Inr c
   | Some n \<Rightarrow> (case node_step mem_ops g de from msg n of
       (n', Inl e) \<Rightarrow> Inl e
     | (n', Inr (resp, out)) \<Rightarrow>
         Inr (sim_put to n' ((case resp of None \<Rightarrow> [] | Some r \<Rightarrow> [(to, from, r)]) @ from_node to out) c)))"

partial_function (option) deliver_all ::
  "gen_range \<Rightarrow> conf_decoder \<Rightarrow> sim_cluster \<Rightarrow> (raft_error + sim_cluster) option" where
  "deliver_all g de c = (case sim_inbox c of
     [] \<Rightarrow> Some (Inr c)
   | m # ms \<Rightarrow> (case deliver_one g de m (c\<lparr>sim_inbox := ms\<rparr>) of
       Inl e \<Rightarrow> Some (Inl e)
     | Inr c' \<Rightarrow> deliver_all g de c'))"

text \<open>A step that may fail or not return, after one that may.\<close>

definition and_then ::
  "(raft_error + 'a) option \<Rightarrow> ('a \<Rightarrow> (raft_error + 'b) option) \<Rightarrow> (raft_error + 'b) option" where
  "and_then x f = (case x of None \<Rightarrow> None | Some (Inl e) \<Rightarrow> Some (Inl e) | Some (Inr a) \<Rightarrow> f a)"

text \<open>\<^verbatim>\<open>while !inbox.is_empty()\<close>: one call empties the queue.\<close>

definition drain :: "gen_range \<Rightarrow> conf_decoder \<Rightarrow> sim_cluster \<Rightarrow> (raft_error + sim_cluster) option" where
  "drain g de c = (if sim_inbox c = [] then Some (Inr c) else deliver_all g de c)"

primrec run_rounds :: "gen_range \<Rightarrow> conf_decoder \<Rightarrow> nat \<Rightarrow> sim_cluster \<Rightarrow> (raft_error + sim_cluster) option" where
  "run_rounds g de 0 c = Some (Inr c)"
| "run_rounds g de (Suc k) c = and_then (Some (tick_all g 25 c)) (\<lambda>c1.
     and_then (drain g de c1) (run_rounds g de k))"

primrec drive_quiescent :: "gen_range \<Rightarrow> conf_decoder \<Rightarrow> nat \<Rightarrow> sim_cluster \<Rightarrow> (raft_error + sim_cluster) option" where
  "drive_quiescent g de 0 c = Some (Inr c)"
| "drive_quiescent g de (Suc k) c = and_then (drain g de c) (\<lambda>c1.
     and_then (Some (tick_all g 25 c1)) (drive_quiescent g de k))"

definition sim_leader :: "sim_cluster \<Rightarrow> node_id option" where
  "sim_leader c = (case filter (\<lambda>(i, n). r_role (n_raft n) = Leader) (sim_nodes c) of
     [(i, n)] \<Rightarrow> Some i | _ \<Rightarrow> None)"

definition applied_count :: "sim_cluster \<Rightarrow> nat" where
  "applied_count c = sum_list (map (\<lambda>(i, n). length (n_applied n)) (sim_nodes c))"

text \<open>A client request on the leader: its messages are queued.\<close>

definition on_leader ::
  "(mem_storage raft_node \<Rightarrow> mem_storage raft_node \<times> (raft_error + outbound)) \<Rightarrow> sim_cluster
     \<Rightarrow> raft_error + (node_id \<times> sim_cluster)" where
  "on_leader req c = (case sim_leader c of
     None \<Rightarrow> Inl (RInternal ''no leader'')
   | Some i \<Rightarrow> (case map_of (sim_nodes c) i of
       None \<Rightarrow> Inl (RInternal ''leader'')
     | Some n \<Rightarrow> (case req n of
         (n', Inl e) \<Rightarrow> Inl e
       | (n', Inr out) \<Rightarrow> Inr (i, sim_put i n' (from_node i out) c))))"

definition propose_on_leader ::
  "gen_range \<Rightarrow> conf_decoder \<Rightarrow> bytes \<Rightarrow> sim_cluster \<Rightarrow> (raft_error + sim_cluster) option" where
  "propose_on_leader g de cmd c = and_then (Some (on_leader (node_propose mem_ops cmd) c)) (\<lambda>(i, c1).
     and_then (drive_quiescent g de 16 c1) (\<lambda>c2. case map_of (sim_nodes c2) i of
       Some n \<Rightarrow> Some (if n_applied n \<noteq> [] then Inr c2 else Inl (RInternal ''not replicated''))
     | None \<Rightarrow> Some (Inl (RInternal ''not replicated''))))"

text \<open>The wait loop of \<^verbatim>\<open>linearizable_barrier\<close>: \<open>k\<close> attempts.\<close>

primrec barrier_wait ::
  "gen_range \<Rightarrow> conf_decoder \<Rightarrow> nat \<Rightarrow> node_id \<Rightarrow> log_index \<Rightarrow> sim_cluster \<Rightarrow> (raft_error + (log_index \<times> sim_cluster)) option" where
  "barrier_wait g de 0 i target c = Some (Inl (RInternal ''read index barrier timeout''))"
| "barrier_wait g de (Suc k) i target c = and_then (drive_quiescent g de 8 c) (\<lambda>c1.
     case map_of (sim_nodes c1) i of
       None \<Rightarrow> Some (Inl (RInternal ''node''))
     | Some n \<Rightarrow> if target \<le> commit_index (r_hard (n_raft n)) then Some (Inr (target, c1))
                 else barrier_wait g de k i target c1)"

definition linearizable_barrier ::
  "gen_range \<Rightarrow> conf_decoder \<Rightarrow> sim_cluster \<Rightarrow> (raft_error + (log_index \<times> sim_cluster)) option" where
  "linearizable_barrier g de c = and_then (Some (on_leader (node_read_index mem_ops 1) c)) (\<lambda>(i, c1).
     case map_of (sim_nodes c1) i of
       None \<Rightarrow> Some (Inl (RInternal ''leader''))
     | Some n \<Rightarrow> barrier_wait g de 48 i (last_index (r_log (n_raft n))) c1)"

definition add_voter ::
  "gen_range \<Rightarrow> (conf_change \<Rightarrow> bytes) \<Rightarrow> conf_decoder \<Rightarrow> bytes \<Rightarrow> node_id \<Rightarrow> sim_cluster
     \<Rightarrow> (raft_error + sim_cluster) option" where
  "add_voter g ser de auth i c =
     (if i \<in> fst ` set (sim_nodes c) then Some (Inr c)
      else let voters = sort (map fst (sim_nodes c) @ [i]) in
        and_then (Some (node_open mem_ops g (simulation_config i voters auth) mem_storage_new)) (\<lambda>n.
        and_then (run_rounds g de 8 (sim_put i n [] c)) (\<lambda>c1.
        and_then (Some (on_leader (node_propose_conf_change mem_ops ser (AddVoter i)) c1)) (\<lambda>(_, c2).
        drive_quiescent g de 32 c2))))"

definition remove_node :: "node_id \<Rightarrow> sim_cluster \<Rightarrow> sim_cluster" where
  "remove_node i c = c\<lparr>sim_nodes := filter (\<lambda>(j, _). j \<noteq> i) (sim_nodes c),
     sim_inbox := filter (\<lambda>(_, to, _). to \<noteq> i) (sim_inbox c)\<rparr>"

section \<open>Delivery\<close>

lemma mem_step_ok:
  obtains n' where "node_step mem_ops g de from msg n =
     (n', Inr (fst (snd (node_dispatch g de from msg (n_raft n))),
               action_sends (snd (snd (node_dispatch g de from msg (n_raft n))))))"
proof -
  obtain r resp acts where d: "node_dispatch g de from msg (n_raft n) = (r, resp, acts)"
    by (cases "node_dispatch g de from msg (n_raft n)")
  obtain n' where "exec mem_ops (r, acts) n = (n', Inr (action_sends acts))" by (rule mem_exec)
  then have "node_step mem_ops g de from msg n = (n', Inr (resp, action_sends acts))"
    by (simp add: node_step_def d)
  then show thesis using that d by simp
qed

lemma deliver_one_shape:
  "\<exists>c' ms. deliver_one g de m c = Inr c' \<and> sim_inbox c' = sim_inbox c @ ms
     \<and> dom (map_of (sim_nodes c')) = dom (map_of (sim_nodes c))"
proof -
  obtain src dst msg where m: "m = (src, dst, msg)" by (cases m)
  show ?thesis
  proof (cases "map_of (sim_nodes c) dst")
    case None
    then show ?thesis by (simp add: m deliver_one_def)
  next
    case (Some n)
    obtain n' where "node_step mem_ops g de src msg n =
       (n', Inr (fst (snd (node_dispatch g de src msg (n_raft n))),
                 action_sends (snd (snd (node_dispatch g de src msg (n_raft n))))))"
      by (rule mem_step_ok)
    with Some show ?thesis by (auto simp: m deliver_one_def sim_put_def)
  qed
qed

text \<open>When the loop returns, the queue is empty.\<close>

lemma deliver_all_empties:
  assumes "deliver_all g de c = Some (Inr c')"
  shows "sim_inbox c' = []"
proof -
  have "case (Inr c' :: raft_error + sim_cluster) of Inl e \<Rightarrow> True | Inr d \<Rightarrow> sim_inbox d = []"
  proof (rule deliver_all.raw_induct
        [where P = "\<lambda>g de c r. case r of Inl e \<Rightarrow> True | Inr d \<Rightarrow> sim_inbox d = []", OF _ assms])
    fix f g de c r
    assume ih: "\<And>g de c r. f g de c = Some r \<Longrightarrow> case r of Inl e \<Rightarrow> True | Inr d \<Rightarrow> sim_inbox d = []"
      and step: "(case sim_inbox c of [] \<Rightarrow> Some (Inr c)
          | m # ms \<Rightarrow> (case deliver_one g de m (c\<lparr>sim_inbox := ms\<rparr>) of
              Inl e \<Rightarrow> Some (Inl e) | Inr c' \<Rightarrow> f g de c')) = Some r"
    show "case r of Inl e \<Rightarrow> True | Inr d \<Rightarrow> sim_inbox d = []"
    proof (cases "sim_inbox c")
      case Nil
      with step show ?thesis by auto
    next
      case (Cons m ms)
      show ?thesis
      proof (cases "deliver_one g de m (c\<lparr>sim_inbox := ms\<rparr>)")
        case (Inl e)
        with step Cons show ?thesis by auto
      next
        case (Inr d)
        with step Cons ih show ?thesis by simp
      qed
    qed
  qed
  then show ?thesis by simp
qed

text \<open>
  A response that is not one of the two kinds the node handles is sent back; a snapshot is
  answered with such a response.
\<close>

definition bounced :: "rpc_message \<Rightarrow> bool" where
  "bounced m = (case m of InstallSnapshotResp _ \<Rightarrow> True | ReadIndexResp _ \<Rightarrow> True
     | InstallSnapshot _ \<Rightarrow> True | _ \<Rightarrow> False)"

definition bouncing :: "sim_cluster \<Rightarrow> bool" where
  "bouncing c \<longleftrightarrow> (\<exists>a b m. (a, b, m) \<in> set (sim_inbox c) \<and> bounced m
     \<and> a \<in> dom (map_of (sim_nodes c)) \<and> b \<in> dom (map_of (sim_nodes c)))"

lemma deliver_bounced:
  assumes "bounced m" "b \<in> dom (map_of (sim_nodes c))"
  shows "\<exists>c' k. deliver_one g de (a, b, m) c = Inr c' \<and> (b, a, k) \<in> set (sim_inbox c') \<and> bounced k
     \<and> dom (map_of (sim_nodes c')) = dom (map_of (sim_nodes c))"
proof -
  obtain n where n: "map_of (sim_nodes c) b = Some n" using assms(2) by blast
  obtain n' where s: "node_step mem_ops g de a m n =
     (n', Inr (fst (snd (node_dispatch g de a m (n_raft n))),
               action_sends (snd (snd (node_dispatch g de a m (n_raft n))))))"
    by (rule mem_step_ok)
  have "(\<exists>x. fst (snd (node_dispatch g de a m (n_raft n))) = Some (InstallSnapshotResp x))
      \<or> node_dispatch g de a m (n_raft n) = (n_raft n, None, [Send a m])"
    using assms(1)
    by (cases m) (simp_all add: bounced_def node_dispatch_def raft_step_def handle_install_snapshot_def
        split: prod.splits)
  then show ?thesis
  proof
    assume "\<exists>x. fst (snd (node_dispatch g de a m (n_raft n))) = Some (InstallSnapshotResp x)"
    then obtain x where x: "fst (snd (node_dispatch g de a m (n_raft n))) = Some (InstallSnapshotResp x)" ..
    have "bounced (InstallSnapshotResp x)" by (simp add: bounced_def)
    with s n x show ?thesis by (auto simp: deliver_one_def sim_put_def from_node_def)
  next
    assume "node_dispatch g de a m (n_raft n) = (n_raft n, None, [Send a m])"
    with s n assms(1) show ?thesis by (auto simp: deliver_one_def sim_put_def from_node_def)
  qed
qed

lemma deliver_keeps_bouncing:
  assumes "bouncing c" "sim_inbox c = m # ms"
  shows "\<exists>c'. deliver_one g de m (c\<lparr>sim_inbox := ms\<rparr>) = Inr c' \<and> bouncing c'"
proof -
  obtain a b k where k: "(a, b, k) \<in> set (m # ms)" "bounced k"
      "a \<in> dom (map_of (sim_nodes c))" "b \<in> dom (map_of (sim_nodes c))"
    using assms by (auto simp: bouncing_def)
  show ?thesis
  proof (cases "m = (a, b, k)")
    case True
    obtain c' k' where "deliver_one g de (a, b, k) (c\<lparr>sim_inbox := ms\<rparr>) = Inr c'"
        "(b, a, k') \<in> set (sim_inbox c')" "bounced k'" "dom (map_of (sim_nodes c')) = dom (map_of (sim_nodes c))"
      using deliver_bounced [OF k(2), of b "c\<lparr>sim_inbox := ms\<rparr>" g de a] k(4) by auto
    with True k(2-4) show ?thesis unfolding bouncing_def by auto
  next
    case False
    then have "(a, b, k) \<in> set ms" using k(1) by auto
    moreover obtain c' xs where "deliver_one g de m (c\<lparr>sim_inbox := ms\<rparr>) = Inr c'"
        "sim_inbox c' = ms @ xs" "dom (map_of (sim_nodes c')) = dom (map_of (sim_nodes c))"
      using deliver_one_shape [of g de m "c\<lparr>sim_inbox := ms\<rparr>"] by auto
    ultimately show ?thesis using k(2-4) unfolding bouncing_def by auto
  qed
qed

lemma deliver_all_returns_quiet:
  assumes "deliver_all g de c = Some r"
  shows "\<not> bouncing c"
proof (rule deliver_all.raw_induct [where P = "\<lambda>g de c r. \<not> bouncing c", OF _ assms], rule notI)
  fix f g de c r
  assume ih: "\<And>g de c r. f g de c = Some r \<Longrightarrow> \<not> bouncing c"
    and step: "(case sim_inbox c of [] \<Rightarrow> Some (Inr c)
        | m # ms \<Rightarrow> (case deliver_one g de m (c\<lparr>sim_inbox := ms\<rparr>) of
            Inl e \<Rightarrow> Some (Inl e) | Inr c' \<Rightarrow> f g de c')) = Some r"
    and b: "bouncing c"
  obtain m ms where q: "sim_inbox c = m # ms" using b by (cases "sim_inbox c") (auto simp: bouncing_def)
  obtain c' where c': "deliver_one g de m (c\<lparr>sim_inbox := ms\<rparr>) = Inr c'" "bouncing c'"
    using deliver_keeps_bouncing [OF b q] by blast
  with step q have "f g de c' = Some r" by simp
  from ih [OF this] c'(2) show False by blast
qed

text \<open>
  Shipping a snapshot hangs the simulator: once a leader's snapshot request to a member (or
  an answer to one) is in the queue, the delivery loop never returns, and neither does driving
  the cluster to quiescence. The receiver's answer is of a kind no node handles; a node sends
  such a message back to its sender, which sends it back again.
\<close>

theorem sim_snapshot_diverges:
  assumes "(a, b, InstallSnapshot req) \<in> set (sim_inbox c)"
    and "a \<in> dom (map_of (sim_nodes c))" "b \<in> dom (map_of (sim_nodes c))"
  shows "deliver_all g de c = None \<and> drive_quiescent g de (Suc k) c = None"
proof -
  have "bounced (InstallSnapshot req)" by (simp add: bounced_def)
  then have "bouncing c" using assms unfolding bouncing_def by blast
  then have "deliver_all g de c = None"
    using deliver_all_returns_quiet [of g de c] by (cases "deliver_all g de c") auto
  moreover have "sim_inbox c \<noteq> []" using assms(1) by auto
  ultimately show ?thesis by (simp add: drain_def and_then_def)
qed

definition duo_snapshot :: sim_cluster where
  "duo_snapshot = \<lparr>sim_nodes = map (\<lambda>i. (i, \<lparr>n_raft = raft_new (\<lambda>lo hi. lo) (simulation_config i [1, 2] [])
        hard_default raft_log_new, n_storage = mem_storage_new, n_applied = []\<rparr>)) [1, 2],
     sim_inbox = [(1, 2, InstallSnapshot \<lparr>is_term = 1, is_leader_id = 1, is_last_included_index = 3,
        is_last_included_term = 1, is_data = [], is_offset = 0, is_done = True\<rparr>)]\<rparr>"

theorem sim_snapshot_diverges_witness:
  "sim_leader duo_snapshot = None \<and> deliver_all (\<lambda>lo hi. lo) (\<lambda>bs. None) duo_snapshot = None
     \<and> drive_quiescent (\<lambda>lo hi. lo) (\<lambda>bs. None) (Suc 31) duo_snapshot = None"
proof -
  have "sim_leader duo_snapshot = None"
    by (simp add: sim_leader_def duo_snapshot_def raft_new_def soft_default_def)
  moreover have "(1, 2, InstallSnapshot \<lparr>is_term = 1, is_leader_id = 1, is_last_included_index = 3,
        is_last_included_term = 1, is_data = [], is_offset = 0, is_done = True\<rparr>) \<in> set (sim_inbox duo_snapshot)"
    "1 \<in> dom (map_of (sim_nodes duo_snapshot))" "2 \<in> dom (map_of (sim_nodes duo_snapshot))"
    by (auto simp: duo_snapshot_def)
  ultimately show ?thesis using sim_snapshot_diverges by blast
qed

end
