(* ===== verification/Rust_Text.thy ===== *)
theory Rust_Text
  imports Noe_Prelude
begin

text \<open>
  The string functions of the Rust standard library that the SQL layer calls.

  A \<^verbatim>\<open>String\<close> is the list of its UTF-8 bytes, so that the order and the equality of strings are
  those of byte strings, and a \<^verbatim>\<open>char\<close> is the byte slice that encodes it. The theory has the
  validation and the lossy decoding of UTF-8 (\<^verbatim>\<open>str::from_utf8\<close>, \<^verbatim>\<open>String::from_utf8_lossy\<close>),
  \<^verbatim>\<open>str::chars\<close>, \<^verbatim>\<open>trim\<close>, ASCII case conversion, \<^verbatim>\<open>split\<close>, \<^verbatim>\<open>rsplit_once\<close>, and the decimal
  reading and printing of \<^verbatim>\<open>i64\<close>.
\<close>

type_synonym str = bytes

text \<open>A string literal of the source.\<close>

definition ascii :: "string \<Rightarrow> str" where
  "ascii s = map (\<lambda>c. word_of_nat (of_char c)) s"

lemma ascii_simps [simp]:
  "ascii [] = []"
  "ascii (c # s) = word_of_nat (of_char c) # ascii s"
  by (simp_all add: ascii_def)

section \<open>UTF-8\<close>

definition is_cont :: "u8 \<Rightarrow> bool" where
  "is_cont b = (0x80 \<le> b \<and> b \<le> 0xBF)"

text \<open>The bytes that may follow a lead byte (no overlong form, no surrogate, at most U+10FFFF).\<close>

definition second_ok :: "u8 \<Rightarrow> u8 \<Rightarrow> bool" where
  "second_ok b c =
     (if b = 0xE0 then 0xA0 \<le> c \<and> c \<le> 0xBF
      else if b = 0xED then 0x80 \<le> c \<and> c \<le> 0x9F
      else if b = 0xF0 then 0x90 \<le> c \<and> c \<le> 0xBF
      else if b = 0xF4 then 0x80 \<le> c \<and> c \<le> 0x8F
      else is_cont c)"

text \<open>The number of bytes a lead byte announces; 0 for a byte that cannot start a character.\<close>

definition lead_width :: "u8 \<Rightarrow> nat" where
  "lead_width b =
     (if b < 0x80 then 1
      else if 0xC2 \<le> b \<and> b \<le> 0xDF then 2
      else if 0xE0 \<le> b \<and> b \<le> 0xEF then 3
      else if 0xF0 \<le> b \<and> b \<le> 0xF4 then 4
      else 0)"

text \<open>
  The first character of a byte string: \<open>Inr n\<close> when \<open>n\<close> bytes form one, and \<open>Inl n\<close> when the
  first \<open>n\<close> bytes are the maximal ill-formed prefix (the part \<^verbatim>\<open>from_utf8_lossy\<close> replaces by one
  replacement character).
\<close>

definition utf8_step :: "bytes \<Rightarrow> nat + nat" where
  "utf8_step bs = (case bs of [] \<Rightarrow> Inl 0 | b # r \<Rightarrow>
     (case lead_width b of
        0 \<Rightarrow> Inl 1
      | Suc 0 \<Rightarrow> Inr 1
      | Suc (Suc k) \<Rightarrow>
          (case r of [] \<Rightarrow> Inl 1 | c # r1 \<Rightarrow>
             if \<not> second_ok b c then Inl 1
             else if k = 0 then Inr 2
             else (case r1 of [] \<Rightarrow> Inl 2 | d # r2 \<Rightarrow>
               if \<not> is_cont d then Inl 2
               else if k = 1 then Inr 3
               else (case r2 of [] \<Rightarrow> Inl 3 | e # _ \<Rightarrow> if is_cont e then Inr 4 else Inl 3)))))"

definition REPLACEMENT :: bytes where
  "REPLACEMENT = [0xEF, 0xBF, 0xBD]"

text \<open>\<^verbatim>\<open>chars()\<close>, with every ill-formed part replaced; on valid UTF-8 its concatenation is the string.\<close>

function lossy_chars :: "bytes \<Rightarrow> bytes list" where
  "lossy_chars bs = (if bs = [] then [] else
     case utf8_step bs of
       Inr n \<Rightarrow> take (max n 1) bs # lossy_chars (drop (max n 1) bs)
     | Inl n \<Rightarrow> REPLACEMENT # lossy_chars (drop (max n 1) bs))"
  by auto
termination by (relation "measure length") auto

declare lossy_chars.simps [simp del]

definition from_utf8_lossy :: "bytes \<Rightarrow> str" where
  "from_utf8_lossy bs = concat (lossy_chars bs)"

function valid_utf8 :: "bytes \<Rightarrow> bool" where
  "valid_utf8 bs = (if bs = [] then True else
     case utf8_step bs of Inr n \<Rightarrow> valid_utf8 (drop (max n 1) bs) | Inl _ \<Rightarrow> False)"
  by auto
termination by (relation "measure length") auto

declare valid_utf8.simps [simp del]

definition str_chars :: "str \<Rightarrow> bytes list" where
  "str_chars s = lossy_chars s"

definition from_utf8 :: "bytes \<Rightarrow> str option" where
  "from_utf8 bs = (if valid_utf8 bs then Some bs else None)"

lemma utf8_step_bounds:
  "utf8_step bs = Inr n \<Longrightarrow> 1 \<le> n \<and> n \<le> length bs"
  "bs \<noteq> [] \<Longrightarrow> utf8_step bs = Inl n \<Longrightarrow> 1 \<le> n \<and> n \<le> length bs"
  by (auto simp: utf8_step_def split: list.splits nat.splits if_splits)

lemma utf8_step_Nil [simp]: "utf8_step [] = Inl 0"
  by (simp add: utf8_step_def)

lemma lossy_chars_Nil [simp]: "lossy_chars [] = []"
  by (simp add: lossy_chars.simps)

lemma valid_utf8_Nil [simp]: "valid_utf8 []"
  by (simp add: valid_utf8.simps)

lemma utf8_step_max:
  "utf8_step bs = Inr n \<Longrightarrow> max n (Suc 0) = n"
  "bs \<noteq> [] \<Longrightarrow> utf8_step bs = Inl n \<Longrightarrow> max n (Suc 0) = n"
  using utf8_step_bounds by fastforce+

lemma lossy_chars_Cons:
  "bs \<noteq> [] \<Longrightarrow> lossy_chars bs = (case utf8_step bs of
     Inr n \<Rightarrow> take n bs # lossy_chars (drop n bs) | Inl n \<Rightarrow> REPLACEMENT # lossy_chars (drop n bs))"
  by (subst lossy_chars.simps) (simp add: utf8_step_max split: sum.splits)

lemma valid_utf8_Cons:
  "bs \<noteq> [] \<Longrightarrow> valid_utf8 bs = (case utf8_step bs of Inr n \<Rightarrow> valid_utf8 (drop n bs) | Inl _ \<Rightarrow> False)"
  by (subst valid_utf8.simps) (simp add: utf8_step_max split: sum.splits)

text \<open>Decoding keeps a valid string as it is.\<close>

lemma from_utf8_lossy_valid [simp]: "valid_utf8 bs \<Longrightarrow> from_utf8_lossy bs = bs"
proof (induction bs rule: valid_utf8.induct)
  case (1 bs)
  show ?case
  proof (cases "bs = []")
    case True
    then show ?thesis by (simp add: from_utf8_lossy_def)
  next
    case False
    with 1 obtain n where n: "utf8_step bs = Inr n" "valid_utf8 (drop n bs)" "1 \<le> n"
      by (auto simp: valid_utf8_Cons split: sum.splits dest: utf8_step_bounds)
    then have "max n 1 = n" by simp
    with 1(1) [OF False n(1)] n have "from_utf8_lossy (drop n bs) = drop n bs" by simp
    then show ?thesis using n False by (simp add: from_utf8_lossy_def lossy_chars_Cons)
  qed
qed

text \<open>A string of ASCII characters is valid and has one character per byte.\<close>

definition all_ascii :: "bytes \<Rightarrow> bool" where
  "all_ascii bs = (\<forall>b \<in> set bs. b < 0x80)"

lemma utf8_step_ascii: "b < 0x80 \<Longrightarrow> utf8_step (b # bs) = Inr 1"
  by (simp add: utf8_step_def lead_width_def)

lemma lossy_chars_ascii_Cons [simp]: "b < 0x80 \<Longrightarrow> lossy_chars (b # bs) = [b] # lossy_chars bs"
  by (simp add: lossy_chars_Cons utf8_step_ascii)

lemma valid_utf8_ascii_Cons [simp]: "b < 0x80 \<Longrightarrow> valid_utf8 (b # bs) = valid_utf8 bs"
  by (simp add: valid_utf8_Cons utf8_step_ascii)

lemma all_ascii_valid: "all_ascii bs \<Longrightarrow> valid_utf8 bs"
  by (induction bs) (auto simp: all_ascii_def)

lemma all_ascii_chars: "all_ascii bs \<Longrightarrow> str_chars bs = map (\<lambda>b. [b]) bs"
  by (induction bs) (auto simp: all_ascii_def str_chars_def)

section \<open>Trimming, case and splitting\<close>

text \<open>The characters with the Unicode property \<^verbatim>\<open>White_Space\<close>.\<close>

definition is_whitespace :: "bytes \<Rightarrow> bool" where
  "is_whitespace c = (c \<in> set [[0x09], [0x0A], [0x0B], [0x0C], [0x0D], [0x20],
     [0xC2, 0x85], [0xC2, 0xA0], [0xE1, 0x9A, 0x80],
     [0xE2, 0x80, 0x80], [0xE2, 0x80, 0x81], [0xE2, 0x80, 0x82], [0xE2, 0x80, 0x83],
     [0xE2, 0x80, 0x84], [0xE2, 0x80, 0x85], [0xE2, 0x80, 0x86], [0xE2, 0x80, 0x87],
     [0xE2, 0x80, 0x88], [0xE2, 0x80, 0x89], [0xE2, 0x80, 0x8A],
     [0xE2, 0x80, 0xA8], [0xE2, 0x80, 0xA9], [0xE2, 0x80, 0xAF],
     [0xE2, 0x81, 0x9F], [0xE3, 0x80, 0x80]])"

definition trim_by :: "(bytes \<Rightarrow> bool) \<Rightarrow> (bytes \<Rightarrow> bool) \<Rightarrow> str \<Rightarrow> str" where
  "trim_by p q s = concat (rev (dropWhile q (rev (dropWhile p (str_chars s)))))"

definition trim :: "str \<Rightarrow> str" where
  "trim s = trim_by is_whitespace is_whitespace s"

definition trim_brackets :: "str \<Rightarrow> str" where
  "trim_brackets s = trim_by (\<lambda>c. c = [0x5B]) (\<lambda>c. c = [0x5D]) s"

definition ascii_upper_byte :: "u8 \<Rightarrow> u8" where
  "ascii_upper_byte b = (if 0x61 \<le> b \<and> b \<le> 0x7A then b - 32 else b)"

definition ascii_lower_byte :: "u8 \<Rightarrow> u8" where
  "ascii_lower_byte b = (if 0x41 \<le> b \<and> b \<le> 0x5A then b + 32 else b)"

definition to_ascii_uppercase :: "str \<Rightarrow> str" where
  "to_ascii_uppercase s = map ascii_upper_byte s"

definition to_ascii_lowercase :: "str \<Rightarrow> str" where
  "to_ascii_lowercase s = map ascii_lower_byte s"

definition eq_ignore_ascii_case :: "str \<Rightarrow> str \<Rightarrow> bool" where
  "eq_ignore_ascii_case a b = (to_ascii_lowercase a = to_ascii_lowercase b)"

text \<open>\<^verbatim>\<open>split(sep)\<close> on an ASCII separator: always at least one part.\<close>

fun split_on :: "u8 \<Rightarrow> bytes \<Rightarrow> bytes list" where
  "split_on d [] = [[]]"
| "split_on d (b # bs) =
     (if b = d then [] # split_on d bs
      else case split_on d bs of [] \<Rightarrow> [[b]] | p # ps \<Rightarrow> (b # p) # ps)"

text \<open>\<^verbatim>\<open>rsplit_once(sep)\<close>: the parts before and after the last separator.\<close>

definition rsplit_once :: "u8 \<Rightarrow> str \<Rightarrow> (str \<times> str) option" where
  "rsplit_once d s =
     (if d \<in> set s
      then Some (rev (tl (dropWhile (\<lambda>b. b \<noteq> d) (rev s))), rev (takeWhile (\<lambda>b. b \<noteq> d) (rev s)))
      else None)"

lemma split_on_not_Nil [simp]: "split_on d bs \<noteq> []"
  by (induction bs) (auto split: list.splits)

lemma rsplit_once_None [simp]: "d \<notin> set s \<Longrightarrow> rsplit_once d s = None"
  by (simp add: rsplit_once_def)

lemma rsplit_once_append: "d \<notin> set t \<Longrightarrow> rsplit_once d (s @ d # t) = Some (s, t)"
proof -
  assume "d \<notin> set t"
  then have "dropWhile (\<lambda>b. b \<noteq> d) (rev t @ d # rev s) = d # rev s"
    "takeWhile (\<lambda>b. b \<noteq> d) (rev t @ d # rev s) = rev t"
    by (auto simp: dropWhile_append takeWhile_append)
  then show ?thesis by (simp add: rsplit_once_def)
qed

lemma rsplit_once_SomeD: "rsplit_once d s = Some (p, q) \<Longrightarrow> s = p @ d # q \<and> d \<notin> set q"
proof -
  assume a: "rsplit_once d s = Some (p, q)"
  then have "d \<in> set s" by (simp add: rsplit_once_def split: if_splits)
  then obtain u v where "s = u @ d # v" "d \<notin> set v" by (meson split_list_last)
  with a show ?thesis by (simp add: rsplit_once_append)
qed

section \<open>Decimal integers\<close>

function show_nat_bytes :: "nat \<Rightarrow> str" where
  "show_nat_bytes n = (if n < 10 then [word_of_nat (48 + n)]
     else show_nat_bytes (n div 10) @ [word_of_nat (48 + n mod 10)])"
  by auto
termination by (relation "measure id") auto

declare show_nat_bytes.simps [simp del]

definition show_int :: "int \<Rightarrow> str" where
  "show_int i = (if i < 0 then 0x2D # show_nat_bytes (nat (- i)) else show_nat_bytes (nat i))"

definition digit_of :: "u8 \<Rightarrow> nat option" where
  "digit_of b = (if 48 \<le> b \<and> b \<le> 57 then Some (unat b - 48) else None)"

fun read_digits :: "bytes \<Rightarrow> nat \<Rightarrow> nat option" where
  "read_digits [] acc = Some acc"
| "read_digits (b # bs) acc =
     (case digit_of b of None \<Rightarrow> None | Some d \<Rightarrow> read_digits bs (10 * acc + d))"

text \<open>The value of a non-empty digit string with an optional sign: \<^verbatim>\<open>from_str\<close> before the range check.\<close>

definition read_int :: "str \<Rightarrow> int option" where
  "read_int s = (case s of [] \<Rightarrow> None | b # bs \<Rightarrow>
     if b = 0x2D then (if bs = [] then None else map_option (\<lambda>n. - int n) (read_digits bs 0))
     else if b = 0x2B then (if bs = [] then None else map_option int (read_digits bs 0))
     else map_option int (read_digits s 0))"

type_synonym i64 = "64 word"

definition I64_MIN :: int where "I64_MIN = - (2 ^ 63)"

definition I64_MAX :: int where "I64_MAX = 2 ^ 63 - 1"

definition parse_i64 :: "str \<Rightarrow> i64 option" where
  "parse_i64 s = (case read_int s of None \<Rightarrow> None
     | Some i \<Rightarrow> if I64_MIN \<le> i \<and> i \<le> I64_MAX then Some (word_of_int i) else None)"

definition show_i64 :: "i64 \<Rightarrow> str" where
  "show_i64 n = show_int (sint n)"

lemma digit_byte: "n < 10 \<Longrightarrow> digit_of (word_of_nat (48 + n)) = Some n"
proof -
  assume n: "n < 10"
  then have u: "unat (word_of_nat (48 + n) :: u8) = 48 + n" by (simp only: unat_byte) simp
  with n show ?thesis by (simp add: digit_of_def word_le_nat_alt del: of_nat_add unat_byte)
qed

lemma read_digits_append:
  "read_digits (xs @ ys) acc = (case read_digits xs acc of None \<Rightarrow> None | Some a \<Rightarrow> read_digits ys a)"
  by (induction xs arbitrary: acc) (auto split: option.splits)

lemma read_show_nat: "read_digits (show_nat_bytes n) 0 = Some n"
proof (induction n rule: show_nat_bytes.induct)
  case (1 n)
  show ?case
  proof (cases "n < 10")
    case True
    then show ?thesis using digit_byte [OF True] by (subst show_nat_bytes.simps) simp
  next
    case False
    have "digit_of (word_of_nat (48 + n mod 10)) = Some (n mod 10)" by (rule digit_byte) simp
    with 1 False show ?thesis by (subst show_nat_bytes.simps) (simp add: read_digits_append)
  qed
qed

lemma show_nat_not_Nil [simp]: "show_nat_bytes n \<noteq> []"
  by (subst show_nat_bytes.simps) simp

lemma hd_show_nat: "digit_of (hd (show_nat_bytes n)) \<noteq> None"
proof (induction n rule: show_nat_bytes.induct)
  case (1 n)
  then show ?case
    by (subst show_nat_bytes.simps) (auto simp: digit_byte hd_append simp del: of_nat_add)
qed

lemma read_show_int: "read_int (show_int i) = Some i"
proof (cases "i < 0")
  case True
  then show ?thesis by (simp add: show_int_def read_int_def read_show_nat)
next
  case False
  obtain b bs where s: "show_nat_bytes (nat i) = b # bs" by (cases "show_nat_bytes (nat i)") auto
  then have "digit_of b \<noteq> None" using hd_show_nat [of "nat i"] by simp
  then have "b \<noteq> 0x2D" "b \<noteq> 0x2B" by (auto simp: digit_of_def)
  then show ?thesis using False read_show_nat [of "nat i"] by (simp add: show_int_def read_int_def s)
qed

lemma i64_range: "I64_MIN \<le> sint (n :: i64)" "sint (n :: i64) \<le> I64_MAX"
  using sint_range_size [of n] by (simp_all add: I64_MIN_def I64_MAX_def word_size)

lemma parse_show_i64 [simp]: "parse_i64 (show_i64 n) = Some n"
  using i64_range [of n] by (simp add: parse_i64_def show_i64_def read_show_int)

end
