(* ===== verification/F64.thy ===== *)
theory F64
  imports Rust_Text
begin

text \<open>
  IEEE 754 binary64 and binary32 as Rust's \<^verbatim>\<open>f64\<close> and \<^verbatim>\<open>f32\<close>: a float is its bit pattern.

  Every finite double is a multiple of \<open>2 ^ -1074\<close>, so its magnitude is an exact natural number
  of such units; the operations compute the exact result as a ratio of units and round it to the
  nearest float, ties to even. Reading a decimal and printing the shortest decimal that reads back
  are defined through the same rounding. A NaN result has one fixed pattern, where Rust leaves the
  payload open.
\<close>

type_synonym f64 = "64 word"
type_synonym f32 = "32 word"

section \<open>Rounding\<close>

text \<open>The quotient rounded to the nearest integer, ties to even.\<close>

definition rne :: "nat \<Rightarrow> nat \<Rightarrow> nat" where
  "rne a b = (let q = a div b; r = a mod b in
     if 2 * r < b then q else if b < 2 * r then q + 1 else if even q then q else q + 1)"

fun nat_bits :: "nat \<Rightarrow> nat" where
  "nat_bits n = (if n = 0 then 0 else Suc (nat_bits (n div 2)))"

declare nat_bits.simps [simp del]

text \<open>
  The magnitude bits of the float nearest to \<open>a / b\<close> units, for a format with \<open>p\<close> bits of
  precision and infinity at \<open>lim\<close>: the exponent field counts the shift \<open>k\<close>, and a mantissa that
  rounds up to the next power of two carries into it.
\<close>

definition fp_mag :: "nat \<Rightarrow> nat \<Rightarrow> nat \<Rightarrow> nat \<Rightarrow> nat" where
  "fp_mag p lim a b = (let k = nat_bits (a div b) - p in min lim (k * 2 ^ (p - 1) + rne a (b * 2 ^ k)))"

definition fp_units :: "nat \<Rightarrow> nat \<Rightarrow> nat" where
  "fp_units p mag = (let ex = mag div 2 ^ (p - 1); fr = mag mod 2 ^ (p - 1) in
     if ex = 0 then fr else (fr + 2 ^ (p - 1)) * 2 ^ (ex - 1))"

definition F64_INF :: nat where "F64_INF = 2047 * 2 ^ 52"

definition F32_INF :: nat where "F32_INF = 255 * 2 ^ 23"

definition F64_ONE :: nat where "F64_ONE = 2 ^ 1074"

definition F32_ONE :: nat where "F32_ONE = 2 ^ 149"

definition f64_nan :: f64 where "f64_nan = 0x7FF8000000000000"

definition f64_pack :: "bool \<Rightarrow> nat \<Rightarrow> f64" where
  "f64_pack neg mag = (if neg then word_of_nat (2 ^ 63 + mag) else word_of_nat mag)"

definition f64_neg :: "f64 \<Rightarrow> bool" where "f64_neg x = (2 ^ 63 \<le> unat x)"

definition f64_mag :: "f64 \<Rightarrow> nat" where "f64_mag x = unat x mod 2 ^ 63"

definition f64_is_nan :: "f64 \<Rightarrow> bool" where "f64_is_nan x = (F64_INF < f64_mag x)"

definition f64_is_inf :: "f64 \<Rightarrow> bool" where "f64_is_inf x = (f64_mag x = F64_INF)"

definition f64_units :: "f64 \<Rightarrow> nat" where "f64_units x = fp_units 53 (f64_mag x)"

definition f64_round :: "bool \<Rightarrow> nat \<Rightarrow> nat \<Rightarrow> f64" where
  "f64_round neg a b = f64_pack neg (fp_mag 53 F64_INF a b)"

definition f64_val :: "f64 \<Rightarrow> int" where
  "f64_val x = (if f64_neg x then - int (f64_units x) else int (f64_units x))"

section \<open>Comparison and conversion\<close>

text \<open>The order of the magnitudes is the order of the values; both zeros are 0.\<close>

definition f64_ord :: "f64 \<Rightarrow> int" where
  "f64_ord x = (if f64_neg x then - int (f64_mag x) else int (f64_mag x))"

definition f64_eq :: "f64 \<Rightarrow> f64 \<Rightarrow> bool" where
  "f64_eq x y = (\<not> f64_is_nan x \<and> \<not> f64_is_nan y \<and> f64_ord x = f64_ord y)"

definition f64_lt :: "f64 \<Rightarrow> f64 \<Rightarrow> bool" where
  "f64_lt x y = (\<not> f64_is_nan x \<and> \<not> f64_is_nan y \<and> f64_ord x < f64_ord y)"

definition f64_le :: "f64 \<Rightarrow> f64 \<Rightarrow> bool" where
  "f64_le x y = (\<not> f64_is_nan x \<and> \<not> f64_is_nan y \<and> f64_ord x \<le> f64_ord y)"

definition f64_of_int :: "int \<Rightarrow> f64" where
  "f64_of_int i = f64_round (i < 0) (nat \<bar>i\<bar> * F64_ONE) 1"

definition f64_of_i64 :: "i64 \<Rightarrow> f64" where "f64_of_i64 n = f64_of_int (sint n)"

definition f64_of_u64 :: "u64 \<Rightarrow> f64" where "f64_of_u64 n = f64_of_int (uint n)"

definition f64_of_bool :: "bool \<Rightarrow> f64" where "f64_of_bool b = (if b then 0x3FF0000000000000 else 0)"

text \<open>\<^verbatim>\<open>x as i64\<close>: towards zero, saturating, NaN to 0.\<close>

definition i64_of_f64 :: "f64 \<Rightarrow> i64" where
  "i64_of_f64 x = (if f64_is_nan x then 0
     else if f64_is_inf x then word_of_int (if f64_neg x then I64_MIN else I64_MAX)
     else let m = int (f64_units x div F64_ONE)
          in word_of_int (max I64_MIN (min I64_MAX (if f64_neg x then - m else m))))"

definition f64_fract_zero :: "f64 \<Rightarrow> bool" where
  "f64_fract_zero x = (\<not> f64_is_nan x \<and> \<not> f64_is_inf x \<and> f64_units x mod F64_ONE = 0)"

definition f64_trunc :: "f64 \<Rightarrow> f64" where
  "f64_trunc x = (if f64_is_nan x \<or> f64_is_inf x then x
     else f64_round (f64_neg x) (f64_units x div F64_ONE * F64_ONE) 1)"

text \<open>\<^verbatim>\<open>round\<close>: half away from zero.\<close>

definition f64_round_half :: "f64 \<Rightarrow> f64" where
  "f64_round_half x = (if f64_is_nan x \<or> f64_is_inf x then x
     else f64_round (f64_neg x) ((2 * f64_units x + F64_ONE) div (2 * F64_ONE) * F64_ONE) 1)"

definition f64_minus :: "f64 \<Rightarrow> f64" where "f64_minus x = f64_pack (\<not> f64_neg x) (f64_mag x)"

definition f64_abs :: "f64 \<Rightarrow> f64" where "f64_abs x = f64_pack False (f64_mag x)"

definition f64_min :: "f64 \<Rightarrow> f64 \<Rightarrow> f64" where
  "f64_min x y = (if f64_is_nan x then y else if f64_is_nan y then x else if f64_lt y x then y else x)"

definition f64_max :: "f64 \<Rightarrow> f64 \<Rightarrow> f64" where
  "f64_max x y = (if f64_is_nan x then y else if f64_is_nan y then x else if f64_lt x y then y else x)"

section \<open>Arithmetic\<close>

definition f64_add :: "f64 \<Rightarrow> f64 \<Rightarrow> f64" where
  "f64_add x y =
     (if f64_is_nan x \<or> f64_is_nan y then f64_nan
      else if f64_is_inf x then (if f64_is_inf y \<and> f64_neg x \<noteq> f64_neg y then f64_nan else x)
      else if f64_is_inf y then y
      else let s = f64_val x + f64_val y in
        if s = 0 then f64_pack (f64_neg x \<and> f64_neg y) 0
        else f64_round (s < 0) (nat \<bar>s\<bar>) 1)"

definition f64_sub :: "f64 \<Rightarrow> f64 \<Rightarrow> f64" where
  "f64_sub x y = (if f64_is_nan y then f64_nan else f64_add x (f64_minus y))"

definition f64_mul :: "f64 \<Rightarrow> f64 \<Rightarrow> f64" where
  "f64_mul x y =
     (let neg = (f64_neg x \<noteq> f64_neg y) in
      if f64_is_nan x \<or> f64_is_nan y then f64_nan
      else if f64_is_inf x \<or> f64_is_inf y
        then (if f64_units x = 0 \<or> f64_units y = 0 then f64_nan else f64_pack neg F64_INF)
      else f64_round neg (f64_units x * f64_units y) F64_ONE)"

definition f64_div :: "f64 \<Rightarrow> f64 \<Rightarrow> f64" where
  "f64_div x y =
     (let neg = (f64_neg x \<noteq> f64_neg y) in
      if f64_is_nan x \<or> f64_is_nan y then f64_nan
      else if f64_is_inf x then (if f64_is_inf y then f64_nan else f64_pack neg F64_INF)
      else if f64_is_inf y then f64_pack neg 0
      else if f64_units y = 0 then (if f64_units x = 0 then f64_nan else f64_pack neg F64_INF)
      else f64_round neg (f64_units x * F64_ONE) (f64_units y))"

text \<open>\<^verbatim>\<open>x % y\<close>: the remainder of the truncated quotient, with the sign of \<open>x\<close>; it is exact.\<close>

definition f64_rem :: "f64 \<Rightarrow> f64 \<Rightarrow> f64" where
  "f64_rem x y =
     (if f64_is_nan x \<or> f64_is_nan y \<or> f64_is_inf x \<or> f64_units y = 0 then f64_nan
      else if f64_is_inf y then x
      else f64_round (f64_neg x) (f64_units x mod f64_units y) 1)"

fun isqrt :: "nat \<Rightarrow> nat" where
  "isqrt n = (if n = 0 then 0 else
     let r = 2 * isqrt (n div 4) in if (r + 1) * (r + 1) \<le> n then r + 1 else r)"

declare isqrt.simps [simp del]

text \<open>The square root in quarter units, with a sticky half bit, rounded once.\<close>

definition f64_sqrt :: "f64 \<Rightarrow> f64" where
  "f64_sqrt x =
     (if f64_is_nan x then f64_nan else if f64_units x = 0 then x
      else if f64_neg x then f64_nan else if f64_is_inf x then x
      else let t = f64_units x * F64_ONE * 16; s = isqrt t
           in f64_round False (2 * s + (if s * s = t then 0 else 1)) 8)"

definition f64_of_f32 :: "f32 \<Rightarrow> f64" where
  "f64_of_f32 x = (let mag = unat x mod 2 ^ 31; neg = (2 ^ 31 \<le> unat x) in
     if F32_INF < mag then f64_nan
     else if mag = F32_INF then f64_pack neg F64_INF
     else f64_round neg (fp_units 24 mag * F64_ONE) F32_ONE)"

section \<open>Decimal text\<close>

fun span_digits :: "bytes \<Rightarrow> nat \<Rightarrow> nat \<Rightarrow> nat \<times> nat \<times> bytes" where
  "span_digits [] acc n = (acc, n, [])"
| "span_digits (b # bs) acc n =
     (case digit_of b of None \<Rightarrow> (acc, n, b # bs) | Some d \<Rightarrow> span_digits bs (10 * acc + d) (Suc n))"

text \<open>Digits, an optional fraction and an optional exponent: the significand and its power of ten.\<close>

definition read_decimal :: "bytes \<Rightarrow> (nat \<times> int) option" where
  "read_decimal s =
     (let (i, ni, r) = span_digits s 0 0;
          (m, nf, r) = (case r of b # r' \<Rightarrow> if b = 0x2E then span_digits r' i 0 else (i, 0, r)
                                | [] \<Rightarrow> (i, 0, r))
      in if ni + nf = 0 then None
         else case r of
           [] \<Rightarrow> Some (m, - int nf)
         | b # r' \<Rightarrow>
             if b = 0x65 \<or> b = 0x45
             then (let (neg, r') = (case r' of c # r'' \<Rightarrow> if c = 0x2D then (True, r'')
                                      else if c = 0x2B then (False, r'') else (False, r')
                                    | [] \<Rightarrow> (False, r'));
                       (x, nx, r') = span_digits r' 0 0
                   in if nx = 0 \<or> r' \<noteq> [] then None
                      else Some (m, (if neg then - int x else int x) - int nf))
             else None)"

definition fp_of_decimal :: "nat \<Rightarrow> nat \<Rightarrow> nat \<Rightarrow> nat \<Rightarrow> int \<Rightarrow> nat" where
  "fp_of_decimal p lim one m x =
     (if 0 \<le> x then fp_mag p lim (m * 10 ^ nat x * one) 1 else fp_mag p lim (m * one) (10 ^ nat (- x)))"

text \<open>The sign, and the magnitude bits when the text is a number, an infinity or a NaN.\<close>

definition read_float :: "nat \<Rightarrow> nat \<Rightarrow> nat \<Rightarrow> str \<Rightarrow> (bool \<times> nat) option" where
  "read_float p lim one s =
     (let (neg, r) = (case s of b # r \<Rightarrow> if b = 0x2D then (True, r) else if b = 0x2B then (False, r)
                                  else (False, s) | [] \<Rightarrow> (False, s))
      in case read_decimal r of
           Some (m, x) \<Rightarrow> Some (neg, fp_of_decimal p lim one m x)
         | None \<Rightarrow>
             let w = to_ascii_lowercase r in
             if w = ascii ''inf'' \<or> w = ascii ''infinity'' then Some (neg, lim)
             else if w = ascii ''nan'' then Some (neg, lim + 2 ^ (p - 2)) else None)"

definition parse_f64 :: "str \<Rightarrow> f64 option" where
  "parse_f64 s = map_option (\<lambda>(neg, mag). f64_pack neg mag) (read_float 53 F64_INF F64_ONE s)"

definition parse_f32 :: "str \<Rightarrow> f32 option" where
  "parse_f32 s = map_option (\<lambda>(neg, mag). word_of_nat ((if neg then 2 ^ 31 else 0) + mag))
     (read_float 24 F32_INF F32_ONE s)"

text \<open>
  \<^verbatim>\<open>to_string\<close>: the fewest digits that read back to the float, the nearest such decimal, printed
  without an exponent. \<open>w\<close> is the value scaled by \<open>10 ^ 330\<close>, which gives the decimal exponent.
\<close>

definition shortest_at :: "nat \<Rightarrow> nat \<Rightarrow> nat \<Rightarrow> nat \<Rightarrow> int \<Rightarrow> (nat \<times> int) option" where
  "shortest_at p lim one u q =
     (let (a, b) = (if 0 \<le> q then (u, one * 10 ^ nat q) else (u * 10 ^ nat (- q), one));
          lo = a div b; hi = lo + 1; mag = fp_mag p lim u 1;
          ok = (\<lambda>d. fp_of_decimal p lim one d q = mag)
      in if ok lo \<and> (\<not> ok hi \<or> 2 * (a mod b) < b \<or> 2 * (a mod b) = b \<and> even lo) then Some (lo, q)
         else if ok hi then Some (if 10 dvd hi then (hi div 10, q + 1) else (hi, q)) else None)"

fun shortest_from :: "nat \<Rightarrow> nat \<Rightarrow> nat \<Rightarrow> nat \<Rightarrow> int \<Rightarrow> nat \<Rightarrow> nat \<times> int" where
  "shortest_from p lim one u q 0 = (0, 0)"
| "shortest_from p lim one u q (Suc fuel) =
     (case shortest_at p lim one u q of Some r \<Rightarrow> r | None \<Rightarrow> shortest_from p lim one u (q - 1) fuel)"

definition show_decimal :: "nat \<Rightarrow> int \<Rightarrow> str" where
  "show_decimal m q =
     (let ds = show_nat_bytes m; n = length ds in
      if 0 \<le> q then ds @ replicate (nat q) 0x30
      else let f = nat (- q) in
        if f < n then take (n - f) ds @ [0x2E] @ drop (n - f) ds
        else [0x30, 0x2E] @ replicate (f - n) 0x30 @ ds)"

definition show_float :: "nat \<Rightarrow> nat \<Rightarrow> nat \<Rightarrow> bool \<Rightarrow> nat \<Rightarrow> str" where
  "show_float p lim one neg mag =
     (if lim < mag then ascii ''NaN''
      else (if neg then [0x2D] else []) @
        (if mag = lim then ascii ''inf'' else
         let u = fp_units p mag in
         if u = 0 then [0x30]
         else let w = u * 10 ^ 330 div one; x = int (length (show_nat_bytes w)) - 330;
                  (m, q) = shortest_from p lim one u (x - 1) 17
              in show_decimal m q))"

definition show_f64 :: "f64 \<Rightarrow> str" where
  "show_f64 x = show_float 53 F64_INF F64_ONE (f64_neg x) (f64_mag x)"

definition show_f32 :: "f32 \<Rightarrow> str" where
  "show_f32 x = show_float 24 F32_INF F32_ONE (2 ^ 31 \<le> unat x) (unat x mod 2 ^ 31)"

definition f64_to_be :: "f64 \<Rightarrow> bytes" where
  "f64_to_be x = rev (nat_to_le 8 (unat x))"

section \<open>Rounding is monotone, and exact on 53 bits\<close>

lemma nat_bits_0 [simp]: "nat_bits 0 = 0"
  by (subst nat_bits.simps) simp

lemma nat_bits_pos: "0 < n \<Longrightarrow> nat_bits n = Suc (nat_bits (n div 2))"
  by (subst nat_bits.simps) simp

lemma less_pow_nat_bits: "n < 2 ^ nat_bits n"
proof (induction n rule: nat_bits.induct)
  case (1 n)
  show ?case
  proof (cases "n = 0")
    case False
    then have "n div 2 < 2 ^ nat_bits (n div 2)" using 1 by simp
    then have "n < 2 * 2 ^ nat_bits (n div 2)" by linarith
    with False show ?thesis by (simp add: nat_bits_pos)
  qed simp
qed

lemma pow_nat_bits_le: "0 < n \<Longrightarrow> 2 ^ (nat_bits n - 1) \<le> n"
proof (induction n rule: nat_bits.induct)
  case (1 n)
  show ?case
  proof (cases "n div 2 = 0")
    case True
    with 1(2) show ?thesis by (simp add: nat_bits_pos)
  next
    case False
    then have "2 ^ (nat_bits (n div 2) - 1) \<le> n div 2" using 1 by simp
    moreover have "nat_bits (n div 2) = Suc (nat_bits (n div 2) - 1)" using False by (simp add: nat_bits_pos)
    then have "2 ^ nat_bits (n div 2) = 2 * (2::nat) ^ (nat_bits (n div 2) - 1)" by (metis power_Suc)
    ultimately have "2 ^ nat_bits (n div 2) \<le> n" by linarith
    with 1(2) show ?thesis by (simp add: nat_bits_pos)
  qed
qed

lemma nat_bits_le_iff: "nat_bits n \<le> k \<longleftrightarrow> n < 2 ^ k"
proof
  assume "nat_bits n \<le> k"
  then have "(2::nat) ^ nat_bits n \<le> 2 ^ k" by simp
  with less_pow_nat_bits [of n] show "n < 2 ^ k" by linarith
next
  assume lt: "n < 2 ^ k"
  show "nat_bits n \<le> k"
  proof (rule ccontr)
    assume "\<not> nat_bits n \<le> k"
    then have "k \<le> nat_bits n - 1" "0 < n" by (auto intro: gr0I)
    then have "2 ^ k \<le> n" using pow_nat_bits_le [of n] power_increasing [of k "nat_bits n - 1" "2::nat"] by linarith
    with lt show False by simp
  qed
qed

lemma nat_bits_mono: "m \<le> n \<Longrightarrow> nat_bits m \<le> nat_bits n"
  using less_pow_nat_bits [of n] by (simp add: nat_bits_le_iff)

lemma nat_bits_shift: "0 < n \<Longrightarrow> nat_bits (n * 2 ^ k) = nat_bits n + k"
proof (induction k)
  case (Suc k)
  have "nat_bits (2 * (n * 2 ^ k)) = Suc (nat_bits (n * 2 ^ k))"
    using Suc.prems by (subst nat_bits_pos) simp_all
  with Suc show ?case by (simp add: mult.left_commute)
qed simp

lemma rne_between: "a div b \<le> rne a b" "rne a b \<le> a div b + 1"
  by (auto simp: rne_def Let_def)

lemma rne_mono: "a \<le> a' \<Longrightarrow> rne a b \<le> rne a' b"
proof (cases "a div b = a' div b")
  case True
  assume le: "a \<le> a'"
  have "a = b * (a div b) + a mod b" "a' = b * (a' div b) + a' mod b" by simp_all
  with True le have "a mod b \<le> a' mod b" by (metis add_le_cancel_left)
  with True show ?thesis by (auto simp: rne_def Let_def)
next
  case False
  assume "a \<le> a'"
  then have "a div b \<le> a' div b" by (rule div_le_mono)
  with False have "a div b + 1 \<le> a' div b" by simp
  with rne_between [of a b] rne_between [of a' b] show ?thesis by linarith
qed

lemma rne_exact: "0 < b \<Longrightarrow> rne (m * b) b = m"
  by (simp add: rne_def)

lemma rne_le: "a \<le> n * b \<Longrightarrow> 0 < b \<Longrightarrow> rne a b \<le> n"
  using rne_mono [of a "n * b" b] by (simp add: rne_exact)

lemma rne_ge: "n * b \<le> a \<Longrightarrow> 0 < b \<Longrightarrow> n \<le> rne a b"
  using rne_mono [of "n * b" a b] by (simp add: rne_exact)

text \<open>A mantissa never reaches past the next exponent, so a larger magnitude has larger bits.\<close>

lemma fp_mag_mono:
  assumes p: "0 < p" and b: "0 < b" and le: "a \<le> a'"
  shows "fp_mag p lim a b \<le> fp_mag p lim a' b"
proof -
  define k where "k = nat_bits (a div b) - p"
  define k' where "k' = nat_bits (a' div b) - p"
  have kk: "k \<le> k'"
    unfolding k_def k'_def using nat_bits_mono [OF div_le_mono [OF le]] by (rule diff_le_mono)
  let ?B = "2 ^ (p - 1) :: nat"
  have B: "(2::nat) ^ p = 2 * ?B" using p by (cases p) simp_all
  have "k * ?B + rne a (b * 2 ^ k) \<le> k' * ?B + rne a' (b * 2 ^ k')"
  proof (cases "k = k'")
    case True
    then show ?thesis using rne_mono [OF le] by simp
  next
    case False
    with kk have lt: "k < k'" by simp
    have "a div b < 2 ^ (k + p)" using less_pow_nat_bits [of "a div b"]
      by (simp add: nat_bits_le_iff [symmetric] k_def)
    then have "a < b * 2 ^ (k + p)" using b by (simp add: div_less_iff_less_mult mult.commute)
    then have "a \<le> 2 ^ p * (b * 2 ^ k)" by (simp add: power_add mult_ac)
    then have up: "rne a (b * 2 ^ k) \<le> 2 ^ p" using b by (intro rne_le) simp_all
    have pos: "0 < a' div b" "nat_bits (a' div b) - 1 = k' + (p - 1)"
      using lt p by (auto simp: k'_def intro!: gr0I)
    have "2 ^ (k' + (p - 1)) \<le> a' div b" using pow_nat_bits_le [OF pos(1)] pos(2) by simp
    then have "2 ^ (k' + (p - 1)) * b \<le> a'" using b
      by (metis le_trans mult.commute mult_le_mono1 times_div_less_eq_dividend)
    then have "?B * (b * 2 ^ k') \<le> a'" by (simp add: power_add mult_ac)
    then have lo: "?B \<le> rne a' (b * 2 ^ k')" using b by (intro rne_ge) simp_all
    have "(k + 1) * ?B \<le> k' * ?B" using lt by (intro mult_right_mono) simp_all
    with up lo B show ?thesis by (simp add: algebra_simps)
  qed
  then show ?thesis unfolding fp_mag_def Let_def k_def [symmetric] k'_def [symmetric]
    by (intro min.mono) simp_all
qed

lemma fp_mag_exact:
  assumes "2 ^ (nat_bits u - p) dvd u"
  shows "fp_mag p lim u 1 = min lim ((nat_bits u - p) * 2 ^ (p - 1) + u div 2 ^ (nat_bits u - p))"
proof -
  from assms obtain m where "u = 2 ^ (nat_bits u - p) * m" ..
  then have "u = m * 2 ^ (nat_bits u - p)" "u div 2 ^ (nat_bits u - p) = m"
    by (metis mult.commute, metis nonzero_mult_div_cancel_left power_not_zero zero_neq_numeral)
  then have "rne u (2 ^ (nat_bits u - p)) = u div 2 ^ (nat_bits u - p)"
    by (metis rne_exact zero_less_numeral zero_less_power)
  then show ?thesis by (simp add: fp_mag_def Let_def)
qed

lemma fp_units_exact:
  assumes p: "0 < p" and dvd: "2 ^ (nat_bits u - p) dvd u"
  shows "fp_units p ((nat_bits u - p) * 2 ^ (p - 1) + u div 2 ^ (nat_bits u - p)) = u"
proof (cases "nat_bits u \<le> p")
  case True
  then have "u < 2 ^ p" by (simp add: nat_bits_le_iff)
  moreover have "(2::nat) ^ p = 2 * 2 ^ (p - 1)" using p by (cases p) simp_all
  ultimately have "u div 2 ^ (p - 1) < 2" by (simp add: less_mult_imp_div_less)
  then consider "u div 2 ^ (p - 1) = 0" | "u div 2 ^ (p - 1) = 1" by linarith
  then have "fp_units p u = u"
  proof cases
    case 1
    then show ?thesis using mod_div_mult_eq [of u "2 ^ (p - 1)"] by (simp add: fp_units_def Let_def)
  next
    case 2
    then have "u mod 2 ^ (p - 1) + 2 ^ (p - 1) = u"
      using mod_div_mult_eq [of u "2 ^ (p - 1)"] by simp
    with 2 show ?thesis by (simp add: fp_units_def Let_def)
  qed
  with True show ?thesis by simp
next
  case False
  let ?k = "nat_bits u - p" and ?B = "2 ^ (p - 1) :: nat"
  obtain m where m: "u = 2 ^ ?k * m" using dvd ..
  then have um: "u div 2 ^ ?k = m" by (metis nonzero_mult_div_cancel_left power_not_zero zero_neq_numeral)
  have upos: "0 < u" using False by (auto intro: gr0I)
  have pk: "nat_bits u - 1 = ?k + (p - 1)" "nat_bits u = ?k + p" using False p by auto
  have "2 ^ ?k * ?B \<le> 2 ^ ?k * m"
    using pow_nat_bits_le [OF upos] unfolding pk(1) power_add m [symmetric] .
  then have lo: "?B \<le> m" by simp
  have "2 ^ ?k * m < 2 ^ ?k * 2 ^ p"
    using less_pow_nat_bits [of u] unfolding pk(2) [symmetric] power_add [symmetric] m [symmetric] .
  then have "m < 2 ^ p" by simp
  moreover have "(2::nat) ^ p = 2 * ?B" using p by (cases p) simp_all
  ultimately have fr: "m - ?B < ?B" using lo by simp
  have "?k * ?B + m = (m - ?B) + (?k + 1) * ?B" using lo by simp
  then have "(?k * ?B + m) div ?B = ?k + 1" "(?k * ?B + m) mod ?B = m - ?B"
    using fr by (simp_all add: div_mult_self3 del: add_mult_distrib mult_Suc)
  moreover have "m * 2 ^ ?k = u" using m by (metis mult.commute)
  ultimately show ?thesis using lo by (simp add: fp_units_def Let_def um)
qed

definition int_mag :: "nat \<Rightarrow> nat" where
  "int_mag n = fp_mag 53 F64_INF (n * F64_ONE) 1"

lemma int_mag_le: "int_mag n \<le> F64_INF"
  by (simp add: int_mag_def fp_mag_def Let_def)

lemma int_mag_mono: "m \<le> n \<Longrightarrow> int_mag m \<le> int_mag n"
  unfolding int_mag_def by (rule fp_mag_mono) simp_all

lemma pack_fields:
  assumes "mag < 2 ^ 63"
  shows "f64_neg (f64_pack neg mag) = neg" "f64_mag (f64_pack neg mag) = mag"
proof -
  have "unat (f64_pack neg mag) = (if neg then 2 ^ 63 + mag else mag)"
    using assms by (simp add: f64_pack_def unat_of_nat del: of_nat_add)
  with assms show "f64_neg (f64_pack neg mag) = neg" "f64_mag (f64_pack neg mag) = mag"
    by (simp_all add: f64_neg_def f64_mag_def)
qed

lemma of_int_fields:
  "f64_neg (f64_of_int i) = (i < 0)" "f64_mag (f64_of_int i) = int_mag (nat \<bar>i\<bar>)"
proof -
  have "int_mag (nat \<bar>i\<bar>) < 2 ^ 63" using int_mag_le [of "nat \<bar>i\<bar>"] by (simp add: F64_INF_def)
  from pack_fields [OF this, of "i < 0"]
  show "f64_neg (f64_of_int i) = (i < 0)" "f64_mag (f64_of_int i) = int_mag (nat \<bar>i\<bar>)"
    by (simp_all add: f64_of_int_def f64_round_def int_mag_def)
qed

lemma of_int_not_nan [simp]: "\<not> f64_is_nan (f64_of_int i)"
  using int_mag_le [of "nat \<bar>i\<bar>"] by (simp add: f64_is_nan_def of_int_fields)

lemma int_mag_0 [simp]: "int_mag 0 = 0"
  by (simp add: int_mag_def fp_mag_def rne_def)

lemma of_int_ord: "f64_ord (f64_of_int i) = (if i < 0 then - int (int_mag (nat \<bar>i\<bar>)) else int (int_mag (nat \<bar>i\<bar>)))"
  by (simp add: f64_ord_def of_int_fields)

lemma of_int_ord_mono: "i \<le> j \<Longrightarrow> f64_ord (f64_of_int i) \<le> f64_ord (f64_of_int j)"
  by (auto simp: of_int_ord intro!: int_mag_mono)

lemma int_mag_exact:
  assumes "n \<le> 2 ^ 53"
  shows "fp_units 53 (int_mag n) = n * F64_ONE" "int_mag n < F64_INF"
proof -
  let ?u = "n * F64_ONE" and ?k = "nat_bits (n * F64_ONE) - 53"
  have u: "nat_bits ?u = (if n = 0 then 0 else nat_bits n + 1074)"
    using nat_bits_shift [of n 1074] unfolding F64_ONE_def by (cases "n = 0") (simp, metis neq0_conv)
  have nb: "nat_bits n \<le> 53 \<or> n = 2 ^ 53"
    using assms le_neq_implies_less unfolding nat_bits_le_iff by blast
  have bits53: "nat_bits (2 ^ 53) = 54" using nat_bits_shift [of 1 53] by (simp add: nat_bits_pos)
  have dvd: "2 ^ ?k dvd ?u"
  proof (cases "n = 2 ^ 53")
    case True
    then have "?u = 2 ^ 1127" "?k = 1075" using u bits53 by (simp_all add: F64_ONE_def power_add [symmetric])
    then show ?thesis by (simp only: le_imp_power_dvd)
  next
    case False
    then have "?k \<le> 1074" using nb u by auto
    then have "(2::nat) ^ ?k dvd F64_ONE" unfolding F64_ONE_def by (rule le_imp_power_dvd)
    then show ?thesis by simp
  qed
  let ?m = "?k * 2 ^ 52 + ?u div 2 ^ ?k"
  have k: "?k \<le> 1075" using u nb bits53 by auto
  have "?u < 2 ^ (?k + 53)" using less_pow_nat_bits [of ?u] by (simp only: nat_bits_le_iff [symmetric])
  then have "?u div 2 ^ ?k < 2 ^ 53" by (simp add: power_add less_mult_imp_div_less mult.commute)
  moreover have "?k * 2 ^ 52 \<le> 1075 * 2 ^ 52" using k by (rule mult_right_mono) simp
  ultimately have m: "?m < F64_INF" by (simp add: F64_INF_def)
  then have eq: "int_mag n = ?m" using fp_mag_exact [OF dvd, of F64_INF] by (simp add: int_mag_def)
  show "int_mag n < F64_INF" using eq m by simp
  show "fp_units 53 (int_mag n) = ?u" unfolding eq using fp_units_exact [OF _ dvd] by simp
qed

text \<open>Up to \<open>2 ^ 53\<close> in magnitude the conversion of an integer loses nothing, so it keeps the strict order.\<close>

lemma int_mag_strict: "m < n \<Longrightarrow> n \<le> 2 ^ 53 \<Longrightarrow> int_mag m < int_mag n"
proof -
  assume a: "m < n" "n \<le> 2 ^ 53"
  then have "fp_units 53 (int_mag m) \<noteq> fp_units 53 (int_mag n)"
    using int_mag_exact(1) [of m] int_mag_exact(1) [of n] by (simp add: F64_ONE_def)
  then show ?thesis using int_mag_mono [of m n] a(1) by (metis le_neq_implies_less less_imp_le)
qed

lemma of_int_ord_strict:
  assumes "i < j" "\<bar>i\<bar> \<le> 2 ^ 53" "\<bar>j\<bar> \<le> 2 ^ 53"
  shows "f64_ord (f64_of_int i) < f64_ord (f64_of_int j)"
proof -
  have pos: "0 < int_mag n" if "0 < n" "n \<le> 2 ^ 53" for n using int_mag_strict [OF that] by simp
  consider "0 \<le> i" | "i < 0" "0 \<le> j" | "j < 0" using assms(1) by linarith
  then show ?thesis
  proof cases
    case 1
    then show ?thesis using assms by (auto simp: of_int_ord intro!: int_mag_strict)
  next
    case 2
    have "0 < int_mag (nat \<bar>i\<bar>)" using 2 assms by (intro pos) auto
    with 2 show ?thesis by (simp add: of_int_ord)
  next
    case 3
    then show ?thesis using assms by (auto simp: of_int_ord intro!: int_mag_strict)
  qed
qed

lemma of_int_compare:
  assumes "\<bar>i\<bar> \<le> 2 ^ 53" "\<bar>j\<bar> \<le> 2 ^ 53"
  shows "f64_lt (f64_of_int i) (f64_of_int j) = (i < j)"
    "f64_le (f64_of_int i) (f64_of_int j) = (i \<le> j)"
    "f64_eq (f64_of_int i) (f64_of_int j) = (i = j)"
  using of_int_ord_strict [of i j] of_int_ord_strict [of j i] assms
  by (auto simp: f64_lt_def f64_le_def f64_eq_def) (metis linorder_neqE less_imp_not_less not_le)+

lemma of_int_compare_sound:
  "f64_lt (f64_of_int i) (f64_of_int j) \<Longrightarrow> i < j"
  "i \<le> j \<Longrightarrow> f64_le (f64_of_int i) (f64_of_int j)"
  by (metis f64_lt_def leD not_le of_int_ord_mono) (simp add: f64_le_def of_int_ord_mono)

end
