(* ===== verification/Sql_Ast.thy ===== *)
theory Sql_Ast
  imports F64
begin

text \<open>
  The syntax tree of \<^verbatim>\<open>crates/noedb-ast\<close>: names, literals, operators, expressions, window
  specifications and \<^verbatim>\<open>SELECT\<close> statements, with the constructors of the source. Source spans
  are left out: no function of the planner or the executor reads them.
\<close>

section \<open>Names, literals and operators\<close>

datatype column_ref =
    Named "str option" str
  | Star
  | QualifiedStar str

record table_ref =
  tr_name :: str
  tr_alias :: "str option"

datatype literal =
    LNull
  | LInteger i64
  | LFloat f64
  | LString str
  | LBoolean bool

datatype binary_op =
    OpEq | OpNe | OpLt | OpGt | OpLe | OpGe | OpAnd | OpOr
  | OpPlus | OpMinus | OpDiv | OpMod | OpMul | OpLike | OpDistance

datatype unary_op = UMinus | UNot

datatype sql_type =
    TInt | TBoolean | TFloat
  | TVarchar "u32 option"
  | TText | TDate | TTimestamp
  | TVector u32
  | TNamed str

datatype join_kind = JoinInner | JoinLeft

datatype set_op_kind = SetUnion | SetIntersect | SetExcept

section \<open>Window functions\<close>

datatype window_func = RowNumber | Rank | DenseRank | WSum | WAvg

definition window_parse_name :: "str \<Rightarrow> window_func option" where
  "window_parse_name name =
     (let u = to_ascii_uppercase name in
      if u = ascii ''ROW_NUMBER'' then Some RowNumber
      else if u = ascii ''RANK'' then Some Rank
      else if u = ascii ''DENSE_RANK'' then Some DenseRank else None)"

definition window_parse_agg_name :: "str \<Rightarrow> window_func option" where
  "window_parse_agg_name name =
     (let u = to_ascii_uppercase name in
      if u = ascii ''SUM'' then Some WSum else if u = ascii ''AVG'' then Some WAvg else None)"

definition is_ranking :: "window_func \<Rightarrow> bool" where
  "is_ranking f = (f = RowNumber \<or> f = Rank \<or> f = DenseRank)"

definition window_sql_name :: "window_func \<Rightarrow> str" where
  "window_sql_name f = (case f of RowNumber \<Rightarrow> ascii ''ROW_NUMBER'' | Rank \<Rightarrow> ascii ''RANK''
     | DenseRank \<Rightarrow> ascii ''DENSE_RANK'' | WSum \<Rightarrow> ascii ''SUM'' | WAvg \<Rightarrow> ascii ''AVG'')"

datatype frame_mode = Rows | Range

datatype frame_bound =
    UnboundedPreceding
  | Preceding u64
  | CurrentRow
  | Following u64
  | UnboundedFollowing

record window_frame =
  wf_mode :: frame_mode
  wf_start :: frame_bound
  wf_end :: frame_bound

section \<open>Expressions and queries\<close>

text \<open>
  The clauses that hold expressions or queries are polymorphic in them; the two recursive types
  are tied together at the end.
\<close>

datatype 'e order_key = OrderKey (ok_expr: 'e) (ok_asc: bool)

datatype 'e window_spec =
  WindowSpec (ws_partition_by: "'e list") (ws_order_by: "'e order_key list") (ws_frame: "window_frame option")

datatype 'e select_item = SelectItem (si_expr: 'e) (si_alias: "str option")

datatype 'e join_clause = JoinClause (jn_kind: join_kind) (jn_table: table_ref) (jn_on: 'e)

datatype 's from_item = FromTable table_ref | FromSubquery 's str

datatype 's cte_body = CteSelect 's | CteUnion 's bool 's

datatype 's cte_def = CteDef (cte_name: str) (cte_query: "'s cte_body")

datatype 's with_clause = WithClause (wc_recursive: bool) (wc_ctes: "'s cte_def list")

datatype 's compound_select = CompoundSelect (cs_op: set_op_kind) (cs_all: bool) (cs_right: 's)

datatype expr =
    ELiteral literal
  | EColumn column_ref
  | EBinary binary_op expr expr
  | EUnary unary_op expr
  | EIsNull expr bool
  | EIn expr "expr list" bool
  | EInSubquery expr select_stmt bool
  | EExists select_stmt bool
  | EScalarSubquery select_stmt
  | EBetween expr expr expr bool
  | EParen expr
  | EParameter "16 word"
  | ECurrentUser
  | ECast expr sql_type
  | EFunction str "expr list" "expr window_spec option"
and select_stmt =
    SelectStmt
      (ss_with: "select_stmt with_clause option")
      (ss_distinct: bool)
      (ss_items: "expr select_item list")
      (ss_from: "select_stmt from_item option")
      (ss_joins: "expr join_clause list")
      (ss_where: "expr option")
      (ss_group_by: "expr list")
      (ss_having: "expr option")
      (ss_order_by: "expr order_key list")
      (ss_limit: "u64 option")
      (ss_offset: "u64 option")
      (ss_compound: "select_stmt compound_select option")

end
