(* ===== verification/Sql_Value.thy ===== *)
theory Sql_Value
  imports Sql_Ast
begin

text \<open>
  Runtime values (\<^verbatim>\<open>crates/noedb-planner/src/value.rs\<close>), the errors of the planner and the executor
  (\<^verbatim>\<open>lib.rs\<close>) and \<^verbatim>\<open>CAST\<close> (\<^verbatim>\<open>cast.rs\<close>).

  A fallible function returns \<open>exec_fault + 'a\<close>: \<open>XErr\<close> is an \<^verbatim>\<open>ExecError\<close>, \<open>XPanic\<close> a panic of the
  code. The text of a type mismatch stops before the value the source prints after it. Integer
  arithmetic wraps, as in the release profile.
\<close>

section \<open>Errors\<close>

datatype plan_error =
    UnsupportedStatement
  | UnknownTable str
  | MissingSchema

datatype exec_error =
    UnsupportedExpr
  | UnsupportedOperator
  | UnknownColumn str
  | TypeMismatch string
  | PlanErr plan_error
  | StorageErr storage_error

datatype exec_fault = XErr exec_error | XPanic

definition type_err :: "string \<Rightarrow> exec_fault + 'a" where
  "type_err msg = Inl (XErr (TypeMismatch msg))"

definition ok_or :: "'a option \<Rightarrow> exec_fault + 'a \<Rightarrow> exec_fault + 'a" where
  "ok_or r e = (case r of Some x \<Rightarrow> Inr x | None \<Rightarrow> e)"

text \<open>\<^verbatim>\<open>collect::<Result<Vec<_>, _>>()\<close>: the first error, or every value.\<close>

primrec collect_results :: "('e + 'a) list \<Rightarrow> 'e + 'a list" where
  "collect_results [] = Inr []"
| "collect_results (r # rs) = try_bind r (\<lambda>x. try_bind (collect_results rs) (\<lambda>xs. Inr (x # xs)))"

section \<open>Values\<close>

datatype value_t =
    VNull
  | VInteger i64
  | VFloat f64
  | VBytes bytes
  | VBool bool
  | VDate bytes
  | VTimestamp i64
  | VVector "f32 list"

type_synonym row = "(str \<times> value_t) list"

text \<open>\<^verbatim>\<open>std::str::from_utf8(b).ok()?.trim().parse().ok()\<close>.\<close>

definition parse_bytes_as_f64 :: "bytes \<Rightarrow> f64 option" where
  "parse_bytes_as_f64 b = (case from_utf8 b of None \<Rightarrow> None | Some s \<Rightarrow> parse_f64 (trim s))"

definition i64_to_be :: "i64 \<Rightarrow> bytes" where
  "i64_to_be n = rev (nat_to_le 8 (unat n))"

definition NDV1 :: bytes where
  "NDV1 = ascii ''NDV1''"

definition as_bytes :: "value_t \<Rightarrow> bytes" where
  "as_bytes v = (case v of
     VNull \<Rightarrow> []
   | VInteger n \<Rightarrow> i64_to_be n
   | VFloat f \<Rightarrow> f64_to_be f
   | VBool b \<Rightarrow> [if b then 1 else 0]
   | VBytes b \<Rightarrow> b
   | VDate b \<Rightarrow> b
   | VTimestamp ts \<Rightarrow> i64_to_be ts
   | VVector fs \<Rightarrow> NDV1 @ concat (map (\<lambda>f. nat_to_le 4 (unat f)) fs))"

definition f32_eq :: "f32 \<Rightarrow> f32 \<Rightarrow> bool" where
  "f32_eq x y = f64_eq (f64_of_f32 x) (f64_of_f32 y)"

text \<open>The arms in the order of the source; two values of unrelated types are unequal, not unknown.\<close>

definition sql_eq :: "value_t \<Rightarrow> value_t \<Rightarrow> bool option" where
  "sql_eq v w = (case v of
     VNull \<Rightarrow> (if w = VNull then Some True else None)
   | VInteger a \<Rightarrow> (case w of VNull \<Rightarrow> None | VInteger b \<Rightarrow> Some (a = b)
       | VFloat b \<Rightarrow> Some (f64_eq (f64_of_i64 a) b)
       | VBytes b \<Rightarrow> map_option (\<lambda>x. f64_eq (f64_of_i64 a) x) (parse_bytes_as_f64 b) | _ \<Rightarrow> Some False)
   | VFloat a \<Rightarrow> (case w of VNull \<Rightarrow> None | VFloat b \<Rightarrow> Some (f64_eq a b)
       | VInteger b \<Rightarrow> Some (f64_eq a (f64_of_i64 b))
       | VBytes b \<Rightarrow> map_option (\<lambda>x. f64_eq a x) (parse_bytes_as_f64 b) | _ \<Rightarrow> Some False)
   | VBool a \<Rightarrow> (case w of VNull \<Rightarrow> None | VBool b \<Rightarrow> Some (a = b)
       | VBytes b \<Rightarrow> (if length b = 1 then Some (a = (b ! 0 \<noteq> 0)) else Some False) | _ \<Rightarrow> Some False)
   | VBytes a \<Rightarrow> (case w of VNull \<Rightarrow> None
       | VBool b \<Rightarrow> (if length a = 1 then Some (b = (a ! 0 \<noteq> 0)) else Some False)
       | VBytes b \<Rightarrow> Some (a = b)
       | VInteger b \<Rightarrow> map_option (\<lambda>x. f64_eq x (f64_of_i64 b)) (parse_bytes_as_f64 a)
       | VFloat b \<Rightarrow> map_option (\<lambda>x. f64_eq x b) (parse_bytes_as_f64 a) | _ \<Rightarrow> Some False)
   | VDate a \<Rightarrow> (case w of VNull \<Rightarrow> None | VDate b \<Rightarrow> Some (a = b) | _ \<Rightarrow> Some False)
   | VTimestamp a \<Rightarrow> (case w of VNull \<Rightarrow> None | VTimestamp b \<Rightarrow> Some (a = b) | _ \<Rightarrow> Some False)
   | VVector a \<Rightarrow> (case w of VNull \<Rightarrow> None | VVector b \<Rightarrow> Some (list_all2 f32_eq a b) | _ \<Rightarrow> Some False))"

definition record_cells :: "row \<Rightarrow> value_t list" where
  "record_cells r = map snd r"

section \<open>Calendar\<close>

definition is_leap :: "32 word \<Rightarrow> bool" where
  "is_leap y = ((sint y mod 4 = 0 \<and> sint y mod 100 \<noteq> 0) \<or> sint y mod 400 = 0)"

definition month_days :: "bool \<Rightarrow> nat list" where
  "month_days leap = [31, if leap then 29 else 28, 31, 30, 31, 30, 31, 31, 30, 31, 30, 31]"

text \<open>The loop over the years; the year is an \<^verbatim>\<open>i32\<close> and wraps.\<close>

function year_loop :: "nat \<Rightarrow> 32 word \<Rightarrow> nat \<times> 32 word" where
  "year_loop days y =
     (let diy = (if is_leap y then 366 else 365)
      in if days < diy then (days, y) else year_loop (days - diy) (y + 1))"
  by auto
termination by (relation "measure fst") (auto simp: Let_def)

declare year_loop.simps [simp del]

fun month_loop :: "nat list \<Rightarrow> nat \<Rightarrow> nat \<Rightarrow> nat \<times> nat" where
  "month_loop [] idx days = (12, 31)"
| "month_loop (md # mds) idx days =
     (if days < md then (idx + 1, days + 1) else month_loop mds (idx + 1) (days - md))"

definition epoch_day_to_ymd :: "nat \<Rightarrow> 32 word \<times> nat \<times> nat" where
  "epoch_day_to_ymd days =
     (let (d, y) = year_loop days 1970; (m, dd) = month_loop (month_days (is_leap y)) 0 d
      in (y, m, dd))"

definition pad_int :: "nat \<Rightarrow> int \<Rightarrow> str" where
  "pad_int w i = (if i < 0 then let ds = show_nat_bytes (nat (- i)) in 0x2D # replicate (w - 1 - length ds) 0x30 @ ds
     else let ds = show_nat_bytes (nat i) in replicate (w - length ds) 0x30 @ ds)"

definition timestamp_to_date_bytes :: "i64 \<Rightarrow> bytes" where
  "timestamp_to_date_bytes ts =
     (let secs = nat (max (sint ts) 0); (y, m, d) = epoch_day_to_ymd (secs div 86400)
      in pad_int 4 (sint y) @ [0x2D] @ pad_int 2 (int m) @ [0x2D] @ pad_int 2 (int d))"

section \<open>CAST\<close>

definition from_utf8_or :: "string \<Rightarrow> bytes \<Rightarrow> exec_fault + str" where
  "from_utf8_or msg b = ok_or (from_utf8 b) (type_err msg)"

definition parse_int_bytes :: "bytes \<Rightarrow> exec_fault + i64" where
  "parse_int_bytes b = try_bind (from_utf8_or ''invalid UTF-8 for integer CAST'' b) (\<lambda>s.
     ok_or (parse_i64 (trim s)) (type_err ''invalid integer literal for CAST''))"

definition parse_float_bytes :: "bytes \<Rightarrow> exec_fault + f64" where
  "parse_float_bytes b = try_bind (from_utf8_or ''invalid UTF-8 for float CAST'' b) (\<lambda>s.
     ok_or (parse_f64 (trim s)) (type_err ''invalid float literal for CAST''))"

definition parse_bool_bytes :: "bytes \<Rightarrow> exec_fault + bool" where
  "parse_bool_bytes b = try_bind (from_utf8_or ''invalid UTF-8 for boolean CAST'' b) (\<lambda>s.
     let w = to_ascii_lowercase (trim s) in
     if w \<in> set [ascii ''true'', ascii ''t'', ascii ''1'', ascii ''yes''] then Inr True
     else if w \<in> set [ascii ''false'', ascii ''f'', ascii ''0'', ascii ''no'', []] then Inr False
     else type_err ''invalid boolean literal for CAST'')"

definition normalize_date_bytes :: "bytes \<Rightarrow> exec_fault + bytes" where
  "normalize_date_bytes b = try_bind (from_utf8_or ''invalid UTF-8 for DATE'' b) (\<lambda>s.
     let s = trim s in
     if length s = 10 \<and> s ! 4 = 0x2D \<and> s ! 7 = 0x2D then Inr s
     else type_err ''DATE must be YYYY-MM-DD'')"

definition parse_timestamp_bytes :: "bytes \<Rightarrow> exec_fault + i64" where
  "parse_timestamp_bytes b = try_bind (from_utf8_or ''invalid UTF-8 for TIMESTAMP'' b) (\<lambda>s.
     let s = trim s in
     if list_all (\<lambda>c. digit_of c \<noteq> None \<or> c = 0x2D) s
     then (if length s = 10 then Inr 0
           else ok_or (parse_i64 s) (type_err ''invalid TIMESTAMP literal''))
     else type_err ''unsupported TIMESTAMP format'')"

definition vector_parts :: "str \<Rightarrow> str list" where
  "vector_parts s = filter (\<lambda>p. p \<noteq> []) (map trim (split_on 0x2C (trim_brackets (trim s))))"

definition parse_vector_literal :: "bytes \<Rightarrow> u32 \<Rightarrow> exec_fault + f32 list" where
  "parse_vector_literal b dim = try_bind (from_utf8_or ''invalid UTF-8 for VECTOR'' b) (\<lambda>s.
     try_bind (collect_results (map (\<lambda>p. ok_or (parse_f32 p) (type_err ''invalid float in VECTOR'')) (vector_parts s)))
       (\<lambda>fs. if length fs \<noteq> unat dim then type_err ''VECTOR literal has the wrong number of elements'' else Inr fs))"

definition value_to_string :: "value_t \<Rightarrow> str" where
  "value_to_string v = (case v of
     VNull \<Rightarrow> ascii ''NULL''
   | VInteger n \<Rightarrow> show_i64 n
   | VFloat f \<Rightarrow> show_f64 f
   | VBool b \<Rightarrow> (if b then ascii ''true'' else ascii ''false'')
   | VBytes b \<Rightarrow> from_utf8_lossy b
   | VDate b \<Rightarrow> from_utf8_lossy b
   | VTimestamp ts \<Rightarrow> show_i64 ts
   | VVector fs \<Rightarrow> [0x5B] @ concat (case map show_f32 fs of [] \<Rightarrow> [] | p # ps \<Rightarrow> p # map (\<lambda>q. 0x2C # q) ps) @ [0x5D])"

definition cast_to_int :: "value_t \<Rightarrow> exec_fault + value_t" where
  "cast_to_int v = (case v of
     VInteger n \<Rightarrow> Inr (VInteger n)
   | VFloat f \<Rightarrow> Inr (VInteger (i64_of_f64 (f64_trunc f)))
   | VBool b \<Rightarrow> Inr (VInteger (if b then 1 else 0))
   | VBytes b \<Rightarrow> try_bind (parse_int_bytes b) (\<lambda>n. Inr (VInteger n))
   | VDate b \<Rightarrow> try_bind (parse_int_bytes b) (\<lambda>n. Inr (VInteger n))
   | VTimestamp ts \<Rightarrow> Inr (VInteger ts)
   | VNull \<Rightarrow> Inl XPanic
   | VVector _ \<Rightarrow> type_err ''cannot CAST VECTOR to INT'')"

definition cast_to_float :: "value_t \<Rightarrow> exec_fault + value_t" where
  "cast_to_float v = (case v of
     VInteger n \<Rightarrow> Inr (VFloat (f64_of_i64 n))
   | VFloat f \<Rightarrow> Inr (VFloat f)
   | VBool b \<Rightarrow> Inr (VFloat (f64_of_bool b))
   | VBytes b \<Rightarrow> try_bind (parse_float_bytes b) (\<lambda>f. Inr (VFloat f))
   | VDate b \<Rightarrow> try_bind (parse_float_bytes b) (\<lambda>f. Inr (VFloat f))
   | VTimestamp ts \<Rightarrow> Inr (VFloat (f64_of_i64 ts))
   | VNull \<Rightarrow> Inl XPanic
   | VVector _ \<Rightarrow> type_err ''cannot CAST VECTOR to FLOAT'')"

definition cast_to_bool :: "value_t \<Rightarrow> exec_fault + value_t" where
  "cast_to_bool v = (case v of
     VBool b \<Rightarrow> Inr (VBool b)
   | VInteger n \<Rightarrow> Inr (VBool (n \<noteq> 0))
   | VFloat f \<Rightarrow> Inr (VBool (\<not> f64_eq f 0))
   | VBytes b \<Rightarrow> try_bind (parse_bool_bytes b) (\<lambda>x. Inr (VBool x))
   | VDate b \<Rightarrow> Inr (VBool (b \<noteq> []))
   | VTimestamp ts \<Rightarrow> Inr (VBool (ts \<noteq> 0))
   | VNull \<Rightarrow> Inl XPanic
   | VVector _ \<Rightarrow> type_err ''cannot CAST VECTOR to BOOLEAN'')"

definition cast_to_date :: "value_t \<Rightarrow> exec_fault + value_t" where
  "cast_to_date v = (case v of
     VDate b \<Rightarrow> try_bind (normalize_date_bytes b) (\<lambda>d. Inr (VDate d))
   | VBytes b \<Rightarrow> try_bind (normalize_date_bytes b) (\<lambda>d. Inr (VDate d))
   | VTimestamp ts \<Rightarrow> Inr (VDate (timestamp_to_date_bytes ts))
   | VInteger n \<Rightarrow> Inr (VDate (timestamp_to_date_bytes n))
   | VFloat f \<Rightarrow> Inr (VDate (timestamp_to_date_bytes (i64_of_f64 (f64_trunc f))))
   | VBool _ \<Rightarrow> type_err ''cannot CAST boolean to DATE''
   | VNull \<Rightarrow> Inl XPanic
   | VVector _ \<Rightarrow> type_err ''cannot CAST VECTOR to DATE'')"

definition cast_to_timestamp :: "value_t \<Rightarrow> exec_fault + value_t" where
  "cast_to_timestamp v = (case v of
     VTimestamp ts \<Rightarrow> Inr (VTimestamp ts)
   | VInteger n \<Rightarrow> Inr (VTimestamp n)
   | VFloat f \<Rightarrow> Inr (VTimestamp (i64_of_f64 (f64_trunc f)))
   | VBytes b \<Rightarrow> try_bind (parse_timestamp_bytes b) (\<lambda>t. Inr (VTimestamp t))
   | VDate b \<Rightarrow> try_bind (parse_timestamp_bytes b) (\<lambda>t. Inr (VTimestamp t))
   | VBool _ \<Rightarrow> type_err ''cannot CAST boolean to TIMESTAMP''
   | VNull \<Rightarrow> Inl XPanic
   | VVector _ \<Rightarrow> type_err ''cannot CAST VECTOR to TIMESTAMP'')"

definition cast_to_vector :: "value_t \<Rightarrow> u32 \<Rightarrow> exec_fault + value_t" where
  "cast_to_vector v dim =
     try_bind (case v of VVector fs \<Rightarrow> Inr fs | VBytes b \<Rightarrow> parse_vector_literal b dim
               | _ \<Rightarrow> type_err ''cannot CAST to VECTOR'')
       (\<lambda>fs. if length fs \<noteq> unat dim then type_err ''VECTOR has the wrong number of elements''
              else Inr (VVector fs))"

definition cast_to_text :: "value_t \<Rightarrow> exec_fault + value_t" where
  "cast_to_text v = Inr (VBytes (value_to_string v))"

definition cast_value :: "value_t \<Rightarrow> sql_type \<Rightarrow> exec_fault + value_t" where
  "cast_value v ty =
     (if v = VNull then Inr VNull
      else case ty of
        TInt \<Rightarrow> cast_to_int v
      | TFloat \<Rightarrow> cast_to_float v
      | TBoolean \<Rightarrow> cast_to_bool v
      | TVarchar _ \<Rightarrow> cast_to_text v
      | TText \<Rightarrow> cast_to_text v
      | TDate \<Rightarrow> cast_to_date v
      | TTimestamp \<Rightarrow> cast_to_timestamp v
      | TVector dim \<Rightarrow> cast_to_vector v dim
      | TNamed name \<Rightarrow>
          if eq_ignore_ascii_case name (ascii ''TEXT'') then cast_to_text v
          else let u = to_ascii_uppercase name in
            if u \<in> set [ascii ''INT'', ascii ''INTEGER'', ascii ''BIGINT''] then cast_to_int v
            else if u \<in> set [ascii ''FLOAT'', ascii ''REAL'', ascii ''DOUBLE''] then cast_to_float v
            else if u \<in> set [ascii ''BOOLEAN'', ascii ''BOOL''] then cast_to_bool v
            else if u = ascii ''TEXT'' then cast_to_text v
            else if u = ascii ''DATE'' then cast_to_date v
            else if u \<in> set [ascii ''TIMESTAMP'', ascii ''TIMESTAMPTZ''] then cast_to_timestamp v
            else if u = ascii ''VECTOR'' then type_err ''VECTOR requires VECTOR(n) dimension''
            else type_err ''unsupported CAST target type'')"

section \<open>The calendar agrees with the Gregorian formula\<close>

definition leaps_before :: "int \<Rightarrow> int" where
  "leaps_before y = (y - 1) div 4 - (y - 1) div 100 + (y - 1) div 400"

text \<open>Days from 1 January 1970 to 1 January of a year, in closed form.\<close>

definition days_to_year :: "int \<Rightarrow> int" where
  "days_to_year y = 365 * (y - 1970) + leaps_before y - leaps_before 1970"

definition day_number :: "32 word \<Rightarrow> nat \<Rightarrow> nat \<Rightarrow> int" where
  "day_number y m d = days_to_year (sint y) + int (sum_list (take (m - 1) (month_days (is_leap y)))) + int d - 1"

lemma div_pred_step: "0 < k \<Longrightarrow> (y::int) div k = (y - 1) div k + (if y mod k = 0 then 1 else 0)"
proof -
  assume k: "0 < k"
  define q r where "q = (y - 1) div k" and "r = (y - 1) mod k"
  have y: "y = k * q + (r + 1)" and r: "0 \<le> r" "r < k"
    using k mult_div_mod_eq [of k "y - 1"] by (simp_all add: q_def r_def)
  show ?thesis
  proof (cases "r + 1 = k")
    case True
    then have "y = k * (q + 1)" using y by (simp add: algebra_simps)
    then have "y div k = q + 1" "y mod k = 0" using k by simp_all
    then show ?thesis by (simp add: q_def)
  next
    case False
    with r have "(k * q + (r + 1)) div k = q" "(k * q + (r + 1)) mod k = r + 1"
      by simp_all
    then show ?thesis unfolding y [symmetric] using r by (simp add: q_def)
  qed
qed

lemma mod_400_imp: "(y::int) mod 400 = 0 \<Longrightarrow> y mod 4 = 0 \<and> y mod 100 = 0"
  "(y::int) mod 100 = 0 \<Longrightarrow> y mod 4 = 0"
  using dvd_trans [of 4 400 y] dvd_trans [of 100 400 y] dvd_trans [of 4 100 y]
  by (simp_all add: mod_eq_0_iff_dvd)

lemma leap_count_step:
  "q4 = p4 + (if a then 1 else 0) \<Longrightarrow> q100 = p100 + (if b then 1 else 0) \<Longrightarrow>
   q400 = p400 + (if c then 1 else 0 :: int) \<Longrightarrow> (c \<longrightarrow> a \<and> b) \<Longrightarrow> (b \<longrightarrow> a) \<Longrightarrow>
   q4 - q100 + q400 = p4 - p100 + p400 + (if a \<and> \<not> b \<or> c then 1 else 0)"
  by auto

lemma days_to_year_step: "days_to_year (sint y + 1) = days_to_year (sint y) + (if is_leap y then 366 else 365)"
proof -
  have "leaps_before (sint y + 1) = leaps_before (sint y) + (if is_leap y then 1 else 0)"
    unfolding leaps_before_def is_leap_def add_diff_cancel_right'
    by (rule leap_count_step [OF div_pred_step div_pred_step div_pred_step]) (simp_all add: mod_400_imp)
  then show ?thesis by (simp add: days_to_year_def)
qed

lemma sint_succ32: "sint (y :: 32 word) < 2 ^ 31 - 1 \<Longrightarrow> sint (y + 1) = sint y + 1"
  using sint_range_size [of y] by (simp add: word_size sint_word_ariths signed_take_bit_int_eq_self)

lemma year_loop_correct:
  "year_loop days y = (d, y') \<Longrightarrow> sint y + int days div 365 < 2 ^ 31 - 1 \<Longrightarrow>
   int d + days_to_year (sint y') = int days + days_to_year (sint y) \<and>
   d < (if is_leap y' then 366 else 365) \<and> sint y \<le> sint y'"
proof (induction days y rule: year_loop.induct)
  case (1 days y)
  define n where "n = (if is_leap y then 366 else 365 :: nat)"
  have n365: "365 \<le> n" and step: "days_to_year (sint y + 1) = days_to_year (sint y) + int n"
    by (auto simp: n_def days_to_year_step)
  show ?case
  proof (cases "days < n")
    case True
    then have "d = days" "y' = y" using 1(2) by (auto simp: year_loop.simps [of days y] n_def Let_def split: if_splits)
    then show ?thesis using True by (simp add: n_def)
  next
    case False
    have loop: "year_loop (days - n) (y + 1) = (d, y')"
      using 1(2) False by (simp add: year_loop.simps [of days y] n_def Let_def split: if_splits)
    have "int (days - n) div 365 + 1 \<le> int days div 365" using False n365 by linarith
    moreover have y: "sint (y + 1) = sint y + 1"
      by (rule sint_succ32) (use 1(3) False n365 in linarith)
    ultimately have "sint (y + 1) + int (days - n) div 365 < 2 ^ 31 - 1" using 1(3) by linarith
    with 1(1) [OF n_def] False loop have
      "int d + days_to_year (sint y') = int (days - n) + days_to_year (sint (y + 1))"
      "d < (if is_leap y' then 366 else 365)" "sint (y + 1) \<le> sint y'" by simp_all
    then show ?thesis using y step False by simp
  qed
qed

lemma month_loop_correct:
  "month_loop mds idx days = (m, d) \<Longrightarrow> days < sum_list mds \<Longrightarrow>
   idx < m \<and> m - idx \<le> length mds \<and> 1 \<le> d \<and> d \<le> mds ! (m - idx - 1) \<and>
   sum_list (take (m - idx - 1) mds) + d = days + 1"
proof (induction mds idx days rule: month_loop.induct)
  case (2 md mds idx days)
  show ?case
  proof (cases "days < md")
    case True
    with 2(2) show ?thesis by auto
  next
    case False
    with 2(2,3) have "month_loop mds (idx + 1) (days - md) = (m, d)" "days - md < sum_list mds" by simp_all
    with 2(1) [OF False] have ih: "idx + 1 < m" "m - (idx + 1) \<le> length mds" "1 \<le> d" "d \<le> mds ! (m - (idx + 1) - 1)"
      "sum_list (take (m - (idx + 1) - 1) mds) + d = days - md + 1" by simp_all
    have "m - idx - 1 = Suc (m - (idx + 1) - 1)" using ih(1) by simp
    with ih False show ?thesis by auto
  qed
qed simp

lemma sum_month_days: "sum_list (month_days b) = (if b then 366 else 365)"
  by (simp add: month_days_def)

text \<open>
  C35. The loop that turns a day count since the epoch into a date (\<^verbatim>\<open>epoch_day_to_ymd\<close>) is the
  inverse of the closed Gregorian formula, and the month and the day it returns are within their
  bounds. It holds for day counts below 700,000,000,000, which keeps the \<^verbatim>\<open>i32\<close> year from wrapping.
\<close>

theorem epoch_day_correct:
  assumes "days < 700000000000" "epoch_day_to_ymd days = (y, m, d)"
  shows "day_number y m d = int days \<and> 1970 \<le> sint y \<and> 1 \<le> m \<and> m \<le> 12 \<and>
    1 \<le> d \<and> d \<le> month_days (is_leap y) ! (m - 1)"
proof -
  obtain d0 y0 where yl: "year_loop days 1970 = (d0, y0)" by force
  with assms(2) have y: "y0 = y" and ml: "month_loop (month_days (is_leap y)) 0 d0 = (m, d)"
    by (auto simp: epoch_day_to_ymd_def split: prod.splits)
  have s1970: "sint (1970 :: 32 word) = 1970" by simp
  have "sint (1970 :: 32 word) + int days div 365 < 2 ^ 31 - 1" using assms(1) by simp
  from year_loop_correct [OF yl this] have
    yr: "int d0 + days_to_year (sint y) = int days" "d0 < sum_list (month_days (is_leap y))" "1970 \<le> sint y"
    by (simp_all add: y s1970 sum_month_days days_to_year_def)
  from month_loop_correct [OF ml yr(2)] have
    mn: "0 < m" "m \<le> length (month_days (is_leap y))" "1 \<le> d" "d \<le> month_days (is_leap y) ! (m - 1)"
      "sum_list (take (m - 1) (month_days (is_leap y))) + d = d0 + 1" by simp_all
  have "length (month_days (is_leap y)) = 12" by (simp add: month_days_def)
  moreover have "day_number y m d = int days" using mn(5) yr(1) unfolding day_number_def by linarith
  ultimately show ?thesis using mn yr by simp
qed

lemma epoch_day_19782: "epoch_day_to_ymd 19782 = (2024, 2, 29)"
  by (simp add: epoch_day_to_ymd_def year_loop.simps is_leap_def month_days_def)

theorem epoch_day_correct_witness:
  "day_number 2024 2 29 = 19782 \<and> 29 \<le> month_days (is_leap 2024) ! 1"
  using epoch_day_correct [OF _ epoch_day_19782] by simp

end
