(* ===== verification/Sql_Eval.thy ===== *)
theory Sql_Eval
  imports Sql_Value
begin

text \<open>
  The expression evaluator (\<^verbatim>\<open>crates/noedb-planner/src/eval.rs\<close>).

  The Unicode case tables of the standard library are the parameter \<open>unicode\<close>. The operands of an
  operator are passed as results, so that an operand the source does not evaluate is one whose
  result the model does not inspect.
\<close>

record unicode =
  uc_to_uppercase :: "str \<Rightarrow> str"
  uc_to_lowercase :: "str \<Rightarrow> str"

section \<open>Comparison and arithmetic\<close>

definition coerce_numeric :: "value_t \<Rightarrow> f64 option" where
  "coerce_numeric v = (case v of
     VInteger n \<Rightarrow> Some (f64_of_i64 n)
   | VFloat f \<Rightarrow> Some f
   | VBool b \<Rightarrow> Some (f64_of_bool b)
   | VBytes b \<Rightarrow> parse_bytes_as_f64 b
   | VTimestamp ts \<Rightarrow> Some (f64_of_i64 ts)
   | _ \<Rightarrow> None)"

definition apply_cmp :: "i64 \<Rightarrow> i64 \<Rightarrow> binary_op \<Rightarrow> bool" where
  "apply_cmp a b op = (case op of OpLt \<Rightarrow> sint a < sint b | OpGt \<Rightarrow> sint a > sint b
     | OpLe \<Rightarrow> sint a \<le> sint b | OpGe \<Rightarrow> sint a \<ge> sint b | _ \<Rightarrow> False)"

definition apply_cmp_f :: "f64 \<Rightarrow> f64 \<Rightarrow> binary_op \<Rightarrow> bool" where
  "apply_cmp_f a b op = (case op of OpLt \<Rightarrow> f64_lt a b | OpGt \<Rightarrow> f64_lt b a
     | OpLe \<Rightarrow> f64_le a b | OpGe \<Rightarrow> f64_le b a | _ \<Rightarrow> False)"

definition apply_cmp_bytes :: "bytes \<Rightarrow> bytes \<Rightarrow> binary_op \<Rightarrow> bool" where
  "apply_cmp_bytes a b op = (case op of OpLt \<Rightarrow> a < b | OpGt \<Rightarrow> a > b
     | OpLe \<Rightarrow> a \<le> b | OpGe \<Rightarrow> a \<ge> b | _ \<Rightarrow> False)"

definition cmp_values :: "value_t \<Rightarrow> value_t \<Rightarrow> binary_op \<Rightarrow> exec_fault + bool" where
  "cmp_values l r op =
     (if l = VNull \<or> r = VNull then Inr False
      else case (coerce_numeric l, coerce_numeric r) of
        (Some a, Some b) \<Rightarrow> Inr (apply_cmp_f a b op)
      | _ \<Rightarrow> (case (l, r) of
            (VBytes a, VBytes b) \<Rightarrow> Inr (apply_cmp_bytes a b op)
          | (VDate a, VDate b) \<Rightarrow> Inr (apply_cmp_bytes a b op)
          | (VTimestamp a, VTimestamp b) \<Rightarrow> Inr (apply_cmp a b op)
          | _ \<Rightarrow> type_err ''incompatible types in comparison''))"

definition eval_arithmetic :: "binary_op \<Rightarrow> value_t \<Rightarrow> value_t \<Rightarrow> exec_fault + value_t" where
  "eval_arithmetic op l r =
     (if l = VNull \<or> r = VNull then Inr VNull
      else try_bind (ok_or (coerce_numeric l) (type_err ''arithmetic'')) (\<lambda>a.
           try_bind (ok_or (coerce_numeric r) (type_err ''arithmetic'')) (\<lambda>b.
             case op of
               OpPlus \<Rightarrow> Inr (VFloat (f64_add a b))
             | OpMinus \<Rightarrow> Inr (VFloat (f64_sub a b))
             | OpDiv \<Rightarrow> if f64_eq b 0 then type_err ''division by zero'' else Inr (VFloat (f64_div a b))
             | OpMul \<Rightarrow> Inr (VFloat (f64_mul a b))
             | OpMod \<Rightarrow> if f64_eq b 0 then type_err ''modulo by zero'' else Inr (VFloat (f64_rem a b))
             | _ \<Rightarrow> Inl (XErr UnsupportedExpr))))"

section \<open>LIKE\<close>

text \<open>
  The table of \<^verbatim>\<open>sql_like\<close>, row by row: entry \<open>j\<close> of row \<open>i\<close> says whether the first \<open>j\<close> characters of
  the pattern match the first \<open>i\<close> characters of the text. \<open>like_row0\<close> is the loop over the first
  row, \<open>like_row\<close> the inner loop for one character of the text, with the entry to its left as
  accumulator and the row above as list.
\<close>

definition PERCENT :: bytes where "PERCENT = [0x25]"

definition UNDERSCORE :: bytes where "UNDERSCORE = [0x5F]"

fun like_row0 :: "bytes list \<Rightarrow> bool \<Rightarrow> bool list" where
  "like_row0 [] left = []"
| "like_row0 (c # p) left = (let x = (if c = PERCENT then left else False) in x # like_row0 p x)"

fun like_row :: "bytes \<Rightarrow> bytes list \<Rightarrow> bool list \<Rightarrow> bool \<Rightarrow> bool list" where
  "like_row t (c # p) (diag # up # ups) left =
     (let x = (if c = PERCENT then left \<or> up else if c = UNDERSCORE \<or> t = c then diag else False)
      in x # like_row t p (up # ups) x)"
| "like_row t p prev left = []"

fun like_rows :: "bytes list \<Rightarrow> bytes list \<Rightarrow> bool list \<Rightarrow> bool list" where
  "like_rows [] p prev = prev"
| "like_rows (t # ts) p prev = like_rows ts p (False # like_row t p prev False)"

definition sql_like :: "str \<Rightarrow> str \<Rightarrow> bool" where
  "sql_like s pat =
     (let t = str_chars s; p = str_chars pat
      in like_rows t p (True # like_row0 p True) ! length p)"

definition like_match :: "value_t \<Rightarrow> value_t \<Rightarrow> bool" where
  "like_match l p = (case (l, p) of
     (VBytes s, VBytes pat) \<Rightarrow> sql_like (from_utf8_lossy s) (from_utf8_lossy pat) | _ \<Rightarrow> False)"

section \<open>Vectors\<close>

definition decode_ndv1 :: "bytes \<Rightarrow> exec_fault + f32 list" where
  "decode_ndv1 b =
     (if length b < 4 \<or> take 4 b \<noteq> NDV1 then type_err ''invalid VECTOR bytes''
      else let payload = drop 4 b in
        if length payload mod 4 \<noteq> 0 then type_err ''invalid VECTOR payload''
        else Inr (map (\<lambda>i. word_of_nat (nat_of_le (take 4 (drop (4 * i) payload)))) [0 ..< length payload div 4]))"

definition parse_vector_literal_flexible :: "bytes \<Rightarrow> exec_fault + f32 list" where
  "parse_vector_literal_flexible b =
     try_bind (from_utf8_or ''invalid UTF-8 for VECTOR literal'' b) (\<lambda>s.
       if trim_brackets (trim s) = [] then Inr []
       else collect_results (map (\<lambda>p. ok_or (parse_f32 p) (type_err ''invalid float in VECTOR literal'')) (vector_parts s)))"

definition vector_as_f32s :: "value_t \<Rightarrow> exec_fault + f32 list" where
  "vector_as_f32s v = (case v of
     VVector fs \<Rightarrow> Inr fs
   | VBytes b \<Rightarrow> if starts_with b NDV1 then decode_ndv1 b else parse_vector_literal_flexible b
   | VNull \<Rightarrow> type_err ''VECTOR distance with NULL''
   | _ \<Rightarrow> type_err ''expected VECTOR value'')"

definition vector_l2_distance :: "value_t \<Rightarrow> value_t \<Rightarrow> exec_fault + f64" where
  "vector_l2_distance l r =
     try_bind (vector_as_f32s l) (\<lambda>a. try_bind (vector_as_f32s r) (\<lambda>b.
       if length a \<noteq> length b then type_err ''VECTOR dimension mismatch''
       else Inr (f64_sqrt (foldl f64_add (f64_pack True 0)
              (map (\<lambda>(x, y). let d = f64_sub (f64_of_f32 x) (f64_of_f32 y) in f64_mul d d) (zip a b))))))"

section \<open>Operators, columns and functions\<close>

definition literal_to_value :: "literal \<Rightarrow> value_t" where
  "literal_to_value l = (case l of LNull \<Rightarrow> VNull | LInteger n \<Rightarrow> VInteger n | LFloat f \<Rightarrow> VFloat f
     | LString s \<Rightarrow> VBytes s | LBoolean b \<Rightarrow> VBool b)"

definition is_sql_null :: "value_t \<Rightarrow> bool" where
  "is_sql_null v = (v = VNull \<or> v = VBytes [])"

definition DOT :: u8 where "DOT = 0x2E"

definition row_find :: "row \<Rightarrow> str \<Rightarrow> value_t option" where
  "row_find r n = map_option snd (find (\<lambda>(m, _). m = n) r)"

definition eval_column :: "column_ref \<Rightarrow> row \<Rightarrow> exec_fault + value_t" where
  "eval_column col r = (case col of
     Named (Some t) c \<Rightarrow>
       (let qual = t @ [DOT] @ c in
        case row_find r qual of
          Some v \<Rightarrow> Inr v
        | None \<Rightarrow> ok_or (row_find r c) (Inl (XErr (UnknownColumn qual))))
   | Named None c \<Rightarrow>
       (case row_find r c of
          Some v \<Rightarrow> Inr v
        | None \<Rightarrow>
            (case filter (\<lambda>(n, _). case rsplit_once DOT n of Some (_, bare) \<Rightarrow> bare = c | None \<Rightarrow> False) r of
               [(_, v)] \<Rightarrow> Inr v
             | _ \<Rightarrow> Inl (XErr (UnknownColumn c))))
   | _ \<Rightarrow> Inl (XErr UnsupportedExpr))"

definition eval_unary :: "unary_op \<Rightarrow> exec_fault + value_t \<Rightarrow> exec_fault + value_t" where
  "eval_unary op res = try_bind res (\<lambda>v. case op of
     UNot \<Rightarrow> (case v of VBool b \<Rightarrow> Inr (VBool (\<not> b)) | VNull \<Rightarrow> Inr VNull | _ \<Rightarrow> type_err ''NOT applied to'')
   | UMinus \<Rightarrow> (case v of VInteger n \<Rightarrow> Inr (VInteger (- n)) | VFloat f \<Rightarrow> Inr (VFloat (f64_minus f))
       | VNull \<Rightarrow> Inr VNull | _ \<Rightarrow> type_err ''unary minus on''))"

definition eq_value :: "(bool \<Rightarrow> bool) \<Rightarrow> value_t \<Rightarrow> value_t \<Rightarrow> value_t" where
  "eq_value f l r = (case sql_eq l r of Some b \<Rightarrow> VBool (f b) | None \<Rightarrow> VNull)"

definition eval_binary ::
  "binary_op \<Rightarrow> exec_fault + value_t \<Rightarrow> exec_fault + value_t \<Rightarrow> exec_fault + value_t" where
  "eval_binary op lres rres = (case op of
     OpAnd \<Rightarrow> try_bind lres (\<lambda>l. case l of
         VBool b \<Rightarrow> if b then rres else Inr (VBool False)
       | VNull \<Rightarrow> try_bind rres (\<lambda>r. Inr (if r = VBool False then VBool False else VNull))
       | _ \<Rightarrow> type_err ''AND applied to'')
   | OpOr \<Rightarrow> try_bind lres (\<lambda>l. case l of
         VBool b \<Rightarrow> if b then Inr (VBool True) else rres
       | VNull \<Rightarrow> try_bind rres (\<lambda>r. Inr (if r = VBool True then VBool True else VNull))
       | _ \<Rightarrow> type_err ''OR applied to'')
   | _ \<Rightarrow> try_bind lres (\<lambda>l. try_bind rres (\<lambda>r. case op of
         OpEq \<Rightarrow> Inr (eq_value (\<lambda>b. b) l r)
       | OpNe \<Rightarrow> Inr (eq_value Not l r)
       | OpLike \<Rightarrow> Inr (VBool (like_match l r))
       | OpDistance \<Rightarrow> try_bind (vector_l2_distance l r) (\<lambda>d. Inr (VFloat d))
       | OpPlus \<Rightarrow> eval_arithmetic op l r
       | OpMinus \<Rightarrow> eval_arithmetic op l r
       | OpDiv \<Rightarrow> eval_arithmetic op l r
       | OpMul \<Rightarrow> eval_arithmetic op l r
       | OpMod \<Rightarrow> eval_arithmetic op l r
       | _ \<Rightarrow> try_bind (cmp_values l r op) (\<lambda>b. Inr (VBool b)))))"

definition string_unary :: "(str \<Rightarrow> str) \<Rightarrow> value_t \<Rightarrow> exec_fault + value_t" where
  "string_unary f v = (case v of VNull \<Rightarrow> Inr VNull | VBytes b \<Rightarrow> Inr (VBytes (f (from_utf8_lossy b)))
     | _ \<Rightarrow> type_err ''expected text argument'')"

text \<open>\<^verbatim>\<open>eval_expr(&args[0], row)?\<close>: a missing argument is an index out of bounds.\<close>

definition first_arg :: "(exec_fault + value_t) list \<Rightarrow> exec_fault + value_t" where
  "first_arg rs = (case rs of [] \<Rightarrow> Inl XPanic | r # _ \<Rightarrow> r)"

primrec eval_coalesce :: "(exec_fault + value_t) list \<Rightarrow> exec_fault + value_t" where
  "eval_coalesce [] = Inr VNull"
| "eval_coalesce (r # rs) = try_bind r (\<lambda>v. if v \<noteq> VNull then Inr v else eval_coalesce rs)"

definition length_function :: "value_t \<Rightarrow> exec_fault + value_t" where
  "length_function v = (case v of VNull \<Rightarrow> Inr VNull
     | VBytes b \<Rightarrow> Inr (VInteger (word_of_int (min I64_MAX (int (length (str_chars (from_utf8_lossy b)))))))
     | _ \<Rightarrow> type_err ''LENGTH expects text'')"

definition i64_abs :: "i64 \<Rightarrow> i64" where
  "i64_abs n = (if sint n < 0 then - n else n)"

definition abs_function :: "value_t \<Rightarrow> exec_fault + value_t" where
  "abs_function v = (case v of VNull \<Rightarrow> Inr VNull | VInteger n \<Rightarrow> Inr (VInteger (i64_abs n))
     | VFloat f \<Rightarrow> Inr (VFloat (f64_abs f)) | _ \<Rightarrow> type_err ''ABS expects numeric, got'')"

definition round_function :: "value_t \<Rightarrow> exec_fault + value_t" where
  "round_function v = (case v of VNull \<Rightarrow> Inr VNull | VInteger n \<Rightarrow> Inr (VInteger n)
     | VFloat f \<Rightarrow> Inr (VFloat (f64_round_half f))
     | VBytes b \<Rightarrow> try_bind (ok_or (parse_bytes_as_f64 b) (type_err ''ROUND expects numeric''))
         (\<lambda>n. Inr (VFloat (f64_round_half n)))
     | _ \<Rightarrow> type_err ''ROUND expects numeric, got'')"

definition eval_scalar_function ::
  "unicode \<Rightarrow> str \<Rightarrow> (exec_fault + value_t) list \<Rightarrow> exec_fault + value_t" where
  "eval_scalar_function U name rs =
     (let u = to_ascii_uppercase name in
      if u = ascii ''UPPER'' then try_bind (first_arg rs) (string_unary (uc_to_uppercase U))
      else if u = ascii ''LOWER'' then try_bind (first_arg rs) (string_unary (uc_to_lowercase U))
      else if u = ascii ''LENGTH'' then try_bind (first_arg rs) length_function
      else if u = ascii ''TRIM'' then try_bind (first_arg rs) (string_unary trim)
      else if u = ascii ''COALESCE'' then eval_coalesce rs
      else if u = ascii ''ABS'' then try_bind (first_arg rs) abs_function
      else if u = ascii ''ROUND'' then try_bind (first_arg rs) round_function
      else Inl (XErr UnsupportedExpr))"

text \<open>The search of \<^verbatim>\<open>IN\<close>: left to right, ending at the first match or error.\<close>

primrec in_search :: "value_t \<Rightarrow> (exec_fault + value_t) list \<Rightarrow> exec_fault + bool" where
  "in_search v [] = Inr False"
| "in_search v (r # rs) =
     try_bind r (\<lambda>w. if sql_eq v w = Some True then Inr True else in_search v rs)"

definition eval_between :: "value_t \<Rightarrow> value_t \<Rightarrow> value_t \<Rightarrow> bool \<Rightarrow> exec_fault + value_t" where
  "eval_between v lo hi negated =
     (if v = VNull \<or> lo = VNull \<or> hi = VNull then Inr (VBool False)
      else try_bind (cmp_values v lo OpGe) (\<lambda>ge. try_bind (cmp_values v hi OpLe) (\<lambda>le.
             Inr (VBool (if negated then \<not> (ge \<and> le) else ge \<and> le)))))"

definition in_rhs_row :: "expr \<Rightarrow> row \<Rightarrow> row" where
  "in_rhs_row e r = (case e of ELiteral _ \<Rightarrow> [] | EParameter _ \<Rightarrow> [] | _ \<Rightarrow> r)"

section \<open>The evaluator\<close>

fun eval_expr :: "unicode \<Rightarrow> expr \<Rightarrow> row \<Rightarrow> exec_fault + value_t" where
  "eval_expr U (ELiteral l) r = Inr (literal_to_value l)"
| "eval_expr U (EColumn c) r = eval_column c r"
| "eval_expr U (EUnary op e) r = eval_unary op (eval_expr U e r)"
| "eval_expr U (EBinary op a b) r = eval_binary op (eval_expr U a r) (eval_expr U b r)"
| "eval_expr U (EIsNull e negated) r =
     try_bind (eval_expr U e r) (\<lambda>v. Inr (VBool (if negated then \<not> is_sql_null v else is_sql_null v)))"
| "eval_expr U (EIn e vs negated) r =
     try_bind (eval_expr U e r) (\<lambda>v.
     try_bind (in_search v (map (\<lambda>w. eval_expr U w (in_rhs_row w r)) vs)) (\<lambda>found.
       Inr (VBool (if negated then \<not> found else found))))"
| "eval_expr U (ECast e ty) r = try_bind (eval_expr U e r) (\<lambda>v. cast_value v ty)"
| "eval_expr U (EBetween e lo hi negated) r =
     try_bind (eval_expr U e r) (\<lambda>v. try_bind (eval_expr U lo r) (\<lambda>l. try_bind (eval_expr U hi r) (\<lambda>h.
       eval_between v l h negated)))"
| "eval_expr U (EFunction name args over) r =
     (if over \<noteq> None then Inl (XErr UnsupportedExpr)
      else eval_scalar_function U name (map (\<lambda>a. eval_expr U a r) args))"
| "eval_expr U (EParen e) r = eval_expr U e r"
| "eval_expr U (EInSubquery _ _ _) r = Inl (XErr UnsupportedExpr)"
| "eval_expr U (EExists _ _) r = Inl (XErr UnsupportedExpr)"
| "eval_expr U (EScalarSubquery _) r = Inl (XErr UnsupportedExpr)"
| "eval_expr U (EParameter _) r = Inl (XErr UnsupportedExpr)"
| "eval_expr U ECurrentUser r = Inl (XErr UnsupportedExpr)"

definition eval_predicate :: "unicode \<Rightarrow> expr \<Rightarrow> row \<Rightarrow> exec_fault + bool" where
  "eval_predicate U e r = try_bind (eval_expr U e r) (\<lambda>v. case v of
     VBool b \<Rightarrow> Inr b | VNull \<Rightarrow> Inr False | _ \<Rightarrow> type_err ''expected boolean predicate, got'')"

text \<open>Case tables that only know ASCII, for concrete inputs.\<close>

definition ascii_case :: unicode where
  "ascii_case = \<lparr>uc_to_uppercase = to_ascii_uppercase, uc_to_lowercase = to_ascii_lowercase\<rparr>"

end
