(* ===== verification/Sql_Like.thy ===== *)
theory Sql_Like
  imports Sql_Eval
begin

text \<open>
  \<^verbatim>\<open>LIKE\<close> against its meaning: a text matches a pattern when it can be cut into one piece per
  pattern character, any piece for \<^verbatim>\<open>%\<close>, one character for \<^verbatim>\<open>_\<close>, and the character itself otherwise.
  The table of \<open>sql_like\<close> is shown to hold that relation for all prefixes.
\<close>

definition like_piece :: "bytes list \<Rightarrow> bytes \<Rightarrow> bool" where
  "like_piece u c = (c = PERCENT \<or> (\<exists>x. u = [x] \<and> (c = UNDERSCORE \<or> x = c)))"

definition like_spec :: "bytes list \<Rightarrow> bytes list \<Rightarrow> bool" where
  "like_spec t p = (\<exists>us. concat us = t \<and> list_all2 like_piece us p)"

lemma like_spec_Nil [simp]: "like_spec t [] \<longleftrightarrow> t = []"
  by (auto simp: like_spec_def)

lemma like_spec_snoc: "like_spec t (p @ [c]) \<longleftrightarrow> (\<exists>s u. t = s @ u \<and> like_spec s p \<and> like_piece u c)"
proof
  assume "like_spec t (p @ [c])"
  then obtain us where us: "concat us = t" "list_all2 like_piece us (p @ [c])" by (auto simp: like_spec_def)
  then obtain vs u where "us = vs @ [u]" "list_all2 like_piece vs p" "like_piece u c"
    by (auto simp: list_all2_append2 list_all2_Cons2)
  then show "\<exists>s u. t = s @ u \<and> like_spec s p \<and> like_piece u c"
    using us(1) by (intro exI [of _ "concat vs"] exI [of _ u]) (auto simp: like_spec_def)
next
  assume "\<exists>s u. t = s @ u \<and> like_spec s p \<and> like_piece u c"
  then obtain s u us where "t = s @ u" "concat us = s" "list_all2 like_piece us p" "like_piece u c"
    by (auto simp: like_spec_def)
  then show "like_spec t (p @ [c])"
    unfolding like_spec_def by (intro exI [of _ "us @ [u]"]) (auto intro: list_all2_appendI)
qed

text \<open>The three recurrences of the table.\<close>

lemma like_spec_percent_Nil: "like_spec [] (p @ [PERCENT]) = like_spec [] p"
  by (simp add: like_spec_snoc like_piece_def)

lemma like_spec_percent:
  "like_spec (t @ [x]) (p @ [PERCENT]) \<longleftrightarrow> like_spec (t @ [x]) p \<or> like_spec t (p @ [PERCENT])"
proof
  assume "like_spec (t @ [x]) (p @ [PERCENT])"
  then obtain s u where su: "t @ [x] = s @ u" "like_spec s p" by (auto simp: like_spec_snoc)
  show "like_spec (t @ [x]) p \<or> like_spec t (p @ [PERCENT])"
  proof (cases u rule: rev_cases)
    case Nil
    with su show ?thesis by simp
  next
    case (snoc v y)
    with su have "t = s @ v" by simp
    with su(2) show ?thesis by (auto simp: like_spec_snoc like_piece_def)
  qed
next
  assume "like_spec (t @ [x]) p \<or> like_spec t (p @ [PERCENT])"
  then show "like_spec (t @ [x]) (p @ [PERCENT])"
  proof
    assume "like_spec (t @ [x]) p"
    then show ?thesis unfolding like_spec_snoc by (intro exI [of _ "t @ [x]"] exI [of _ "[]"]) (simp add: like_piece_def)
  next
    assume "like_spec t (p @ [PERCENT])"
    then obtain s u where "t = s @ u" "like_spec s p" by (auto simp: like_spec_snoc)
    then show ?thesis unfolding like_spec_snoc
      by (intro exI [of _ s] exI [of _ "u @ [x]"]) (simp add: like_piece_def)
  qed
qed

lemma like_spec_char:
  assumes "c \<noteq> PERCENT"
  shows "like_spec [] (p @ [c]) = False"
    "like_spec (t @ [x]) (p @ [c]) \<longleftrightarrow> (c = UNDERSCORE \<or> x = c) \<and> like_spec t p"
  using assms by (auto simp: like_spec_snoc like_piece_def)

lemma like_row0_spec:
  "like_row0 p (like_spec [] pp) = map (\<lambda>j. like_spec [] (pp @ take j p)) [1 ..< Suc (length p)]"
proof (induction p arbitrary: pp)
  case (Cons c p)
  have "(if c = PERCENT then like_spec [] pp else False) = like_spec [] (pp @ [c])"
    by (auto simp: like_spec_percent_Nil like_spec_char)
  moreover have "map (\<lambda>j. like_spec [] (pp @ take j (c # p))) [1 ..< Suc (length (c # p))] =
      like_spec [] (pp @ [c]) # map (\<lambda>j. like_spec [] ((pp @ [c]) @ take j p)) [1 ..< Suc (length p)]"
    by (simp add: upt_conv_Cons map_Suc_upt [symmetric] del: upt_Suc)
  ultimately show ?case using Cons [of "pp @ [c]"] by (simp add: Let_def del: upt_Suc)
qed simp

lemma like_row_spec:
  "like_row x p (map (\<lambda>j. like_spec t (pp @ take j p)) [0 ..< Suc (length p)]) (like_spec (t @ [x]) pp) =
   map (\<lambda>j. like_spec (t @ [x]) (pp @ take j p)) [1 ..< Suc (length p)]"
proof (induction p arbitrary: pp)
  case (Cons c p)
  let ?above = "map (\<lambda>j. like_spec t ((pp @ [c]) @ take j p)) [0 ..< Suc (length p)]"
  have up: "?above = like_spec t (pp @ [c]) # tl ?above"
    by (simp add: upt_conv_Cons del: upt_Suc)
  have prev: "map (\<lambda>j. like_spec t (pp @ take j (c # p))) [0 ..< Suc (length (c # p))] = like_spec t pp # ?above"
    by (simp add: upt_conv_Cons map_Suc_upt [symmetric] del: upt_Suc)
  have x: "(if c = PERCENT then like_spec (t @ [x]) pp \<or> like_spec t (pp @ [c])
      else if c = UNDERSCORE \<or> x = c then like_spec t pp else False) = like_spec (t @ [x]) (pp @ [c])"
    by (auto simp: like_spec_percent like_spec_char)
  have "map (\<lambda>j. like_spec (t @ [x]) (pp @ take j (c # p))) [1 ..< Suc (length (c # p))] =
      like_spec (t @ [x]) (pp @ [c]) # map (\<lambda>j. like_spec (t @ [x]) ((pp @ [c]) @ take j p)) [1 ..< Suc (length p)]"
    by (simp add: upt_conv_Cons map_Suc_upt [symmetric] del: upt_Suc)
  moreover have "like_row x (c # p) (like_spec t pp # ?above) (like_spec (t @ [x]) pp) =
      like_spec (t @ [x]) (pp @ [c]) # like_row x p ?above (like_spec (t @ [x]) (pp @ [c]))"
    by (subst (1 2) up) (simp only: like_row.simps Let_def x)
  ultimately show ?case unfolding prev using Cons [of "pp @ [c]"] by (simp only:)
qed simp

lemma like_rows_spec:
  "like_rows ts p (map (\<lambda>j. like_spec t (take j p)) [0 ..< Suc (length p)]) =
   map (\<lambda>j. like_spec (t @ ts) (take j p)) [0 ..< Suc (length p)]"
proof (induction ts arbitrary: t)
  case (Cons x ts)
  have "False # like_row x p (map (\<lambda>j. like_spec t (take j p)) [0 ..< Suc (length p)]) False =
      map (\<lambda>j. like_spec (t @ [x]) (take j p)) [0 ..< Suc (length p)]"
    using like_row_spec [of x p t "[]"] by (simp add: upt_conv_Cons del: upt_Suc)
  with Cons [of "t @ [x]"] show ?case by (simp del: upt_Suc)
qed simp

text \<open>
  C31. \<^verbatim>\<open>LIKE\<close> is right: the table-filling matcher \<^verbatim>\<open>sql_like\<close> answers true exactly when the text can be
  cut into pieces that the characters of the pattern accept one by one, for all texts and patterns.
\<close>

theorem sql_like_correct: "sql_like s pat \<longleftrightarrow> like_spec (str_chars s) (str_chars pat)"
proof -
  let ?p = "str_chars pat"
  have "True # like_row0 ?p True = map (\<lambda>j. like_spec [] (take j ?p)) [0 ..< Suc (length ?p)]"
    using like_row0_spec [of ?p "[]"] by (simp add: upt_conv_Cons del: upt_Suc)
  then have "like_rows (str_chars s) ?p (True # like_row0 ?p True) =
      map (\<lambda>j. like_spec (str_chars s) (take j ?p)) [0 ..< Suc (length ?p)]"
    using like_rows_spec [of "str_chars s" ?p "[]"] by simp
  then show ?thesis by (simp add: sql_like_def Let_def del: upt_Suc)
qed

end
