(* ===== verification/Sql_Typing.thy ===== *)
theory Sql_Typing
  imports Sql_Like
begin

text \<open>
  A type discipline for the expression evaluator. The code has no static types: a type error is
  found at run time, row by row. \<open>typed\<close> describes the expressions for which that cannot happen,
  given the types of the columns; \<open>eval_typed\<close> is the soundness of the evaluator for it.
\<close>

section \<open>Types of values and expressions\<close>

datatype sql_ty = KBool | KText | KNum | KDate | KTime

definition value_has :: "value_t \<Rightarrow> sql_ty \<Rightarrow> bool" where
  "value_has v k = (case v of VNull \<Rightarrow> True | VBool _ \<Rightarrow> k = KBool | VBytes _ \<Rightarrow> k = KText
     | VInteger _ \<Rightarrow> k = KNum | VFloat _ \<Rightarrow> k = KNum | VDate _ \<Rightarrow> k = KDate | VTimestamp _ \<Rightarrow> k = KTime
     | VVector _ \<Rightarrow> False)"

definition column_key :: "str option \<Rightarrow> str \<Rightarrow> str" where
  "column_key q c = (case q of None \<Rightarrow> c | Some t \<Rightarrow> t @ [DOT] @ c)"

definition conforms :: "(str \<Rightarrow> sql_ty option) \<Rightarrow> row \<Rightarrow> bool" where
  "conforms \<Gamma> r = (\<forall>c k. \<Gamma> c = Some k \<longrightarrow> (\<exists>v. row_find r c = Some v \<and> value_has v k))"

definition cast_typed :: "sql_ty \<Rightarrow> sql_type \<Rightarrow> sql_ty \<Rightarrow> bool" where
  "cast_typed k ty k' = (case ty of
     TText \<Rightarrow> k' = KText
   | TVarchar _ \<Rightarrow> k' = KText
   | TInt \<Rightarrow> k' = KNum \<and> k \<in> {KNum, KBool, KTime}
   | TFloat \<Rightarrow> k' = KNum \<and> k \<in> {KNum, KBool, KTime}
   | TBoolean \<Rightarrow> k' = KBool \<and> k \<in> {KNum, KBool, KTime, KDate}
   | TTimestamp \<Rightarrow> k' = KTime \<and> k \<in> {KNum, KTime}
   | TDate \<Rightarrow> k' = KDate \<and> k \<in> {KNum, KTime}
   | _ \<Rightarrow> False)"

definition unary_typed :: "unary_op \<Rightarrow> sql_ty" where
  "unary_typed op = (case op of UNot \<Rightarrow> KBool | UMinus \<Rightarrow> KNum)"

definition binary_typed :: "binary_op \<Rightarrow> sql_ty \<Rightarrow> sql_ty \<Rightarrow> sql_ty \<Rightarrow> bool" where
  "binary_typed op j k res = (case op of
     OpAnd \<Rightarrow> j = KBool \<and> k = KBool \<and> res = KBool
   | OpOr \<Rightarrow> j = KBool \<and> k = KBool \<and> res = KBool
   | OpPlus \<Rightarrow> j = KNum \<and> k = KNum \<and> res = KNum
   | OpMinus \<Rightarrow> j = KNum \<and> k = KNum \<and> res = KNum
   | OpMul \<Rightarrow> j = KNum \<and> k = KNum \<and> res = KNum
   | OpDiv \<Rightarrow> False
   | OpMod \<Rightarrow> False
   | OpDistance \<Rightarrow> False
   | OpEq \<Rightarrow> res = KBool
   | OpNe \<Rightarrow> res = KBool
   | OpLike \<Rightarrow> res = KBool
   | _ \<Rightarrow> j = k \<and> res = KBool)"

text \<open>Division and modulo are left out: they fail on a zero divisor whatever the types.\<close>

definition function_typed :: "str \<Rightarrow> nat \<Rightarrow> sql_ty \<Rightarrow> sql_ty \<Rightarrow> bool" where
  "function_typed name n k res =
     (let u = to_ascii_uppercase name in
      if u \<in> set [ascii ''UPPER'', ascii ''LOWER'', ascii ''TRIM''] then 0 < n \<and> k = KText \<and> res = KText
      else if u = ascii ''LENGTH'' then 0 < n \<and> k = KText \<and> res = KNum
      else if u = ascii ''COALESCE'' then res = k
      else if u \<in> set [ascii ''ABS'', ascii ''ROUND''] then 0 < n \<and> k = KNum \<and> res = KNum
      else False)"

fun typed :: "(str \<Rightarrow> sql_ty option) \<Rightarrow> expr \<Rightarrow> sql_ty \<Rightarrow> bool" where
  "typed \<Gamma> (ELiteral l) k = value_has (literal_to_value l) k"
| "typed \<Gamma> (EColumn c) k = (case c of Named q n \<Rightarrow> \<Gamma> (column_key q n) = Some k | _ \<Rightarrow> False)"
| "typed \<Gamma> (EUnary op e) k = (k = unary_typed op \<and> typed \<Gamma> e k)"
| "typed \<Gamma> (EBinary op a b) k = (\<exists>i j. binary_typed op i j k \<and> typed \<Gamma> a i \<and> typed \<Gamma> b j)"
| "typed \<Gamma> (EIsNull e _) k = (k = KBool \<and> (\<exists>j. typed \<Gamma> e j))"
| "typed \<Gamma> (EIn e vs _) k = (k = KBool \<and> (\<exists>j. typed \<Gamma> e j) \<and> (\<forall>v \<in> set vs. \<exists>j. typed \<Gamma> v j))"
| "typed \<Gamma> (EBetween e lo hi _) k = (k = KBool \<and> (\<exists>j. typed \<Gamma> e j \<and> typed \<Gamma> lo j \<and> typed \<Gamma> hi j))"
| "typed \<Gamma> (EParen e) k = typed \<Gamma> e k"
| "typed \<Gamma> (ECast e ty) k = (\<exists>j. cast_typed j ty k \<and> typed \<Gamma> e j)"
| "typed \<Gamma> (EFunction name args over) k =
     (over = None \<and> (\<exists>j. function_typed name (length args) j k \<and> (\<forall>a \<in> set args. typed \<Gamma> a j)))"
| "typed \<Gamma> _ k = False"

section \<open>The operators respect the types\<close>

definition yields :: "exec_fault + value_t \<Rightarrow> sql_ty \<Rightarrow> bool" where
  "yields res k = (\<exists>v. res = Inr v \<and> value_has v k)"

lemma yields_Inr [simp]: "yields (Inr v) k = value_has v k"
  by (simp add: yields_def)

lemma value_has_simps [simp]:
  "value_has VNull k" "value_has (VBool b) k = (k = KBool)" "value_has (VBytes bs) k = (k = KText)"
  "value_has (VInteger n) k = (k = KNum)" "value_has (VFloat f) k = (k = KNum)"
  "value_has (VDate bs) k = (k = KDate)" "value_has (VTimestamp n) k = (k = KTime)"
  "value_has (VVector fs) k = False"
  by (simp_all add: value_has_def)

lemma value_has_cases:
  assumes "value_has v k"
  obtains "v = VNull" | b where "v = VBool b" "k = KBool" | bs where "v = VBytes bs" "k = KText"
  | n where "v = VInteger n" "k = KNum" | f where "v = VFloat f" "k = KNum"
  | bs where "v = VDate bs" "k = KDate" | n where "v = VTimestamp n" "k = KTime"
  using assms by (cases v) auto

lemma yieldsE: "yields res k \<Longrightarrow> (\<And>v. res = Inr v \<Longrightarrow> value_has v k \<Longrightarrow> P) \<Longrightarrow> P"
  by (auto simp: yields_def)

lemma ex_false [simp]: "\<exists>b. \<not> b" "Ex Not"
  by blast+

lemma cmp_values_typed: "value_has v k \<Longrightarrow> value_has w k \<Longrightarrow> \<exists>b. cmp_values v w op = Inr b"
  by (elim value_has_cases; simp add: cmp_values_def coerce_numeric_def split: option.splits)

lemma arith_typed:
  "value_has v KNum \<Longrightarrow> value_has w KNum \<Longrightarrow> op \<in> {OpPlus, OpMinus, OpMul} \<Longrightarrow> yields (eval_arithmetic op v w) KNum"
  by (elim value_has_cases; auto simp: eval_arithmetic_def coerce_numeric_def ok_or_def)

lemma unary_yields: "yields res (unary_typed op) \<Longrightarrow> yields (eval_unary op res) (unary_typed op)"
  by (elim yieldsE value_has_cases; cases op) (simp_all add: eval_unary_def unary_typed_def)

lemma logic_yields:
  "yields l KBool \<Longrightarrow> yields r KBool \<Longrightarrow> op \<in> {OpAnd, OpOr} \<Longrightarrow> yields (eval_binary op l r) KBool"
  by (elim yieldsE value_has_cases) (auto simp: eval_binary_def)

lemma binary_yields:
  assumes "binary_typed op i j k" "yields l i" "yields r j"
  shows "yields (eval_binary op l r) k"
proof -
  obtain v w where vw: "l = Inr v" "value_has v i" "r = Inr w" "value_has w j"
    using assms(2,3) by (auto simp: yields_def)
  show ?thesis
  proof (cases "op \<in> {OpAnd, OpOr}")
    case True
    then show ?thesis using assms logic_yields [of l r op] by (auto simp: binary_typed_def)
  next
    case False
    have eqv: "value_has (eq_value f v w) KBool" for f by (simp add: eq_value_def split: option.splits)
    show ?thesis using False assms(1) vw eqv arith_typed [of v w op] cmp_values_typed [of v i w op]
      by (cases op) (auto simp: eval_binary_def binary_typed_def)
  qed
qed

lemma cast_yields: "cast_typed j ty k \<Longrightarrow> value_has v j \<Longrightarrow> yields (cast_value v ty) k"
  by (elim value_has_cases; cases ty)
    (auto simp: cast_typed_def cast_value_def cast_to_int_def cast_to_float_def cast_to_bool_def
      cast_to_text_def cast_to_timestamp_def cast_to_date_def)

lemma coalesce_yields: "(\<And>r. r \<in> set rs \<Longrightarrow> yields r k) \<Longrightarrow> yields (eval_coalesce rs) k"
proof (induction rs)
  case (Cons r rs)
  then have "yields r k" "yields (eval_coalesce rs) k" by simp_all
  then show ?case by (auto elim!: yieldsE)
qed simp

lemma function_yields:
  assumes "function_typed name (length rs) j k" "\<And>r. r \<in> set rs \<Longrightarrow> yields r j"
  shows "yields (eval_scalar_function U name rs) k"
proof -
  have first: "yields (first_arg rs) j" if "0 < length rs"
    using that assms(2) by (cases rs) (auto simp: first_arg_def)
  have su: "yields (try_bind (first_arg rs) (string_unary f)) KText" if "0 < length rs" "j = KText" for f
    using first [OF that(1)] that(2) by (elim yieldsE value_has_cases) (simp_all add: string_unary_def)
  have len: "yields (try_bind (first_arg rs) length_function) KNum" if "0 < length rs" "j = KText"
    using first [OF that(1)] that(2) by (elim yieldsE value_has_cases) (simp_all add: length_function_def)
  have ab: "yields (try_bind (first_arg rs) abs_function) KNum" if "0 < length rs" "j = KNum"
    using first [OF that(1)] that(2) by (elim yieldsE value_has_cases) (simp_all add: abs_function_def)
  have rd: "yields (try_bind (first_arg rs) round_function) KNum" if "0 < length rs" "j = KNum"
    using first [OF that(1)] that(2) by (elim yieldsE value_has_cases) (simp_all add: round_function_def)
  show ?thesis
    using assms(1) su len ab rd coalesce_yields [OF assms(2)]
    by (auto simp: function_typed_def eval_scalar_function_def Let_def split: if_splits)
qed

lemma in_search_yields: "(\<And>r. r \<in> set rs \<Longrightarrow> \<exists>k. yields r k) \<Longrightarrow> \<exists>b. in_search v rs = Inr b"
proof (induction rs)
  case (Cons r rs)
  then have "\<exists>k. yields r k" "\<exists>b. in_search v rs = Inr b" by simp_all
  then show ?case by (auto elim!: yieldsE)
qed simp

lemma column_yields: "conforms \<Gamma> r \<Longrightarrow> \<Gamma> (column_key q n) = Some k \<Longrightarrow> yields (eval_column (Named q n) r) k"
  by (cases q) (force simp: conforms_def eval_column_def column_key_def yields_def)+

section \<open>Soundness\<close>

lemma eval_typed: "typed \<Gamma> e k \<Longrightarrow> conforms \<Gamma> r \<Longrightarrow> yields (eval_expr U e r) k"
proof (induction U e r arbitrary: k rule: eval_expr.induct)
  case (2 U c r)
  then show ?case by (cases c) (auto intro: column_yields)
next
  case (3 U op e r)
  then have k: "k = unary_typed op" and "yields (eval_expr U e r) (unary_typed op)" by auto
  then show ?case using unary_yields by simp
next
  case (4 U op a b r)
  then show ?case by (auto intro: binary_yields)
next
  case (5 U e negated r)
  then obtain j where "yields (eval_expr U e r) j" "k = KBool" by auto
  then show ?case by (auto elim!: yieldsE)
next
  case (6 U e vs negated r)
  obtain v where v: "eval_expr U e r = Inr v" using 6(1) [of _] 6(3,4) by (force elim: yieldsE)
  have "\<exists>k. yields (eval_expr U w (in_rhs_row w r)) k" if w: "w \<in> set vs" for w
  proof (cases "in_rhs_row w r = r")
    case True
    from 6(3) w obtain j where "typed \<Gamma> w j" by auto
    with 6(2) [OF w] 6(4) True show ?thesis by auto
  next
    case False
    then obtain l where "w = ELiteral l" using 6(3) w by (cases w) (auto simp: in_rhs_row_def)
    then show ?thesis by (cases l) (auto simp: literal_to_value_def)
  qed
  then have "\<exists>b. in_search v (map (\<lambda>w. eval_expr U w (in_rhs_row w r)) vs) = Inr b"
    by (intro in_search_yields) auto
  with v 6(3) show ?case by auto
next
  case (7 U e ty r)
  then obtain j where "yields (eval_expr U e r) j" "cast_typed j ty k" by auto
  then show ?case by (auto elim!: yieldsE intro: cast_yields)
next
  case (8 U e lo hi negated r)
  then obtain j where j: "typed \<Gamma> e j" "typed \<Gamma> lo j" "typed \<Gamma> hi j" "k = KBool" by auto
  have e: "yields (eval_expr U e r) j" using 8(1) j(1) 8(5) by blast
  then obtain v where v: "eval_expr U e r = Inr v" "value_has v j" by (auto elim: yieldsE)
  have "yields (eval_expr U lo r) j" using 8(2) j(2) 8(5) by blast
  then obtain l where l: "eval_expr U lo r = Inr l" "value_has l j" by (auto elim: yieldsE)
  have "yields (eval_expr U hi r) j" using 8(3) j(3) 8(5) by blast
  then obtain h where h: "eval_expr U hi r = Inr h" "value_has h j" by (auto elim: yieldsE)
  show ?case using v l h j(4) cmp_values_typed [of v j l OpGe] cmp_values_typed [of v j h OpLe]
    by (auto simp: eval_between_def)
next
  case (9 U name args over r)
  then obtain j where "function_typed name (length args) j k" "\<forall>a \<in> set args. typed \<Gamma> a j" "over = None" by auto
  with 9 show ?case by (auto intro!: function_yields [where j = j])
qed auto

text \<open>
  C12. Well-typed predicates do not fail: when every column has a value of its type (or NULL), an
  expression of type \<open>k\<close> evaluates without an error or a panic to a value of type \<open>k\<close> or NULL, and a
  predicate of type boolean always decides a row.
\<close>

theorem eval_type_sound:
  assumes "typed \<Gamma> e k" "conforms \<Gamma> r"
  shows "(\<exists>v. eval_expr U e r = Inr v \<and> value_has v k) \<and> (k = KBool \<longrightarrow> (\<exists>b. eval_predicate U e r = Inr b))"
proof -
  obtain v where "eval_expr U e r = Inr v" "value_has v k"
    using eval_typed [OF assms, of U] by (auto elim: yieldsE)
  then show ?thesis by (cases v) (auto simp: eval_predicate_def)
qed

definition typing_row :: row where
  "typing_row = [(ascii ''name'', VBytes (ascii ''ada'')), (ascii ''age'', VInteger 36)]"

definition typing_env :: "str \<Rightarrow> sql_ty option" where
  "typing_env = [ascii ''name'' \<mapsto> KText, ascii ''age'' \<mapsto> KNum]"

definition typing_expr :: expr where
  "typing_expr = EBinary OpAnd
     (EBinary OpLike (EFunction (ascii ''lower'') [EColumn (Named None (ascii ''name''))] None) (ELiteral (LString (ascii ''a%''))))
     (EBetween (EColumn (Named None (ascii ''age''))) (ELiteral (LInteger 18)) (ELiteral LNull) False)"

lemma typing_example: "typed typing_env typing_expr KBool" "conforms typing_env typing_row"
proof -
  have "to_ascii_uppercase (ascii ''lower'') = ascii ''LOWER''"
    by (simp add: to_ascii_uppercase_def ascii_upper_byte_def)
  then have "function_typed (ascii ''lower'') 1 KText KText" by (simp add: function_typed_def)
  then show "typed typing_env typing_expr KBool"
    by (auto simp: typing_expr_def typing_env_def binary_typed_def column_key_def literal_to_value_def)
  show "conforms typing_env typing_row"
    by (auto simp: conforms_def typing_env_def typing_row_def row_find_def)
qed

theorem eval_type_sound_witness: "\<exists>b. eval_predicate ascii_case typing_expr typing_row = Inr b"
  using eval_type_sound [OF typing_example] by blast

section \<open>Comparison of integers\<close>

text \<open>
  C36. Integers compare as integers as long as their magnitude is at most \<open>2 ^ 53\<close>: the code converts
  both sides to \<^verbatim>\<open>f64\<close> first, and within that bound \<open><\<close>, \<open>>\<close>, \<open><=\<close> and \<open>>=\<close> give the answer of the
  64-bit comparison. Without the bound a strict answer is still never wrong when it is \<^verbatim>\<open>true\<close>.
\<close>

theorem integer_comparison_bounds:
  assumes "op \<in> {OpLt, OpGt, OpLe, OpGe}"
  shows "(\<bar>sint a\<bar> \<le> 2 ^ 53 \<and> \<bar>sint b\<bar> \<le> 2 ^ 53 \<longrightarrow>
           cmp_values (VInteger a) (VInteger b) op = Inr (apply_cmp a b op)) \<and>
    (cmp_values (VInteger a) (VInteger b) OpLt = Inr True \<longrightarrow> sint a < sint b)"
  using assms of_int_compare [of "sint a" "sint b"] of_int_compare [of "sint b" "sint a"]
    of_int_compare_sound(1) [of "sint a" "sint b"]
  by (auto simp: cmp_values_def coerce_numeric_def f64_of_i64_def apply_cmp_f_def apply_cmp_def)

theorem integer_comparison_bounds_witness:
  "cmp_values (VInteger (- 9007199254740992)) (VInteger 9007199254740991) OpGe = Inr False"
  using integer_comparison_bounds [of OpGe "- 9007199254740992" "9007199254740991"]
  by (simp add: apply_cmp_def)

text \<open>
  Past the bound neighbouring integers become equal under \<open><=\<close> and \<open>>=\<close>, though \<open>=\<close> still tells
  them apart.
\<close>

lemma int_mag_double: "int_mag (2 ^ 53 + 1) = int_mag (2 ^ 53)"
proof -
  have b: "nat_bits ((2 ^ 53 + 1) * F64_ONE) = 1128" "nat_bits (2 ^ 53 * F64_ONE) = 1128"
    using nat_bits_shift [of "2 ^ 53 + 1" 1074] nat_bits_shift [of "2 ^ 53" 1074] nat_bits_shift [of 1 53]
      nat_bits_le_iff [of "2 ^ 53 + 1" 54] nat_bits_le_iff [of "2 ^ 53 + 1" 53]
    unfolding F64_ONE_def by (simp_all add: nat_bits_pos)
  show ?thesis
    unfolding int_mag_def fp_mag_def Let_def div_by_1 b by (simp add: F64_ONE_def rne_def)
qed

theorem integer_comparison_collapses:
  "cmp_values (VInteger 9007199254740993) (VInteger 9007199254740992) OpLe = Inr True"
  "cmp_values (VInteger 9007199254740993) (VInteger 9007199254740992) OpGt = Inr False"
  "sql_eq (VInteger 9007199254740993) (VInteger 9007199254740992) = Some False"
  using int_mag_double
  by (simp_all add: cmp_values_def coerce_numeric_def f64_of_i64_def apply_cmp_f_def f64_le_def f64_lt_def
      of_int_ord sql_eq_def)

end
