(* ===== verification/Rowpack.thy ===== *)
theory Rowpack
  imports Rust_Text
begin

text \<open>
  Packed row records (\<^verbatim>\<open>crates/noedb-storage/src/rowpack.rs\<close>): one storage entry per row, with a
  magic header, a 16-bit column count, and length-prefixed names and values. Offsets into the
  record are modelled by the bytes that remain after them.
\<close>

section \<open>Encoding\<close>

definition ROWPACK_MAGIC :: bytes where
  "ROWPACK_MAGIC = ascii ''NRP1''"

definition encode_column :: "str \<times> bytes \<Rightarrow> bytes" where
  "encode_column = (\<lambda>(name, val).
     let name_len = min (length name) 65535; val_len = min (length val) 4294967295 in
     nat_to_le 2 name_len @ take name_len name @ nat_to_le 4 val_len @ take val_len val)"

definition encode_row :: "(str \<times> bytes) list \<Rightarrow> bytes" where
  "encode_row columns =
     (let count = min (length columns) 65535
      in ROWPACK_MAGIC @ nat_to_le 2 count @ concat (map encode_column (take count columns)))"

definition is_packed_row :: "bytes \<Rightarrow> bool" where
  "is_packed_row bs = (6 \<le> length bs \<and> take 4 bs = ROWPACK_MAGIC)"

section \<open>Decoding\<close>

text \<open>The name bytes, the value and the rest of the record, or nothing when it is cut short.\<close>

definition split_column :: "bytes \<Rightarrow> (bytes \<times> bytes \<times> bytes) option" where
  "split_column bs =
     (if length bs < 2 then None
      else let name_len = nat_of_le (take 2 bs); r = drop 2 bs in
        if length r < name_len + 4 then None
        else let name = take name_len r; r = drop name_len r;
                 val_len = nat_of_le (take 4 r); r = drop 4 r in
          if length r < val_len then None else Some (name, take val_len r, drop val_len r))"

primrec decode_columns :: "nat \<Rightarrow> bytes \<Rightarrow> (str \<times> bytes) list option" where
  "decode_columns 0 bs = Some []"
| "decode_columns (Suc n) bs =
     (case split_column bs of
        None \<Rightarrow> None
      | Some (name, val, r) \<Rightarrow>
          map_option (\<lambda>cols. (from_utf8_lossy name, val) # cols) (decode_columns n r))"

definition decode_row :: "bytes \<Rightarrow> (str \<times> bytes) list option" where
  "decode_row bs =
     (if \<not> is_packed_row bs then None
      else decode_columns (nat_of_le (take 2 (drop 4 bs))) (drop 6 bs))"

record packed_row_iter =
  pi_rest :: bytes
  pi_remaining :: nat

definition iter_row :: "bytes \<Rightarrow> packed_row_iter" where
  "iter_row bs = \<lparr>pi_rest = drop 6 bs,
     pi_remaining = (if is_packed_row bs then nat_of_le (take 2 (drop 4 bs)) else 0)\<rparr>"

definition packed_next :: "packed_row_iter \<Rightarrow> packed_row_iter \<times> (str \<times> bytes) option" where
  "packed_next it =
     (let bs = pi_rest it in
      if pi_remaining it = 0 \<or> length bs < 2 then (it, None)
      else let name_len = nat_of_le (take 2 bs); r = drop 2 bs in
        if length r < name_len + 4 then (it\<lparr>pi_rest := r, pi_remaining := 0\<rparr>, None)
        else (case from_utf8 (take name_len r) of
          None \<Rightarrow> (it\<lparr>pi_rest := r\<rparr>, None)
        | Some name \<Rightarrow>
            let r = drop name_len r; val_len = nat_of_le (take 4 r); r = drop 4 r in
            if length r < val_len then (it\<lparr>pi_rest := r, pi_remaining := 0\<rparr>, None)
            else (it\<lparr>pi_rest := drop val_len r, pi_remaining := pi_remaining it - 1\<rparr>,
                  Some (name, take val_len r))))"

text \<open>What a \<^verbatim>\<open>for\<close> loop over the iterator sees.\<close>

function iter_collect :: "packed_row_iter \<Rightarrow> (str \<times> bytes) list" where
  "iter_collect it = (case packed_next it of (it', None) \<Rightarrow> [] | (it', Some c) \<Rightarrow> c # iter_collect it')"
  by auto
termination
  by (relation "measure pi_remaining") (auto simp: packed_next_def Let_def split: if_splits option.splits)

declare iter_collect.simps [simp del]

definition packed_row_key :: "str \<Rightarrow> str \<Rightarrow> bytes" where
  "packed_row_key table row_id = table @ [0] @ row_id"

section \<open>Round trip\<close>

definition packable :: "str \<times> bytes \<Rightarrow> bool" where
  "packable = (\<lambda>(name, val). length name \<le> 65535 \<and> valid_utf8 name \<and> length val \<le> 4294967295)"

lemma split_encode_column:
  "packable c \<Longrightarrow> split_column (encode_column c @ r) = Some (fst c, snd c, r)"
  by (cases c) (simp add: packable_def encode_column_def split_column_def Let_def)

lemma packed_next_encode:
  "packable c \<Longrightarrow> packed_next \<lparr>pi_rest = encode_column c @ r, pi_remaining = Suc n\<rparr> =
    (\<lparr>pi_rest = r, pi_remaining = n\<rparr>, Some c)"
  by (cases c) (simp add: packable_def encode_column_def packed_next_def Let_def from_utf8_def)

lemma decode_columns_encode:
  "list_all packable cols \<Longrightarrow> decode_columns (length cols) (concat (map encode_column cols) @ r) = Some cols"
proof (induction cols)
  case (Cons c cols)
  then have "valid_utf8 (fst c)" by (auto simp: packable_def)
  with Cons show ?case by (simp add: split_encode_column)
qed simp

lemma iter_collect_encode:
  "list_all packable cols \<Longrightarrow>
   iter_collect \<lparr>pi_rest = concat (map encode_column cols) @ r, pi_remaining = length cols\<rparr> = cols"
proof (induction cols)
  case Nil
  show ?case by (subst iter_collect.simps) (simp add: packed_next_def)
next
  case (Cons c cols)
  then show ?case by (subst iter_collect.simps) (simp add: packed_next_encode)
qed

lemma encode_row_parts:
  assumes "length cols \<le> 65535"
  shows "is_packed_row (encode_row cols)" "nat_of_le (take 2 (drop 4 (encode_row cols))) = length cols"
    "drop 6 (encode_row cols) = concat (map encode_column cols)"
  using assms by (simp_all add: encode_row_def is_packed_row_def ROWPACK_MAGIC_def Let_def)

text \<open>
  C34. A packed row decodes to the columns it was built from, in order, and the zero-copy iterator
  yields the same columns, as long as the lengths fit their 16- and 32-bit prefixes and the column
  names are UTF-8.
\<close>

theorem rowpack_round_trip:
  assumes "length cols \<le> 65535" "list_all packable cols"
  shows "decode_row (encode_row cols) = Some cols \<and> iter_collect (iter_row (encode_row cols)) = cols"
  using encode_row_parts [OF assms(1)] decode_columns_encode [OF assms(2), of "[]"]
    iter_collect_encode [OF assms(2), of "[]"]
  by (simp add: decode_row_def iter_row_def)

theorem rowpack_round_trip_witness:
  "decode_row (encode_row [(ascii ''id'', ascii ''42''), (ascii ''note'', [])]) =
     Some [(ascii ''id'', ascii ''42''), (ascii ''note'', [])]"
  using rowpack_round_trip [of "[(ascii ''id'', ascii ''42''), (ascii ''note'', [])]"]
  by (simp add: packable_def)

end
