(* ===== verification/Sql_Store.thy ===== *)
theory Sql_Store
  imports Sql_Value Rowpack Engine
begin

text \<open>
  How rows lie in the key-value store: the table loader (\<^verbatim>\<open>crates/noedb-planner/src/parallel.rs\<close>),
  the row fetch of the executor, column name matching (\<^verbatim>\<open>join.rs\<close>), the primary-key marker
  (\<^verbatim>\<open>pk.rs\<close>), secondary indexes (\<^verbatim>\<open>index.rs\<close>) and the purge of a dropped table (\<^verbatim>\<open>ddl.rs\<close>).

  The code is generic in the \<^verbatim>\<open>StorageEngine\<close> it runs on, so a store is a record of operations. A
  reader sees \<open>read_store\<close>; code that writes threads the state of \<open>kv_ops\<close>.
\<close>

record read_store =
  rs_get :: "bytes \<Rightarrow> storage_error + bytes option"
  rs_range :: "bytes \<Rightarrow> bytes \<Rightarrow> (bytes \<times> bytes) list"
  rs_range_keys :: "bytes \<Rightarrow> bytes \<Rightarrow> bytes list"

record 's kv_ops =
  kv_get :: "bytes \<Rightarrow> 's \<Rightarrow> storage_error + bytes option"
  kv_put :: "bytes \<Rightarrow> bytes \<Rightarrow> 's \<Rightarrow> storage_error + 's"
  kv_delete :: "bytes \<Rightarrow> 's \<Rightarrow> storage_error + (bool \<times> 's)"
  kv_range :: "bytes \<Rightarrow> bytes \<Rightarrow> 's \<Rightarrow> (bytes \<times> bytes) list"

definition reads :: "'s kv_ops \<Rightarrow> 's \<Rightarrow> read_store" where
  "reads ops s = \<lparr>rs_get = (\<lambda>k. kv_get ops k s), rs_range = (\<lambda>lo hi. kv_range ops lo hi s),
     rs_range_keys = (\<lambda>lo hi. map fst (kv_range ops lo hi s))\<rparr>"

section \<open>Rows\<close>

text \<open>Overwrite the first field of that name, or append it.\<close>

fun set_row_column :: "row \<Rightarrow> str \<Rightarrow> value_t \<Rightarrow> row" where
  "set_row_column [] col val = [(col, val)]"
| "set_row_column ((n, v) # r) col val =
     (if n = col then (n, val) # r else (n, v) # set_row_column r col val)"

text \<open>The bytes before and after the first zero byte.\<close>

definition split_zero :: "bytes \<Rightarrow> (bytes \<times> bytes) option" where
  "split_zero bs = (if 0 \<in> set bs
     then Some (takeWhile (\<lambda>b. b \<noteq> 0) bs, tl (dropWhile (\<lambda>b. b \<noteq> 0) bs)) else None)"

definition bare_name :: "str \<Rightarrow> str" where
  "bare_name n = (case rsplit_once 0x2E n of Some (_, b) \<Rightarrow> b | None \<Rightarrow> n)"

definition column_name_matches :: "str \<Rightarrow> str \<Rightarrow> bool" where
  "column_name_matches stored wanted =
     (stored = wanted
      \<or> (case rsplit_once 0x2E stored of Some (_, bare) \<Rightarrow> bare = wanted | None \<Rightarrow> False)
      \<or> (case rsplit_once 0x2E wanted of
           Some (_, bare) \<Rightarrow>
             stored = bare \<or> (case rsplit_once 0x2E stored of Some (_, sb) \<Rightarrow> sb = bare | None \<Rightarrow> False)
         | None \<Rightarrow> False))"

definition find_column :: "row \<Rightarrow> str \<Rightarrow> value_t option" where
  "find_column r col = map_option snd (find (\<lambda>(n, _). column_name_matches n col) r)"

definition join_key_value :: "row \<Rightarrow> str \<Rightarrow> bytes option" where
  "join_key_value r col = map_option as_bytes (find_column r col)"

definition row_value :: "row \<Rightarrow> str \<Rightarrow> value_t" where
  "row_value r col = (case find_column r col of None \<Rightarrow> VNull | Some v \<Rightarrow> v)"

section \<open>Loading a table\<close>

datatype entry_kind = EntryPacked bytes | EntryCell str bytes

type_synonym entry = "bytes \<times> entry_kind"

definition wanted :: "str list option \<Rightarrow> str \<Rightarrow> bool" where
  "wanted columns c = (case columns of None \<Rightarrow> True | Some cols \<Rightarrow> c \<in> set cols)"

definition entry_of :: "str list option \<Rightarrow> bytes \<Rightarrow> bytes \<times> bytes \<Rightarrow> entry option" where
  "entry_of columns prefix = (\<lambda>(key, val).
     if \<not> starts_with key prefix then None
     else let rest = drop (length prefix) key in
       case split_zero rest of
         Some (row_id, col) \<Rightarrow>
           let col_name = from_utf8_lossy col in
           if wanted columns col_name then Some (row_id, EntryCell col_name val) else None
       | None \<Rightarrow>
           if is_packed_row val then Some (rest, EntryPacked val)
           else Some (rest, EntryCell (ascii ''value'') val))"

definition table_key_prefix :: "str \<Rightarrow> bytes" where
  "table_key_prefix table = table @ [0]"

definition collect_entries :: "read_store \<Rightarrow> str \<Rightarrow> str list option \<Rightarrow> entry list" where
  "collect_entries st table columns =
     (let prefix = table_key_prefix table
      in List.map_filter (entry_of columns prefix) (rs_range st prefix (prefix_end prefix)))"

definition decode_packed :: "bytes \<Rightarrow> str list option \<Rightarrow> row" where
  "decode_packed bs columns =
     map (\<lambda>(n, v). (n, VBytes v))
       (filter (\<lambda>(n, _). wanted columns n) (case decode_row bs of None \<Rightarrow> [] | Some cols \<Rightarrow> cols))"

definition merge_row :: "row option \<Rightarrow> row \<Rightarrow> row" where
  "merge_row packed cells =
     (case packed of None \<Rightarrow> cells | Some r \<Rightarrow> foldl (\<lambda>r (c, v). set_row_column r c v) r cells)"

type_synonym grouped = "(bytes \<times> (row option \<times> row)) list"

definition slot_of :: "grouped \<Rightarrow> bytes \<Rightarrow> row option \<times> row" where
  "slot_of acc k = (case bt_get acc k of None \<Rightarrow> (None, []) | Some s \<Rightarrow> s)"

definition add_kind :: "str list option \<Rightarrow> entry_kind \<Rightarrow> row option \<times> row \<Rightarrow> row option \<times> row" where
  "add_kind columns kind = (\<lambda>(packed, cells). case kind of
     EntryPacked bs \<Rightarrow> (Some (decode_packed bs columns), cells)
   | EntryCell col val \<Rightarrow> (packed, cells @ [(col, VBytes val)]))"

definition ingest :: "str list option \<Rightarrow> entry \<Rightarrow> grouped \<Rightarrow> grouped" where
  "ingest columns = (\<lambda>(k, kind) acc. bt_insert k (add_kind columns kind (slot_of acc k)) acc)"

definition finish_groups :: "grouped \<Rightarrow> row list" where
  "finish_groups g = map (\<lambda>(_, packed, cells). merge_row packed cells) g"

definition group_entries :: "entry list \<Rightarrow> str list option \<Rightarrow> row list" where
  "group_entries es columns = finish_groups (fold (ingest columns) es [])"

definition merge_slot :: "row option \<times> row \<Rightarrow> row option \<times> row \<Rightarrow> row option \<times> row" where
  "merge_slot = (\<lambda>(p, c) (p', c'). (if p' \<noteq> None then p' else p, c @ c'))"

definition merge_grouped :: "grouped \<Rightarrow> grouped \<Rightarrow> grouped" where
  "merge_grouped l r = fold (\<lambda>(k, s) acc. bt_insert k (merge_slot (slot_of acc k) s) acc) r l"

text \<open>
  A parallel fold cuts the entries into contiguous chunks, folds each from the empty map and
  combines neighbours; which cuts it makes is up to the thread pool.
\<close>

datatype 'a cuts = Chunk "'a list" | Cut "'a cuts" "'a cuts"

primrec pieces :: "'a cuts \<Rightarrow> 'a list" where
  "pieces (Chunk xs) = xs"
| "pieces (Cut l r) = pieces l @ pieces r"

primrec par_group :: "str list option \<Rightarrow> entry cuts \<Rightarrow> grouped" where
  "par_group columns (Chunk es) = fold (ingest columns) es []"
| "par_group columns (Cut l r) = merge_grouped (par_group columns l) (par_group columns r)"

definition group_entries_parallel :: "entry cuts \<Rightarrow> str list option \<Rightarrow> row list" where
  "group_entries_parallel c columns = finish_groups (par_group columns c)"

definition PARALLEL_THRESHOLD :: nat where
  "PARALLEL_THRESHOLD = 512"

definition load_table_rows ::
  "(entry list \<Rightarrow> entry cuts) \<Rightarrow> read_store \<Rightarrow> str \<Rightarrow> str list option \<Rightarrow> row list" where
  "load_table_rows pool st table columns =
     (let es = collect_entries st table columns
      in if length es < PARALLEL_THRESHOLD then group_entries es columns
         else group_entries_parallel (pool es) columns)"

section \<open>Fetching one row\<close>

definition table_cell_key :: "str \<Rightarrow> bytes \<Rightarrow> bytes \<Rightarrow> bytes" where
  "table_cell_key table row_id column = table @ [0] @ row_id @ [0] @ column"

definition load_row_by_id :: "read_store \<Rightarrow> str \<Rightarrow> bytes \<Rightarrow> str list option \<Rightarrow> row option" where
  "load_row_by_id st table row_id columns =
     (let packed_key = table @ [0] @ row_id;
          r = (case rs_get st packed_key of
                 Inr (Some bs) \<Rightarrow> if is_packed_row bs then decode_packed bs columns else []
               | _ \<Rightarrow> []);
          r = (case columns of
                 Some cols \<Rightarrow>
                   foldl (\<lambda>r c. case rs_get st (table_cell_key table row_id c) of
                            Inr (Some val) \<Rightarrow> set_row_column r c (VBytes val) | _ \<Rightarrow> r) r cols
               | None \<Rightarrow>
                   (let prefix = packed_key @ [0] in
                    foldl (\<lambda>r (key, val). if starts_with key prefix
                             then set_row_column r (from_utf8_lossy (drop (length prefix) key)) (VBytes val) else r)
                      r (rs_range st prefix (prefix_end prefix))))
      in if r = [] then None else Some r)"

section \<open>Primary-key marker and secondary indexes\<close>

definition PK_MARKER_PREFIX :: bytes where "PK_MARKER_PREFIX = 2 # ascii ''pk_meta'' @ [0]"

definition marker_key :: "str \<Rightarrow> bytes" where "marker_key table = PK_MARKER_PREFIX @ table"

definition mark_row_id_column :: "'s kv_ops \<Rightarrow> str \<Rightarrow> str \<Rightarrow> 's \<Rightarrow> storage_error + 's" where
  "mark_row_id_column ops table column s = kv_put ops (marker_key table) column s"

definition unmark_row_id_column :: "'s kv_ops \<Rightarrow> str \<Rightarrow> 's \<Rightarrow> storage_error + 's" where
  "unmark_row_id_column ops table s = try_bind (kv_delete ops (marker_key table) s) (\<lambda>(_, s). Inr s)"

definition row_id_column :: "read_store \<Rightarrow> str \<Rightarrow> str option" where
  "row_id_column st table = (case rs_get st (marker_key table) of Inr (Some v) \<Rightarrow> Some (from_utf8_lossy v) | _ \<Rightarrow> None)"

definition META_PREFIX :: bytes where "META_PREFIX = 2 # ascii ''idx_meta'' @ [0]"

definition ENTRY_PREFIX :: bytes where "ENTRY_PREFIX = 2 # ascii ''idx'' @ [0]"

definition meta_key :: "str \<Rightarrow> str \<Rightarrow> bytes" where
  "meta_key table column = META_PREFIX @ table @ [0] @ column"

definition entry_prefix :: "str \<Rightarrow> str \<Rightarrow> bytes" where
  "entry_prefix table column = ENTRY_PREFIX @ table @ [0] @ column @ [0]"

definition entry_key :: "str \<Rightarrow> str \<Rightarrow> bytes \<Rightarrow> bytes \<Rightarrow> bytes" where
  "entry_key table column key row_id = entry_prefix table column @ key @ [0] @ row_id"

type_synonym btree_index = "(bytes \<times> bytes list) list"

definition index_insert :: "bytes \<Rightarrow> bytes \<Rightarrow> btree_index \<Rightarrow> btree_index" where
  "index_insert key row_id ix = bt_insert key ((case bt_get ix key of None \<Rightarrow> [] | Some ids \<Rightarrow> ids) @ [row_id]) ix"

definition index_lookup_mem :: "btree_index \<Rightarrow> bytes \<Rightarrow> bytes list" where
  "index_lookup_mem ix key = (case bt_get ix key of None \<Rightarrow> [] | Some ids \<Rightarrow> ids)"

text \<open>The pair a table entry contributes to an index on a column.\<close>

definition indexed_entry :: "bytes \<Rightarrow> str \<Rightarrow> bytes \<times> bytes \<Rightarrow> (bytes \<times> bytes) option" where
  "indexed_entry prefix column = (\<lambda>(key, val).
     if \<not> starts_with key prefix then None
     else let rest = drop (length prefix) key in
       case split_zero rest of
         Some (row_id, col) \<Rightarrow> if col \<noteq> column then None else Some (val, row_id)
       | None \<Rightarrow>
           if is_packed_row val then
             (case decode_row val of None \<Rightarrow> None
              | Some cols \<Rightarrow> map_option (\<lambda>(_, cell). (cell, rest)) (find (\<lambda>(n, _). n = column) cols))
           else None)"

primrec put_all :: "'s kv_ops \<Rightarrow> (bytes \<times> bytes) list \<Rightarrow> 's \<Rightarrow> storage_error + 's" where
  "put_all ops [] s = Inr s"
| "put_all ops (kv # kvs) s = try_bind (kv_put ops (fst kv) (snd kv) s) (put_all ops kvs)"

definition index_persist :: "'s kv_ops \<Rightarrow> str \<Rightarrow> str \<Rightarrow> btree_index \<Rightarrow> 's \<Rightarrow> storage_error + 's" where
  "index_persist ops table column ix s =
     try_bind (kv_put ops (meta_key table column) (ascii ''1'') s)
       (put_all ops (concat (map (\<lambda>(key, ids). map (\<lambda>i. (entry_key table column key i, [])) ids) ix)))"

definition index_build :: "'s kv_ops \<Rightarrow> str \<Rightarrow> str \<Rightarrow> 's \<Rightarrow> storage_error + 's" where
  "index_build ops table column s =
     (let prefix = table_key_prefix table;
          pairs = List.map_filter (indexed_entry prefix column) (kv_range ops prefix (prefix_end prefix) s)
      in index_persist ops table column (fold (\<lambda>(key, i). index_insert key i) pairs []) s)"

definition index_exists :: "read_store \<Rightarrow> str \<Rightarrow> str \<Rightarrow> bool" where
  "index_exists st table column = (case rs_get st (meta_key table column) of Inr (Some _) \<Rightarrow> True | _ \<Rightarrow> False)"

definition index_load :: "read_store \<Rightarrow> str \<Rightarrow> str \<Rightarrow> btree_index" where
  "index_load st table column =
     (let prefix = entry_prefix table column;
          pairs = List.map_filter (\<lambda>(key, _). if \<not> starts_with key prefix then None
                    else split_zero (drop (length prefix) key)) (rs_range st prefix (prefix_end prefix))
      in fold (\<lambda>(key, i). index_insert key i) pairs [])"

definition index_lookup :: "read_store \<Rightarrow> str \<Rightarrow> str \<Rightarrow> bytes \<Rightarrow> bytes list" where
  "index_lookup st table column key =
     (let prefix = entry_prefix table column @ key @ [0]
      in map (drop (length prefix) \<circ> fst)
           (filter (\<lambda>(k, _). starts_with k prefix) (rs_range st prefix (prefix_end prefix))))"

definition indexed_columns :: "read_store \<Rightarrow> str \<Rightarrow> str list" where
  "indexed_columns st table =
     (let prefix = META_PREFIX @ table @ [0]
      in map (\<lambda>(k, _). from_utf8_lossy (drop (length prefix) k))
           (filter (\<lambda>(k, _). starts_with k prefix) (rs_range st prefix (prefix_end prefix))))"

section \<open>Dropping a table\<close>

definition table_prefixes :: "str \<Rightarrow> bytes list" where
  "table_prefixes table =
     [table @ [0], ENTRY_PREFIX @ table @ [0], META_PREFIX @ table @ [0], 3 # ascii ''stats'' @ [0] @ table @ [0]]"

primrec delete_all :: "'s kv_ops \<Rightarrow> bytes list \<Rightarrow> 's \<Rightarrow> storage_error + 's" where
  "delete_all ops [] s = Inr s"
| "delete_all ops (k # ks) s = try_bind (kv_delete ops k s) (\<lambda>(_, s). delete_all ops ks s)"

primrec purge_prefixes :: "'s kv_ops \<Rightarrow> bytes list \<Rightarrow> nat \<Rightarrow> 's \<Rightarrow> storage_error + (nat \<times> 's)" where
  "purge_prefixes ops [] n s = Inr (n, s)"
| "purge_prefixes ops (p # ps) n s =
     (let keys = map fst (kv_range ops p (prefix_end p) s)
      in try_bind (delete_all ops keys s) (purge_prefixes ops ps (n + length keys)))"

definition purge_table_data :: "'s kv_ops \<Rightarrow> str \<Rightarrow> 's \<Rightarrow> storage_error + (nat \<times> 's)" where
  "purge_table_data ops table s =
     try_bind (purge_prefixes ops (table_prefixes table) 0 s) (\<lambda>(removed, s).
     try_bind (unmark_row_id_column ops table s) (\<lambda>s. Inr (removed, s)))"

section \<open>Parallel and serial grouping agree\<close>

text \<open>What one key's slot holds after a sequence of entries.\<close>

definition slot_after :: "str list option \<Rightarrow> entry list \<Rightarrow> bytes \<Rightarrow> row option \<times> row" where
  "slot_after columns es k = fold (\<lambda>(_, kind). add_kind columns kind) (filter (\<lambda>(i, _). i = k) es) (None, [])"

lemma ingest_sorted [inv_intros]: "bt_sorted acc \<Longrightarrow> bt_sorted (ingest columns e acc)"
  by (auto simp: ingest_def split: prod.splits intro: inv_intros)

lemma fold_ingest_sorted [inv_intros]: "bt_sorted acc \<Longrightarrow> bt_sorted (fold (ingest columns) es acc)"
  by (induction es arbitrary: acc) (simp_all add: inv_intros)

lemma slot_after_absent: "k \<notin> fst ` set es \<Longrightarrow> slot_after columns es k = (None, [])"
proof -
  assume "k \<notin> fst ` set es"
  then have "filter (\<lambda>(i, _). i = k) es = []" by (force simp: filter_empty_conv)
  then show ?thesis by (simp add: slot_after_def)
qed

lemma fold_ingest_get:
  "bt_get (fold (ingest columns) es []) k =
   (if k \<in> fst ` set es then Some (slot_after columns es k) else None)"
proof (induction es arbitrary: k rule: rev_induct)
  case (snoc e es)
  obtain i kind where e: "e = (i, kind)" by (cases e)
  let ?g = "fold (ingest columns) es []"
  have s: "bt_sorted ?g" by (intro inv_intros)
  have "slot_of ?g i = slot_after columns es i"
    using snoc [of i] slot_after_absent [of i es] by (simp add: slot_of_def)
  then show ?case using s snoc [of k]
    by (auto simp: e ingest_def bt_get_insert slot_after_def)
qed simp

lemma add_kind_merge: "add_kind columns kind (merge_slot a b) = merge_slot a (add_kind columns kind b)"
  by (cases a; cases b; cases kind) (simp_all add: add_kind_def merge_slot_def)

lemma merge_slot_unit [simp]: "merge_slot a (None, []) = a" "merge_slot (None, []) b = b"
  by (cases a; simp add: merge_slot_def) (cases b; simp add: merge_slot_def)

lemma slot_after_append: "slot_after columns (xs @ ys) k = merge_slot (slot_after columns xs k) (slot_after columns ys k)"
proof (induction ys rule: rev_induct)
  case (snoc y ys)
  then show ?case
    by (cases y) (simp add: slot_after_def add_kind_merge del: append_assoc add: append_assoc [symmetric])
next
  case Nil
  then show ?case by (simp add: slot_after_def)
qed

lemma merge_grouped_step:
  "bt_sorted l \<Longrightarrow> bt_sorted (merge_grouped l r)"
  "bt_sorted l \<Longrightarrow> distinct (map fst r) \<Longrightarrow> bt_get (merge_grouped l r) k =
     (case map_of r k of None \<Rightarrow> bt_get l k | Some s \<Rightarrow> Some (merge_slot (slot_of l k) s))"
proof -
  show "bt_sorted (merge_grouped l r)" if "bt_sorted l"
    using that unfolding merge_grouped_def
    by (induction r arbitrary: l) (auto intro: inv_intros)
  show "bt_get (merge_grouped l r) k =
     (case map_of r k of None \<Rightarrow> bt_get l k | Some s \<Rightarrow> Some (merge_slot (slot_of l k) s))"
    if "bt_sorted l" "distinct (map fst r)"
    using that unfolding merge_grouped_def
  proof (induction r arbitrary: l)
    case (Cons e r)
    obtain i s where e: "e = (i, s)" by (cases e)
    let ?l = "bt_insert i (merge_slot (slot_of l i) s) l"
    have l: "bt_sorted ?l" using Cons.prems by (intro inv_intros)
    have "i \<notin> fst ` set r" using Cons.prems e by simp
    then have "map_of r i = None" by (simp add: map_of_eq_None_iff)
    then show ?case using Cons.IH [OF l] Cons.prems
      by (auto simp: e bt_get_insert slot_of_def split: option.splits)
  qed simp
qed

lemma par_group_eq: "par_group columns c = fold (ingest columns) (pieces c) []"
proof (induction c)
  case (Cut l r)
  let ?gl = "fold (ingest columns) (pieces l) []" and ?gr = "fold (ingest columns) (pieces r) []"
  have s: "bt_sorted ?gl" "bt_sorted ?gr" by (intro inv_intros)+
  then have d: "distinct (map fst ?gr)" by (rule_tac bt_sorted_distinct)
  have m: "map_of ?gr k = bt_get ?gr k" for k by (simp add: bt_get_def)
  have "merge_grouped ?gl ?gr = fold (ingest columns) (pieces l @ pieces r) []"
  proof (rule bt_ext)
    show "bt_sorted (merge_grouped ?gl ?gr)" using s by (simp add: merge_grouped_step)
    show "bt_sorted (fold (ingest columns) (pieces l @ pieces r) [])" by (intro inv_intros)
    show "bt_get (merge_grouped ?gl ?gr) k = bt_get (fold (ingest columns) (pieces l @ pieces r) []) k" for k
      unfolding merge_grouped_step(2) [OF s(1) d] m fold_ingest_get
      by (simp add: slot_of_def fold_ingest_get slot_after_append slot_after_absent image_Un del: fold_append)
  qed
  then show ?case by (simp add: Cut)
qed simp

text \<open>
  C33. Parallel loading is the serial one: however the thread pool cuts the entries of a table into
  contiguous chunks, folding the chunks separately and merging them gives the rows of the serial
  grouping, in the same order and with the same column overrides.
\<close>

theorem parallel_matches_serial:
  assumes "\<And>es. pieces (pool es) = es"
  shows "load_table_rows pool st table columns = group_entries (collect_entries st table columns) columns"
  using assms by (simp add: load_table_rows_def Let_def group_entries_parallel_def group_entries_def par_group_eq)

definition halves :: "entry list \<Rightarrow> entry cuts" where
  "halves es = Cut (Chunk (take (length es div 2) es)) (Chunk (drop (length es div 2) es))"

theorem parallel_matches_serial_witness:
  "load_table_rows halves \<lparr>rs_get = (\<lambda>_. Inr None), rs_range = (\<lambda>_ _. replicate 600 ([116, 0, 49, 0, 120], [7])),
     rs_range_keys = (\<lambda>_ _. [])\<rparr> [116] None =
   group_entries (collect_entries \<lparr>rs_get = (\<lambda>_. Inr None), rs_range = (\<lambda>_ _. replicate 600 ([116, 0, 49, 0, 120], [7])),
     rs_range_keys = (\<lambda>_ _. [])\<rparr> [116] None) None"
  by (rule parallel_matches_serial) (simp add: halves_def)

end
