(* ===== verification/Sql_Catalog.thy ===== *)
theory Sql_Catalog
  imports Sql_Store Memtable
begin




lemma starts_with_append_iff: "starts_with (p @ k) (p @ q) = starts_with k q"
  by (auto simp: starts_with_iff)










section \<open>The contract\<close>


section \<open>The memory table as a store\<close>



section \<open>Dropping a table and building an index\<close>







end
