(* ===== verification/Sql_Plan.thy ===== *)
theory Sql_Plan
  imports Sql_Store
begin

text \<open>
  Query plans: the logical algebra (\<^verbatim>\<open>logical.rs\<close>), the physical operators (\<^verbatim>\<open>physical.rs\<close>), the
  one-to-one lowering (\<^verbatim>\<open>lower.rs\<close>), the recognition of equi-joins (\<^verbatim>\<open>join.rs\<close>) and the extraction
  of window functions from a select list (\<^verbatim>\<open>window.rs\<close>).
\<close>

section \<open>Plans\<close>

datatype agg_func = CountStar | CountCol str | AggSum str | AggAvg str | AggMin str | AggMax str

record window_compute =
  wcp_func :: window_func
  wcp_arg :: "expr option"
  wcp_spec :: "expr window_spec"
  wcp_output_name :: str

datatype logical_plan =
    LScan str str
  | LFilter logical_plan expr
  | LProject logical_plan "expr select_item list"
  | LJoin logical_plan logical_plan expr bool
  | LAggregate logical_plan "str list" "(str \<times> agg_func) list"
  | LSort logical_plan "(str \<times> bool) list"
  | LLimit logical_plan u64 u64
  | LWindow logical_plan "window_compute list"
  | LSemiJoin logical_plan logical_plan str str "expr option" bool
  | LCteScan str str
  | LSubqueryScan logical_plan str
  | LSetOp logical_plan logical_plan set_op_kind bool
  | LDistinct logical_plan

datatype physical_plan =
    PSeqScan str str "str list option"
  | PPkLookup str bytes "str list option"
  | PIndexScan str str "bytes option" "str list option"
  | PFilter physical_plan expr
  | PProject physical_plan "expr select_item list"
  | PHashJoin physical_plan physical_plan expr str str bool
  | PNestedLoopJoin physical_plan physical_plan expr
  | PMergeJoin physical_plan physical_plan expr str str
  | PAggregate physical_plan "str list" "(str \<times> agg_func) list"
  | PSort physical_plan "(str \<times> bool) list" "u64 option"
  | PLimit physical_plan u64 u64
  | PWindow physical_plan "window_compute list"
  | PSemiJoin physical_plan physical_plan str str "expr option" bool
  | PCteScan str str "str list option"
  | PSubqueryScan physical_plan str "str list option"
  | PSetOp physical_plan physical_plan set_op_kind bool
  | PDedup physical_plan

section \<open>Equi-joins\<close>

record equi_join_keys =
  ek_left :: str
  ek_right :: str

definition dotted :: "str \<Rightarrow> str \<Rightarrow> str" where
  "dotted t c = t @ [0x2E] @ c"

fun column_name :: "expr \<Rightarrow> str option" where
  "column_name (EColumn (Named (Some t) c)) = Some (dotted t c)"
| "column_name (EColumn (Named None c)) = Some c"
| "column_name _ = None"

fun extract_equi_join :: "expr \<Rightarrow> equi_join_keys option" where
  "extract_equi_join (EBinary OpEq l r) =
     (case column_name l of None \<Rightarrow> None
      | Some lc \<Rightarrow> (case column_name r of None \<Rightarrow> None
          | Some rc \<Rightarrow> Some \<lparr>ek_left = lc, ek_right = rc\<rparr>))"
| "extract_equi_join (EParen e) = extract_equi_join e"
| "extract_equi_join _ = None"

primrec table_aliases :: "logical_plan \<Rightarrow> str list" where
  "table_aliases (LScan table prefix) = (if prefix = [] then [] else [prefix])"
| "table_aliases (LCteScan name prefix) = (if prefix = [] then [] else [prefix])"
| "table_aliases (LSubqueryScan p alias) = table_aliases p @ [alias]"
| "table_aliases (LJoin l r on outer) = table_aliases l @ table_aliases r"
| "table_aliases (LSetOp l r op all) = table_aliases l @ table_aliases r"
| "table_aliases (LFilter p e) = table_aliases p"
| "table_aliases (LProject p items) = table_aliases p"
| "table_aliases (LAggregate p g aggs) = table_aliases p"
| "table_aliases (LSort p keys) = table_aliases p"
| "table_aliases (LLimit p n off) = table_aliases p"
| "table_aliases (LWindow p ws) = table_aliases p"
| "table_aliases (LDistinct p) = table_aliases p"
| "table_aliases (LSemiJoin l r lk rk corr neg) = table_aliases l"

definition column_table_alias :: "str \<Rightarrow> str option" where
  "column_table_alias col = map_option fst (rsplit_once 0x2E col)"

definition on_side :: "logical_plan \<Rightarrow> str \<Rightarrow> bool" where
  "on_side p col = (case column_table_alias col of None \<Rightarrow> False | Some a \<Rightarrow> a \<in> set (table_aliases p))"

definition orient_join_keys :: "logical_plan \<Rightarrow> logical_plan \<Rightarrow> equi_join_keys \<Rightarrow> equi_join_keys" where
  "orient_join_keys l r k =
     (if on_side l (ek_left k) \<and> on_side r (ek_right k) then k
      else if on_side l (ek_right k) \<and> on_side r (ek_left k)
      then \<lparr>ek_left = ek_right k, ek_right = ek_left k\<rparr>
      else k)"

section \<open>Lowering\<close>

primrec lower :: "logical_plan \<Rightarrow> physical_plan" where
  "lower (LScan table prefix) = PSeqScan table prefix None"
| "lower (LFilter p e) = PFilter (lower p) e"
| "lower (LProject p items) = PProject (lower p) items"
| "lower (LJoin l r on outer) =
     (case map_option (orient_join_keys l r) (extract_equi_join on) of
        None \<Rightarrow> PHashJoin (lower l) (lower r) on [] [] outer
      | Some k \<Rightarrow> PHashJoin (lower l) (lower r) on (ek_left k) (ek_right k) outer)"
| "lower (LAggregate p g aggs) = PAggregate (lower p) g aggs"
| "lower (LSort p keys) = PSort (lower p) keys None"
| "lower (LLimit p n off) = PLimit (lower p) n off"
| "lower (LWindow p ws) = PWindow (lower p) ws"
| "lower (LSemiJoin l r lk rk corr neg) = PSemiJoin (lower l) (lower r) lk rk corr neg"
| "lower (LCteScan name prefix) = PCteScan name prefix None"
| "lower (LSubqueryScan p alias) = PSubqueryScan (lower p) alias None"
| "lower (LSetOp l r op all) = PSetOp (lower l) (lower r) op all"
| "lower (LDistinct p) = PDedup (lower p)"

section \<open>Window functions of a select list\<close>

definition window_item :: "expr select_item \<Rightarrow> (window_compute \<times> expr select_item) option" where
  "window_item item = (case si_expr item of
     EFunction name args (Some spec) \<Rightarrow>
       (let func_and_arg =
              (case args of
                 [] \<Rightarrow> map_option (\<lambda>f. (f, None)) (window_parse_name name)
               | [a] \<Rightarrow> map_option (\<lambda>f. (f, Some a)) (window_parse_agg_name name)
               | _ \<Rightarrow> None);
            output_name = (case si_alias item of None \<Rightarrow> to_ascii_lowercase name | Some a \<Rightarrow> a)
        in map_option (\<lambda>(f, arg).
             (\<lparr>wcp_func = f, wcp_arg = arg, wcp_spec = spec, wcp_output_name = output_name\<rparr>,
              SelectItem (EColumn (Named None output_name)) (si_alias item))) func_and_arg)
   | _ \<Rightarrow> None)"

definition split_window_items ::
  "expr select_item list \<Rightarrow> window_compute list \<times> expr select_item list" where
  "split_window_items items =
     (map fst (List.map_filter window_item items),
      map (\<lambda>i. case window_item i of None \<Rightarrow> i | Some (_, i') \<Rightarrow> i') items)"

definition wrap_window ::
  "logical_plan \<Rightarrow> expr select_item list \<Rightarrow> logical_plan \<times> expr select_item list" where
  "wrap_window plan items = (let (windows, projected) = split_window_items items in
     (if windows = [] then plan else LWindow plan windows, projected))"

end
