(* ===== verification/Sql_Rows.thy ===== *)
theory Sql_Rows
  imports Sql_Plan Sql_Eval "HOL-Library.Sorting_Algorithms" "HOL-Library.Option_ord"
begin

text \<open>
  Operations on rows of \<^verbatim>\<open>executor.rs\<close>: the order of \<^verbatim>\<open>ORDER BY\<close>, projection, prefixes, aggregate slots,
  hash, merge and semi joins. What the code leaves to its environment, the iteration order of hash
  maps, the cuts of the thread pool and the choice of \<^verbatim>\<open>select_nth_unstable_by\<close>, is a record of
  parameters.
\<close>

section \<open>Sort order\<close>

definition ord_cmp :: "'a::linorder \<Rightarrow> 'a \<Rightarrow> comp" where
  "ord_cmp a b = (if a < b then Less else if a = b then Equiv else Greater)"

fun reverse_cmp :: "comp \<Rightarrow> comp" where
  "reverse_cmp Less = Greater"
| "reverse_cmp Equiv = Equiv"
| "reverse_cmp Greater = Less"

fun compare_sort_values :: "value_t option \<Rightarrow> value_t option \<Rightarrow> comp" where
  "compare_sort_values None None = Equiv"
| "compare_sort_values None (Some _) = Greater"
| "compare_sort_values (Some _) None = Less"
| "compare_sort_values (Some a) (Some b) =
     (if a = VNull \<and> b = VNull then Equiv else if a = VNull then Greater else if b = VNull then Less
      else ord_cmp (as_bytes a) (as_bytes b))"

fun compare_rows :: "row \<Rightarrow> row \<Rightarrow> (str \<times> bool) list \<Rightarrow> comp" where
  "compare_rows a b [] = Equiv"
| "compare_rows a b ((col, asc) # keys) =
     (let c = compare_sort_values (find_column a col) (find_column b col) in
      if c \<noteq> Equiv then (if asc then c else reverse_cmp c) else compare_rows a b keys)"

text \<open>The comparison is a linear quasi-order: a column value ranks as a byte string.\<close>

definition sort_rank :: "value_t option \<Rightarrow> bytes" where
  "sort_rank v = (case v of None \<Rightarrow> [2] | Some v \<Rightarrow> if v = VNull then [1] else 0 # as_bytes v)"

lemma compare_sort_values_rank: "compare_sort_values a b = ord_cmp (sort_rank a) (sort_rank b)"
  by (induction a b rule: compare_sort_values.induct) (auto simp: sort_rank_def ord_cmp_def)

lemma ord_cmp_simps [simp]: "ord_cmp a b = Less \<longleftrightarrow> a < b" "ord_cmp a b = Equiv \<longleftrightarrow> a = b"
  "ord_cmp a b = Greater \<longleftrightarrow> b < a" "reverse_cmp (ord_cmp a b) = ord_cmp b a"
  by (auto simp: ord_cmp_def)

lemma ord_cmp_refl [simp]: "ord_cmp a a = Equiv"
  by simp

lemma compare_rows_Cons:
  "compare_rows a b ((col, asc) # keys) =
     (let x = sort_rank (find_column a col); y = sort_rank (find_column b col) in
      if x = y then compare_rows a b keys else if asc then ord_cmp x y else ord_cmp y x)"
  by (simp add: compare_sort_values_rank Let_def)

declare compare_rows.simps(2) [simp del]

lift_definition row_cmp :: "(str \<times> bool) list \<Rightarrow> row comparator" is "\<lambda>keys a b. compare_rows a b keys"
proof
  fix keys :: "(str \<times> bool) list" and a b c :: row
  show "compare_rows a a keys = Equiv"
    by (induction keys) (auto simp: compare_rows_Cons)
  show "compare_rows a b keys = Equiv \<Longrightarrow> compare_rows b c keys = Equiv \<Longrightarrow> compare_rows a c keys = Equiv"
    by (induction keys) (auto simp: compare_rows_Cons Let_def split: if_splits)
  show "compare_rows a b keys = Less \<Longrightarrow> compare_rows b c keys = Less \<Longrightarrow> compare_rows a c keys = Less"
    by (induction keys) (auto simp: compare_rows_Cons Let_def split: if_splits)
  show "compare_rows b a keys = Greater \<longleftrightarrow> compare_rows a b keys = Less"
    by (induction keys) (auto simp: compare_rows_Cons Let_def)
qed

definition sort_rows :: "(str \<times> bool) list \<Rightarrow> row list \<Rightarrow> row list" where
  "sort_rows keys rows = Sorting_Algorithms.sort (row_cmp keys) rows"

section \<open>The environment\<close>

record exec_env =
  ee_case :: unicode
  ee_pool :: "entry list \<Rightarrow> entry cuts"
  ee_key_order :: "bytes list \<Rightarrow> bytes list"
  ee_group_order :: "(str \<times> bytes) list list \<Rightarrow> (str \<times> bytes) list list"
  ee_select :: "(str \<times> bool) list \<Rightarrow> nat \<Rightarrow> row list \<Rightarrow> row list"

text \<open>What the environment promises: orders are permutations, the pool cuts without loss, selection puts
  the k-th row in its place.\<close>

definition selects :: "(str \<times> bool) list \<Rightarrow> nat \<Rightarrow> row list \<Rightarrow> row list \<Rightarrow> bool" where
  "selects keys k rows out = (mset out = mset rows \<and>
     (\<forall>i < k. compare_rows (out ! i) (out ! k) keys \<noteq> Greater) \<and>
     (\<forall>i < length rows. k < i \<longrightarrow> compare_rows (out ! k) (out ! i) keys \<noteq> Greater))"

definition env_ok :: "exec_env \<Rightarrow> bool" where
  "env_ok env = ((\<forall>es. pieces (ee_pool env es) = es) \<and>
     (\<forall>ks. mset (ee_key_order env ks) = mset ks) \<and> (\<forall>ks. mset (ee_group_order env ks) = mset ks) \<and>
     (\<forall>keys k rows. k < length rows \<longrightarrow> selects keys k rows (ee_select env keys k rows)))"

text \<open>An environment: insertion order, one chunk, selection by sorting.\<close>

definition plain_env :: exec_env where
  "plain_env = \<lparr>ee_case = ascii_case, ee_pool = Chunk, ee_key_order = (\<lambda>ks. ks), ee_group_order = (\<lambda>ks. ks),
     ee_select = (\<lambda>keys k rows. sort_rows keys rows)\<rparr>"

lemma sorted_row_cmp: "Sorting_Algorithms.sorted (row_cmp keys) rs \<Longrightarrow> sorted_wrt (\<lambda>a b. compare_rows a b keys \<noteq> Greater) rs"
proof (induction rs)
  case (Cons r rs)
  have "compare_rows r x keys \<noteq> Greater" if "x \<in> set rs" for x
    using Sorting_Algorithms.sorted_Cons_imp_not_less [OF Cons.prems that] by (simp add: row_cmp.rep_eq)
  then show ?case using Cons.IH [OF Sorting_Algorithms.sorted_Cons_imp_sorted [OF Cons.prems]] by simp
qed simp

lemma sort_rows_sorted: "sorted_wrt (\<lambda>a b. compare_rows a b keys \<noteq> Greater) (sort_rows keys rows)"
  by (simp add: sort_rows_def sorted_row_cmp)

lemma mset_sort_rows [simp]: "mset (sort_rows keys rows) = mset rows"
  by (simp add: sort_rows_def)

lemma plain_env_ok: "env_ok plain_env"
proof -
  have "selects keys k rows (sort_rows keys rows)" if "k < length rows" for keys k rows
  proof -
    have "length (sort_rows keys rows) = length rows" by (metis mset_eq_length mset_sort_rows)
    then show ?thesis using that sort_rows_sorted [of keys rows] by (auto simp: selects_def sorted_wrt_iff_nth_less)
  qed
  then show ?thesis by (simp add: env_ok_def plain_env_def)
qed

text \<open>A hash map as the pairs in order of insertion, updated in place, iterated in the given order.\<close>

fun hm_update :: "'k \<Rightarrow> ('v option \<Rightarrow> 'v) \<Rightarrow> ('k \<times> 'v) list \<Rightarrow> ('k \<times> 'v) list" where
  "hm_update k f [] = [(k, f None)]"
| "hm_update k f ((k', v) # m) = (if k' = k then (k, f (Some v)) # m else (k', v) # hm_update k f m)"

definition hm_iter :: "('k list \<Rightarrow> 'k list) \<Rightarrow> ('k \<times> 'v) list \<Rightarrow> ('k \<times> 'v) list" where
  "hm_iter order m = List.map_filter (\<lambda>k. map_option (Pair k) (map_of m k)) (order (map fst m))"

lemma hm_update_keys: "fst ` set (hm_update k f m) = insert k (fst ` set m)"
  by (induction k f m rule: hm_update.induct) (simp_all add: insert_commute)

lemma hm_update_distinct: "distinct (map fst m) \<Longrightarrow> distinct (map fst (hm_update k f m))"
proof (induction m)
  case (Cons e m)
  then show ?case using hm_update_keys [of k f m] by (cases e) auto
qed simp

lemma hm_iter_perm:
  assumes "distinct (map fst m)" "\<And>ks. mset (order ks) = mset ks"
  shows "mset (hm_iter order m) = mset m"
proof -
  have "mset (List.map_filter f xs) = mset (List.map_filter f ys)" if "mset xs = mset ys" for f and xs ys :: "'a list"
    using that unfolding List.map_filter_def by (metis mset_filter mset_map)
  then have "mset (hm_iter order m) = mset (List.map_filter (\<lambda>k. map_option (Pair k) (map_of m k)) (map fst m))"
    unfolding hm_iter_def using assms(2) by blast
  also have "List.map_filter (\<lambda>k. map_option (Pair k) (map_of m k)) (map fst m) = m"
  proof -
    have "List.map_filter (\<lambda>k. map_option (Pair k) (map_of m k)) (map fst m') = m'" if "set m' \<subseteq> set m" for m'
      using that assms(1) by (induction m') auto
    then show ?thesis by simp
  qed
  finally show ?thesis .
qed

lemma mset_concat_perm: "mset xs = mset ys \<Longrightarrow> mset (concat (map f xs)) = mset (concat (map f ys))"
proof -
  have "mset (concat (map f zs)) = \<Sum>\<^sub># (image_mset (\<lambda>x. mset (f x)) (mset zs))" for zs by (induction zs) auto
  then show "mset xs = mset ys \<Longrightarrow> ?thesis" by simp
qed

section \<open>Scans and projection\<close>

definition merge_rows :: "row \<Rightarrow> row \<Rightarrow> row" where
  "merge_rows l r = l @ r"

definition prefix_rows :: "row list \<Rightarrow> str \<Rightarrow> row list" where
  "prefix_rows rows prefix = (if prefix = [] then rows else map (map (\<lambda>(n, v). (dotted prefix n, v))) rows)"

definition prune_cte_rows :: "row list \<Rightarrow> str list option \<Rightarrow> row list" where
  "prune_cte_rows rows columns = (case columns of None \<Rightarrow> rows
     | Some cols \<Rightarrow> map (\<lambda>r. List.map_filter (\<lambda>c. find (\<lambda>(n, _). column_name_matches n c) r) cols) rows)"

definition item_name :: "expr select_item \<Rightarrow> str" where
  "item_name item = (case si_alias item of Some a \<Rightarrow> a
     | None \<Rightarrow> (case si_expr item of EColumn (Named _ c) \<Rightarrow> c | _ \<Rightarrow> ascii ''col''))"

definition record_from_cells :: "expr select_item list \<Rightarrow> value_t list \<Rightarrow> row" where
  "record_from_cells items cells = map (\<lambda>(item, v). (item_name item, v)) (zip items cells)"

definition project_row :: "unicode \<Rightarrow> expr select_item list \<Rightarrow> row \<Rightarrow> exec_fault + row" where
  "project_row uc items r =
     try_bind (collect_results (map (\<lambda>item. eval_expr uc (si_expr item) r) items))
       (\<lambda>cells. Inr (record_from_cells items cells))"

definition top_k_rows :: "exec_env \<Rightarrow> (str \<times> bool) list \<Rightarrow> u64 option \<Rightarrow> row list \<Rightarrow> row list" where
  "top_k_rows env keys top_k rows = (case top_k of None \<Rightarrow> rows
     | Some k \<Rightarrow> if unat k > 0 \<and> length rows > unat k
         then take (unat k) (ee_select env keys (unat k - 1) rows) else rows)"

end
