(* ===== verification/Sql_Joins.thy ===== *)
theory Sql_Joins
  imports Sql_Rows
begin

text \<open>
  The join algorithms of \<^verbatim>\<open>build_state\<close> and the semi joins of \<^verbatim>\<open>executor.rs\<close>: hash join with
  \<^verbatim>\<open>LEFT OUTER\<close> padding, sort-merge join, hashed semi and anti joins. The hash join is the nested-loop
  specification; the merge join is it only when the left keys are distinct.
\<close>

section \<open>Hash join\<close>

definition right_columns :: "row list \<Rightarrow> str list" where
  "right_columns rows =
     fold (fold (\<lambda>(n, _) cols. if n \<in> set cols then cols else cols @ [n])) rows []"

definition bucket_rows :: "str \<Rightarrow> row list \<Rightarrow> bytes \<rightharpoonup> row list" where
  "bucket_rows kcol rows = fold (\<lambda>r m. case join_key_value r kcol of None \<Rightarrow> m
     | Some k \<Rightarrow> m(k \<mapsto> (case m k of None \<Rightarrow> [] | Some rs \<Rightarrow> rs) @ [r])) rows Map.empty"

definition pad_row :: "str list \<Rightarrow> row \<Rightarrow> row" where
  "pad_row cols r = foldl (\<lambda>r c. if c \<in> fst ` set r then r else r @ [(c, VNull)]) r cols"

definition hash_join :: "str \<Rightarrow> str \<Rightarrow> bool \<Rightarrow> row list \<Rightarrow> row list \<Rightarrow> row list" where
  "hash_join left_key right_key left_outer left right =
     (let right_cols = (if left_outer then right_columns right else []);
          buckets = bucket_rows right_key right
      in concat (map (\<lambda>l.
           case Option.bind (join_key_value l left_key) buckets of
             Some (m # ms) \<Rightarrow> map (merge_rows l) (m # ms)
           | _ \<Rightarrow> if left_outer then [pad_row right_cols l] else []) left))"

section \<open>Merge join\<close>

fun merge_loop ::
  "unicode \<Rightarrow> expr \<Rightarrow> str \<Rightarrow> str \<Rightarrow> row list \<Rightarrow> row list \<Rightarrow> exec_fault + row list" where
  "merge_loop uc on lk rk (l # ls) (r # rs) =
     (case ord_cmp (join_key_value l lk) (join_key_value r rk) of
        Less \<Rightarrow> merge_loop uc on lk rk ls (r # rs)
      | Greater \<Rightarrow> merge_loop uc on lk rk (l # ls) rs
      | Equiv \<Rightarrow>
          try_bind (eval_predicate uc on (merge_rows l r)) (\<lambda>b.
          try_bind (merge_loop uc on lk rk (l # ls) rs) (\<lambda>out.
          Inr (if b then merge_rows l r # out else out))))"
| "merge_loop uc on lk rk _ _ = Inr []"

definition merge_join ::
  "unicode \<Rightarrow> expr \<Rightarrow> str \<Rightarrow> str \<Rightarrow> row list \<Rightarrow> row list \<Rightarrow> exec_fault + row list" where
  "merge_join uc on lk rk left right =
     merge_loop uc on lk rk (sort_key (\<lambda>r. join_key_value r lk) left) (sort_key (\<lambda>r. join_key_value r rk) right)"

section \<open>Semi joins\<close>

definition semi_keep :: "bool \<Rightarrow> bool \<Rightarrow> bool" where
  "semi_keep negated matched = (if negated then \<not> matched else matched)"

definition semi_join_rows_hash :: "row list \<Rightarrow> row list \<Rightarrow> str \<Rightarrow> str \<Rightarrow> bool \<Rightarrow> exec_fault + row list" where
  "semi_join_rows_hash left right left_key right_key negated =
     (let right_keys = set (List.map_filter (\<lambda>r. join_key_value r right_key) right)
      in Inr (filter (\<lambda>l. case join_key_value l left_key of None \<Rightarrow> False
           | Some k \<Rightarrow> semi_keep negated (k \<in> right_keys)) left))"

text \<open>Whether some candidate satisfies the correlation; the search stops at the first.\<close>

fun any_match :: "unicode \<Rightarrow> expr \<Rightarrow> row \<Rightarrow> row list \<Rightarrow> exec_fault + bool" where
  "any_match uc e l [] = Inr False"
| "any_match uc e l (r # rs) =
     try_bind (eval_predicate uc e (merge_rows l r)) (\<lambda>b. if b then Inr True else any_match uc e l rs)"

fun semi_loop ::
  "unicode \<Rightarrow> expr \<Rightarrow> str \<Rightarrow> bool \<Rightarrow> (bytes \<rightharpoonup> row list) \<Rightarrow> row list \<Rightarrow> exec_fault + row list" where
  "semi_loop uc e lk negated buckets [] = Inr []"
| "semi_loop uc e lk negated buckets (l # ls) =
     (case join_key_value l lk of None \<Rightarrow> semi_loop uc e lk negated buckets ls
      | Some k \<Rightarrow>
          try_bind (case buckets k of None \<Rightarrow> Inr False | Some cs \<Rightarrow> any_match uc e l cs) (\<lambda>matched.
          try_bind (semi_loop uc e lk negated buckets ls) (\<lambda>out.
          Inr (if semi_keep negated matched then l # out else out))))"

definition semi_join_rows_hash_correlated ::
  "unicode \<Rightarrow> row list \<Rightarrow> row list \<Rightarrow> str \<Rightarrow> str \<Rightarrow> expr \<Rightarrow> bool \<Rightarrow> exec_fault + row list" where
  "semi_join_rows_hash_correlated uc left right left_key right_key corr_on negated =
     semi_loop uc corr_on left_key negated (bucket_rows right_key right) left"

definition semi_join_rows ::
  "unicode \<Rightarrow> row list \<Rightarrow> row list \<Rightarrow> str \<Rightarrow> str \<Rightarrow> expr option \<Rightarrow> bool \<Rightarrow> exec_fault + row list" where
  "semi_join_rows uc left right left_key right_key corr_on negated =
     (case corr_on of
        Some e \<Rightarrow> semi_join_rows_hash_correlated uc left right left_key right_key e negated
      | None \<Rightarrow> semi_join_rows_hash left right left_key right_key negated)"

section \<open>What the joins compute\<close>

text \<open>Two rows have the same join key.\<close>

definition key_match :: "str \<Rightarrow> str \<Rightarrow> row \<Rightarrow> row \<Rightarrow> bool" where
  "key_match lk rk l r = (join_key_value l lk \<noteq> None \<and> join_key_value l lk = join_key_value r rk)"

definition loop_join :: "str \<Rightarrow> str \<Rightarrow> bool \<Rightarrow> row list \<Rightarrow> row list \<Rightarrow> row list" where
  "loop_join lk rk outer left right = concat (map (\<lambda>l.
     let ms = filter (key_match lk rk l) right in
     if ms = [] \<and> outer then [pad_row (right_columns right) l] else map (merge_rows l) ms) left)"

lemma bucket_rows_get:
  "bucket_rows kcol rows k =
     (let ms = filter (\<lambda>r. join_key_value r kcol = Some k) rows in if ms = [] then None else Some ms)"
proof -
  let ?add = "\<lambda>r m. case join_key_value r kcol of None \<Rightarrow> m
     | Some k \<Rightarrow> m(k \<mapsto> (case m k of None \<Rightarrow> [] | Some rs \<Rightarrow> rs) @ [r])"
  have "fold ?add rows m k = (let ms = filter (\<lambda>r. join_key_value r kcol = Some k) rows in
      if ms = [] then m k else Some ((case m k of None \<Rightarrow> [] | Some rs \<Rightarrow> rs) @ ms))" for m
    by (induction rows arbitrary: m) (auto simp: Let_def split: option.split)
  then show ?thesis by (simp add: bucket_rows_def Let_def)
qed

lemma hash_join_loop: "hash_join lk rk outer left right = loop_join lk rk outer left right"
proof -
  have "(case Option.bind (join_key_value l lk) (bucket_rows rk right) of
      Some (m # ms) \<Rightarrow> map (merge_rows l) (m # ms)
    | _ \<Rightarrow> if outer then [pad_row (if outer then right_columns right else []) l] else []) =
    (let ms = filter (key_match lk rk l) right in
     if ms = [] \<and> outer then [pad_row (right_columns right) l] else map (merge_rows l) ms)" for l
  proof (cases "join_key_value l lk")
    case None
    then show ?thesis by (simp add: key_match_def)
  next
    case (Some k)
    then have "filter (key_match lk rk l) right = filter (\<lambda>r. join_key_value r rk = Some k) right"
      by (auto simp: key_match_def intro!: filter_cong)
    then show ?thesis using Some by (simp add: bucket_rows_get Let_def split: list.split)
  qed
  then show ?thesis unfolding hash_join_def loop_join_def Let_def by (simp cong: map_cong)
qed

section \<open>Merge join against the nested loop\<close>











text \<open>With two left rows of one key, the second finds the right rows already passed.\<close>

definition dup_left :: "row list" where
  "dup_left = [[(ascii ''l.k'', VBytes [7]), (ascii ''n'', VBytes [1])], [(ascii ''l.k'', VBytes [7]), (ascii ''n'', VBytes [2])]]"

definition one_right :: "row list" where "one_right = [[(ascii ''r.k'', VBytes [7])]]"

theorem merge_join_loses_duplicates:
  "merge_join uc (ELiteral (LBoolean True)) (ascii ''l.k'') (ascii ''r.k'') dup_left one_right =
     Inr [merge_rows (hd dup_left) (hd one_right)] \<and>
   length (hash_join (ascii ''l.k'') (ascii ''r.k'') False dup_left one_right) = 2"
  by (simp add: dup_left_def one_right_def merge_join_def hash_join_loop loop_join_def key_match_def
      join_key_value_def find_column_def column_name_matches_def as_bytes_def eval_predicate_def literal_to_value_def
      ord_cmp_def Let_def)

end
