(* ===== verification/Sql_Aggregate.thy ===== *)
theory Sql_Aggregate
  imports Sql_Rows
begin

text \<open>
  Aggregation: the slots and the hash aggregation of \<^verbatim>\<open>executor.rs\<close>, and the streaming pass of
  \<^verbatim>\<open>stream_agg.rs\<close> that replaces it for a single table.
\<close>

section \<open>Aggregate slots\<close>

record agg_slot =
  sl_count_star :: u64
  sl_count_col :: u64
  sl_sum :: f64
  sl_sum_count :: u64
  sl_min :: "f64 option"
  sl_max :: "f64 option"

definition slot_default :: agg_slot where
  "slot_default = \<lparr>sl_count_star = 0, sl_count_col = 0, sl_sum = 0, sl_sum_count = 0, sl_min = None, sl_max = None\<rparr>"

definition numeric_value :: "value_t \<Rightarrow> f64 option" where
  "numeric_value v = (case v of VInteger n \<Rightarrow> Some (f64_of_i64 n) | VFloat f \<Rightarrow> Some f
     | VBytes b \<Rightarrow> parse_bytes_as_f64 b | _ \<Rightarrow> None)"

definition slot_update :: "agg_func \<Rightarrow> row \<Rightarrow> agg_slot \<Rightarrow> agg_slot" where
  "slot_update func r s = (case func of
     CountStar \<Rightarrow> s\<lparr>sl_count_star := sl_count_star s + 1\<rparr>
   | CountCol col \<Rightarrow> if row_value r col \<noteq> VNull then s\<lparr>sl_count_col := sl_count_col s + 1\<rparr> else s
   | AggSum col \<Rightarrow> (case numeric_value (row_value r col) of None \<Rightarrow> s
       | Some n \<Rightarrow> s\<lparr>sl_sum := f64_add (sl_sum s) n, sl_sum_count := sl_sum_count s + 1\<rparr>)
   | AggAvg col \<Rightarrow> (case numeric_value (row_value r col) of None \<Rightarrow> s
       | Some n \<Rightarrow> s\<lparr>sl_sum := f64_add (sl_sum s) n, sl_sum_count := sl_sum_count s + 1\<rparr>)
   | AggMin col \<Rightarrow> (case numeric_value (row_value r col) of None \<Rightarrow> s
       | Some n \<Rightarrow> s\<lparr>sl_min := Some (case sl_min s of None \<Rightarrow> n | Some m \<Rightarrow> f64_min m n)\<rparr>)
   | AggMax col \<Rightarrow> (case numeric_value (row_value r col) of None \<Rightarrow> s
       | Some n \<Rightarrow> s\<lparr>sl_max := Some (case sl_max s of None \<Rightarrow> n | Some m \<Rightarrow> f64_max m n)\<rparr>))"

text \<open>\<^verbatim>\<open>i64::try_from\<close> of a counter, with \<^verbatim>\<open>i64::MAX\<close> when it does not fit.\<close>

definition i64_of_count :: "u64 \<Rightarrow> i64" where
  "i64_of_count n = (if unat n < 2 ^ 63 then n else 0x7FFFFFFFFFFFFFFF)"

definition slot_finish :: "agg_func \<Rightarrow> agg_slot \<Rightarrow> value_t" where
  "slot_finish func s = (case func of
     CountStar \<Rightarrow> VInteger (i64_of_count (sl_count_star s))
   | CountCol _ \<Rightarrow> VInteger (i64_of_count (sl_count_col s))
   | AggSum _ \<Rightarrow> VFloat (sl_sum s)
   | AggAvg _ \<Rightarrow> if sl_sum_count s = 0 then VNull else VFloat (f64_div (sl_sum s) (f64_of_u64 (sl_sum_count s)))
   | AggMin _ \<Rightarrow> (case sl_min s of None \<Rightarrow> VNull | Some m \<Rightarrow> VFloat m)
   | AggMax _ \<Rightarrow> (case sl_max s of None \<Rightarrow> VNull | Some m \<Rightarrow> VFloat m))"

section \<open>Hash aggregation\<close>

type_synonym group_key = "(str \<times> bytes) list"

definition group_key_of :: "str list \<Rightarrow> row \<Rightarrow> group_key" where
  "group_key_of group_by r = map (\<lambda>col. (col, as_bytes (row_value r col))) group_by"

definition slots_update :: "(str \<times> agg_func) list \<Rightarrow> row \<Rightarrow> (str \<times> agg_slot) list \<Rightarrow> (str \<times> agg_slot) list" where
  "slots_update aggs r = fold (\<lambda>(name, func).
     hm_update name (\<lambda>s. slot_update func r (case s of None \<Rightarrow> slot_default | Some s \<Rightarrow> s))) aggs"

definition group_rows ::
  "str list \<Rightarrow> (str \<times> agg_func) list \<Rightarrow> row list \<Rightarrow> (group_key \<times> (str \<times> agg_slot) list) list" where
  "group_rows group_by aggs rows = fold (\<lambda>r.
     hm_update (group_key_of group_by r) (\<lambda>s. slots_update aggs r (case s of None \<Rightarrow> [] | Some s \<Rightarrow> s))) rows []"

definition finish_group ::
  "exec_env \<Rightarrow> (str \<times> agg_func) list \<Rightarrow> group_key \<times> (str \<times> agg_slot) list \<Rightarrow> row" where
  "finish_group env aggs = (\<lambda>(gkey, slots).
     map (\<lambda>(n, b). (n, VBytes b)) gkey @
     List.map_filter (\<lambda>(name, slot). map_option (\<lambda>(_, func). (name, slot_finish func slot)) (find (\<lambda>(n, _). n = name) aggs))
       (hm_iter (ee_key_order env) slots))"

definition aggregate_rows ::
  "exec_env \<Rightarrow> str list \<Rightarrow> (str \<times> agg_func) list \<Rightarrow> row list \<Rightarrow> (group_key \<times> row) list" where
  "aggregate_rows env group_by aggs rows =
     (let groups = group_rows group_by aggs rows;
          groups = (if groups = [] \<and> group_by = []
            then [([], fold (\<lambda>(name, _). hm_update name (\<lambda>_. slot_default)) aggs [])] else groups)
      in map (\<lambda>g. ([], finish_group env aggs g)) (hm_iter (ee_group_order env) groups))"

section \<open>Streaming aggregation\<close>

fun expr_is_streamable :: "expr \<Rightarrow> bool" where
  "expr_is_streamable (ELiteral _) = True"
| "expr_is_streamable (EColumn (Named _ _)) = True"
| "expr_is_streamable (EColumn _) = False"
| "expr_is_streamable (EBinary _ l r) = (expr_is_streamable l \<and> expr_is_streamable r)"
| "expr_is_streamable (EUnary _ e) = expr_is_streamable e"
| "expr_is_streamable (EIsNull e _) = expr_is_streamable e"
| "expr_is_streamable (ECast e _) = expr_is_streamable e"
| "expr_is_streamable (EParen e) = expr_is_streamable e"
| "expr_is_streamable (EIn e vs _) = (expr_is_streamable e \<and> (\<forall>v \<in> set vs. expr_is_streamable v))"
| "expr_is_streamable (EBetween e lo hi _) = (expr_is_streamable e \<and> expr_is_streamable lo \<and> expr_is_streamable hi)"
| "expr_is_streamable (EFunction _ args over) = (over = None \<and> (\<forall>a \<in> set args. expr_is_streamable a))"
| "expr_is_streamable _ = False"

fun predicate_columns :: "expr \<Rightarrow> str list" where
  "predicate_columns (EColumn (Named t c)) = [case t of None \<Rightarrow> c | Some t \<Rightarrow> dotted t c]"
| "predicate_columns (EBinary _ l r) = predicate_columns l @ predicate_columns r"
| "predicate_columns (EUnary _ e) = predicate_columns e"
| "predicate_columns (EIsNull e _) = predicate_columns e"
| "predicate_columns (ECast e _) = predicate_columns e"
| "predicate_columns (EParen e) = predicate_columns e"
| "predicate_columns (EIn e vs _) = predicate_columns e @ concat (map predicate_columns vs)"
| "predicate_columns (EBetween e lo hi _) = predicate_columns e @ predicate_columns lo @ predicate_columns hi"
| "predicate_columns (EFunction _ args _) = concat (map predicate_columns args)"
| "predicate_columns _ = []"

definition add_needed :: "str \<Rightarrow> str list \<Rightarrow> str list" where
  "add_needed name needed = (if bare_name name \<in> set needed then needed else needed @ [bare_name name])"

definition agg_column :: "agg_func \<Rightarrow> str option" where
  "agg_column f = (case f of CountStar \<Rightarrow> None | CountCol c \<Rightarrow> Some c | AggSum c \<Rightarrow> Some c | AggAvg c \<Rightarrow> Some c
     | AggMin c \<Rightarrow> Some c | AggMax c \<Rightarrow> Some c)"

definition needed_columns :: "str list \<Rightarrow> (str \<times> agg_func) list \<Rightarrow> expr option \<Rightarrow> str list" where
  "needed_columns group_by aggs predicate =
     fold add_needed (group_by @ List.map_filter (agg_column \<circ> snd) aggs @
       (case predicate of None \<Rightarrow> [] | Some p \<Rightarrow> predicate_columns p)) []"

type_synonym stream_groups = "(group_key \<times> agg_slot list) list"

definition fold_row :: "str list \<Rightarrow> (str \<times> agg_func) list \<Rightarrow> row \<Rightarrow> stream_groups \<Rightarrow> stream_groups" where
  "fold_row group_by aggs r = hm_update (group_key_of group_by r)
     (\<lambda>s. map (\<lambda>((_, func), slot). slot_update func r slot)
        (zip aggs (case s of None \<Rightarrow> replicate (length aggs) slot_default | Some s \<Rightarrow> s)))"

definition upsert :: "row \<Rightarrow> str \<Rightarrow> bytes \<Rightarrow> row" where
  "upsert r name b = set_row_column r name (VBytes b)"

definition stream_flush ::
  "unicode \<Rightarrow> expr option \<Rightarrow> str list \<Rightarrow> (str \<times> agg_func) list \<Rightarrow> row \<Rightarrow> stream_groups \<Rightarrow> exec_fault + stream_groups" where
  "stream_flush uc predicate group_by aggs r groups =
     try_bind (case predicate of None \<Rightarrow> Inr True | Some p \<Rightarrow> eval_predicate uc p r)
       (\<lambda>keep. Inr (if keep then fold_row group_by aggs r groups else groups))"

definition stream_cell :: "str list \<Rightarrow> bytes option \<Rightarrow> bytes \<Rightarrow> row \<Rightarrow> row" where
  "stream_cell needed cell_col val r = (case cell_col of
     None \<Rightarrow> if is_packed_row val
       then foldl (\<lambda>r (name, b). if name \<in> set needed then upsert r name b else r) r (iter_collect (iter_row val))
       else if ascii ''value'' \<in> set needed then upsert r (ascii ''value'') val else r
   | Some col \<Rightarrow> (case from_utf8 col of None \<Rightarrow> r
       | Some name \<Rightarrow> if name \<in> set needed then upsert r name val else r))"

definition split_entry_key :: "bytes \<Rightarrow> bytes \<times> bytes option" where
  "split_entry_key rest = (case split_zero rest of None \<Rightarrow> (rest, None) | Some (i, c) \<Rightarrow> (i, Some c))"

fun stream_loop ::
  "unicode \<Rightarrow> expr option \<Rightarrow> str list \<Rightarrow> (str \<times> agg_func) list \<Rightarrow> str list \<Rightarrow> bytes \<Rightarrow>
     (bytes \<times> bytes) list \<Rightarrow> stream_groups \<Rightarrow> bytes option \<Rightarrow> row \<Rightarrow> exec_fault + stream_groups" where
  "stream_loop uc p g aggs needed prefix [] groups cur r =
     (if cur \<noteq> None then stream_flush uc p g aggs r groups else Inr groups)"
| "stream_loop uc p g aggs needed prefix ((k, val) # es) groups cur r =
     (if \<not> starts_with k prefix then stream_loop uc p g aggs needed prefix es groups cur r
      else let (row_id, cell_col) = split_entry_key (drop (length prefix) k) in
        if cur = Some row_id
        then stream_loop uc p g aggs needed prefix es groups cur (stream_cell needed cell_col val r)
        else try_bind (if cur \<noteq> None then stream_flush uc p g aggs r groups else Inr groups) (\<lambda>groups.
          stream_loop uc p g aggs needed prefix es groups (Some row_id) (stream_cell needed cell_col val [])))"

fun count_ids :: "bytes \<Rightarrow> bytes list \<Rightarrow> bytes option \<Rightarrow> u64 \<Rightarrow> u64" where
  "count_ids prefix [] last_id rows = rows"
| "count_ids prefix (k # ks) last_id rows =
     (if \<not> starts_with k prefix then count_ids prefix ks last_id rows
      else let row_id = fst (split_entry_key (drop (length prefix) k)) in
        if last_id \<noteq> Some row_id then count_ids prefix ks (Some row_id) (rows + 1)
        else count_ids prefix ks last_id rows)"

definition stream_run ::
  "exec_env \<Rightarrow> read_store \<Rightarrow> str \<Rightarrow> expr option \<Rightarrow> str list \<Rightarrow> (str \<times> agg_func) list \<Rightarrow> str list \<Rightarrow>
     exec_fault + (group_key \<times> row) list" where
  "stream_run env st table predicate group_by aggs needed =
     (let prefix = table @ [0] in
      if needed = [] \<and> predicate = None \<and> group_by = [] then
        (let slot = slot_default\<lparr>sl_count_star := count_ids prefix (rs_range_keys st prefix (prefix_end prefix)) None 0\<rparr>
         in Inr [([], map (\<lambda>(name, func). (name, slot_finish func slot)) aggs)])
      else
        try_bind (stream_loop (ee_case env) predicate group_by aggs needed prefix (rs_range st prefix (prefix_end prefix))
            [] None []) (\<lambda>groups.
        let groups = (if groups = [] \<and> group_by = [] then [([], replicate (length aggs) slot_default)] else groups)
        in Inr (map (\<lambda>(gkey, slots). (gkey, map (\<lambda>(n, b). (n, VBytes b)) gkey @
             map (\<lambda>((name, func), slot). (name, slot_finish func slot)) (zip aggs slots)))
           (hm_iter (ee_group_order env) groups))))"

text \<open>The plans the pass applies to: a scan of a named table, perhaps under a streamable filter.\<close>

fun streamable_scan :: "physical_plan \<Rightarrow> (str \<times> expr option) option" where
  "streamable_scan (PSeqScan table _ _) = (if table \<noteq> [] then Some (table, None) else None)"
| "streamable_scan (PFilter (PSeqScan table _ _) predicate) =
     (if table \<noteq> [] \<and> expr_is_streamable predicate then Some (table, Some predicate) else None)"
| "streamable_scan _ = None"

definition try_streaming_aggregate ::
  "exec_env \<Rightarrow> read_store \<Rightarrow> physical_plan \<Rightarrow> str list \<Rightarrow> (str \<times> agg_func) list \<Rightarrow>
     (exec_fault + (group_key \<times> row) list) option" where
  "try_streaming_aggregate env st input group_by aggs =
     map_option (\<lambda>(table, predicate).
       stream_run env st table predicate group_by aggs (needed_columns group_by aggs predicate)) (streamable_scan input)"

section \<open>Counting rows in one pass\<close>

text \<open>A store that reads a sorted map.\<close>

definition reads_map :: "read_store \<Rightarrow> (bytes \<times> bytes) list \<Rightarrow> bool" where
  "reads_map st m = (bt_sorted m \<and>
     (\<forall>lo hi. lo \<le> hi \<longrightarrow> rs_range st lo hi = filter (\<lambda>(k, _). lo \<le> k \<and> k < hi) m) \<and>
     (\<forall>lo hi. lo \<le> hi \<longrightarrow> rs_range_keys st lo hi = map fst (filter (\<lambda>(k, _). lo \<le> k \<and> k < hi) m)))"

lemma takeWhile_nonzero_mono: "a \<le> b \<Longrightarrow> takeWhile (\<lambda>c. c \<noteq> 0) a \<le> takeWhile (\<lambda>c. c \<noteq> 0) (b :: bytes)"
proof (induction a arbitrary: b)
  case (Cons x a)
  then obtain y b' where b: "b = y # b'" by (cases b) auto
  show ?case
  proof (cases "x = 0")
    case False
    with Cons.prems b have "y \<noteq> 0" by (auto simp: word_le_nat_alt word_less_nat_alt unat_eq_0)
    with Cons b False show ?thesis by auto
  qed (simp add: b)
qed simp

lemma split_entry_key_id: "fst (split_entry_key rest) = takeWhile (\<lambda>c. c \<noteq> 0) rest"
proof (cases "0 \<in> set rest")
  case False
  then have t: "takeWhile (\<lambda>c. c \<noteq> 0) rest = rest" by (auto simp: takeWhile_eq_all_conv)
  show ?thesis unfolding t using False by (simp add: split_entry_key_def split_zero_def)
qed (simp add: split_entry_key_def split_zero_def)

text \<open>The row id in a key of the table.\<close>

definition key_row_id :: "bytes \<Rightarrow> bytes \<Rightarrow> bytes" where
  "key_row_id prefix k = takeWhile (\<lambda>c. c \<noteq> 0) (drop (length prefix) k)"

lemma key_row_id_mono:
  assumes "starts_with k p" "starts_with k' p" "k < k'"
  shows "key_row_id p k \<le> key_row_id p k'"
proof -
  obtain a b where k: "k = p @ a" "k' = p @ b" using assms(1, 2) by (auto simp: starts_with_iff)
  have "p @ a < p @ b" using assms(3) k by simp
  then have "a \<le> b" by (induction p) auto
  then show ?thesis by (simp add: k key_row_id_def takeWhile_nonzero_mono)
qed

lemma count_ids_card:
  "\<forall>k \<in> set ks. starts_with k prefix \<Longrightarrow> linorder_class.sorted (map (key_row_id prefix) ks) \<Longrightarrow>
   (\<forall>i. last_id = Some i \<longrightarrow> (\<forall>k \<in> set ks. i \<le> key_row_id prefix k)) \<Longrightarrow>
   count_ids prefix ks last_id n = n + of_nat (card (key_row_id prefix ` set ks - set_option last_id))"
proof (induction prefix ks last_id n rule: count_ids.induct)
  case (2 prefix k ks last_id n)
  let ?j = "key_row_id prefix k" and ?I = "key_row_id prefix ` set ks"
  have j: "fst (split_entry_key (drop (length prefix) k)) = ?j" by (simp add: split_entry_key_id key_row_id_def)
  have k: "starts_with k prefix" using "2.prems"(1) by simp
  show ?case
  proof (cases "last_id = Some ?j")
    case True
    have "insert ?j ?I - {?j} = ?I - {?j}" by auto
    then show ?thesis using True k "2.IH"(3) [OF _ j [symmetric]] "2.prems" by (simp add: j)
  next
    case False
    have "last_id \<notin> Some ` insert ?j ?I"
    proof
      assume "last_id \<in> Some ` insert ?j ?I"
      then obtain i where i: "last_id = Some i" "i \<in> insert ?j ?I" by auto
      then have "i \<le> ?j" "?j \<le> i" using "2.prems"(2, 3) by auto
      then show False using False i(1) by simp
    qed
    then have "insert ?j ?I - set_option last_id = insert ?j (?I - {?j})" by (cases last_id) auto
    then have "card (insert ?j ?I - set_option last_id) = Suc (card (?I - {?j}))" by (simp del: insert_Diff_single)
    then show ?thesis using False k "2.IH"(2) [OF _ j [symmetric]] "2.prems" by (simp add: j)
  qed
qed simp

lemma length_load_rows:
  assumes "\<And>es. pieces (pool es) = es"
  shows "length (load_table_rows pool st table columns) = card (fst ` set (collect_entries st table columns))"
proof -
  let ?es = "collect_entries st table columns"
  let ?g = "fold (ingest columns) ?es []"
  have "load_table_rows pool st table columns = finish_groups ?g"
    by (simp add: load_table_rows_def group_entries_def group_entries_parallel_def par_group_eq assms Let_def)
  moreover have "length ?g = card (fst ` set ?g)"
    using bt_sorted_distinct [OF fold_ingest_sorted [OF bt_sorted_Nil]] by (metis distinct_card length_map list.set_map)
  moreover have "k \<in> fst ` set ?g \<longleftrightarrow> k \<in> fst ` set ?es" for k
    using fold_ingest_get [of columns ?es k] bt_get_None [of ?g k] by (cases "k \<in> fst ` set ?es") simp_all
  then have "fst ` set ?g = fst ` set ?es" by (rule Set.set_eqI)
  ultimately show ?thesis by (simp add: finish_groups_def)
qed

lemma entry_row_ids:
  assumes "\<forall>kv \<in> set kvs. starts_with (fst kv) prefix"
  shows "fst ` set (List.map_filter (entry_of None prefix) kvs) = key_row_id prefix ` fst ` set kvs"
proof -
  have entry: "\<exists>kind. entry_of None prefix kv = Some (key_row_id prefix (fst kv), kind)"
    if "starts_with (fst kv) prefix" for kv
    using that split_entry_key_id [of "drop (length prefix) (fst kv)"]
    by (cases kv) (auto simp: entry_of_def wanted_def key_row_id_def split_entry_key_def Let_def split: option.splits)
  show ?thesis
  proof (intro subset_antisym subsetI)
    fix i assume "i \<in> fst ` set (List.map_filter (entry_of None prefix) kvs)"
    then obtain e where "e \<in> set (List.map_filter (entry_of None prefix) kvs)" and i: "i = fst e" by blast
    then obtain kv where kv: "kv \<in> set kvs" "entry_of None prefix kv = Some e" unfolding map_filter_mem by blast
    then have "i = key_row_id prefix (fst kv)" using entry [of kv] assms i by force
    then show "i \<in> key_row_id prefix ` fst ` set kvs" using kv(1) by blast
  next
    fix i assume "i \<in> key_row_id prefix ` fst ` set kvs"
    then obtain kv where kv: "kv \<in> set kvs" and i: "i = key_row_id prefix (fst kv)" by blast
    obtain kind where "entry_of None prefix kv = Some (i, kind)" using entry [of kv] assms kv unfolding i by blast
    then have "(i, kind) \<in> set (List.map_filter (entry_of None prefix) kvs)" unfolding map_filter_mem using kv by blast
    then show "i \<in> fst ` set (List.map_filter (entry_of None prefix) kvs)" by (rule rev_image_eqI) simp
  qed
qed

lemma count_star_group:
  "group_rows [] [(name, CountStar)] rows =
     (if rows = [] then [] else [([], [(name, slot_default\<lparr>sl_count_star := of_nat (length rows)\<rparr>)])])"
proof (induction rows rule: rev_induct)
  case (snoc r rows)
  have "group_rows [] [(name, CountStar)] (rows @ [r]) =
      hm_update [] (\<lambda>s. slots_update [(name, CountStar)] r (case s of None \<Rightarrow> [] | Some s \<Rightarrow> s))
        (group_rows [] [(name, CountStar)] rows)"
    by (simp add: group_rows_def group_key_of_def)
  then show ?case unfolding snoc
    by (simp add: slots_update_def slot_update_def slot_default_def add.commute)
qed (simp add: group_rows_def)

lemma hm_iter_single: "(\<And>ks. mset (order ks) = mset ks) \<Longrightarrow> hm_iter order [(k, v)] = [(k, v)]"
proof -
  assume "\<And>ks. mset (order ks) = mset ks"
  then have "order [k] = [k]" by (metis mset_single_iff_right mset.simps)
  then show ?thesis by (simp add: hm_iter_def)
qed

text \<open>The sum over no rows is zero, not \<^verbatim>\<open>NULL\<close>.\<close>

lemma sum_of_no_rows: "env_ok env \<Longrightarrow> aggregate_rows env [] [(name, AggSum c)] [] = [([], [(name, VFloat 0)])]"
  by (simp add: aggregate_rows_def group_rows_def hm_iter_single finish_group_def env_ok_def slot_finish_def slot_default_def)

text \<open>
  C38. Counting in one pass is counting the loaded rows: the key-only scan of \<^verbatim>\<open>COUNT(*)\<close> returns the same
  groups as loading the table, serially or in parallel, and aggregating it, on every store that reads
  a sorted map.
\<close>

theorem count_star_streaming:
  assumes env: "env_ok env" and st: "reads_map st m"
  shows "stream_run env st table None [] [(name, CountStar)] (needed_columns [] [(name, CountStar)] None) =
    Inr (aggregate_rows env [] [(name, CountStar)] (load_table_rows (ee_pool env) st table None))"
proof -
  let ?p = "table @ [0]" and ?rows = "load_table_rows (ee_pool env) st table None"
  let ?kvs = "rs_range st ?p (prefix_end ?p)" and ?ks = "rs_range_keys st ?p (prefix_end ?p)"
  have sw: "starts_with k ?p \<longleftrightarrow> ?p \<le> k \<and> k < prefix_end ?p" for k by (rule starts_with_range) simp
  have "?p < prefix_end ?p" using sw [of ?p] by (simp add: starts_with_iff)
  then have kvs: "?kvs = filter (\<lambda>(k, _). starts_with k ?p) m" and ks: "?ks = map fst ?kvs"
    using st by (simp_all add: reads_map_def sw)
  have start: "\<forall>kv \<in> set ?kvs. starts_with (fst kv) ?p" by (auto simp: kvs)
  have "bt_sorted ?kvs" using st unfolding kvs reads_map_def by (intro inv_intros) simp
  then have "sorted_wrt (<) ?ks" by (simp add: ks bt_sorted_def)
  then have "linorder_class.sorted (map (key_row_id ?p) ?ks)" unfolding sorted_wrt_map
    by (rule sorted_wrt_mono_rel [rotated]) (rule key_row_id_mono, use start in \<open>auto simp: ks\<close>)
  then have "count_ids ?p ?ks None 0 = of_nat (card (key_row_id ?p ` set ?ks))"
    using count_ids_card [of ?ks ?p None 0] start by (simp add: ks)
  moreover have "length ?rows = card (key_row_id ?p ` set ?ks)"
    using length_load_rows [of "ee_pool env" st table None] env entry_row_ids [OF start]
    by (simp add: env_ok_def collect_entries_def table_key_prefix_def ks Let_def)
  moreover have "aggregate_rows env [] [(name, CountStar)] ?rows =
      [([], [(name, slot_finish CountStar (slot_default\<lparr>sl_count_star := of_nat (length ?rows)\<rparr>))])]"
    using env by (simp add: aggregate_rows_def count_star_group hm_iter_single finish_group_def env_ok_def slot_default_def)
  ultimately show ?thesis by (simp add: stream_run_def needed_columns_def agg_column_def Let_def)
qed

definition map_store :: "(bytes \<times> bytes) list \<Rightarrow> read_store" where
  "map_store m = \<lparr>rs_get = (\<lambda>k. Inr (bt_get m k)), rs_range = (\<lambda>lo hi. filter (\<lambda>(k, _). lo \<le> k \<and> k < hi) m),
     rs_range_keys = (\<lambda>lo hi. map fst (filter (\<lambda>(k, _). lo \<le> k \<and> k < hi) m))\<rparr>"

lemma map_store_reads: "bt_sorted m \<Longrightarrow> reads_map (map_store m) m"
  by (simp add: reads_map_def map_store_def)

theorem count_star_streaming_witness:
  "stream_run plain_env (map_store [([116, 0, 49, 0, 97], [7]), ([116, 0, 49, 0, 98], [8]), ([116, 0, 50, 0, 97], [9])])
     [116] None [] [([110], CountStar)] (needed_columns [] [([110], CountStar)] None) =
   Inr (aggregate_rows plain_env [] [([110], CountStar)] (load_table_rows (ee_pool plain_env)
     (map_store [([116, 0, 49, 0, 97], [7]), ([116, 0, 49, 0, 98], [8]), ([116, 0, 50, 0, 97], [9])]) [116] None))"
  by (rule count_star_streaming [OF plain_env_ok map_store_reads]) simp

end
