(* ===== verification/Sql_Window.thy ===== *)
theory Sql_Window
  imports Sql_Rows
begin

text \<open>
  Window functions of \<^verbatim>\<open>window_exec.rs\<close>: partitions, ranking functions and framed sums and averages.
  Rows of a partition are updated one after the other, so a frame sees the output column of the rows
  before the current one. A slice whose bounds cross is a panic.
\<close>

section \<open>Frames\<close>

definition effective_frame :: "expr window_spec \<Rightarrow> window_frame" where
  "effective_frame spec = (case ws_frame spec of Some f \<Rightarrow> f
     | None \<Rightarrow> \<lparr>wf_mode = Rows, wf_start = UnboundedPreceding,
         wf_end = (if ws_order_by spec = [] then UnboundedFollowing else CurrentRow)\<rparr>)"

definition bound_to_index :: "frame_bound \<Rightarrow> nat \<Rightarrow> nat \<Rightarrow> nat" where
  "bound_to_index b len row_idx =
     (let last_row = len - 1 in
      min (case b of UnboundedPreceding \<Rightarrow> 0 | Preceding n \<Rightarrow> row_idx - unat n | CurrentRow \<Rightarrow> row_idx
           | Following n \<Rightarrow> min ((row_idx + unat n) mod 2 ^ 64) last_row | UnboundedFollowing \<Rightarrow> last_row) last_row)"

definition frame_row_range :: "nat \<Rightarrow> nat \<Rightarrow> window_frame \<Rightarrow> nat \<times> nat" where
  "frame_row_range len row_idx frame =
     (bound_to_index (wf_start frame) len row_idx, min (bound_to_index (wf_end frame) len row_idx) (len - 1))"

section \<open>Aggregates over a frame\<close>

definition value_as_f64 :: "value_t \<Rightarrow> f64 option" where
  "value_as_f64 v = (case v of VNull \<Rightarrow> None | VInteger n \<Rightarrow> Some (f64_of_i64 n) | VFloat f \<Rightarrow> Some f
     | VBool b \<Rightarrow> Some (f64_of_bool b) | VBytes b \<Rightarrow> parse_bytes_as_f64 b | VDate b \<Rightarrow> parse_bytes_as_f64 b
     | VTimestamp ts \<Rightarrow> Some (f64_of_i64 ts) | VVector _ \<Rightarrow> None)"

fun frame_sum :: "unicode \<Rightarrow> expr \<Rightarrow> row list \<Rightarrow> f64 \<Rightarrow> u64 \<Rightarrow> exec_fault + (f64 \<times> u64)" where
  "frame_sum uc arg [] acc n = Inr (acc, n)"
| "frame_sum uc arg (r # rs) acc n = try_bind (eval_expr uc arg r) (\<lambda>v. case value_as_f64 v of
     None \<Rightarrow> frame_sum uc arg rs acc n | Some x \<Rightarrow> frame_sum uc arg rs (f64_add acc x) (n + 1))"

definition number_value :: "f64 \<Rightarrow> value_t" where
  "number_value x = (if f64_fract_zero x then VInteger (i64_of_f64 x) else VFloat x)"

definition frame_value :: "window_func \<Rightarrow> f64 \<Rightarrow> u64 \<Rightarrow> exec_fault + value_t" where
  "frame_value func acc n = (case func of
     WSum \<Rightarrow> Inr (if n = 0 then VNull else number_value acc)
   | WAvg \<Rightarrow> Inr (if n = 0 then VNull else number_value (f64_div acc (f64_of_u64 n)))
   | _ \<Rightarrow> Inl (XErr UnsupportedExpr))"

definition frame_slice :: "row list \<Rightarrow> nat \<Rightarrow> nat \<Rightarrow> exec_fault + row list" where
  "frame_slice part s e = (if s > e + 1 \<or> e + 1 > length part then Inl XPanic else Inr (take (e + 1 - s) (drop s part)))"

definition aggregate_step ::
  "unicode \<Rightarrow> window_func \<Rightarrow> expr \<Rightarrow> str \<Rightarrow> window_frame \<Rightarrow> nat \<Rightarrow> row list \<Rightarrow> exec_fault + row list" where
  "aggregate_step uc func arg output frame i part =
     (let (s, e) = frame_row_range (length part) i frame in
      try_bind (frame_slice part s e) (\<lambda>rows.
      try_bind (frame_sum uc arg rows 0 0) (\<lambda>(acc, n).
      try_bind (frame_value func acc n) (\<lambda>v.
      Inr (part[i := part ! i @ [(output, v)]])))))"

fun try_loop :: "(nat \<Rightarrow> 'a \<Rightarrow> 'e + 'a) \<Rightarrow> nat list \<Rightarrow> 'a \<Rightarrow> 'e + 'a" where
  "try_loop f [] x = Inr x"
| "try_loop f (i # js) x = try_bind (f i x) (try_loop f js)"

definition assign_aggregate_values ::
  "unicode \<Rightarrow> window_func \<Rightarrow> expr \<Rightarrow> str \<Rightarrow> window_frame \<Rightarrow> row list \<Rightarrow> exec_fault + row list" where
  "assign_aggregate_values uc func arg output frame part =
     try_loop (aggregate_step uc func arg output frame) [0..<length part] part"

section \<open>Ranking\<close>

text \<open>\<^verbatim>\<open>i64::try_from(i).unwrap_or(i64::MAX).saturating_add(1)\<close>.\<close>

definition row_number :: "nat \<Rightarrow> i64" where
  "row_number i = of_nat (min (i + 1) (2 ^ 63 - 1))"

definition ranking_value :: "window_func \<Rightarrow> nat \<Rightarrow> i64 \<Rightarrow> i64 \<Rightarrow> i64 option" where
  "ranking_value func i rank dense = (case func of RowNumber \<Rightarrow> Some (row_number i) | Rank \<Rightarrow> Some rank
     | DenseRank \<Rightarrow> Some dense | _ \<Rightarrow> None)"

definition ranking_step ::
  "window_func \<Rightarrow> str \<Rightarrow> (str \<times> bool) list \<Rightarrow> nat \<Rightarrow> row list \<times> i64 \<times> i64 \<Rightarrow> row list \<times> i64 \<times> i64" where
  "ranking_step func output keys i = (\<lambda>(part, rank, dense).
     let new_peer = (i > 0 \<and> compare_rows (part ! (i - 1)) (part ! i) keys \<noteq> Equiv);
         rank = (if new_peer then row_number i else rank);
         dense = (if new_peer then dense + 1 else dense)
     in (case ranking_value func i rank dense of None \<Rightarrow> part
         | Some v \<Rightarrow> part[i := part ! i @ [(output, VInteger v)]], rank, dense))"

definition assign_ranking_values :: "window_func \<Rightarrow> str \<Rightarrow> (str \<times> bool) list \<Rightarrow> row list \<Rightarrow> row list" where
  "assign_ranking_values func output keys part =
     fst (fold (ranking_step func output keys) [0..<length part] (part, 1, 1))"

section \<open>Partitions\<close>

definition order_keys_to_sort :: "expr order_key list \<Rightarrow> (str \<times> bool) list" where
  "order_keys_to_sort = List.map_filter (\<lambda>k. case ok_expr k of EColumn (Named _ c) \<Rightarrow> Some (c, ok_asc k) | _ \<Rightarrow> None)"

fun partition_key :: "unicode \<Rightarrow> row \<Rightarrow> expr list \<Rightarrow> exec_fault + bytes" where
  "partition_key uc r [] = Inr []"
| "partition_key uc r (e # es) = try_bind (eval_expr uc e r) (\<lambda>v.
     try_bind (partition_key uc r es) (\<lambda>rest. Inr (as_bytes v @ [0] @ rest)))"

fun partition_groups ::
  "unicode \<Rightarrow> expr list \<Rightarrow> row list \<Rightarrow> (bytes \<times> row list) list \<Rightarrow> exec_fault + (bytes \<times> row list) list" where
  "partition_groups uc es [] groups = Inr groups"
| "partition_groups uc es (r # rs) groups = try_bind (partition_key uc r es) (\<lambda>k.
     partition_groups uc es rs (hm_update k (\<lambda>g. (case g of None \<Rightarrow> [] | Some g \<Rightarrow> g) @ [r]) groups))"

definition partition_rows :: "exec_env \<Rightarrow> row list \<Rightarrow> expr list \<Rightarrow> exec_fault + row list list" where
  "partition_rows env rows partition_by =
     (if partition_by = [] then Inr [rows]
      else try_bind (partition_groups (ee_case env) partition_by rows [])
        (\<lambda>groups. Inr (map snd (hm_iter (ee_key_order env) groups))))"

definition window_partition :: "exec_env \<Rightarrow> window_compute \<Rightarrow> (str \<times> bool) list \<Rightarrow> row list \<Rightarrow> exec_fault + row list" where
  "window_partition env win keys part =
     (let part = (if keys = [] then part else sort_rows keys part) in
      if is_ranking (wcp_func win) then Inr (assign_ranking_values (wcp_func win) (wcp_output_name win) keys part)
      else (case wcp_arg win of None \<Rightarrow> Inl (XErr UnsupportedExpr)
        | Some arg \<Rightarrow> assign_aggregate_values (ee_case env) (wcp_func win) arg (wcp_output_name win)
            (effective_frame (wcp_spec win)) part))"

definition apply_one_window :: "exec_env \<Rightarrow> row list \<Rightarrow> window_compute \<Rightarrow> exec_fault + row list" where
  "apply_one_window env rows win =
     (if is_ranking (wcp_func win) \<and> ws_order_by (wcp_spec win) = [] then Inl (XErr UnsupportedExpr)
      else let keys = order_keys_to_sort (ws_order_by (wcp_spec win)) in
        try_bind (partition_rows env rows (ws_partition_by (wcp_spec win))) (\<lambda>parts.
        try_bind (collect_results (map (window_partition env win keys) parts)) (\<lambda>outs. Inr (concat outs))))"

fun apply_windows :: "exec_env \<Rightarrow> row list \<Rightarrow> window_compute list \<Rightarrow> exec_fault + row list" where
  "apply_windows env rows [] = Inr rows"
| "apply_windows env rows (w # ws) = try_bind (apply_one_window env rows w) (\<lambda>rows. apply_windows env rows ws)"

section \<open>Ranks\<close>

definition key_vector :: "(str \<times> bool) list \<Rightarrow> row \<Rightarrow> bytes list" where
  "key_vector keys r = map (\<lambda>(c, _). sort_rank (find_column r c)) keys"

lemma key_vector_simps [simp]: "key_vector [] r = []"
  "key_vector (k # keys) r = sort_rank (find_column r (fst k)) # key_vector keys r"
  by (simp_all add: key_vector_def case_prod_beta)

lemma compare_rows_Equiv: "compare_rows a b keys = Equiv \<longleftrightarrow> key_vector keys a = key_vector keys b"
  by (induction keys) (auto simp: compare_rows_Cons Let_def split: if_splits)

lemma compare_rows_vector:
  "key_vector keys a = key_vector keys a' \<Longrightarrow> key_vector keys b = key_vector keys b' \<Longrightarrow>
     compare_rows a b keys = compare_rows a' b' keys"
  by (induction keys) (auto simp: compare_rows_Cons Let_def)

lemma find_column_append: "\<not> column_name_matches output c \<Longrightarrow> find_column (r @ [(output, v)]) c = find_column r c"
  by (induction r) (auto simp: find_column_def)

lemma key_vector_append:
  "\<forall>(c, _) \<in> set keys. \<not> column_name_matches output c \<Longrightarrow> key_vector keys (r @ [(output, v)]) = key_vector keys r"
  by (induction keys) (auto simp: find_column_append)

text \<open>The rows strictly before a row, and its rank and dense rank.\<close>

definition rows_before :: "(str \<times> bool) list \<Rightarrow> row list \<Rightarrow> row \<Rightarrow> row list" where
  "rows_before keys rows r = filter (\<lambda>x. compare_rows x r keys = Less) rows"

fun rank_of :: "window_func \<Rightarrow> (str \<times> bool) list \<Rightarrow> row list \<Rightarrow> nat \<Rightarrow> nat" where
  "rank_of RowNumber keys part i = i + 1"
| "rank_of Rank keys part i = length (rows_before keys part (part ! i)) + 1"
| "rank_of DenseRank keys part i = card (key_vector keys ` set (rows_before keys part (part ! i))) + 1"
| "rank_of _ keys part i = 0"

lemma rows_before_Equiv: "compare_rows a b keys = Equiv \<Longrightarrow> rows_before keys part a = rows_before keys part b"
  unfolding rows_before_def
  using compare_rows_vector [OF refl, of keys a b] by (simp add: compare_rows_Equiv)

lemma compare_rows_less:
  "compare_rows a b keys \<noteq> Greater \<Longrightarrow> compare_rows b c keys = Less \<Longrightarrow> compare_rows a c keys = Less"
  using compare.trans_equiv_less [of "row_cmp keys" a b c] compare.trans_less [of "row_cmp keys" a b c]
  by (cases "compare_rows a b keys") (simp_all add: row_cmp.rep_eq)

lemma compare_rows_sym: "compare_rows b a keys = Greater \<longleftrightarrow> compare_rows a b keys = Less"
  using compare.greater_iff_sym_less [of "row_cmp keys" b a] by (simp add: row_cmp.rep_eq)

lemma sorted_rows_le:
  "sorted_wrt (\<lambda>a b. compare_rows a b keys \<noteq> Greater) part \<Longrightarrow> j \<le> k \<Longrightarrow> k < length part \<Longrightarrow>
     compare_rows (part ! j) (part ! k) keys \<noteq> Greater"
  using compare_rows_Equiv [of "part ! k" "part ! k" keys] by (cases "j = k") (simp_all add: sorted_wrt_iff_nth_less)

lemma taken_rows_le:
  assumes "sorted_wrt (\<lambda>a b. compare_rows a b keys \<noteq> Greater) part" "i < length part" and x: "x \<in> set (take (Suc i) part)"
  shows "compare_rows x (part ! i) keys \<noteq> Greater"
proof -
  obtain j where "j < Suc i" "x = part ! j" using x by (auto simp: in_set_conv_nth)
  then show ?thesis using sorted_rows_le [OF assms(1), of j i] assms(2) by simp
qed

lemma peer_less:
  "sorted_wrt (\<lambda>a b. compare_rows a b keys \<noteq> Greater) part \<Longrightarrow> Suc i < length part \<Longrightarrow>
     compare_rows (part ! i) (part ! Suc i) keys \<noteq> Equiv \<Longrightarrow> compare_rows (part ! i) (part ! Suc i) keys = Less"
  using sorted_rows_le [of keys part i "Suc i"] by (cases "compare_rows (part ! i) (part ! Suc i) keys") simp_all

lemma rows_before_sorted:
  assumes sorted: "sorted_wrt (\<lambda>a b. compare_rows a b keys \<noteq> Greater) part" and i: "Suc i < length part"
    and peer: "compare_rows (part ! i) (part ! Suc i) keys \<noteq> Equiv"
  shows "rows_before keys part (part ! Suc i) = take (Suc i) part"
proof -
  let ?r = "part ! Suc i"
  have "\<forall>x \<in> set (take (Suc i) part). compare_rows x ?r keys = Less"
    using taken_rows_le [OF sorted] compare_rows_less [OF _ peer_less [OF assms]] i by simp
  moreover have "\<forall>x \<in> set (drop (Suc i) part). compare_rows x ?r keys \<noteq> Less"
  proof
    fix x assume "x \<in> set (drop (Suc i) part)"
    then obtain j where j: "j < length part - Suc i" "x = part ! (Suc i + j)" by (auto simp: in_set_conv_nth)
    then have "Suc i + j < length part" by simp
    then show "compare_rows x ?r keys \<noteq> Less"
      using sorted_rows_le [OF sorted, of "Suc i" "Suc i + j"] j(2) by (simp add: compare_rows_sym)
  qed
  ultimately have "filter (\<lambda>x. compare_rows x ?r keys = Less) (take (Suc i) part @ drop (Suc i) part) = take (Suc i) part"
    unfolding filter_append by (simp add: filter_empty_conv del: append_take_drop_id)
  then show ?thesis by (simp add: rows_before_def)
qed

text \<open>The keys up to a row are its own and those of the rows before it.\<close>

lemma taken_vectors:
  assumes sorted: "sorted_wrt (\<lambda>a b. compare_rows a b keys \<noteq> Greater) part" and i: "Suc i < length part"
    and peer: "compare_rows (part ! i) (part ! Suc i) keys \<noteq> Equiv"
  shows "key_vector keys ` set (take (Suc i) part) =
    insert (key_vector keys (part ! i)) (key_vector keys ` set (rows_before keys part (part ! i)))"
proof (intro subset_antisym subsetI)
  fix v assume "v \<in> key_vector keys ` set (take (Suc i) part)"
  then obtain x where x: "x \<in> set (take (Suc i) part)" "v = key_vector keys x" by blast
  then show "v \<in> insert (key_vector keys (part ! i)) (key_vector keys ` set (rows_before keys part (part ! i)))"
    using taken_rows_le [OF sorted _ x(1)] i in_set_takeD [OF x(1)]
    by (cases "compare_rows x (part ! i) keys") (auto simp: compare_rows_Equiv rows_before_def)
next
  fix v assume "v \<in> insert (key_vector keys (part ! i)) (key_vector keys ` set (rows_before keys part (part ! i)))"
  then consider "v = key_vector keys (part ! i)" | x where "x \<in> set (rows_before keys part (part ! i))" "v = key_vector keys x"
    by blast
  then show "v \<in> key_vector keys ` set (take (Suc i) part)"
  proof cases
    case 1
    then show ?thesis using i by (simp add: take_Suc_conv_app_nth)
  next
    case 2
    then have "x \<in> set (rows_before keys part (part ! Suc i))"
      using compare_rows_less [OF _ peer_less [OF assms], of x] by (auto simp: rows_before_def)
    then show ?thesis using 2(2) rows_before_sorted [OF assms] by simp
  qed
qed

lemma rank_of_0: "sorted_wrt (\<lambda>a b. compare_rows a b keys \<noteq> Greater) part \<Longrightarrow> part \<noteq> [] \<Longrightarrow> is_ranking func \<Longrightarrow>
    rank_of func keys part 0 = 1"
proof -
  assume sorted: "sorted_wrt (\<lambda>a b. compare_rows a b keys \<noteq> Greater) part" and "part \<noteq> []" and func: "is_ranking func"
  then obtain r rs where part: "part = r # rs" by (cases part) auto
  have "rows_before keys part r = []"
    using sorted compare_rows_Equiv [of r r keys] by (auto simp: part rows_before_def filter_empty_conv compare_rows_sym)
  then show ?thesis using func by (cases func) (simp_all add: part is_ranking_def)
qed

lemma rank_of_Suc:
  assumes sorted: "sorted_wrt (\<lambda>a b. compare_rows a b keys \<noteq> Greater) part" and i: "Suc i < length part"
  shows "rank_of Rank keys part (Suc i) =
      (if compare_rows (part ! i) (part ! Suc i) keys = Equiv then rank_of Rank keys part i else Suc i + 1)"
    and "rank_of DenseRank keys part (Suc i) =
      (if compare_rows (part ! i) (part ! Suc i) keys = Equiv then rank_of DenseRank keys part i
       else rank_of DenseRank keys part i + 1)"
proof -
  let ?peer = "compare_rows (part ! i) (part ! Suc i) keys = Equiv"
  have before: "rows_before keys part (part ! Suc i) = take (Suc i) part" if "\<not> ?peer"
    using rows_before_sorted [OF assms that] .
  then show "rank_of Rank keys part (Suc i) = (if ?peer then rank_of Rank keys part i else Suc i + 1)"
    using rows_before_Equiv [of "part ! i" "part ! Suc i" keys part] i by auto
  have "\<not> ?peer \<Longrightarrow> key_vector keys ` set (take (Suc i) part) =
      insert (key_vector keys (part ! i)) (key_vector keys ` set (rows_before keys part (part ! i)))"
    by (rule taken_vectors [OF assms])
  moreover have "key_vector keys (part ! i) \<notin> key_vector keys ` set (rows_before keys part (part ! i))"
  proof
    assume "key_vector keys (part ! i) \<in> key_vector keys ` set (rows_before keys part (part ! i))"
    then obtain x where "compare_rows x (part ! i) keys = Less" "key_vector keys x = key_vector keys (part ! i)"
      by (auto simp: rows_before_def)
    then show False using compare_rows_Equiv [of x "part ! i" keys] by simp
  qed
  ultimately show "rank_of DenseRank keys part (Suc i) =
      (if ?peer then rank_of DenseRank keys part i else rank_of DenseRank keys part i + 1)"
    using rows_before_Equiv [of "part ! i" "part ! Suc i" keys part] before by simp
qed

section \<open>The ranking loop\<close>

definition ranked :: "window_func \<Rightarrow> str \<Rightarrow> (str \<times> bool) list \<Rightarrow> row list \<Rightarrow> nat \<Rightarrow> row" where
  "ranked func output keys part i = part ! i @ [(output, VInteger (of_nat (rank_of func keys part i)))]"

lemma ranking_fold:
  assumes sorted: "sorted_wrt (\<lambda>a b. compare_rows a b keys \<noteq> Greater) part" and func: "is_ranking func"
    and fresh: "\<forall>(c, _) \<in> set keys. \<not> column_name_matches output c" and len: "length part < 2 ^ 63 - 1" and k: "k \<le> length part"
  shows "fold (ranking_step func output keys) [0..<k] (part, 1, 1) =
    (map (\<lambda>j. if j < k then ranked func output keys part j else part ! j) [0..<length part],
     of_nat (rank_of Rank keys part (k - 1)), of_nat (rank_of DenseRank keys part (k - 1)))"
  using k
proof (induction k)
  case 0
  have first: "rank_of f keys part 0 = 1" if f: "is_ranking f" for f
  proof (cases "part = []")
    case True
    then show ?thesis using f by (cases f) (simp_all add: is_ranking_def rows_before_def)
  qed (rule rank_of_0 [OF sorted _ f])
  show ?case using first [of Rank] first [of DenseRank]
    by (simp add: map_nth is_ranking_def del: rank_of.simps)
next
  case (Suc k)
  let ?part = "map (\<lambda>j. if j < k then ranked func output keys part j else part ! j) [0..<length part]"
  let ?rank = "\<lambda>f. of_nat (rank_of f keys part k) :: i64"
  have k: "k < length part" using Suc.prems by simp
  have num: "row_number k = of_nat (k + 1)" using k len by (simp add: row_number_def)
  have nth: "?part ! j = (if j < k then ranked func output keys part j else part ! j)" if "j < length part" for j
    using that by simp
  have cmp: "compare_rows (?part ! (k - 1)) (?part ! k) keys = compare_rows (part ! (k - 1)) (part ! k) keys"
    by (rule compare_rows_vector) (use k nth [of k] nth [of "k - 1"] key_vector_append [OF fresh] in
        \<open>simp_all add: ranked_def del: nth_map\<close>)
  have step: "ranking_step func output keys k (?part, of_nat (rank_of Rank keys part (k - 1)), of_nat (rank_of DenseRank keys part (k - 1))) =
      (?part[k := ranked func output keys part k], ?rank Rank, ?rank DenseRank)"
  proof -
    have "(if k > 0 \<and> compare_rows (part ! (k - 1)) (part ! k) keys \<noteq> Equiv then row_number k
        else of_nat (rank_of Rank keys part (k - 1))) = ?rank Rank"
      "(if k > 0 \<and> compare_rows (part ! (k - 1)) (part ! k) keys \<noteq> Equiv then of_nat (rank_of DenseRank keys part (k - 1)) + 1
        else of_nat (rank_of DenseRank keys part (k - 1))) = ?rank DenseRank"
      using rank_of_Suc [OF sorted, of "k - 1"] k num by (cases k; simp del: rank_of.simps)+
    moreover have "ranking_value func k (?rank Rank) (?rank DenseRank) = Some (?rank func)"
      using func num by (cases func) (simp_all add: ranking_value_def is_ranking_def)
    ultimately show ?thesis unfolding ranking_step_def Let_def prod.case cmp
      using k by (simp add: ranked_def del: rank_of.simps)
  qed
  have "?part[k := ranked func output keys part k] =
      map (\<lambda>j. if j < Suc k then ranked func output keys part j else part ! j) [0..<length part]"
    by (rule nth_equalityI) (auto simp: nth_list_update less_Suc_eq)
  then show ?case using Suc.IH k step by simp
qed

text \<open>
  C39. Ranking functions are right: in a partition sorted by the window's \<^verbatim>\<open>ORDER BY\<close>, the loop gives row \<open>i\<close>
  the row number \<open>i + 1\<close>, the rank \<open>1\<close> plus the number of rows strictly before it, and the dense rank
  \<open>1\<close> plus the number of distinct sort keys before it. The output column must not hide a sort column.
\<close>

theorem window_ranking:
  assumes "is_ranking func" "\<forall>(c, _) \<in> set keys. \<not> column_name_matches output c"
    and "length rows < 2 ^ 63 - 1" "i < length rows"
  shows "assign_ranking_values func output keys (sort_rows keys rows) ! i =
    sort_rows keys rows ! i @ [(output, VInteger (of_nat (rank_of func keys (sort_rows keys rows) i)))]"
proof -
  have len: "length (sort_rows keys rows) = length rows" by (metis mset_eq_length mset_sort_rows)
  show ?thesis unfolding assign_ranking_values_def
    using ranking_fold [OF sort_rows_sorted assms(1, 2), of rows "length rows"] assms(3, 4) len
    by (simp add: ranked_def)
qed

definition scores :: "row list" where
  "scores = [[(ascii ''s'', VBytes [5])], [(ascii ''s'', VBytes [3])], [(ascii ''s'', VBytes [3])]]"

theorem window_ranking_witness:
  "assign_ranking_values Rank (ascii ''rank'') [(ascii ''s'', True)] (sort_rows [(ascii ''s'', True)] scores) ! 2 =
    sort_rows [(ascii ''s'', True)] scores ! 2 @ [(ascii ''rank'',
      VInteger (of_nat (rank_of Rank [(ascii ''s'', True)] (sort_rows [(ascii ''s'', True)] scores) 2)))]"
  by (rule window_ranking) (simp_all add: is_ranking_def scores_def column_name_matches_def rsplit_once_def)

section \<open>No row is lost\<close>

text \<open>Rows of a list with one more column at the end.\<close>

definition extended :: "str \<Rightarrow> row list \<Rightarrow> row list \<Rightarrow> bool" where
  "extended output rows out = list_all2 (\<lambda>r r'. \<exists>v. r' = r @ [(output, v)]) rows out"

lemma extended_butlast: "extended output rows out \<Longrightarrow> map butlast out = rows \<and> (\<forall>r \<in> set out. r \<noteq> [] \<and> fst (last r) = output)"
  unfolding extended_def by (induction rows out rule: list_all2_induct) auto

lemma aggregate_loop_extends:
  assumes "try_loop (aggregate_step uc func arg output frame) [k..<length part] part' = Inr out" "length part' = length part"
    and "\<forall>j < length part. if j < k then \<exists>v. part' ! j = part ! j @ [(output, v)] else part' ! j = part ! j"
  shows "extended output part out"
  using assms
proof (induction "length part - k" arbitrary: k part')
  case 0
  then show ?case by (auto simp: extended_def list_all2_conv_all_nth)
next
  case (Suc n)
  then have k: "k < length part" by simp
  then have upt: "[k..<length part] = k # [Suc k..<length part]" by (simp add: upt_conv_Cons)
  obtain p1 where p1: "aggregate_step uc func arg output frame k part' = Inr p1"
    "try_loop (aggregate_step uc func arg output frame) [Suc k..<length part] p1 = Inr out"
    using Suc.prems(1) unfolding upt by (cases "aggregate_step uc func arg output frame k part'") auto
  then obtain v where v: "p1 = part'[k := part' ! k @ [(output, v)]]"
    by (auto simp: aggregate_step_def try_bind_def Let_def split: prod.splits sum.splits)
  show ?case
  proof (rule Suc.hyps(1) [OF _ p1(2)])
    show "n = length part - Suc k" using Suc.hyps(2) by simp
    show "length p1 = length part" using v Suc.prems(2) by simp
    show "\<forall>j < length part. if j < Suc k then \<exists>v. p1 ! j = part ! j @ [(output, v)] else p1 ! j = part ! j"
      using Suc.prems(2, 3) k by (auto simp: v nth_list_update less_Suc_eq split: if_splits)
  qed
qed

lemma ranking_loop_extends:
  assumes func: "is_ranking func" and k: "k \<le> length part"
  shows "\<exists>part' st. fold (ranking_step func output keys) [0..<k] (part, ini) = (part', st) \<and> length part' = length part \<and>
    (\<forall>j < length part. if j < k then \<exists>v. part' ! j = part ! j @ [(output, v)] else part' ! j = part ! j)"
  using k
proof (induction k)
  case (Suc k)
  then obtain part' r d where IH: "fold (ranking_step func output keys) [0..<k] (part, ini) = (part', (r, d))"
    "length part' = length part"
    "\<forall>j < length part. if j < k then \<exists>v. part' ! j = part ! j @ [(output, v)] else part' ! j = part ! j" by auto
  let ?new = "k > 0 \<and> compare_rows (part' ! (k - 1)) (part' ! k) keys \<noteq> Equiv"
  let ?r = "if ?new then row_number k else r" and ?d = "if ?new then d + 1 else d"
  obtain v where "ranking_value func k ?r ?d = Some v"
    using func by (cases func) (simp_all add: ranking_value_def is_ranking_def)
  then have "ranking_step func output keys k (part', (r, d)) = (part'[k := part' ! k @ [(output, VInteger v)]], ?r, ?d)"
    unfolding ranking_step_def Let_def prod.case by (simp del: not_gr_zero)
  then show ?case using IH Suc.prems by (auto simp: nth_list_update less_Suc_eq split: if_splits)
qed simp

lemma window_partition_extends:
  assumes "window_partition env win keys part = Inr out"
  shows "\<exists>part'. mset part' = mset part \<and> extended (wcp_output_name win) part' out"
proof -
  let ?part = "if keys = [] then part else sort_rows keys part"
  have "extended (wcp_output_name win) ?part out"
  proof (cases "is_ranking (wcp_func win)")
    case True
    then have "out = assign_ranking_values (wcp_func win) (wcp_output_name win) keys ?part"
      using assms by (simp add: window_partition_def Let_def)
    then show ?thesis
      using ranking_loop_extends [OF True order_refl, where part = ?part and ini = "(1, 1)", of "wcp_output_name win" keys]
      by (auto simp: assign_ranking_values_def extended_def list_all2_conv_all_nth)
  next
    case False
    then obtain arg where "assign_aggregate_values (ee_case env) (wcp_func win) arg (wcp_output_name win)
        (effective_frame (wcp_spec win)) ?part = Inr out"
      using assms by (auto simp: window_partition_def Let_def split: option.splits)
    then show ?thesis unfolding assign_aggregate_values_def by (rule aggregate_loop_extends) simp_all
  qed
  moreover have "mset ?part = mset part" by simp
  ultimately show ?thesis by blast
qed

lemma partition_groups_mset:
  "partition_groups uc es rows groups = Inr out \<Longrightarrow> distinct (map fst groups) \<Longrightarrow>
     distinct (map fst out) \<and> mset (concat (map snd out)) = mset (concat (map snd groups)) + mset rows"
proof (induction uc es rows groups arbitrary: out rule: partition_groups.induct)
  case (2 uc es r rs groups)
  let ?f = "\<lambda>g. (case g of None \<Rightarrow> [] | Some g \<Rightarrow> g) @ [r]"
  obtain k where k: "partition_key uc r es = Inr k" "partition_groups uc es rs (hm_update k ?f groups) = Inr out"
    using "2.prems"(1) by (cases "partition_key uc r es") auto
  have "mset (concat (map snd (hm_update k ?f gs))) = mset (concat (map snd gs)) + {#r#}" for gs
    by (induction gs) auto
  then show ?case using "2.IH" [OF k(2)] hm_update_distinct [OF "2.prems"(2)] by auto
qed simp

text \<open>
  C40. A window function keeps the rows: whatever the frame, the partitions and the iteration order of
  the hash map, its output is the input rows, each exactly once, with the output column appended.
\<close>

theorem window_keeps_rows:
  assumes "env_ok env" "apply_one_window env rows win = Inr out"
  shows "mset (map butlast out) = mset rows \<and> (\<forall>r \<in> set out. r \<noteq> [] \<and> fst (last r) = wcp_output_name win)"
proof -
  let ?keys = "order_keys_to_sort (ws_order_by (wcp_spec win))"
  obtain parts outs where p: "partition_rows env rows (ws_partition_by (wcp_spec win)) = Inr parts"
    "collect_results (map (window_partition env win ?keys) parts) = Inr outs" "out = concat outs"
    using assms(2) by (auto simp: apply_one_window_def Let_def try_bind_def split: if_splits sum.splits)
  have "mset (concat parts) = mset rows"
  proof (cases "ws_partition_by (wcp_spec win) = []")
    case True
    then show ?thesis using p(1) by (auto simp: partition_rows_def)
  next
    case False
    then obtain gs where gs: "partition_groups (ee_case env) (ws_partition_by (wcp_spec win)) rows [] = Inr gs"
      "parts = map snd (hm_iter (ee_key_order env) gs)"
      using p(1) by (auto simp: partition_rows_def try_bind_def split: sum.splits)
    have d: "distinct (map fst gs)" "mset (concat (map snd gs)) = mset rows" using partition_groups_mset [OF gs(1)] by simp_all
    have "mset (concat (map snd (hm_iter (ee_key_order env) gs))) = mset (concat (map snd gs))"
      using assms(1) d(1) by (intro mset_concat_perm hm_iter_perm) (simp_all add: env_ok_def)
    then show ?thesis using d(2) gs(2) by simp
  qed
  moreover have "list_all2 (\<lambda>part o'. \<exists>part'. mset part' = mset part \<and> extended (wcp_output_name win) part' o') parts outs"
    using p(2) by (induction parts arbitrary: outs)
      (auto simp: try_bind_def window_partition_extends split: sum.splits)
  then have "mset (map butlast (concat outs)) = mset (concat parts) \<and>
      (\<forall>r \<in> set (concat outs). r \<noteq> [] \<and> fst (last r) = wcp_output_name win)"
    by (induction parts outs rule: list_all2_induct) (auto dest!: extended_butlast)
  ultimately show ?thesis by (simp add: p(3))
qed

definition score_window :: window_compute where
  "score_window = \<lparr>wcp_func = WSum, wcp_arg = Some (EColumn (Named None (ascii ''s''))),
     wcp_spec = WindowSpec [] [] None, wcp_output_name = ascii ''total''\<rparr>"

theorem window_keeps_rows_witness:
  "\<exists>out. apply_one_window plain_env [[(ascii ''s'', VInteger 5)]] score_window = Inr out \<and>
     mset (map butlast out) = {# [(ascii ''s'', VInteger 5)] #}"
proof -
  obtain out where "apply_one_window plain_env [[(ascii ''s'', VInteger 5)]] score_window = Inr out"
    by (simp add: apply_one_window_def score_window_def is_ranking_def order_keys_to_sort_def partition_rows_def
        window_partition_def assign_aggregate_values_def aggregate_step_def frame_row_range_def bound_to_index_def
        effective_frame_def frame_slice_def eval_column_def row_find_def value_as_f64_def frame_value_def Let_def)
  then show ?thesis using window_keeps_rows [OF plain_env_ok] by fastforce
qed

text \<open>
  A frame that starts after it ends is sliced as it is: \<^verbatim>\<open>ROWS BETWEEN 2 FOLLOWING AND CURRENT ROW\<close> panics
  on a partition of three rows.
\<close>

lemma crossed_frame_panics:
  "length part = 3 \<Longrightarrow> assign_aggregate_values uc func arg output
     \<lparr>wf_mode = Rows, wf_start = Following 2, wf_end = CurrentRow\<rparr> part = Inl XPanic"
  by (simp add: assign_aggregate_values_def upt_rec aggregate_step_def frame_row_range_def bound_to_index_def frame_slice_def)

end
