(* ===== verification/Sql_Setops.thy ===== *)
theory Sql_Setops
  imports Sql_Store "HOL-Library.Multiset"
begin

text \<open>
  \<^verbatim>\<open>UNION\<close>, \<^verbatim>\<open>INTERSECT\<close> and \<^verbatim>\<open>EXCEPT\<close> of \<^verbatim>\<open>setops.rs\<close>, and the multiset algebra they implement.
  A hash set is a set, a hash map of counters a map; neither is iterated.
\<close>

definition row_key :: "row \<Rightarrow> bytes" where
  "row_key r = concat (map (\<lambda>(n, v). n @ [0] @ as_bytes v @ [0]) (sort_key fst r))"

definition sorted_col_names :: "row \<Rightarrow> str list" where
  "sorted_col_names r = sort (map fst r)"

definition align_set_op_rows :: "row list \<Rightarrow> row list \<Rightarrow> row list" where
  "align_set_op_rows left right =
     (case left of [] \<Rightarrow> right
      | l # _ \<Rightarrow> if right = [] then right
          else map (\<lambda>r. zip (sorted_col_names l) (map snd r)) right)"

text \<open>The rows whose key is inserted into the set for the first time.\<close>

fun fresh_rows :: "row list \<Rightarrow> bytes set \<Rightarrow> row list" where
  "fresh_rows [] seen = []"
| "fresh_rows (r # rs) seen =
     (if row_key r \<in> seen then fresh_rows rs seen else r # fresh_rows rs (insert (row_key r) seen))"

definition union_rows :: "row list \<Rightarrow> row list \<Rightarrow> bool \<Rightarrow> row list" where
  "union_rows left right all = (if all then left @ right else fresh_rows (left @ right) {})"

definition count_keys :: "row list \<Rightarrow> bytes \<rightharpoonup> nat" where
  "count_keys rs = fold (\<lambda>r m. m(row_key r \<mapsto> (case m (row_key r) of None \<Rightarrow> 0 | Some n \<Rightarrow> n) + 1)) rs Map.empty"

text \<open>Split the left rows by whether a counter is left for their key, using it up.\<close>

fun take_counted :: "row list \<Rightarrow> (bytes \<rightharpoonup> nat) \<Rightarrow> row list" where
  "take_counted [] m = []"
| "take_counted (r # rs) m = (case m (row_key r) of
     Some n \<Rightarrow> if n > 0 then r # take_counted rs (m(row_key r \<mapsto> n - 1)) else take_counted rs m
   | None \<Rightarrow> take_counted rs m)"

fun drop_counted :: "row list \<Rightarrow> (bytes \<rightharpoonup> nat) \<Rightarrow> row list" where
  "drop_counted [] m = []"
| "drop_counted (r # rs) m = (case m (row_key r) of
     Some n \<Rightarrow> if n > 0 then drop_counted rs (m(row_key r \<mapsto> n - 1)) else r # drop_counted rs m
   | None \<Rightarrow> r # drop_counted rs m)"

text \<open>A filter that keeps a row when the test holds and its key is new; keys that fail the test are
  not inserted, since the conjunction is short-circuited.\<close>

fun filter_fresh :: "(bytes \<Rightarrow> bool) \<Rightarrow> row list \<Rightarrow> bytes set \<Rightarrow> row list" where
  "filter_fresh P [] seen = []"
| "filter_fresh P (r # rs) seen =
     (if P (row_key r) \<and> row_key r \<notin> seen then r # filter_fresh P rs (insert (row_key r) seen)
      else filter_fresh P rs seen)"

definition intersect_rows :: "row list \<Rightarrow> row list \<Rightarrow> bool \<Rightarrow> row list" where
  "intersect_rows left right all =
     (if all then take_counted left (count_keys right)
      else filter_fresh (\<lambda>k. k \<in> row_key ` set right) left {})"

definition except_rows :: "row list \<Rightarrow> row list \<Rightarrow> bool \<Rightarrow> row list" where
  "except_rows left right all =
     (if all then drop_counted left (count_keys right)
      else filter_fresh (\<lambda>k. k \<notin> row_key ` set right) left {})"

definition combine_set_op :: "row list \<Rightarrow> row list \<Rightarrow> set_op_kind \<Rightarrow> bool \<Rightarrow> row list" where
  "combine_set_op left right op all =
     (let right = align_set_op_rows left right in
      case op of
        SetUnion \<Rightarrow> union_rows left right all
      | SetIntersect \<Rightarrow> intersect_rows left right all
      | SetExcept \<Rightarrow> except_rows left right all)"

section \<open>The multiset algebra\<close>

definition key_bag :: "row list \<Rightarrow> bytes multiset" where
  "key_bag rs = mset (map row_key rs)"


lemma key_bag_simps [simp]: "key_bag [] = {#}" "key_bag (r # rs) = add_mset (row_key r) (key_bag rs)"
  "key_bag (xs @ ys) = key_bag xs + key_bag ys"
  by (simp_all add: key_bag_def)





definition budget :: "(bytes \<rightharpoonup> nat) \<Rightarrow> bytes \<Rightarrow> nat" where
  "budget m k = (case m k of None \<Rightarrow> 0 | Some n \<Rightarrow> n)"

lemma budget_simps [simp]: "budget (m(a \<mapsto> n)) k = (if k = a then n else budget m k)"
  "m k = None \<Longrightarrow> budget m k = 0" "m k = Some n \<Longrightarrow> budget m k = n"
  by (simp_all add: budget_def)





text \<open>
  The alignment pairs the sorted column names of the left query with the values of the right query
  in their own order. When the left columns are not in alphabetical order this swaps values, so the
  union of a query with itself has rows the query does not have.
\<close>

lemma align_sorted_columns:
  "sorted (map fst l) \<Longrightarrow> length r = length l \<Longrightarrow> map fst r = map fst l \<Longrightarrow>
     align_set_op_rows (l # ls) [r] = [r]"
  by (simp add: align_set_op_rows_def sorted_col_names_def sorted_sort_id)
    (metis zip_map_fst_snd)

theorem union_self_swaps:
  "combine_set_op [[(ascii ''b'', VBytes [1]), (ascii ''a'', VBytes [2])]]
     [[(ascii ''b'', VBytes [1]), (ascii ''a'', VBytes [2])]] SetUnion False =
   [[(ascii ''b'', VBytes [1]), (ascii ''a'', VBytes [2])], [(ascii ''a'', VBytes [1]), (ascii ''b'', VBytes [2])]]"
  by code_simp

end
