(* ===== verification/Sql_Exec.thy ===== *)
theory Sql_Exec
  imports Sql_Joins Sql_Aggregate Sql_Window Sql_Setops
begin

text \<open>
  The pull-based executor of \<^verbatim>\<open>executor.rs\<close>: a state per operator (\<^verbatim>\<open>ExecState\<close>), \<^verbatim>\<open>next_row\<close>, \<^verbatim>\<open>collect\<close> and
  the construction of the state from a physical plan (\<^verbatim>\<open>build_state\<close>), which runs blocking operators to
  completion. Pulling after an error is left out: every caller stops at the first error.
\<close>

record exec_ctx =
  cx_store :: read_store
  cx_index :: read_store
  cx_cte :: "(str \<rightharpoonup> row list) option"

datatype exec_state =
    StDone
  | StLiteralProject "expr select_item list" bool
  | StSeqScan "row list"
  | StIndexScan "row list"
  | StFilter expr exec_state
  | StProject "expr select_item list" exec_state
  | StHashJoin "row list"
  | StNestedLoopJoin expr "row list" "row list" nat nat
  | StMergeJoin "row list"
  | StAggregate "(group_key \<times> row) list"
  | StSort "row list"
  | StLimit u64 exec_state
  | StWindow "row list"
  | StSemiJoin "row list"
  | StSetOp "row list"
  | StDedup exec_state "bytes set"

section \<open>Pulling rows\<close>

definition pop :: "('a list \<Rightarrow> exec_state) \<Rightarrow> ('a \<Rightarrow> row) \<Rightarrow> 'a list \<Rightarrow> exec_fault + (row option \<times> exec_state)" where
  "pop K f rows = (case rows of [] \<Rightarrow> Inr (None, StDone) | r # rs \<Rightarrow> Inr (Some (f r), K rs))"

text \<open>The two nested loops over the indices of the left and right rows.\<close>

function nested_loop ::
  "unicode \<Rightarrow> expr \<Rightarrow> row list \<Rightarrow> row list \<Rightarrow> nat \<Rightarrow> nat \<Rightarrow> exec_fault + (row \<times> nat \<times> nat) option" where
  "nested_loop uc on left right li ri =
     (if li < length left then
        if ri < length right then
          (let merged = merge_rows (left ! li) (right ! ri) in
           case eval_predicate uc on merged of
             Inl e \<Rightarrow> Inl e
           | Inr b \<Rightarrow> if b then Inr (Some (merged, li, ri + 1)) else nested_loop uc on left right li (ri + 1))
        else nested_loop uc on left right (li + 1) 0
      else Inr None)"
  by auto
termination
  by (relation "measures [\<lambda>(uc, on, left, right, li, ri). length left - li, \<lambda>(uc, on, left, right, li, ri). length right - ri]")
    auto

declare nested_loop.simps [simp del]

text \<open>A bound on the number of rows a state can still produce.\<close>

definition pairs_left :: "row list \<Rightarrow> row list \<Rightarrow> nat \<Rightarrow> nat \<Rightarrow> nat" where
  "pairs_left left right li ri = (length left - li) * (length right + 1) + (length right - ri)"

primrec weight :: "exec_state \<Rightarrow> nat" where
  "weight StDone = 0"
| "weight (StLiteralProject items emitted) = (if emitted then 0 else 1)"
| "weight (StSeqScan rows) = length rows"
| "weight (StIndexScan rows) = length rows"
| "weight (StFilter p c) = weight c + 1"
| "weight (StProject items c) = weight c + 1"
| "weight (StHashJoin rows) = length rows"
| "weight (StNestedLoopJoin on left right li ri) = pairs_left left right li ri"
| "weight (StMergeJoin rows) = length rows"
| "weight (StAggregate groups) = length groups"
| "weight (StSort rows) = length rows"
| "weight (StLimit n c) = weight c + 1"
| "weight (StWindow rows) = length rows"
| "weight (StSemiJoin rows) = length rows"
| "weight (StSetOp rows) = length rows"
| "weight (StDedup c seen) = weight c + 1"

lemma nested_loop_weight:
  "nested_loop uc on left right li ri = Inr (Some (r, li', ri')) \<Longrightarrow>
     pairs_left left right li' ri' < pairs_left left right li ri"
proof (induction uc on left right li ri rule: nested_loop.induct)
  case (1 uc on left right li ri)
  consider "\<not> li < length left" | "li < length left" "\<not> ri < length right" | "li < length left" "ri < length right" by blast
  then show ?case
  proof cases
    case 1
    then show ?thesis using "1.prems" by (subst (asm) nested_loop.simps) simp
  next
    case 2
    then have "nested_loop uc on left right (li + 1) 0 = Inr (Some (r, li', ri'))"
      using "1.prems" by (subst (asm) nested_loop.simps) simp
    note IH = "1.IH"(2) [OF 2 this]
    have "length left - li = Suc (length left - (li + 1))" using 2 by simp
    then have "pairs_left left right (li + 1) 0 < pairs_left left right li ri"
      by (simp only: pairs_left_def mult_Suc)
    then show ?thesis using IH by simp
  next
    case 3
    then obtain b where b: "eval_predicate uc on (merge_rows (left ! li) (right ! ri)) = Inr b"
      using "1.prems" by (subst (asm) nested_loop.simps) (auto simp: Let_def split: sum.splits)
    have step: "pairs_left left right li (ri + 1) < pairs_left left right li ri" using 3 by (simp add: pairs_left_def)
    show ?thesis
    proof (cases b)
      case True
      then have "li' = li \<and> ri' = ri + 1"
        using "1.prems" 3 b by (subst (asm) nested_loop.simps) (simp add: Let_def)
      then show ?thesis using step by simp
    next
      case False
      then have "nested_loop uc on left right li (ri + 1) = Inr (Some (r, li', ri'))"
        using "1.prems" 3 b by (subst (asm) nested_loop.simps) (simp add: Let_def)
      then show ?thesis using "1.IH"(1) [OF 3 refl b False] step by simp
    qed
  qed
qed

function (domintros) next_row :: "unicode \<Rightarrow> exec_state \<Rightarrow> exec_fault + (row option \<times> exec_state)" where
  "next_row uc StDone = Inr (None, StDone)"
| "next_row uc (StLiteralProject items emitted) =
     (if emitted then Inr (None, StDone)
      else case project_row uc items [] of Inl e \<Rightarrow> Inl e | Inr r \<Rightarrow> Inr (Some r, StLiteralProject items True))"
| "next_row uc (StSeqScan rows) = pop StSeqScan (\<lambda>r. r) rows"
| "next_row uc (StIndexScan rows) = pop StIndexScan (\<lambda>r. r) rows"
| "next_row uc (StFilter p c) =
     (case next_row uc c of
        Inl e \<Rightarrow> Inl e
      | Inr (None, c') \<Rightarrow> Inr (None, StDone)
      | Inr (Some r, c') \<Rightarrow>
          (case eval_predicate uc p r of
             Inl e \<Rightarrow> Inl e
           | Inr b \<Rightarrow> if b then Inr (Some r, StFilter p c') else next_row uc (StFilter p c')))"
| "next_row uc (StProject items c) =
     (case next_row uc c of
        Inl e \<Rightarrow> Inl e
      | Inr (None, c') \<Rightarrow> Inr (None, StDone)
      | Inr (Some r, c') \<Rightarrow>
          (case project_row uc items r of Inl e \<Rightarrow> Inl e | Inr r' \<Rightarrow> Inr (Some r', StProject items c')))"
| "next_row uc (StHashJoin rows) = pop StHashJoin (\<lambda>r. r) rows"
| "next_row uc (StNestedLoopJoin on left right li ri) =
     (case nested_loop uc on left right li ri of
        Inl e \<Rightarrow> Inl e
      | Inr None \<Rightarrow> Inr (None, StDone)
      | Inr (Some (r, li', ri')) \<Rightarrow> Inr (Some r, StNestedLoopJoin on left right li' ri'))"
| "next_row uc (StMergeJoin rows) = pop StMergeJoin (\<lambda>r. r) rows"
| "next_row uc (StAggregate groups) = pop StAggregate snd groups"
| "next_row uc (StSort rows) = pop StSort (\<lambda>r. r) rows"
| "next_row uc (StLimit n c) =
     (if n = 0 then Inr (None, StDone)
      else case next_row uc c of
        Inl e \<Rightarrow> Inl e
      | Inr (None, c') \<Rightarrow> Inr (None, StDone)
      | Inr (Some r, c') \<Rightarrow> Inr (Some r, StLimit (n - 1) c'))"
| "next_row uc (StWindow rows) = pop StWindow (\<lambda>r. r) rows"
| "next_row uc (StSemiJoin rows) = pop StSemiJoin (\<lambda>r. r) rows"
| "next_row uc (StSetOp rows) = pop StSetOp (\<lambda>r. r) rows"
| "next_row uc (StDedup c seen) =
     (case next_row uc c of
        Inl e \<Rightarrow> Inl e
      | Inr (None, c') \<Rightarrow> Inr (None, StDone)
      | Inr (Some r, c') \<Rightarrow>
          if row_key r \<notin> seen then Inr (Some r, StDedup c' (insert (row_key r) seen))
          else next_row uc (StDedup c' seen))"
  by pat_completeness auto

lemma pop_weight: "(\<And>rs. weight (K rs) = length rs) \<Longrightarrow> pop K f rows = Inr (Some r, st) \<Longrightarrow> weight st < length rows"
  by (auto simp: pop_def split: list.splits)

lemma next_row_weight_dom:
  "next_row_dom (uc, st) \<Longrightarrow> next_row uc st = Inr (Some r, st') \<Longrightarrow> weight st' < weight st"
proof (induction uc st arbitrary: r st' rule: next_row.pinduct)
  case (2 uc items emitted)
  then show ?case by (auto simp: next_row.psimps split: if_splits sum.splits)
next
  case (5 uc p c)
  then obtain r0 c' b where c: "next_row uc c = Inr (Some r0, c')" "eval_predicate uc p r0 = Inr b"
    by (auto simp: next_row.psimps(5) split: sum.splits option.splits)
  have w: "weight c' < weight c" by (rule 5(2) [OF c(1)])
  show ?case
  proof (cases b)
    case True
    then show ?thesis using 5(1, 4) c w by (auto simp: next_row.psimps(5))
  next
    case False
    then have "weight st' < weight (StFilter p c')"
      using 5(1, 4) 5(3) [OF c(1) refl refl c(2) False] c by (simp add: next_row.psimps(5))
    then show ?thesis using w by simp
  qed
next
  case (6 uc items c)
  then obtain r0 c' where c: "next_row uc c = Inr (Some r0, c')" "st' = StProject items c'"
    by (auto simp: next_row.psimps(6) split: sum.splits option.splits)
  then show ?case using 6(2) [OF c(1)] by simp
next
  case (8 uc on left right li ri)
  then obtain li' ri' where "nested_loop uc on left right li ri = Inr (Some (r, li', ri'))"
    "st' = StNestedLoopJoin on left right li' ri'"
    by (auto simp: next_row.psimps(8) split: sum.splits option.splits)
  then show ?case by (simp add: nested_loop_weight)
next
  case (12 uc n c)
  then obtain r0 c' where c: "n \<noteq> 0" "next_row uc c = Inr (Some r0, c')" "st' = StLimit (n - 1) c'"
    by (auto simp: next_row.psimps(12) split: sum.splits option.splits if_splits)
  then show ?case using 12(2) [OF c(1, 2)] by simp
next
  case (16 uc c seen)
  then obtain r0 c' where c: "next_row uc c = Inr (Some r0, c')"
    by (auto simp: next_row.psimps(16) split: sum.splits option.splits)
  have w: "weight c' < weight c" by (rule 16(2) [OF c(1)])
  show ?case
  proof (cases "row_key r0 \<notin> seen")
    case True
    then show ?thesis using 16(1, 4) c w by (auto simp: next_row.psimps(16))
  next
    case False
    then have "weight st' < weight (StDedup c' seen)"
      using 16(1, 4) 16(3) [OF c(1) refl refl False] c by (simp add: next_row.psimps(16))
    then show ?thesis using w by simp
  qed
qed (simp_all add: next_row.psimps, (erule pop_weight [rotated], simp)+)

lemma next_row_total: "next_row_dom (uc, st)"
proof (induction "weight st" arbitrary: uc st rule: less_induct)
  case less
  have child: "next_row_dom (uc, c)" if "weight c < weight st" for c using less that .
  show ?case
  proof (cases st)
    case (StFilter p c)
    show ?thesis unfolding StFilter
      by (rule next_row.domintros) (auto simp: StFilter intro!: child dest!: next_row_weight_dom [rotated])
  next
    case (StProject items c)
    show ?thesis unfolding StProject by (rule next_row.domintros) (simp add: StProject child)
  next
    case (StLimit n c)
    show ?thesis unfolding StLimit by (rule next_row.domintros) (simp add: StLimit child)
  next
    case (StDedup c seen)
    show ?thesis unfolding StDedup
      by (rule next_row.domintros) (auto simp: StDedup intro!: child dest!: next_row_weight_dom [rotated])
  qed (simp_all add: next_row.domintros)
qed

termination next_row
  using next_row_total by simp

lemma next_row_weight: "next_row uc st = Inr (Some r, st') \<Longrightarrow> weight st' < weight st"
  using next_row_total by (intro next_row_weight_dom) simp

end
