(* ===== verification/Sql_Volcano.thy ===== *)
theory Sql_Volcano
  imports Sql_Exec
begin

text \<open>
  Executing a plan (\<^verbatim>\<open>Executor::new\<close>, \<^verbatim>\<open>collect\<close>, \<^verbatim>\<open>build_state\<close>, \<^verbatim>\<open>execute\<close> of \<^verbatim>\<open>executor.rs\<close>) and its meaning: a
  compositional semantics of plans in which an operator is a function on row streams. A stream is the
  rows up to the first error and that error, since a pull-based executor hides an error behind a limit
  that is reached before it.
\<close>

section \<open>Collecting\<close>

function collect :: "unicode \<Rightarrow> exec_state \<Rightarrow> exec_fault + row list" where
  "collect uc st = (case next_row uc st of
     Inl e \<Rightarrow> Inl e
   | Inr (None, st') \<Rightarrow> Inr []
   | Inr (Some r, st') \<Rightarrow> (case collect uc st' of Inl e \<Rightarrow> Inl e | Inr rs \<Rightarrow> Inr (r # rs)))"
  by auto
termination collect
  by (relation "measure (weight \<circ> snd)") (auto dest: next_row_weight)


declare collect.simps [simp del]

section \<open>Building the operators\<close>

definition index_row_ids :: "read_store \<Rightarrow> str \<Rightarrow> str \<Rightarrow> bytes option \<Rightarrow> bytes list" where
  "index_row_ids st table column point_key = (case point_key of
     Some k \<Rightarrow> index_lookup st table column k
   | None \<Rightarrow> concat (map snd (index_load st table column)))"

definition cte_rows :: "exec_ctx \<Rightarrow> str \<Rightarrow> row list" where
  "cte_rows cx name = (case cx_cte cx of None \<Rightarrow> [] | Some t \<Rightarrow> (case t name of None \<Rightarrow> [] | Some rows \<Rightarrow> rows))"

definition empty_scan :: "physical_plan \<Rightarrow> bool" where
  "empty_scan p = (case p of PSeqScan table _ _ \<Rightarrow> table = [] | _ \<Rightarrow> False)"

text \<open>The loop of \<^verbatim>\<open>OFFSET\<close>: pull that many rows; \<^verbatim>\<open>None\<close> when the input ends first.\<close>

primrec skip_rows :: "unicode \<Rightarrow> nat \<Rightarrow> exec_state \<Rightarrow> exec_fault + exec_state option" where
  "skip_rows uc 0 st = Inr (Some st)"
| "skip_rows uc (Suc n) st = (case next_row uc st of
     Inl e \<Rightarrow> Inl e | Inr (None, st') \<Rightarrow> Inr None | Inr (Some r, st') \<Rightarrow> skip_rows uc n st')"

primrec build_state :: "exec_env \<Rightarrow> exec_ctx \<Rightarrow> physical_plan \<Rightarrow> exec_fault + exec_state" where
  "build_state env cx (PSeqScan table prefix columns) =
     (if table = [] then Inr (StLiteralProject [] False)
      else Inr (StSeqScan (prefix_rows
        (load_table_rows (ee_pool env) (cx_store cx) table (map_option (map bare_name) columns)) prefix)))"
| "build_state env cx (PCteScan name prefix columns) =
     Inr (StSeqScan (prune_cte_rows (prefix_rows (cte_rows cx name) prefix) columns))"
| "build_state env cx (PSubqueryScan input prefix columns) =
     try_bind (try_bind (build_state env cx input) (collect (ee_case env))) (\<lambda>rows.
     Inr (StSeqScan (prefix_rows rows prefix)))"
| "build_state env cx (PPkLookup table row_id columns) =
     Inr (StIndexScan (case load_row_by_id (cx_store cx) table row_id columns of None \<Rightarrow> [] | Some r \<Rightarrow> [r]))"
| "build_state env cx (PIndexScan table column point_key columns) =
     Inr (StIndexScan (List.map_filter (\<lambda>i. load_row_by_id (cx_store cx) table i columns)
       (index_row_ids (cx_index cx) table column point_key)))"
| "build_state env cx (PFilter input predicate) =
     try_bind (build_state env cx input) (\<lambda>c. Inr (StFilter predicate c))"
| "build_state env cx (PProject input items) =
     (if empty_scan input then Inr (StLiteralProject items False)
      else try_bind (build_state env cx input) (\<lambda>c. Inr (StProject items c)))"
| "build_state env cx (PHashJoin left right on left_key right_key left_outer) =
     try_bind (try_bind (build_state env cx left) (collect (ee_case env))) (\<lambda>left_rows.
     try_bind (try_bind (build_state env cx right) (collect (ee_case env))) (\<lambda>right_rows.
     Inr (StHashJoin (hash_join left_key right_key left_outer left_rows right_rows))))"
| "build_state env cx (PNestedLoopJoin left right on) =
     try_bind (try_bind (build_state env cx left) (collect (ee_case env))) (\<lambda>left_rows.
     try_bind (try_bind (build_state env cx right) (collect (ee_case env))) (\<lambda>right_rows.
     Inr (StNestedLoopJoin on left_rows right_rows 0 0)))"
| "build_state env cx (PMergeJoin left right on left_key right_key) =
     try_bind (try_bind (build_state env cx left) (collect (ee_case env))) (\<lambda>left_rows.
     try_bind (try_bind (build_state env cx right) (collect (ee_case env))) (\<lambda>right_rows.
     try_bind (merge_join (ee_case env) on left_key right_key left_rows right_rows) (\<lambda>pairs.
     Inr (StMergeJoin pairs))))"
| "build_state env cx (PAggregate input group_by aggs) =
     (case try_streaming_aggregate env (cx_store cx) input group_by aggs of
        Some result \<Rightarrow> try_bind result (\<lambda>groups. Inr (StAggregate groups))
      | None \<Rightarrow>
          try_bind (try_bind (build_state env cx input) (collect (ee_case env))) (\<lambda>rows.
          Inr (StAggregate (aggregate_rows env group_by aggs rows))))"
| "build_state env cx (PSort input keys top_k) =
     try_bind (try_bind (build_state env cx input) (collect (ee_case env))) (\<lambda>rows.
     Inr (StSort (sort_rows keys (top_k_rows env keys top_k rows))))"
| "build_state env cx (PLimit input limit offset) =
     try_bind (build_state env cx input) (\<lambda>c.
     try_bind (skip_rows (ee_case env) (unat offset) c) (\<lambda>c'.
     Inr (case c' of None \<Rightarrow> StDone | Some c \<Rightarrow> StLimit limit c)))"
| "build_state env cx (PWindow input windows) =
     try_bind (try_bind (build_state env cx input) (collect (ee_case env))) (\<lambda>rows.
     try_bind (apply_windows env rows windows) (\<lambda>rows. Inr (StWindow rows)))"
| "build_state env cx (PSemiJoin left right left_key right_key corr_on negated) =
     try_bind (try_bind (build_state env cx left) (collect (ee_case env))) (\<lambda>left_rows.
     try_bind (try_bind (build_state env cx right) (collect (ee_case env))) (\<lambda>right_rows.
     try_bind (semi_join_rows (ee_case env) left_rows right_rows left_key right_key corr_on negated) (\<lambda>rows.
     Inr (StSemiJoin rows))))"
| "build_state env cx (PSetOp left right op all) =
     try_bind (try_bind (build_state env cx left) (collect (ee_case env))) (\<lambda>left_rows.
     try_bind (try_bind (build_state env cx right) (collect (ee_case env))) (\<lambda>right_rows.
     Inr (StSetOp (combine_set_op left_rows right_rows op all))))"
| "build_state env cx (PDedup input) =
     try_bind (build_state env cx input) (\<lambda>c. Inr (StDedup c {}))"

definition execute :: "exec_env \<Rightarrow> exec_ctx \<Rightarrow> physical_plan \<Rightarrow> exec_fault + row list" where
  "execute env cx plan = try_bind (build_state env cx plan) (collect (ee_case env))"

section \<open>Streams\<close>

type_synonym row_stream = "row list \<times> exec_fault option"

function drain :: "unicode \<Rightarrow> exec_state \<Rightarrow> row_stream" where
  "drain uc st = (case next_row uc st of
     Inl e \<Rightarrow> ([], Some e)
   | Inr (None, st') \<Rightarrow> ([], None)
   | Inr (Some r, st') \<Rightarrow> map_prod (Cons r) id (drain uc st'))"
  by auto
termination drain
  by (relation "measure (weight \<circ> snd)") (auto dest: next_row_weight)

declare drain.simps [simp del]

definition end_stream :: "row_stream \<Rightarrow> exec_fault + row list" where
  "end_stream = (\<lambda>(rs, e). case e of None \<Rightarrow> Inr rs | Some x \<Rightarrow> Inl x)"

fun filter_stream :: "(row \<Rightarrow> exec_fault + bool) \<Rightarrow> row_stream \<Rightarrow> row_stream" where
  "filter_stream P ([], e) = ([], e)"
| "filter_stream P (r # rs, e) = (case P r of Inl x \<Rightarrow> ([], Some x)
     | Inr b \<Rightarrow> map_prod (\<lambda>out. if b then r # out else out) id (filter_stream P (rs, e)))"

fun map_stream :: "(row \<Rightarrow> exec_fault + row) \<Rightarrow> row_stream \<Rightarrow> row_stream" where
  "map_stream f ([], e) = ([], e)"
| "map_stream f (r # rs, e) = (case f r of Inl x \<Rightarrow> ([], Some x)
     | Inr r' \<Rightarrow> map_prod (Cons r') id (map_stream f (rs, e)))"

definition limit_stream :: "nat \<Rightarrow> row_stream \<Rightarrow> row_stream" where
  "limit_stream n = (\<lambda>(rs, e). if n \<le> length rs then (take n rs, None) else (rs, e))"

definition dedup_stream :: "bytes set \<Rightarrow> row_stream \<Rightarrow> row_stream" where
  "dedup_stream seen = (\<lambda>(rs, e). (fresh_rows rs seen, e))"

text \<open>Skipping happens while the operators are built, so an error met there is an error of the build.\<close>

definition skip_stream :: "nat \<Rightarrow> u64 \<Rightarrow> row_stream \<Rightarrow> exec_fault + row_stream" where
  "skip_stream n limit = (\<lambda>(rs, e). if n \<le> length rs then Inr (limit_stream (unat limit) (drop n rs, e))
     else (case e of None \<Rightarrow> Inr ([], None) | Some x \<Rightarrow> Inl x))"

definition product_rows :: "row list \<Rightarrow> row list \<Rightarrow> row list" where
  "product_rows left right = concat (map (\<lambda>l. map (merge_rows l) right) left)"

section \<open>The meaning of a plan\<close>

primrec plan_stream :: "exec_env \<Rightarrow> exec_ctx \<Rightarrow> physical_plan \<Rightarrow> exec_fault + row_stream" where
  "plan_stream env cx (PSeqScan table prefix columns) =
     (if table = [] then Inr ([[]], None)
      else Inr (prefix_rows (load_table_rows (ee_pool env) (cx_store cx) table (map_option (map bare_name) columns)) prefix, None))"
| "plan_stream env cx (PCteScan name prefix columns) =
     Inr (prune_cte_rows (prefix_rows (cte_rows cx name) prefix) columns, None)"
| "plan_stream env cx (PSubqueryScan input prefix columns) =
     try_bind (try_bind (plan_stream env cx input) end_stream) (\<lambda>rows. Inr (prefix_rows rows prefix, None))"
| "plan_stream env cx (PPkLookup table row_id columns) =
     Inr (case load_row_by_id (cx_store cx) table row_id columns of None \<Rightarrow> [] | Some r \<Rightarrow> [r], None)"
| "plan_stream env cx (PIndexScan table column point_key columns) =
     Inr (List.map_filter (\<lambda>i. load_row_by_id (cx_store cx) table i columns)
       (index_row_ids (cx_index cx) table column point_key), None)"
| "plan_stream env cx (PFilter input predicate) =
     try_bind (plan_stream env cx input) (\<lambda>s. Inr (filter_stream (eval_predicate (ee_case env) predicate) s))"
| "plan_stream env cx (PProject input items) =
     try_bind (if empty_scan input then Inr ([[]], None) else plan_stream env cx input)
       (\<lambda>s. Inr (map_stream (project_row (ee_case env) items) s))"
| "plan_stream env cx (PHashJoin left right on left_key right_key left_outer) =
     try_bind (try_bind (plan_stream env cx left) end_stream) (\<lambda>ls.
     try_bind (try_bind (plan_stream env cx right) end_stream) (\<lambda>rs.
     Inr (loop_join left_key right_key left_outer ls rs, None)))"
| "plan_stream env cx (PNestedLoopJoin left right on) =
     try_bind (try_bind (plan_stream env cx left) end_stream) (\<lambda>ls.
     try_bind (try_bind (plan_stream env cx right) end_stream) (\<lambda>rs.
     Inr (filter_stream (eval_predicate (ee_case env) on) (product_rows ls rs, None))))"
| "plan_stream env cx (PMergeJoin left right on left_key right_key) =
     try_bind (try_bind (plan_stream env cx left) end_stream) (\<lambda>ls.
     try_bind (try_bind (plan_stream env cx right) end_stream) (\<lambda>rs.
     try_bind (merge_join (ee_case env) on left_key right_key ls rs) (\<lambda>out. Inr (out, None))))"
| "plan_stream env cx (PAggregate input group_by aggs) =
     (case try_streaming_aggregate env (cx_store cx) input group_by aggs of
        Some result \<Rightarrow> try_bind result (\<lambda>groups. Inr (map snd groups, None))
      | None \<Rightarrow> try_bind (try_bind (plan_stream env cx input) end_stream) (\<lambda>rows.
          Inr (map snd (aggregate_rows env group_by aggs rows), None)))"
| "plan_stream env cx (PSort input keys top_k) =
     try_bind (try_bind (plan_stream env cx input) end_stream) (\<lambda>rows.
     Inr (sort_rows keys (top_k_rows env keys top_k rows), None))"
| "plan_stream env cx (PLimit input limit offset) =
     try_bind (plan_stream env cx input) (skip_stream (unat offset) limit)"
| "plan_stream env cx (PWindow input windows) =
     try_bind (try_bind (plan_stream env cx input) end_stream) (\<lambda>rows.
     try_bind (apply_windows env rows windows) (\<lambda>out. Inr (out, None)))"
| "plan_stream env cx (PSemiJoin left right left_key right_key corr_on negated) =
     try_bind (try_bind (plan_stream env cx left) end_stream) (\<lambda>ls.
     try_bind (try_bind (plan_stream env cx right) end_stream) (\<lambda>rs.
     try_bind (semi_join_rows (ee_case env) ls rs left_key right_key corr_on negated) (\<lambda>out. Inr (out, None))))"
| "plan_stream env cx (PSetOp left right op all) =
     try_bind (try_bind (plan_stream env cx left) end_stream) (\<lambda>ls.
     try_bind (try_bind (plan_stream env cx right) end_stream) (\<lambda>rs.
     Inr (combine_set_op ls rs op all, None)))"
| "plan_stream env cx (PDedup input) =
     try_bind (plan_stream env cx input) (\<lambda>s. Inr (dedup_stream {} s))"

section \<open>Pulling is running the stream\<close>

lemma collect_drain: "collect uc st = end_stream (drain uc st)"
proof (induction uc st rule: collect.induct)
  case (1 uc st)
  show ?case
  proof (cases "next_row uc st")
    case (Inl e)
    then show ?thesis by (simp add: collect.simps [of uc st] drain.simps [of uc st] end_stream_def)
  next
    case (Inr p)
    obtain o' st' where p: "p = (o', st')" by (cases p)
    show ?thesis
    proof (cases o')
      case None
      then show ?thesis using Inr p by (simp add: collect.simps [of uc st] drain.simps [of uc st] end_stream_def)
    next
      case (Some r)
      then have "collect uc st' = end_stream (drain uc st')" using 1 [OF Inr p [symmetric] Some] by simp
      then show ?thesis using Inr p Some
        by (cases "drain uc st'") (simp add: collect.simps [of uc st] drain.simps [of uc st] end_stream_def split: option.split)
    qed
  qed
qed

lemma drain_cong: "next_row uc st = next_row uc st' \<Longrightarrow> drain uc st = drain uc st'"
  by (simp add: drain.simps [of uc st] drain.simps [of uc st'])

lemma drain_pop:
  assumes "\<And>rows. next_row uc (K rows) = pop K f rows"
  shows "drain uc (K rows) = (map f rows, None)"
proof (induction rows)
  case Nil
  then show ?case by (simp add: drain.simps [of uc "K []"] assms pop_def)
next
  case (Cons r rows)
  then show ?case by (simp add: drain.simps [of uc "K (r # rows)"] assms pop_def)
qed

lemma drain_rows [simp]:
  "drain uc (StSeqScan rows) = (rows, None)" "drain uc (StIndexScan rows) = (rows, None)"
  "drain uc (StHashJoin rows) = (rows, None)" "drain uc (StMergeJoin rows) = (rows, None)"
  "drain uc (StAggregate groups) = (map snd groups, None)" "drain uc (StSort rows) = (rows, None)"
  "drain uc (StWindow rows) = (rows, None)" "drain uc (StSemiJoin rows) = (rows, None)"
  "drain uc (StSetOp rows) = (rows, None)"
  using drain_pop [of uc _ "\<lambda>r. r"] drain_pop [of uc StAggregate snd groups] by simp_all

lemma drain_done [simp]: "drain uc StDone = ([], None)"
  by (simp add: drain.simps)

lemma drain_literal [simp]:
  "drain uc (StLiteralProject items False) = map_stream (project_row uc items) ([[]], None)"
proof -
  have "drain uc (StLiteralProject items True) = ([], None)" by (simp add: drain.simps [of uc "StLiteralProject items True"])
  then show ?thesis by (simp add: drain.simps [of uc "StLiteralProject items False"] split: sum.split)
qed

text \<open>Case analysis on what a pull returns.\<close>

lemma pull_cases:
  obtains (Fail) e where "next_row uc c = Inl e" "drain uc c = ([], Some e)"
  | (Stop) c' where "next_row uc c = Inr (None, c')" "drain uc c = ([], None)"
  | (Row) r c' where "next_row uc c = Inr (Some r, c')" "drain uc c = map_prod (Cons r) id (drain uc c')" "weight c' < weight c"
proof (cases "next_row uc c")
  case (Inl e)
  then show ?thesis using Fail by (simp add: drain.simps [of uc c])
next
  case (Inr p)
  obtain o' c' where p: "p = (o', c')" by (cases p)
  show ?thesis
  proof (cases o')
    case None
    then show ?thesis using Inr p Stop by (simp add: drain.simps [of uc c])
  next
    case (Some r)
    then show ?thesis using Inr p Row [of r c'] next_row_weight [of uc c r c'] by (simp add: drain.simps [of uc c])
  qed
qed

lemma drain_filter [simp]: "drain uc (StFilter p c) = filter_stream (eval_predicate uc p) (drain uc c)"
proof (induction c rule: measure_induct_rule [where f = weight])
  case (less c)
  show ?case
  proof (cases rule: pull_cases [of uc c])
    case (Row r c')
    obtain rs e where d: "drain uc c' = (rs, e)" by (cases "drain uc c'")
    have IH: "drain uc (StFilter p c') = filter_stream (eval_predicate uc p) (rs, e)" using less [OF Row(3)] d by simp
    show ?thesis
    proof (cases "eval_predicate uc p r")
      case (Inl x)
      then show ?thesis using Row d by (simp add: drain.simps [of uc "StFilter p c"])
    next
      case (Inr b)
      show ?thesis
      proof (cases b)
        case True
        then show ?thesis using Row d Inr IH by (simp add: drain.simps [of uc "StFilter p c"])
      next
        case False
        then have "next_row uc (StFilter p c) = next_row uc (StFilter p c')" using Row(1) Inr by simp
        from drain_cong [OF this] show ?thesis using Row d Inr IH False by (simp add: map_prod_def)
      qed
    qed
  qed (simp_all add: drain.simps [of uc "StFilter p c"])
qed

lemma drain_project [simp]: "drain uc (StProject items c) = map_stream (project_row uc items) (drain uc c)"
proof (induction c rule: measure_induct_rule [where f = weight])
  case (less c)
  show ?case
  proof (cases rule: pull_cases [of uc c])
    case (Row r c')
    obtain rs e where d: "drain uc c' = (rs, e)" by (cases "drain uc c'")
    then show ?thesis using Row less [OF Row(3)]
      by (simp add: drain.simps [of uc "StProject items c"] split: sum.split)
  qed (simp_all add: drain.simps [of uc "StProject items c"])
qed

lemma drain_dedup [simp]: "drain uc (StDedup c seen) = dedup_stream seen (drain uc c)"
proof (induction c arbitrary: seen rule: measure_induct_rule [where f = weight])
  case (less c)
  show ?case
  proof (cases rule: pull_cases [of uc c])
    case (Row r c')
    obtain rs e where d: "drain uc c' = (rs, e)" by (cases "drain uc c'")
    show ?thesis
    proof (cases "row_key r \<in> seen")
      case True
      then have "next_row uc (StDedup c seen) = next_row uc (StDedup c' seen)" using Row(1) by simp
      from drain_cong [OF this] show ?thesis using Row d True less [OF Row(3), of seen] by (simp add: dedup_stream_def)
    next
      case False
      then show ?thesis using Row d less [OF Row(3)]
        by (simp add: drain.simps [of uc "StDedup c seen"] dedup_stream_def)
    qed
  qed (simp_all add: drain.simps [of uc "StDedup c seen"] dedup_stream_def)
qed

lemma drain_limit [simp]: "drain uc (StLimit n c) = limit_stream (unat n) (drain uc c)"
proof (induction c arbitrary: n rule: measure_induct_rule [where f = weight])
  case (less c)
  show ?case
  proof (cases "n = 0")
    case True
    then show ?thesis by (cases "drain uc c") (simp add: drain.simps [of uc "StLimit 0 c"] limit_stream_def)
  next
    case False
    then have n: "unat n = Suc (unat (n - 1))" by (metis Suc_pred' unat_minus_one unat_gt_0)
    show ?thesis
    proof (cases rule: pull_cases [of uc c])
      case (Row r c')
      obtain rs e where d: "drain uc c' = (rs, e)" by (cases "drain uc c'")
      then show ?thesis using Row less [OF Row(3), of "n - 1"] False n
        by (simp add: drain.simps [of uc "StLimit n c"] limit_stream_def)
    qed (use False n in \<open>simp_all add: drain.simps [of uc "StLimit n c"] limit_stream_def\<close>)
  qed
qed

section \<open>Nested loops and skipping\<close>

text \<open>The pairs still to be tried from a position of the two loops.\<close>

definition pairs_from :: "row list \<Rightarrow> row list \<Rightarrow> nat \<Rightarrow> nat \<Rightarrow> row list" where
  "pairs_from left right li ri = (if li < length left
     then map (merge_rows (left ! li)) (drop ri right) @ product_rows (drop (Suc li) left) right else [])"

lemma pairs_from_step:
  "li < length left \<Longrightarrow> ri < length right \<Longrightarrow>
     pairs_from left right li ri = merge_rows (left ! li) (right ! ri) # pairs_from left right li (ri + 1)"
  "li < length left \<Longrightarrow> \<not> ri < length right \<Longrightarrow> pairs_from left right li ri = pairs_from left right (li + 1) 0"
  by (auto simp: pairs_from_def product_rows_def Cons_nth_drop_Suc [symmetric])

lemma pairs_from_start: "pairs_from left right 0 0 = product_rows left right"
  by (cases left) (simp_all add: pairs_from_def product_rows_def)

lemma drain_nested [simp]:
  "drain uc (StNestedLoopJoin on left right li ri) =
     filter_stream (eval_predicate uc on) (pairs_from left right li ri, None)"
proof (induction "pairs_left left right li ri" arbitrary: li ri rule: less_induct)
  case less
  let ?st = "StNestedLoopJoin on left right"
  note loop = nested_loop.simps [of uc on left right li ri] and drain = drain.simps [of uc "?st li ri"]
  consider "\<not> li < length left" | "li < length left" "\<not> ri < length right" | "li < length left" "ri < length right" by blast
  then show ?case
  proof cases
    case 1
    then show ?thesis by (simp add: drain loop pairs_from_def)
  next
    case 2
    have "length left - li = Suc (length left - (li + 1))" using 2 by simp
    then have "pairs_left left right (li + 1) 0 < pairs_left left right li ri" by (simp only: pairs_left_def mult_Suc)
    moreover have "drain uc (?st li ri) = drain uc (?st (li + 1) 0)" by (rule drain_cong) (simp add: loop 2)
    ultimately show ?thesis using less pairs_from_step(2) [OF 2] by simp
  next
    case 3
    let ?r = "merge_rows (left ! li) (right ! ri)"
    have "pairs_left left right li (ri + 1) < pairs_left left right li ri" using 3 by (simp add: pairs_left_def)
    note IH = less [OF this]
    show ?thesis
    proof (cases "eval_predicate uc on ?r")
      case (Inl e)
      then show ?thesis using 3 by (simp add: drain loop pairs_from_step(1) Let_def)
    next
      case (Inr b)
      show ?thesis
      proof (cases b)
        case True
        then show ?thesis using 3 Inr IH by (simp add: drain loop pairs_from_step(1) Let_def)
      next
        case False
        have "drain uc (?st li ri) = drain uc (?st li (ri + 1))"
          by (rule drain_cong) (use 3 Inr False in \<open>simp add: loop Let_def\<close>)
        then show ?thesis using 3 Inr IH False by (simp add: pairs_from_step(1) map_prod_def)
      qed
    qed
  qed
qed

lemma skip_drain:
  "if n \<le> length (fst (drain uc st))
   then \<exists>st'. skip_rows uc n st = Inr (Some st') \<and> drain uc st' = (drop n (fst (drain uc st)), snd (drain uc st))
   else skip_rows uc n st = (case snd (drain uc st) of None \<Rightarrow> Inr None | Some x \<Rightarrow> Inl x)"
proof (induction n arbitrary: st)
  case (Suc n)
  show ?case
  proof (cases rule: pull_cases [of uc st])
    case (Row r c')
    then show ?thesis using Suc [of c'] by simp
  qed simp_all
qed simp

lemma limit_state:
  "try_bind (skip_rows uc n st) (\<lambda>c. Inr (drain uc (case c of None \<Rightarrow> StDone | Some c \<Rightarrow> StLimit limit c))) =
     skip_stream n limit (drain uc st)"
  using skip_drain [of n uc st]
  by (auto simp: skip_stream_def case_prod_beta split: if_splits option.split)

section \<open>The executor runs the plan\<close>

lemma run_stream:
  assumes "try_bind b (\<lambda>st. Inr (drain uc st)) = s"
  shows "try_bind b (collect uc) = try_bind s end_stream"
  using assms by (cases b) (auto simp: collect_drain)

lemma map_bind:
  "try_bind (try_bind r f) g = try_bind r (\<lambda>x. try_bind (f x) g)"
  by (cases r) simp_all

lemma build_drain:
  "try_bind (build_state env cx plan) (\<lambda>st. Inr (drain (ee_case env) st)) = plan_stream env cx plan"
proof (induction plan)
  case (PSeqScan table prefix columns)
  then show ?case by (simp add: project_row_def record_from_cells_def)
next
  case (PFilter input p)
  show ?case unfolding plan_stream.simps PFilter [symmetric] by (simp add: map_bind)
next
  case (PProject input items)
  show ?case unfolding plan_stream.simps PProject [symmetric] by (simp add: map_bind)
next
  case (PLimit input limit offset)
  show ?case unfolding plan_stream.simps PLimit [symmetric] by (simp add: map_bind limit_state)
next
  case (PDedup input)
  show ?case unfolding plan_stream.simps PDedup [symmetric] by (simp add: map_bind)
next
  case (PAggregate input g aggs)
  then show ?case
    by (cases "try_streaming_aggregate env (cx_store cx) input g aggs") (simp_all add: map_bind run_stream)
qed (simp_all add: map_bind run_stream hash_join_loop pairs_from_start)

text \<open>
  C4. The executor computes the plan: building the operators of any physical plan and pulling rows until
  the end gives exactly the rows, or the error, of the compositional semantics of the plan. In it a
  filter filters the stream of its input, hash and nested-loop joins range over all pairs of rows, a limit
  cuts the stream before an error it does not reach, and every query ends.
\<close>

theorem execute_plan:
  "execute env cx plan = try_bind (plan_stream env cx plan) end_stream"
  unfolding execute_def by (rule run_stream [OF build_drain])

end
