(* ===== verification/Spec2Isabelle.thy ===== *)
theory Spec2Isabelle
  imports Durable Sst_Scrub Lsm_Delete Snapshot_Store Txn_Isolation Raft_Wire Raft_Compact Raft_Sim
    Sql_Like Sql_Typing Sql_Catalog Sql_Volcano
begin

text \<open>
  NoeDB is a database server in Rust: an LSM storage engine, transactions over multi-version data,
  Raft replication and a SQL layer. This library models its crates function by function and proves what
  makes them correct. Theories follow the crates under \<^verbatim>\<open>src/crates\<close>, bottom up.

  \<^bold>\<open>Conventions.\<close> A byte is an 8-bit word, \<^verbatim>\<open>u64\<close> and \<^verbatim>\<open>i64\<close> are 64-bit words (\<^verbatim>\<open>i64\<close> read by \<open>sint\<close>) that wrap
  as the release build does, lengths are natural numbers, a \<^verbatim>\<open>BTreeMap\<close> is a sorted association list
  (\<open>Btree\<close>). A fallible function returns \<open>error + value\<close>, \<^verbatim>\<open>?\<close> is \<open>try_bind\<close>, a panic is a value of its own.
  A file is its bytes, a directory a map from names to bytes, and a crash keeps what has been written.
  A string is its UTF-8 bytes and \<^verbatim>\<open>f64\<close> its bit pattern with exact rounding (\<open>Rust_Text\<close>, \<open>F64\<close>).
  Code outside the repository is a parameter: the serialiser, random timeouts, the
  concurrent session map, Unicode case tables, the thread pool's cuts, the iteration order of hash
  maps and \<^verbatim>\<open>select_nth_unstable_by\<close>. What is assumed of a parameter is a hypothesis of the theorem
  that needs it, and a concrete instance satisfies it.

  \<^bold>\<open>Storage\<close> (\<^verbatim>\<open>noedb-storage\<close>).
  \<^item> \<open>Checksum\<close>, \<open>Engine\<close>, \<open>Memtable\<close>: the record checksum, the \<^verbatim>\<open>StorageEngine\<close> contract with prefix
    scans, the memtable as a map with size accounting.
  \<^item> \<open>Wal\<close>, \<open>Wal_Segments\<close>, \<open>Durable\<close>: the write-ahead log, its segments and recovery. A record is
    protected against every change of one byte, a cut log is refused, and a store reopens to what was
    put.
  \<^item> \<open>Bloom\<close>, \<open>Sst_Writer\<close>, \<open>Sst_Reader\<close>, \<open>Sst_Table\<close>, \<open>Sst_Scrub\<close>: table files. What is written is
    read, the filter has no false negatives, scrubbing finds a flipped bit.
  \<^item> \<open>Manifest\<close>, \<open>Compaction\<close>: the table list and the merge.
  \<^item> \<open>Mvcc_Key\<close>, \<open>Mvcc_Memtable\<close>, \<open>Snapshot_Store\<close>: versioned keys, reads at a timestamp, snapshots.
  \<^item> \<open>Lsm\<close>, \<open>Lsm_Read\<close>, \<open>Lsm_Write\<close>, \<open>Lsm_Scan\<close>, \<open>Lsm_Delete\<close>, \<open>Lsm_Recovery\<close>: the engine itself.
    Put and delete are read back, scans agree with gets, and reopening after a crash recovers the
    acknowledged writes.
  \<^item> \<open>Rowpack\<close>: packed row records.

  \<^bold>\<open>Transactions\<close> (\<^verbatim>\<open>noedb-txn\<close>): \<open>Txn_Parts\<close>, \<open>Txn_Manager\<close>, \<open>Txn_Isolation\<close>. Reads see the snapshot of
  \<^verbatim>\<open>begin\<close> and the transaction's own writes; the wait-for graph finds a cycle exactly when there is one; a
  lost update is possible, since the write set is purged when it is registered.

  \<^bold>\<open>Raft\<close> (\<^verbatim>\<open>noedb-raft\<close>): \<open>Raft_Types\<close> (log, messages, membership), \<open>Raft_Core\<close> (the state machine),
  \<open>Raft_Persist\<close>, \<open>Raft_Node\<close>, \<open>Raft_File\<close> (the runtime over a storage backend), \<open>Raft_Frame\<close>, \<open>Raft_Wire\<close>
  (authenticated frames), \<open>Raft_Election\<close>, \<open>Raft_Network\<close> (a network that loses, delays, duplicates and
  reorders, with crashes), \<open>Raft_Overcount\<close>, \<open>Raft_Compact\<close>, \<open>Raft_Sim\<close>. A term has at most one leader
  and files reopen to the node's state. \<open>Raft_Overcount\<close> and \<open>Raft_Compact\<close> give runs in which committed
  state diverges or unapplied entries are lost.

  \<^bold>\<open>SQL\<close> (\<^verbatim>\<open>noedb-ast\<close>, \<^verbatim>\<open>noedb-planner\<close>).
  \<^item> \<open>Sql_Ast\<close>, \<open>Sql_Value\<close>, \<open>Sql_Eval\<close>: expressions, values, casts and the calendar, evaluation.
    \<open>Sql_Like\<close> shows the \<^verbatim>\<open>LIKE\<close> table against its specification, \<open>Sql_Typing\<close> that well-typed
    expressions do not fail.
  \<^item> \<open>Sql_Store\<close>, \<open>Sql_Catalog\<close>: rows in key-value pairs, serial and parallel loading, indexes, dropping
    a table. \<open>table_store\<close> is the contract with the store, interpreted on the memtable.
  \<^item> \<open>Sql_Plan\<close>, \<open>Sql_Rows\<close>, \<open>Sql_Joins\<close>, \<open>Sql_Aggregate\<close>, \<open>Sql_Window\<close>, \<open>Sql_Setops\<close>, \<open>Sql_Exec\<close>,
    \<open>Sql_Volcano\<close>: plans and the executor. Joins are related to nested loops, set operations to the bag
    algebra, window functions to ranks, the one-pass count to the loaded rows. \<open>Sql_Volcano\<close> gives plans a
    compositional meaning on row streams and shows that pulling rows from the built operators computes it.

  \<^bold>\<open>Termination.\<close> Every function is total. Loops with a bound have a measure; the executor's \<^verbatim>\<open>next_row\<close>
  recurses on the state a pull leaves behind, bounded by the rows it can still produce. The simulator's
  delivery loop, which may run forever, is a partial function with value \<open>None\<close> there.

  \<^bold>\<open>Not modelled.\<close> Asynchronous sockets, TLS, gRPC, the connection pool, the command line and metrics are
  input and output or third-party code. File system errors, the exact moment a write reaches the disk
  and data races are outside the model: operations are atomic steps. Of the SQL layer, the lexer, the
  parser, the printer, the optimizer, subqueries and the session engine are not modelled, nor are the
  HNSW index and the framing of client connections. The xor filter and the SIMD predicates are
  exported by their crates but no modelled operation calls them.
\<close>

end
